(* ===== verification/Prelude.thy ===== *)
theory Prelude
  imports "HOL-Library.Word"
begin

text \<open>
  Shared vocabulary of the development.

  \<^item> Results of kernel code: \<open>'a res\<close> is \<open>stop + 'a\<close>; a \<open>stop\<close> says why control never
    reaches the statement after a call: \<open>panic(msg)\<close>, an access C leaves undefined (null
    dereference, index outside an array, buffer overrun), the process going to sleep, or a
    loop that never ends.
  \<^item> C arrays: lists read and written with a signed index, out of range being a fault.
  \<^item> Linear searches (the \<open>for\<close> loops over a table that stop at the first hit).
  \<^item> Singly linked lists threaded through a table: the relation \<open>chain\<close> between a head
    pointer, a \<open>next\<close> function and the list of nodes.
  \<^item> Page arithmetic on 32-bit addresses.
\<close>

unbundle bit_operations_syntax

named_theorems res_simps \<open>computation rules for sequencing of results\<close>
named_theorems chain_simps \<open>pointer-linked lists\<close>

subsection \<open>Results\<close>

datatype stop = Panic string | Fault string | Asleep | Diverge

type_synonym 'a res = "stop + 'a"

type_synonym u32 = "32 word"
type_synonym u16 = "16 word"
type_synonym byte = "8 word"

abbreviation Ok :: "'a \<Rightarrow> 'a res" where
  "Ok \<equiv> Inr"

abbreviation panic :: "string \<Rightarrow> 'a res" where
  "panic msg \<equiv> Inl (Panic msg)"

abbreviation fault :: "string \<Rightarrow> 'a res" where
  "fault msg \<equiv> Inl (Fault msg)"

text \<open>Sequencing: \<open>bnd m f\<close> runs \<open>f\<close> on the value of \<open>m\<close>, and stops where \<open>m\<close> stops.\<close>

definition bnd :: "'a res \<Rightarrow> ('a \<Rightarrow> 'b res) \<Rightarrow> 'b res" where
  "bnd m f = (case m of Inl e \<Rightarrow> Inl e | Inr x \<Rightarrow> f x)"

lemma bnd_Inr [simp, res_simps]: "bnd (Inr x) f = f x"
  by (simp add: bnd_def)

lemma bnd_Inl [simp, res_simps]: "bnd (Inl e) f = Inl e"
  by (simp add: bnd_def)

lemma bnd_eq_Inr: "bnd m f = Inr y \<longleftrightarrow> (\<exists>x. m = Inr x \<and> f x = Inr y)"
  by (cases m) auto

lemma bnd_eq_Inl: "bnd m f = Inl e \<longleftrightarrow> m = Inl e \<or> (\<exists>x. m = Inr x \<and> f x = Inl e)"
  by (cases m) auto

lemma bnd_assoc: "bnd (bnd m f) g = bnd m (\<lambda>x. bnd (f x) g)"
  by (cases m) auto

lemma bnd_cong [fundef_cong]:
  "m = m' \<Longrightarrow> (\<And>x. m' = Inr x \<Longrightarrow> f x = g x) \<Longrightarrow> bnd m f = bnd m' g"
  by (cases m') auto

lemma bndE:
  assumes "bnd m f = Inr y"
  obtains x where "m = Inr x" "f x = Inr y"
  using assms by (auto simp: bnd_eq_Inr)

text \<open>
  Statements about results: \<open>spec m Q\<close> says that \<open>Q\<close> holds of the value if there is one,
  \<open>runs m Q\<close> that there is a value and \<open>Q\<close> holds of it. Both distribute over sequencing, so that a
  statement about a whole function reduces to one about its last state.
\<close>

named_theorems vc \<open>verification conditions of results\<close>

definition spec :: "'a res \<Rightarrow> ('a \<Rightarrow> bool) \<Rightarrow> bool" where
  "spec m Q \<longleftrightarrow> (\<forall>x. m = Inr x \<longrightarrow> Q x)"

definition runs :: "'a res \<Rightarrow> ('a \<Rightarrow> bool) \<Rightarrow> bool" where
  "runs m Q \<longleftrightarrow> (\<exists>x. m = Inr x \<and> Q x)"

lemma spec_simps [vc]:
  "spec (Inr x) Q \<longleftrightarrow> Q x" "spec (Inl e) Q" "spec (bnd u f) R \<longleftrightarrow> spec u (\<lambda>x. spec (f x) R)"
  "spec (if b then m else n) Q \<longleftrightarrow> (if b then spec m Q else spec n Q)"
  "spec (case z of None \<Rightarrow> m | Some v \<Rightarrow> h v) Q \<longleftrightarrow> (case z of None \<Rightarrow> spec m Q | Some v \<Rightarrow> spec (h v) Q)"
  by (cases u; cases z; auto simp: spec_def)+

lemma runs_simps [vc]:
  "runs (Inr x) Q \<longleftrightarrow> Q x" "\<not> runs (Inl e) Q" "runs (bnd u f) R \<longleftrightarrow> runs u (\<lambda>x. runs (f x) R)"
  "runs (if b then m else n) Q \<longleftrightarrow> (if b then runs m Q else runs n Q)"
  "runs (case z of None \<Rightarrow> m | Some v \<Rightarrow> h v) Q \<longleftrightarrow> (case z of None \<Rightarrow> runs m Q | Some v \<Rightarrow> runs (h v) Q)"
  by (cases u; cases z; auto simp: runs_def)+

lemma specI: "(\<And>x. m = Inr x \<Longrightarrow> Q x) \<Longrightarrow> spec m Q"
  by (simp add: spec_def)

lemma specD: "spec m Q \<Longrightarrow> m = Inr x \<Longrightarrow> Q x"
  by (simp add: spec_def)

lemma spec_mono: "spec m Q \<Longrightarrow> (\<And>x. Q x \<Longrightarrow> R x) \<Longrightarrow> spec m R"
  by (auto simp: spec_def)

lemma runs_mono: "runs m Q \<Longrightarrow> (\<And>x. Q x \<Longrightarrow> R x) \<Longrightarrow> runs m R"
  by (auto simp: runs_def)

lemma runs_spec: "runs m Q \<Longrightarrow> spec m R \<Longrightarrow> runs m (\<lambda>x. Q x \<and> R x)"
  by (auto simp: runs_def spec_def)

fun foldM :: "('x \<Rightarrow> 's \<Rightarrow> 's res) \<Rightarrow> 'x list \<Rightarrow> 's \<Rightarrow> 's res" where
  "foldM f [] s = Ok s"
| "foldM f (x # xs) s = bnd (f x s) (foldM f xs)"

lemma foldM_append: "foldM f (xs @ ys) s = bnd (foldM f xs s) (foldM f ys)"
  by (induction xs arbitrary: s) (auto simp: bnd_assoc intro: bnd_cong)

lemma foldM_inv:
  assumes "foldM f xs s = Inr t" "P s" "\<And>x s s'. x \<in> set xs \<Longrightarrow> P s \<Longrightarrow> f x s = Inr s' \<Longrightarrow> P s'"
  shows "P t"
  using assms by (induction xs arbitrary: s) (auto simp: bnd_eq_Inr)

subsection \<open>C arrays\<close>

definition aget :: "'a list \<Rightarrow> int \<Rightarrow> 'a res" where
  "aget xs i = (if 0 \<le> i \<and> i < int (length xs) then Ok (xs ! nat i) else fault ''index'')"

definition aset :: "'a list \<Rightarrow> int \<Rightarrow> 'a \<Rightarrow> 'a list res" where
  "aset xs i v = (if 0 \<le> i \<and> i < int (length xs) then Ok (xs[nat i := v]) else fault ''index'')"

lemma aget_in [simp]: "0 \<le> i \<Longrightarrow> i < int (length xs) \<Longrightarrow> aget xs i = Ok (xs ! nat i)"
  by (simp add: aget_def)

lemma aset_in [simp]: "0 \<le> i \<Longrightarrow> i < int (length xs) \<Longrightarrow> aset xs i v = Ok (xs[nat i := v])"
  by (simp add: aset_def)

lemma aget_out [simp]: "i < 0 \<or> int (length xs) \<le> i \<Longrightarrow> aget xs i = fault ''index''"
  by (auto simp: aget_def)

lemma aset_out [simp]: "i < 0 \<or> int (length xs) \<le> i \<Longrightarrow> aset xs i v = fault ''index''"
  by (auto simp: aset_def)

lemma aget_Inr: "aget xs i = Inr v \<longleftrightarrow> 0 \<le> i \<and> i < int (length xs) \<and> v = xs ! nat i"
  by (auto simp: aget_def)

lemma aset_Inr: "aset xs i v = Inr ys \<longleftrightarrow> 0 \<le> i \<and> i < int (length xs) \<and> ys = xs[nat i := v]"
  by (auto simp: aset_def)

lemma array_vc [vc]:
  "spec (aget xs i) Q \<longleftrightarrow> (0 \<le> i \<and> i < int (length xs) \<longrightarrow> Q (xs ! nat i))"
  "spec (aset xs i v) R \<longleftrightarrow> (0 \<le> i \<and> i < int (length xs) \<longrightarrow> R (xs[nat i := v]))"
  "runs (aget xs i) Q \<longleftrightarrow> (0 \<le> i \<and> i < int (length xs) \<and> Q (xs ! nat i))"
  "runs (aset xs i v) R \<longleftrightarrow> (0 \<le> i \<and> i < int (length xs) \<and> R (xs[nat i := v]))"
  by (auto simp: spec_def runs_def aget_Inr aset_Inr)

lemma nth_upd_keep: "f v = f (xs ! i) \<Longrightarrow> f (xs[i := v] ! j) = f (xs ! j)"
  by (cases "i < length xs") (auto simp: nth_list_update list_update_beyond)

subsection \<open>Linear search\<close>

fun first_idx :: "('a \<Rightarrow> bool) \<Rightarrow> 'a list \<Rightarrow> nat option" where
  "first_idx P [] = None"
| "first_idx P (x # xs) = (if P x then Some 0 else map_option Suc (first_idx P xs))"

lemma first_idx_None: "first_idx P xs = None \<longleftrightarrow> (\<forall>x \<in> set xs. \<not> P x)"
  by (induction xs) auto

lemma first_idx_Some:
  "first_idx P xs = Some i \<longleftrightarrow> i < length xs \<and> P (xs ! i) \<and> (\<forall>j < i. \<not> P (xs ! j))"
proof (induction xs arbitrary: i)
  case Nil
  then show ?case by simp
next
  case (Cons x xs)
  show ?case
  proof (cases i)
    case 0
    then show ?thesis by auto
  next
    case (Suc k)
    show ?thesis
    proof (cases "P x")
      case True
      then show ?thesis using Suc by auto
    next
      case False
      then have "first_idx P (x # xs) = Some i \<longleftrightarrow> first_idx P xs = Some k"
        using Suc by auto
      also have "\<dots> \<longleftrightarrow> k < length xs \<and> P (xs ! k) \<and> (\<forall>j < k. \<not> P (xs ! j))"
        by (rule Cons.IH)
      also have "\<dots> \<longleftrightarrow> i < length (x # xs) \<and> P ((x # xs) ! i) \<and> (\<forall>j < i. \<not> P ((x # xs) ! j))"
        using Suc False by (auto simp: less_Suc_eq_0_disj)
      finally show ?thesis .
    qed
  qed
qed

lemma first_idx_len: "first_idx P xs = Some i \<Longrightarrow> i < length xs"
  by (simp add: first_idx_Some)

lemma first_idx_sat: "first_idx P xs = Some i \<Longrightarrow> P (xs ! i)"
  by (simp add: first_idx_Some)

lemma first_idx_ex: "x \<in> set xs \<Longrightarrow> P x \<Longrightarrow> \<exists>i. first_idx P xs = Some i"
  by (cases "first_idx P xs") (auto simp: first_idx_None)

subsection \<open>Pointer-linked lists\<close>

text \<open>
  \<open>chain nx p xs\<close>: following \<open>nx\<close> from the pointer \<open>p\<close> visits the nodes \<open>xs\<close> in order and
  then reaches the null pointer \<open>None\<close>.
\<close>

primrec chain :: "('a \<Rightarrow> 'a option) \<Rightarrow> 'a option \<Rightarrow> 'a list \<Rightarrow> bool" where
  "chain nx p [] \<longleftrightarrow> p = None"
| "chain nx p (x # xs) \<longleftrightarrow> p = Some x \<and> chain nx (nx x) xs"

text \<open>\<open>seg nx p xs q\<close>: the same, ending at the pointer \<open>q\<close>.\<close>

primrec seg :: "('a \<Rightarrow> 'a option) \<Rightarrow> 'a option \<Rightarrow> 'a list \<Rightarrow> 'a option \<Rightarrow> bool" where
  "seg nx p [] q \<longleftrightarrow> p = q"
| "seg nx p (x # xs) q \<longleftrightarrow> p = Some x \<and> seg nx (nx x) xs q"

lemma chain_null [simp]: "chain nx None xs \<longleftrightarrow> xs = []"
  by (cases xs) auto

lemma chain_node: "chain nx (Some a) xs \<longleftrightarrow> (\<exists>ys. xs = a # ys \<and> chain nx (nx a) ys)"
  by (cases xs) auto

lemma chain_append: "chain nx p (xs @ ys) \<longleftrightarrow> (\<exists>q. seg nx p xs q \<and> chain nx q ys)"
  by (induction xs arbitrary: p) auto

lemma seg_append: "seg nx p (xs @ ys) r \<longleftrightarrow> (\<exists>q. seg nx p xs q \<and> seg nx q ys r)"
  by (induction xs arbitrary: p) auto

lemma chain_unique: "chain nx p xs \<Longrightarrow> chain nx p ys \<Longrightarrow> xs = ys"
  by (induction xs arbitrary: p ys) (auto simp: chain_node)

lemma chain_tail_notin: "chain nx (nx a) xs \<Longrightarrow> a \<notin> set xs"
proof
  assume c: "chain nx (nx a) xs" and "a \<in> set xs"
  then obtain us vs where xs: "xs = us @ a # vs" by (meson split_list)
  with c have "chain nx (nx a) vs" by (auto simp: chain_append)
  with c have "xs = vs" by (rule chain_unique)
  with xs show False by simp
qed

lemma chain_distinct: "chain nx p xs \<Longrightarrow> distinct xs"
  by (induction xs arbitrary: p) (auto dest: chain_tail_notin)

lemma chain_upd [simp]: "a \<notin> set xs \<Longrightarrow> chain (nx(a := q)) p xs = chain nx p xs"
  by (induction xs arbitrary: p) auto

lemma seg_upd [simp]: "a \<notin> set xs \<Longrightarrow> seg (nx(a := q)) p xs r = seg nx p xs r"
  by (induction xs arbitrary: p) auto

lemma chain_cong: "(\<And>x. x \<in> set xs \<Longrightarrow> nx x = nx' x) \<Longrightarrow> chain nx p xs = chain nx' p xs"
  by (induction xs arbitrary: p) auto

lemma seg_cong: "(\<And>x. x \<in> set xs \<Longrightarrow> nx x = nx' x) \<Longrightarrow> seg nx p xs r = seg nx' p xs r"
  by (induction xs arbitrary: p) auto

lemma chain_push: "a \<notin> set xs \<Longrightarrow> chain nx p xs \<Longrightarrow> chain (nx(a := p)) (Some a) (a # xs)"
  by simp

lemma chain_seg: "chain nx p xs \<longleftrightarrow> seg nx p xs None"
  by (induction xs arbitrary: p) auto

subsection \<open>Page arithmetic\<close>

definition PGSIZE :: u32 where
  "PGSIZE = 4096"

definition PGROUNDUP :: "u32 \<Rightarrow> u32" where
  "PGROUNDUP sz = (sz + PGSIZE - 1) AND NOT (PGSIZE - 1)"

definition PGROUNDDOWN :: "u32 \<Rightarrow> u32" where
  "PGROUNDDOWN a = a AND NOT (PGSIZE - 1)"

end
