(* ===== verification/Bytes.thy ===== *)
theory Bytes
  imports Prelude
begin

text \<open>
  Byte-addressed memory: little-endian 32-bit loads and stores, \<open>memset\<close> and \<open>memmove\<close> on a flat
  32-bit address space, and the pages of that space. Allocator, page tables and user memory all
  live in one such memory.
\<close>

type_synonym mem = "u32 \<Rightarrow> byte"

definition ld32 :: "mem \<Rightarrow> u32 \<Rightarrow> u32" where
  "ld32 m a = ucast (m a) OR push_bit 8 (ucast (m (a + 1))) OR push_bit 16 (ucast (m (a + 2)))
     OR push_bit 24 (ucast (m (a + 3)))"

definition st32 :: "mem \<Rightarrow> u32 \<Rightarrow> u32 \<Rightarrow> mem" where
  "st32 m a v = m(a := ucast v, a + 1 := ucast (drop_bit 8 v), a + 2 := ucast (drop_bit 16 v),
     a + 3 := ucast (drop_bit 24 v))"

definition fill :: "mem \<Rightarrow> u32 \<Rightarrow> byte \<Rightarrow> nat \<Rightarrow> mem" where
  "fill m p b n = (\<lambda>a. if unat (a - p) < n then b else m a)"

definition copy :: "mem \<Rightarrow> u32 \<Rightarrow> u32 \<Rightarrow> nat \<Rightarrow> mem" where
  "copy m dst src n = (\<lambda>a. if unat (a - dst) < n then m (src + (a - dst)) else m a)"

definition blit :: "mem \<Rightarrow> u32 \<Rightarrow> byte list \<Rightarrow> mem" where
  "blit m p bs = (\<lambda>a. if unat (a - p) < length bs then bs ! unat (a - p) else m a)"

definition in_page :: "u32 \<Rightarrow> u32 \<Rightarrow> bool" where
  "in_page p a \<longleftrightarrow> a - p < 4096"

definition aligned :: "u32 \<Rightarrow> bool" where
  "aligned p \<longleftrightarrow> p AND 4095 = 0"

lemma ld32_st32 [simp]: "ld32 (st32 m a v) a = v"
proof -
  have "a + 1 \<noteq> a" "a + 2 \<noteq> a" "a + 3 \<noteq> a" "a + 2 \<noteq> a + 1" "a + 3 \<noteq> a + 1" "a + 3 \<noteq> a + 2"
    by simp_all
  then have "ld32 (st32 m a v) a = ucast (ucast v :: byte) OR push_bit 8 (ucast (ucast (drop_bit 8 v) :: byte))
      OR push_bit 16 (ucast (ucast (drop_bit 16 v) :: byte)) OR push_bit 24 (ucast (ucast (drop_bit 24 v) :: byte))"
    by (simp add: ld32_def st32_def)
  also have "\<dots> = v"
  proof (rule bit_word_eqI)
    fix n assume "n < LENGTH(32)"
    then consider "n < 8" | "8 \<le> n" "n < 16" | "16 \<le> n" "n < 24" | "24 \<le> n" "n < 32" by fastforce
    then show "bit (ucast (ucast v :: byte) OR push_bit 8 (ucast (ucast (drop_bit 8 v) :: byte))
      OR push_bit 16 (ucast (ucast (drop_bit 16 v) :: byte))
      OR push_bit 24 (ucast (ucast (drop_bit 24 v) :: byte)) :: u32) n = bit v n"
      by cases (auto simp: bit_simps)
  qed
  finally show ?thesis .
qed

lemma ld32_cong: "m a = m' a \<Longrightarrow> m (a + 1) = m' (a + 1) \<Longrightarrow> m (a + 2) = m' (a + 2) \<Longrightarrow> m (a + 3) = m' (a + 3) \<Longrightarrow>
    ld32 m a = ld32 m' a"
  by (simp add: ld32_def)

lemma aligned_mod: "aligned p \<longleftrightarrow> unat p mod 4096 = 0"
proof -
  have "p AND 4095 = take_bit 12 p"
    by (simp add: take_bit_eq_mask mask_eq_exp_minus_1)
  then have "unat (p AND 4095) = unat p mod 4096"
    by (simp only: unsigned_take_bit_eq) (simp add: take_bit_eq_mod)
  then show ?thesis
    unfolding aligned_def by (metis unat_eq_zero)
qed

lemma unat_diff_mod: "unat (a - p) = (if p \<le> a then unat a - unat p else 2 ^ 32 + unat a - unat p)" for a p :: u32
  using unat_sub_if' [of a p] by (auto simp: word_le_nat_alt not_le)

lemma in_page_unat:
  assumes "aligned p"
  shows "in_page p a \<longleftrightarrow> unat a div 4096 = unat p div 4096"
proof -
  have lt: "unat p < 2 ^ 32" "unat a < 2 ^ 32" using unsigned_less [of p, where ?'a = nat] unsigned_less [of a, where ?'a = nat] by simp_all
  obtain k where k: "unat p = 4096 * k" using assms by (auto simp: aligned_mod)
  have "in_page p a \<longleftrightarrow> unat (a - p) < 4096"
    by (simp add: in_page_def word_less_nat_alt)
  also have "\<dots> \<longleftrightarrow> 4096 * k \<le> unat a \<and> unat a < 4096 * k + 4096"
    using lt k by (auto simp: unat_diff_mod word_le_nat_alt)
  also have "\<dots> \<longleftrightarrow> unat a div 4096 = k" by (auto simp: div_nat_eqI)
  finally show ?thesis by (simp add: k)
qed

lemma in_page_self [simp]: "in_page p p" "in_page p (p + 1)" "in_page p (p + 2)" "in_page p (p + 3)"
  by (simp_all add: in_page_def)

lemma in_page_off: "unat k < 4096 \<Longrightarrow> in_page p (p + k)"
  by (simp add: in_page_def word_less_nat_alt)

lemma in_page_unique:
  assumes "aligned p" "aligned q" "in_page p a" "in_page q a"
  shows "p = q"
proof -
  have "unat p div 4096 = unat q div 4096" using assms by (simp add: in_page_unat)
  then have "unat p = unat q"
    using assms(1,2) by (metis aligned_mod div_mult_mod_eq)
  then show ?thesis by (rule word_unat_eq_iff [THEN iffD2])
qed

lemma fill_out [simp]: "\<not> unat (a - p) < n \<Longrightarrow> fill m p b n a = m a"
  by (simp add: fill_def)

lemma st32_other: "a \<noteq> p \<Longrightarrow> a \<noteq> p + 1 \<Longrightarrow> a \<noteq> p + 2 \<Longrightarrow> a \<noteq> p + 3 \<Longrightarrow> st32 m p v a = m a"
  by (simp add: st32_def)

lemma st32_page: "\<not> in_page p a \<Longrightarrow> st32 m p v a = m a"
  using in_page_self by (intro st32_other) metis+

lemma fill_page: "\<not> in_page p a \<Longrightarrow> fill m p b 4096 a = m a"
  by (simp add: in_page_def fill_def word_less_nat_alt)

text \<open>A load at a page base does not see changes to other pages.\<close>

lemma ld32_frame:
  assumes "aligned p" "aligned q" "p \<noteq> q" "\<And>a. \<not> in_page p a \<Longrightarrow> m' a = m a"
  shows "ld32 m' q = ld32 m q"
proof -
  have "m' x = m x" if "in_page q x" for x
    using assms that in_page_unique by blast
  then show ?thesis by (intro ld32_cong) simp_all
qed

lemma PGROUNDDOWN_unat: "unat (PGROUNDDOWN a) = unat a - unat a mod 4096"
proof -
  have m: "(4095 :: u32) = mask 12" by (simp add: mask_eq_exp_minus_1)
  have "PGROUNDDOWN a = push_bit 12 (drop_bit 12 a)"
    by (rule bit_word_eqI) (auto simp: PGROUNDDOWN_def PGSIZE_def m bit_simps)
  moreover have "unat (push_bit 12 (drop_bit 12 a)) = 4096 * (unat a div 4096)"
    using unsigned_less [of a, where ?'a = nat]
    by (simp only: unsigned_push_bit_eq unsigned_drop_bit_eq)
      (simp add: push_bit_eq_mult drop_bit_eq_div take_bit_eq_mod
        le_less_trans [OF div_times_less_eq_dividend])
  ultimately show ?thesis by (simp add: minus_mod_eq_mult_div)
qed

end
