(* ===== verification/Spinlock.thy ===== *)
theory Spinlock
  imports Prelude
begin

text \<open>
  Spin locks: \<^verbatim>\<open>spinlock.c\<close> and the processor lookup of \<^verbatim>\<open>proc.c\<close>.

  The first part is the lock code statement by statement over a multiprocessor: the lock
  words, the per-processor nesting depth \<open>ncli\<close> and saved interrupt flag, and the hardware
  interrupt flag of every processor. The processors interleave between the statements that
  touch the lock word (\<open>lock_step\<close>); mutual exclusion and "interrupts are off while a lock
  is held" are invariants of every reachable state.

  The second part is the view one kernel thread has of its own processor: the list of locks it
  holds and the nesting depth. The rest of the kernel model brackets its critical sections with
  these \<open>lock\<close> and \<open>unlock\<close>. Both implement the interface \<open>spin_iface\<close>.
\<close>

datatype lockid =
    L_kmem | L_ptable | L_prioqueue | L_manager | L_ftable | L_icache | L_bcache | L_log | L_ide
  | L_cons | L_ticks | L_pipe nat | L_buf nat | L_inode nat | L_muxslp nat | L_mux nat

subsection \<open>The lock code\<close>

record spinlock =
  locked :: u32
  lk_name :: string
  lk_cpu :: "nat option"
  lk_pcs :: "u32 list"

record cpu =
  apicid :: nat
  cpu_ncli :: int
  intena :: bool

record mach =
  locks :: "lockid \<Rightarrow> spinlock"
  cpus :: "cpu list"
  if_flag :: "nat \<Rightarrow> bool"
  stack :: "u32 \<Rightarrow> u32"

text \<open>
  \<open>cpus\<close> holds the \<open>ncpu\<close> processors \<open>mpinit\<close> found; \<open>if_flag a\<close> is \<open>FL_IF\<close> of the eflags of the
  processor whose local APIC id is \<open>a\<close>; \<open>stack\<close> is the word at an address, for the call-chain
  walk.
\<close>

definition initlock :: "mach \<Rightarrow> lockid \<Rightarrow> string \<Rightarrow> mach" where
  "initlock m l nm = m\<lparr>locks := (locks m)(l :=
     (locks m l)\<lparr>lk_name := nm, locked := 0, lk_cpu := None\<rparr>)\<rparr>"

definition mycpu :: "mach \<Rightarrow> nat \<Rightarrow> nat res" where
  "mycpu m a =
     (if if_flag m a then panic ''mycpu called with interrupts enabled''
      else case first_idx (\<lambda>c. apicid c = a) (cpus m) of
             Some i \<Rightarrow> Ok i
           | None \<Rightarrow> panic ''unknown apicid'')"

definition holding :: "mach \<Rightarrow> nat \<Rightarrow> lockid \<Rightarrow> bool res" where
  "holding m a l =
     (if locked (locks m l) = 0 then Ok False
      else bnd (mycpu m a) (\<lambda>c. Ok (lk_cpu (locks m l) = Some c)))"

definition pushcli :: "mach \<Rightarrow> nat \<Rightarrow> mach res" where
  "pushcli m a =
     (let eflags = if_flag m a; m1 = m\<lparr>if_flag := (if_flag m)(a := False)\<rparr> in
      bnd (mycpu m1 a) (\<lambda>c.
      let cp = cpus m1 ! c;
          cp1 = (if cpu_ncli cp = 0 then cp\<lparr>intena := eflags\<rparr> else cp)
      in Ok (m1\<lparr>cpus := (cpus m1)[c := cp1\<lparr>cpu_ncli := cpu_ncli cp1 + 1\<rparr>]\<rparr>)))"

definition popcli :: "mach \<Rightarrow> nat \<Rightarrow> mach res" where
  "popcli m a =
     (if if_flag m a then panic ''popcli - interruptible''
      else bnd (mycpu m a) (\<lambda>c.
        let n = cpu_ncli (cpus m ! c) - 1;
            m1 = m\<lparr>cpus := (cpus m)[c := (cpus m ! c)\<lparr>cpu_ncli := n\<rparr>]\<rparr>
        in if n < 0 then panic ''popcli''
           else if n = 0 \<and> intena (cpus m1 ! c)
             then Ok (m1\<lparr>if_flag := (if_flag m1)(a := True)\<rparr>)
             else Ok m1))"

definition KERNBASE :: u32 where
  "KERNBASE = 0x80000000"

fun walk_ebp :: "(u32 \<Rightarrow> u32) \<Rightarrow> nat \<Rightarrow> u32 \<Rightarrow> u32 list" where
  "walk_ebp stk 0 ebp = []"
| "walk_ebp stk (Suc n) ebp =
     (if ebp = 0 \<or> ebp < KERNBASE \<or> ebp = 0xffffffff then []
      else stk (ebp + 4) # walk_ebp stk n (stk ebp))"

definition getcallerpcs :: "(u32 \<Rightarrow> u32) \<Rightarrow> u32 \<Rightarrow> u32 list" where
  "getcallerpcs stk v =
     (let pcs = walk_ebp stk 10 (v - 8) in pcs @ replicate (10 - length pcs) 0)"

text \<open>
  \<open>acquire\<close> in three pieces: up to the spin loop, one \<open>xchg\<close>, and what follows the loop
  (\<open>v\<close> is the address of its argument on the stack). \<open>release\<close> in two: up to the
  store that frees the lock word, and from there on.
\<close>

definition acquire_enter :: "mach \<Rightarrow> nat \<Rightarrow> lockid \<Rightarrow> mach res" where
  "acquire_enter m a l =
     bnd (pushcli m a) (\<lambda>m.
     bnd (holding m a l) (\<lambda>h.
     if h then panic ''acquire'' else Ok m))"

definition xchg_locked :: "mach \<Rightarrow> lockid \<Rightarrow> u32 \<times> mach" where
  "xchg_locked m l =
     (locked (locks m l), m\<lparr>locks := (locks m)(l := (locks m l)\<lparr>locked := 1\<rparr>)\<rparr>)"

definition acquire_record :: "mach \<Rightarrow> nat \<Rightarrow> lockid \<Rightarrow> u32 \<Rightarrow> mach res" where
  "acquire_record m a l v =
     bnd (mycpu m a) (\<lambda>c.
     Ok (m\<lparr>locks := (locks m)(l := (locks m l)\<lparr>lk_cpu := Some c,
                                    lk_pcs := getcallerpcs (stack m) v\<rparr>)\<rparr>))"

definition release_clear :: "mach \<Rightarrow> nat \<Rightarrow> lockid \<Rightarrow> mach res" where
  "release_clear m a l =
     bnd (holding m a l) (\<lambda>h.
     if \<not> h then panic ''release''
     else Ok (m\<lparr>locks := (locks m)(l := (locks m l)\<lparr>lk_pcs := (lk_pcs (locks m l))[0 := 0],
                                         lk_cpu := None\<rparr>)\<rparr>))"

definition release_store :: "mach \<Rightarrow> nat \<Rightarrow> lockid \<Rightarrow> mach res" where
  "release_store m a l =
     popcli (m\<lparr>locks := (locks m)(l := (locks m l)\<lparr>locked := 0\<rparr>)\<rparr>) a"

text \<open>
  Run without interruption by another processor, the spin loop ends at once or, when the word is
  taken, never.
\<close>

definition acquire :: "mach \<Rightarrow> nat \<Rightarrow> lockid \<Rightarrow> u32 \<Rightarrow> mach res" where
  "acquire m a l v =
     bnd (acquire_enter m a l) (\<lambda>m.
     let (old, m) = xchg_locked m l in
     if old \<noteq> 0 then Inl Diverge else acquire_record m a l v)"

definition release :: "mach \<Rightarrow> nat \<Rightarrow> lockid \<Rightarrow> mach res" where
  "release m a l = bnd (release_clear m a l) (\<lambda>m. release_store m a l)"

subsection \<open>Interleaved processors\<close>

text \<open>
  What a processor is doing between two shared accesses: running other code, in the spin loop
  of \<open>acquire\<close>, just past a successful \<open>xchg\<close>, or inside \<open>release\<close> past the ownership check.
  \<open>depth\<close> counts the matched \<open>pushcli\<close> calls outside lock code.
\<close>

datatype phase = Run | Spin lockid | Got lockid | Rel lockid

record sys =
  hw :: mach
  ph :: "nat \<Rightarrow> phase"
  depth :: "nat \<Rightarrow> nat"

inductive lock_step :: "sys \<Rightarrow> sys \<Rightarrow> bool" where
  s_enter: "ph s a = Run \<Longrightarrow> acquire_enter (hw s) a l = Inr m \<Longrightarrow>
     lock_step s (s\<lparr>hw := m, ph := (ph s)(a := Spin l)\<rparr>)"
| s_spin: "ph s a = Spin l \<Longrightarrow> xchg_locked (hw s) l = (old, m) \<Longrightarrow> old \<noteq> 0 \<Longrightarrow>
     lock_step s (s\<lparr>hw := m\<rparr>)"
| s_take: "ph s a = Spin l \<Longrightarrow> xchg_locked (hw s) l = (old, m) \<Longrightarrow> old = 0 \<Longrightarrow>
     lock_step s (s\<lparr>hw := m, ph := (ph s)(a := Got l)\<rparr>)"
| s_record: "ph s a = Got l \<Longrightarrow> acquire_record (hw s) a l v = Inr m \<Longrightarrow>
     lock_step s (s\<lparr>hw := m, ph := (ph s)(a := Run)\<rparr>)"
| s_clear: "ph s a = Run \<Longrightarrow> release_clear (hw s) a l = Inr m \<Longrightarrow>
     lock_step s (s\<lparr>hw := m, ph := (ph s)(a := Rel l)\<rparr>)"
| s_store: "ph s a = Rel l \<Longrightarrow> release_store (hw s) a l = Inr m \<Longrightarrow>
     lock_step s (s\<lparr>hw := m, ph := (ph s)(a := Run)\<rparr>)"
| s_push: "ph s a = Run \<Longrightarrow> pushcli (hw s) a = Inr m \<Longrightarrow>
     lock_step s (s\<lparr>hw := m, depth := (depth s)(a := Suc (depth s a))\<rparr>)"
| s_pop: "ph s a = Run \<Longrightarrow> depth s a = Suc n \<Longrightarrow> popcli (hw s) a = Inr m \<Longrightarrow>
     lock_step s (s\<lparr>hw := m, depth := (depth s)(a := n)\<rparr>)"

definition lock_init :: "sys \<Rightarrow> bool" where
  "lock_init s \<longleftrightarrow>
     distinct (map apicid (cpus (hw s))) \<and>
     (\<forall>c \<in> set (cpus (hw s)). cpu_ncli c = 0) \<and>
     (\<forall>l. locked (locks (hw s) l) = 0 \<and> lk_cpu (locks (hw s) l) = None) \<and>
     (\<forall>a. ph s a = Run \<and> depth s a = 0)"

inductive lock_reach :: "sys \<Rightarrow> bool" where
  r_start: "lock_init s \<Longrightarrow> lock_reach s"
| r_step: "lock_reach s \<Longrightarrow> lock_step s t \<Longrightarrow> lock_reach t"

text \<open>A processor owns a lock from the successful \<open>xchg\<close> to the store that frees the word.\<close>

definition owns :: "sys \<Rightarrow> nat \<Rightarrow> lockid \<Rightarrow> bool" where
  "owns s a l \<longleftrightarrow> ph s a = Got l \<or> ph s a = Rel l \<or>
     (locked (locks (hw s) l) \<noteq> 0 \<and>
      (\<exists>i < length (cpus (hw s)). apicid (cpus (hw s) ! i) = a \<and> lk_cpu (locks (hw s) l) = Some i))"

definition owned :: "sys \<Rightarrow> nat \<Rightarrow> lockid set" where
  "owned s a = {l. owns s a l}"

definition spinning :: "sys \<Rightarrow> nat \<Rightarrow> nat" where
  "spinning s a = (case ph s a of Spin l \<Rightarrow> 1 | _ \<Rightarrow> 0)"

definition nesting :: "sys \<Rightarrow> nat \<Rightarrow> nat" where
  "nesting s a = card (owned s a) + spinning s a + depth s a"

definition word_inv :: "sys \<Rightarrow> bool" where
  "word_inv s \<longleftrightarrow>
     distinct (map apicid (cpus (hw s))) \<and>
     (\<forall>l. locked (locks (hw s) l) = 0 \<longrightarrow> lk_cpu (locks (hw s) l) = None) \<and>
     (\<forall>a l. ph s a = Got l \<or> ph s a = Rel l \<longrightarrow>
        locked (locks (hw s) l) \<noteq> 0 \<and> lk_cpu (locks (hw s) l) = None) \<and>
     (\<forall>a b l. (ph s a = Got l \<or> ph s a = Rel l) \<and> (ph s b = Got l \<or> ph s b = Rel l) \<longrightarrow> a = b)"

definition cli_inv :: "sys \<Rightarrow> bool" where
  "cli_inv s \<longleftrightarrow>
     (\<forall>i < length (cpus (hw s)). let c = cpus (hw s) ! i; a = apicid c in
        finite (owned s a) \<and>
        cpu_ncli c = int (nesting s a) \<and>
        (0 < cpu_ncli c \<longrightarrow> \<not> if_flag (hw s) a))"

subsection \<open>What each piece changes\<close>

lemma mycpu_Inr:
  "mycpu m a = Inr i \<longleftrightarrow> \<not> if_flag m a \<and> first_idx (\<lambda>c. apicid c = a) (cpus m) = Some i"
  by (auto simp: mycpu_def split: option.splits)

lemma mycpu_sound:
  assumes "mycpu m a = Inr i"
  shows "\<not> if_flag m a \<and> i < length (cpus m) \<and> apicid (cpus m ! i) = a"
  using assms by (auto simp: mycpu_Inr dest: first_idx_len first_idx_sat)

definition ncli_upd :: "mach \<Rightarrow> mach \<Rightarrow> nat \<Rightarrow> int \<Rightarrow> bool" where
  "ncli_upd m m' a d \<longleftrightarrow>
     map apicid (cpus m') = map apicid (cpus m) \<and>
     (\<exists>i < length (cpus m). apicid (cpus m ! i) = a \<and>
        cpu_ncli (cpus m' ! i) = cpu_ncli (cpus m ! i) + d \<and>
        (\<forall>j < length (cpus m). j \<noteq> i \<longrightarrow> cpu_ncli (cpus m' ! j) = cpu_ncli (cpus m ! j)) \<and>
        (0 < cpu_ncli (cpus m' ! i) \<longrightarrow> \<not> if_flag m' a)) \<and>
     (\<forall>b. b \<noteq> a \<longrightarrow> if_flag m' b = if_flag m b)"

lemma map_apicid_upd [simp]:
  "i < length cs \<Longrightarrow> apicid c = apicid (cs ! i) \<Longrightarrow> map apicid (cs[i := c]) = map apicid cs"
  by (simp add: map_update list_update_same_conv)

lemma pushcli_effect:
  assumes "pushcli m a = Inr m'"
  shows "locks m' = locks m \<and> ncli_upd m m' a 1 \<and> \<not> if_flag m' a"
proof -
  let ?m = "m\<lparr>if_flag := (if_flag m)(a := False)\<rparr>"
  obtain i where i: "mycpu ?m a = Inr i"
    and m': "m' = (let cp = cpus m ! i;
          cp1 = (if cpu_ncli cp = 0 then cp\<lparr>intena := if_flag m a\<rparr> else cp)
      in ?m\<lparr>cpus := (cpus m)[i := cp1\<lparr>cpu_ncli := cpu_ncli cp1 + 1\<rparr>]\<rparr>)"
    using assms by (auto simp: pushcli_def Let_def bnd_eq_Inr)
  from mycpu_sound [OF i] show ?thesis
    by (auto simp: m' Let_def ncli_upd_def)
qed

lemma popcli_effect:
  assumes "popcli m a = Inr m'"
  shows "locks m' = locks m \<and> ncli_upd m m' a (-1) \<and> \<not> if_flag m a"
proof -
  obtain i where i: "mycpu m a = Inr i"
    using assms by (auto simp: popcli_def Let_def bnd_eq_Inr split: if_splits)
  with assms mycpu_sound [OF i] show ?thesis
    by (auto simp: popcli_def ncli_upd_def Let_def split: if_splits)
qed

lemma popcli_total:
  assumes "\<not> if_flag m a" "i < length (cpus m)" "apicid (cpus m ! i) = a"
    and "distinct (map apicid (cpus m))" "0 < cpu_ncli (cpus m ! i)"
  shows "\<exists>m'. popcli m a = Inr m'"
proof -
  have f: "first_idx (\<lambda>c. apicid c = a) (cpus m) = Some i"
    using assms by (auto simp: first_idx_Some distinct_conv_nth)
  have "mycpu m a = Inr i" using assms(1) f by (simp add: mycpu_Inr)
  with assms show ?thesis by (simp add: popcli_def Let_def)
qed

lemma holding_Inr:
  "holding m a l = Inr h \<Longrightarrow> h \<Longrightarrow>
     locked (locks m l) \<noteq> 0 \<and> (\<exists>c. mycpu m a = Inr c \<and> lk_cpu (locks m l) = Some c)"
  by (auto simp: holding_def bnd_eq_Inr split: if_splits)

lemma acquire_enter_effect:
  "acquire_enter m a l = Inr m' \<Longrightarrow> locks m' = locks m \<and> ncli_upd m m' a 1 \<and> \<not> if_flag m' a"
  by (auto simp: acquire_enter_def bnd_eq_Inr dest: pushcli_effect split: if_splits)

lemma acquire_record_effect:
  assumes "acquire_record m a l v = Inr m'"
  shows "\<exists>c < length (cpus m). apicid (cpus m ! c) = a \<and>
     m' = m\<lparr>locks := (locks m)(l := (locks m l)\<lparr>lk_cpu := Some c,
                                    lk_pcs := getcallerpcs (stack m) v\<rparr>)\<rparr>"
  using assms by (auto simp: acquire_record_def bnd_eq_Inr dest: mycpu_sound)

lemma release_clear_effect:
  assumes "release_clear m a l = Inr m'"
  shows "locked (locks m l) \<noteq> 0 \<and>
     (\<exists>c < length (cpus m). apicid (cpus m ! c) = a \<and> lk_cpu (locks m l) = Some c) \<and>
     m' = m\<lparr>locks := (locks m)(l := (locks m l)\<lparr>lk_pcs := (lk_pcs (locks m l))[0 := 0],
                                         lk_cpu := None\<rparr>)\<rparr>"
  using assms by (auto simp: release_clear_def bnd_eq_Inr dest!: holding_Inr mycpu_sound
      split: if_splits)

lemma ncli_upd_cpus:
  "ncli_upd m m' a d \<Longrightarrow> length (cpus m') = length (cpus m) \<and>
     (\<forall>i < length (cpus m). apicid (cpus m' ! i) = apicid (cpus m ! i))"
  unfolding ncli_upd_def by (metis length_map nth_map)

subsection \<open>The lock word\<close>

lemma word_inv_step:
  assumes "word_inv s" "lock_step s t"
  shows "word_inv t"
  using assms(2,1)
proof cases
  case (s_enter a l m)
  with assms(1) acquire_enter_effect [OF s_enter(3)] show ?thesis
    by (auto simp: word_inv_def ncli_upd_def)
next
  case (s_spin a l old m)
  with assms(1) show ?thesis by (auto simp: word_inv_def xchg_locked_def split: if_splits)
next
  case (s_take a l old m)
  with assms(1) show ?thesis by (auto simp: word_inv_def xchg_locked_def split: if_splits)
next
  case (s_record a l v m)
  with assms(1) acquire_record_effect [OF s_record(3)] show ?thesis
    by (auto simp: word_inv_def split: if_splits)
next
  case (s_clear a l m)
  with assms(1) release_clear_effect [OF s_clear(3)] show ?thesis
    by (auto simp: word_inv_def)
next
  case (s_store a l m)
  with assms(1) popcli_effect [OF s_store(3) [unfolded release_store_def]] show ?thesis
    by (auto simp: word_inv_def ncli_upd_def)
next
  case (s_push a m)
  with assms(1) pushcli_effect [OF s_push(3)] show ?thesis
    by (auto simp: word_inv_def ncli_upd_def)
next
  case (s_pop a n m)
  with assms(1) popcli_effect [OF s_pop(4)] show ?thesis
    by (auto simp: word_inv_def ncli_upd_def)
qed

lemma lock_reach_word_inv: "lock_reach s \<Longrightarrow> word_inv s"
proof (induction rule: lock_reach.induct)
  case (r_start s)
  then show ?case by (auto simp: lock_init_def word_inv_def)
next
  case (r_step s t)
  then show ?case by (blast intro: word_inv_step)
qed

lemma owns_unique:
  assumes "word_inv s" "owns s a l" "owns s b l"
  shows "a = b"
  using assms unfolding word_inv_def owns_def by fastforce

subsection \<open>The nesting depth\<close>

lemma owned_eq:
  assumes "map apicid (cpus (hw t)) = map apicid (cpus (hw s))"
    and "\<And>l. (locked (locks (hw t) l) = 0) = (locked (locks (hw s) l) = 0)"
    and "\<And>l. lk_cpu (locks (hw t) l) = lk_cpu (locks (hw s) l)"
    and "\<And>l. (ph t a = Got l \<or> ph t a = Rel l) = (ph s a = Got l \<or> ph s a = Rel l)"
  shows "owned t a = owned s a"
proof -
  have "(\<exists>i < length (cpus (hw t)). apicid (cpus (hw t) ! i) = a \<and> lk_cpu (locks (hw t) l) = Some i)
      \<longleftrightarrow> (\<exists>i < length (cpus (hw s)). apicid (cpus (hw s) ! i) = a \<and> lk_cpu (locks (hw s) l) = Some i)"
    for l using assms(1,3) by (metis length_map nth_map)
  with assms(2,4) show ?thesis by (auto simp: owned_def owns_def)
qed

lemma nesting_take:
  assumes "word_inv s" "ph s a = Spin l" "locked (locks (hw s) l) = 0"
    and t: "t = s\<lparr>hw := (hw s)\<lparr>locks := (locks (hw s))(l := (locks (hw s) l)\<lparr>locked := 1\<rparr>)\<rparr>,
                  ph := (ph s)(a := Got l)\<rparr>"
  shows "owned t a = insert l (owned s a) \<and> l \<notin> owned s a \<and> (\<forall>b. b \<noteq> a \<longrightarrow> owned t b = owned s b)"
  using assms(1-3) by (auto simp: t owned_def owns_def word_inv_def split: if_splits)

lemma nesting_store:
  assumes "word_inv s" "ph s a = Rel l"
    and m: "locks m = (locks (hw s))(l := (locks (hw s) l)\<lparr>locked := 0\<rparr>)"
    and c: "map apicid (cpus m) = map apicid (cpus (hw s))"
    and t: "t = s\<lparr>hw := m, ph := (ph s)(a := Run)\<rparr>"
  shows "owned t a = owned s a - {l} \<and> l \<in> owned s a \<and> (\<forall>b. b \<noteq> a \<longrightarrow> owned t b = owned s b)"
proof -
  have "(\<exists>i < length (cpus m). apicid (cpus m ! i) = b \<and> lk_cpu (locks m k) = Some i)
      \<longleftrightarrow> (\<exists>i < length (cpus (hw s)). apicid (cpus (hw s) ! i) = b \<and> lk_cpu (locks (hw s) k) = Some i)"
    for k b using c by (simp add: m) (metis length_map nth_map)
  then show ?thesis
    using assms(1,2) by (auto simp: t m owned_def owns_def word_inv_def split: if_splits)
qed

lemma cli_inv_upd:
  assumes inv: "cli_inv s" and w: "word_inv s" and u: "ncli_upd (hw s) (hw t) a d"
    and others: "\<And>b. b \<noteq> a \<Longrightarrow> owned t b = owned s b \<and> nesting t b = nesting s b"
    and fin: "finite (owned s a) \<Longrightarrow> finite (owned t a)"
    and self: "finite (owned s a) \<Longrightarrow> int (nesting t a) = int (nesting s a) + d"
  shows "cli_inv t"
proof -
  obtain i where i: "i < length (cpus (hw s))" "apicid (cpus (hw s) ! i) = a"
      "cpu_ncli (cpus (hw t) ! i) = cpu_ncli (cpus (hw s) ! i) + d"
      "\<forall>j < length (cpus (hw s)). j \<noteq> i \<longrightarrow> cpu_ncli (cpus (hw t) ! j) = cpu_ncli (cpus (hw s) ! j)"
      "0 < cpu_ncli (cpus (hw t) ! i) \<longrightarrow> \<not> if_flag (hw t) a"
      "\<forall>b. b \<noteq> a \<longrightarrow> if_flag (hw t) b = if_flag (hw s) b"
    using u by (auto simp: ncli_upd_def)
  have ne: "apicid (cpus (hw s) ! j) \<noteq> a" if "j < length (cpus (hw s))" "j \<noteq> i" for j
    using w i that by (auto simp: word_inv_def distinct_conv_nth)
  show ?thesis
    unfolding cli_inv_def Let_def
  proof (intro allI impI)
    fix j assume "j < length (cpus (hw t))"
    with ncli_upd_cpus [OF u] have j: "j < length (cpus (hw s))"
      and aj: "apicid (cpus (hw t) ! j) = apicid (cpus (hw s) ! j)" by auto
    show "finite (owned t (apicid (cpus (hw t) ! j))) \<and>
      cpu_ncli (cpus (hw t) ! j) = int (nesting t (apicid (cpus (hw t) ! j))) \<and>
      (0 < cpu_ncli (cpus (hw t) ! j) \<longrightarrow> \<not> if_flag (hw t) (apicid (cpus (hw t) ! j)))"
      using inv i j ne [OF j] aj others fin self by (cases "j = i") (auto simp: cli_inv_def Let_def)
  qed
qed

lemma cli_inv_same:
  assumes "cli_inv s" "cpus (hw t) = cpus (hw s)" "if_flag (hw t) = if_flag (hw s)"
    and "\<And>b. finite (owned s b) \<Longrightarrow> finite (owned t b) \<and> nesting t b = nesting s b"
  shows "cli_inv t"
  using assms by (auto simp: cli_inv_def Let_def)

lemma cli_inv_step:
  assumes "cli_inv s" and w: "word_inv s" and "lock_step s t"
  shows "cli_inv t"
  using assms(3)
proof cases
  case (s_enter a l m)
  note e = acquire_enter_effect [OF s_enter(3)]
  have o: "owned t b = owned s b" for b
    using e s_enter by (intro owned_eq) (auto simp: ncli_upd_def)
  have f: "hw t = m" "ph t = (ph s)(a := Spin l)" "depth t = depth s" using s_enter(1) by simp_all
  show ?thesis
    using e s_enter(2)
    by (intro cli_inv_upd [OF assms(1) w, of t a 1]) (auto simp: o f nesting_def spinning_def)
next
  case (s_spin a l old m)
  have o: "owned t b = owned s b" for b
    using s_spin by (intro owned_eq) (auto simp: xchg_locked_def split: if_splits)
  have f: "hw t = m" "ph t = ph s" "depth t = depth s" using s_spin(1) by simp_all
  show ?thesis
    using s_spin(3)
    by (intro cli_inv_same [OF assms(1)]) (auto simp: o f nesting_def spinning_def xchg_locked_def)
next
  case (s_take a l old m)
  then have "locked (locks (hw s) l) = 0" by (simp add: xchg_locked_def)
  from nesting_take [OF w s_take(2) this, of t] s_take
  have o: "owned t a = insert l (owned s a)" "l \<notin> owned s a" "\<And>b. b \<noteq> a \<Longrightarrow> owned t b = owned s b"
    by (auto simp: xchg_locked_def)
  have "finite (owned t b) \<and> nesting t b = nesting s b" if "finite (owned s b)" for b
    using that o s_take by (cases "b = a") (auto simp: nesting_def spinning_def)
  with s_take show ?thesis
    by (intro cli_inv_same [OF assms(1)]) (auto simp: xchg_locked_def)
next
  case (s_record a l v m)
  note e = acquire_record_effect [OF s_record(3)]
  have o: "owned t b = owned s b" for b
    using e s_record w by (auto simp: owned_def owns_def word_inv_def split: if_splits)
  have f: "hw t = m" "ph t = (ph s)(a := Run)" "depth t = depth s" using s_record(1) by simp_all
  show ?thesis
    using e s_record(2)
    by (intro cli_inv_same [OF assms(1)]) (auto simp: o f nesting_def spinning_def)
next
  case (s_clear a l m)
  note e = release_clear_effect [OF s_clear(3)]
  have o: "owned t b = owned s b" for b
    using e s_clear w by (auto simp: owned_def owns_def word_inv_def split: if_splits)
  have f: "hw t = m" "ph t = (ph s)(a := Rel l)" "depth t = depth s" using s_clear(1) by simp_all
  show ?thesis
    using e s_clear(2)
    by (intro cli_inv_same [OF assms(1)]) (auto simp: o f nesting_def spinning_def)
next
  case (s_store a l m)
  note e = popcli_effect [OF s_store(3) [unfolded release_store_def]]
  have o: "owned t a = owned s a - {l}" "l \<in> owned s a" "\<And>b. b \<noteq> a \<Longrightarrow> owned t b = owned s b"
    using nesting_store [OF w s_store(2), of m t] e s_store by (auto simp: ncli_upd_def)
  have u: "ncli_upd (hw s) (hw t) a (-1)"
    using e s_store by (auto simp: ncli_upd_def)
  have c: "finite (owned s a) \<Longrightarrow> 0 < card (owned s a)"
    using o(2) card_gt_0_iff by blast
  show ?thesis
    using c o s_store by (intro cli_inv_upd [OF assms(1) w u])
      (auto simp: nesting_def spinning_def)
next
  case (s_push a m)
  note e = pushcli_effect [OF s_push(3)]
  have o: "owned t b = owned s b" for b
    using e s_push by (intro owned_eq) (auto simp: ncli_upd_def)
  have f: "hw t = m" "ph t = ph s" "depth t = (depth s)(a := Suc (depth s a))" using s_push(1) by simp_all
  show ?thesis
    using e s_push(2)
    by (intro cli_inv_upd [OF assms(1) w, of t a 1]) (auto simp: o f nesting_def spinning_def)
next
  case (s_pop a n m)
  note e = popcli_effect [OF s_pop(4)]
  have o: "owned t b = owned s b" for b
    using e s_pop by (intro owned_eq) (auto simp: ncli_upd_def)
  have f: "hw t = m" "ph t = ph s" "depth t = (depth s)(a := n)" using s_pop(1) by simp_all
  show ?thesis
    using e s_pop(2,3)
    by (intro cli_inv_upd [OF assms(1) w, of t a "-1"]) (auto simp: o f nesting_def spinning_def)
qed

lemma lock_reach_cli_inv: "lock_reach s \<Longrightarrow> cli_inv s"
proof (induction rule: lock_reach.induct)
  case (r_start s)
  then have "owned s a = {}" "nesting s a = 0" for a
    by (auto simp: lock_init_def owned_def owns_def nesting_def spinning_def)
  with r_start show ?case by (auto simp: lock_init_def cli_inv_def Let_def)
next
  case (r_step s t)
  then show ?case by (blast intro: cli_inv_step lock_reach_word_inv)
qed

lemma owned_if_off:
  assumes "cli_inv s" "i < length (cpus (hw s))" "owns s (apicid (cpus (hw s) ! i)) l"
  shows "0 < cpu_ncli (cpus (hw s) ! i) \<and> \<not> if_flag (hw s) (apicid (cpus (hw s) ! i))"
proof -
  let ?a = "apicid (cpus (hw s) ! i)"
  have f: "finite (owned s ?a)" and n: "cpu_ncli (cpus (hw s) ! i) = int (nesting s ?a)"
    and o: "0 < cpu_ncli (cpus (hw s) ! i) \<longrightarrow> \<not> if_flag (hw s) ?a"
    using assms(1,2) by (auto simp: cli_inv_def Let_def)
  have "l \<in> owned s ?a" using assms(3) by (simp add: owned_def)
  with f have "0 < card (owned s ?a)" using card_gt_0_iff by blast
  with n o show ?thesis by (simp add: nesting_def)
qed

lemma release_owned:
  assumes w: "word_inv s" and c: "cli_inv s" and i: "i < length (cpus (hw s))"
    and a: "apicid (cpus (hw s) ! i) = a" and r: "ph s a = Run" and o: "owns s a l"
  shows "\<exists>m. release (hw s) a l = Inr m"
proof -
  have d: "distinct (map apicid (cpus (hw s)))" using w by (simp add: word_inv_def)
  have off: "\<not> if_flag (hw s) a" and pos: "0 < cpu_ncli (cpus (hw s) ! i)"
    using owned_if_off [OF c i] o a by auto
  have lk: "locked (locks (hw s) l) \<noteq> 0" "lk_cpu (locks (hw s) l) = Some i"
    using o r i a d by (auto simp: owns_def distinct_conv_nth)
  have "first_idx (\<lambda>c. apicid c = a) (cpus (hw s)) = Some i"
    using i a d by (auto simp: first_idx_Some distinct_conv_nth)
  with off have "mycpu (hw s) a = Inr i" by (simp add: mycpu_Inr)
  with lk have h: "holding (hw s) a l = Inr True" by (simp add: holding_def)
  show ?thesis
    using popcli_total [of _ a i] off i a d pos
    by (simp add: release_def release_clear_def h release_store_def)
qed

subsection \<open>One kernel thread\<close>

text \<open>
  The locks this processor holds, most recent first, and its nesting depth. Every other
  component of the kernel extends this state.
\<close>

record kcpu =
  held :: "lockid list"
  ncli :: nat

definition lock :: "lockid \<Rightarrow> 'a kcpu_scheme \<Rightarrow> 'a kcpu_scheme res" where
  "lock l k =
     (if l \<in> set (held k) then panic ''acquire''
      else Ok (k\<lparr>held := l # held k, ncli := ncli k + 1\<rparr>))"

definition unlock :: "lockid \<Rightarrow> 'a kcpu_scheme \<Rightarrow> 'a kcpu_scheme res" where
  "unlock l k =
     (if l \<notin> set (held k) then panic ''release''
      else if ncli k = 0 then panic ''popcli''
      else Ok (k\<lparr>held := remove1 l (held k), ncli := ncli k - 1\<rparr>))"

lemma lock_free [simp]: "l \<notin> set (held k) \<Longrightarrow> lock l k = Ok (k\<lparr>held := l # held k, ncli := ncli k + 1\<rparr>)"
  by (simp add: lock_def)

lemma lock_held [simp]: "l \<in> set (held k) \<Longrightarrow> lock l k = panic ''acquire''"
  by (simp add: lock_def)

lemma unlock_free [simp]: "l \<notin> set (held k) \<Longrightarrow> unlock l k = panic ''release''"
  by (simp add: unlock_def)

lemma unlock_top [simp]:
  "held k = l # ls \<Longrightarrow> ncli k = Suc n \<Longrightarrow> unlock l k = Ok (k\<lparr>held := ls, ncli := n\<rparr>)"
  by (simp add: unlock_def)

lemma lock_vc [vc]:
  "spec (lock l k) Q \<longleftrightarrow> (l \<notin> set (held k) \<longrightarrow> Q (k\<lparr>held := l # held k, ncli := ncli k + 1\<rparr>))"
  "runs (lock l k) Q \<longleftrightarrow> (l \<notin> set (held k) \<and> Q (k\<lparr>held := l # held k, ncli := ncli k + 1\<rparr>))"
  by (auto simp: spec_def runs_def lock_def)

lemma unlock_vc [vc]:
  "spec (unlock l k) Q \<longleftrightarrow> (l \<in> set (held k) \<and> ncli k \<noteq> 0 \<longrightarrow> Q (k\<lparr>held := remove1 l (held k), ncli := ncli k - 1\<rparr>))"
  "runs (unlock l k) Q \<longleftrightarrow> (l \<in> set (held k) \<and> ncli k \<noteq> 0 \<and> Q (k\<lparr>held := remove1 l (held k), ncli := ncli k - 1\<rparr>))"
  by (auto simp: spec_def runs_def unlock_def)

definition kcpu_ok :: "'a kcpu_scheme \<Rightarrow> bool" where
  "kcpu_ok k \<longleftrightarrow> distinct (held k) \<and> length (held k) \<le> ncli k"

subsection \<open>The lock interface\<close>

locale spin_iface =
  fixes acq :: "lockid \<Rightarrow> 's \<Rightarrow> 's res" and rel :: "lockid \<Rightarrow> 's \<Rightarrow> 's res"
    and holds :: "'s \<Rightarrow> lockid set" and free :: "'s \<Rightarrow> lockid \<Rightarrow> bool"
    and nest :: "'s \<Rightarrow> nat" and ok :: "'s \<Rightarrow> bool"
  assumes acq_ok: "ok s \<Longrightarrow> free s l \<Longrightarrow> \<exists>s'. acq l s = Inr s' \<and> ok s' \<and> holds s' = insert l (holds s) \<and>
        nest s' = Suc (nest s) \<and> (\<forall>k. free s' k \<longleftrightarrow> free s k \<and> k \<noteq> l)"
    and acq_self: "ok s \<Longrightarrow> l \<in> holds s \<Longrightarrow> acq l s = panic ''acquire''"
    and rel_ok: "ok s \<Longrightarrow> l \<in> holds s \<Longrightarrow> \<exists>s'. rel l s = Inr s' \<and> ok s' \<and> holds s' = holds s - {l} \<and>
        Suc (nest s') = nest s \<and> (\<forall>k. free s' k \<longleftrightarrow> free s k \<or> k = l)"
    and rel_not: "ok s \<Longrightarrow> free s l \<or> nest s \<noteq> 0 \<Longrightarrow> l \<notin> holds s \<Longrightarrow> rel l s = panic ''release''"
    and held_not_free: "ok s \<Longrightarrow> l \<in> holds s \<Longrightarrow> \<not> free s l"
begin

lemma acq_all:
  assumes "ok s" "distinct ls" "\<forall>l \<in> set ls. free s l"
  shows "\<exists>s'. foldM acq ls s = Inr s' \<and> ok s' \<and> holds s' = holds s \<union> set ls \<and>
    nest s' = nest s + length ls \<and> (\<forall>k. free s' k \<longleftrightarrow> free s k \<and> k \<notin> set ls)"
  using assms
proof (induction ls arbitrary: s)
  case (Cons l ls)
  obtain s1 where s1: "acq l s = Inr s1" "ok s1" "holds s1 = insert l (holds s)"
      "nest s1 = Suc (nest s)" "\<forall>k. free s1 k \<longleftrightarrow> free s k \<and> k \<noteq> l"
    using acq_ok [of s l] Cons.prems by auto
  with Cons.IH [of s1] Cons.prems obtain s' where "foldM acq ls s1 = Inr s'" "ok s'"
      "holds s' = holds s1 \<union> set ls" "nest s' = nest s1 + length ls"
      "\<forall>k. free s' k \<longleftrightarrow> free s1 k \<and> k \<notin> set ls"
    by auto
  with s1 show ?case by auto
qed auto

lemma rel_all:
  assumes "ok s" "distinct ls" "set ls \<subseteq> holds s"
  shows "\<exists>s'. foldM rel ls s = Inr s' \<and> ok s' \<and> holds s' = holds s - set ls \<and>
    nest s' + length ls = nest s \<and> (\<forall>k. free s' k \<longleftrightarrow> free s k \<or> k \<in> set ls)"
  using assms
proof (induction ls arbitrary: s)
  case (Cons l ls)
  obtain s1 where s1: "rel l s = Inr s1" "ok s1" "holds s1 = holds s - {l}"
      "Suc (nest s1) = nest s" "\<forall>k. free s1 k \<longleftrightarrow> free s k \<or> k = l"
    using rel_ok [of s l] Cons.prems by auto
  with Cons.IH [of s1] Cons.prems obtain s' where "foldM rel ls s1 = Inr s'" "ok s'"
      "holds s' = holds s1 - set ls" "nest s' + length ls = nest s1"
      "\<forall>k. free s' k \<longleftrightarrow> free s1 k \<or> k \<in> set ls"
    by auto
  with s1 show ?case by auto
qed auto

lemma nested:
  assumes "ok s" "distinct ls" "\<forall>l \<in> set ls. free s l" "distinct ks" "set ks = set ls"
  shows "\<exists>s1 s2. foldM acq ls s = Inr s1 \<and> holds s1 = holds s \<union> set ls \<and> foldM rel ks s1 = Inr s2 \<and>
    holds s2 = holds s \<and> nest s2 = nest s \<and> ok s2"
proof -
  obtain s1 where s1: "foldM acq ls s = Inr s1" "ok s1" "holds s1 = holds s \<union> set ls"
      "nest s1 = nest s + length ls"
    using acq_all [OF assms(1-3)] by auto
  obtain s2 where s2: "foldM rel ks s1 = Inr s2" "ok s2" "holds s2 = holds s1 - set ks"
      "nest s2 + length ks = nest s1"
    using rel_all [of s1 ks] s1 assms by auto
  have "length ks = length ls" using assms(2,4,5) by (metis distinct_card)
  moreover have "holds s \<inter> set ls = {}" using assms(1,3) held_not_free by auto
  ultimately show ?thesis using s1 s2 assms(5) by auto
qed

end

lemma kcpu_ok_pos: "kcpu_ok k \<Longrightarrow> l \<in> set (held k) \<Longrightarrow> 0 < ncli k"
  unfolding kcpu_ok_def by (cases "held k") auto

interpretation kl: spin_iface lock unlock "\<lambda>k. set (held k)" "\<lambda>k l. l \<notin> set (held k)" ncli kcpu_ok
  by unfold_locales (use kcpu_ok_pos in \<open>fastforce simp: kcpu_ok_def lock_def unlock_def length_remove1\<close>)+

text \<open>
  The lock code of one registered processor \<open>a\<close>, no other processor running: the laws follow
  from its statements.
\<close>

definition cpu_idx :: "mach \<Rightarrow> nat \<Rightarrow> nat" where
  "cpu_idx m a = the (first_idx (\<lambda>c. apicid c = a) (cpus m))"

definition mholds :: "nat \<Rightarrow> mach \<Rightarrow> lockid set" where
  "mholds a m = {l. locked (locks m l) \<noteq> 0 \<and> lk_cpu (locks m l) = Some (cpu_idx m a)}"

definition mnest :: "nat \<Rightarrow> mach \<Rightarrow> nat" where
  "mnest a m = nat (cpu_ncli (cpus m ! cpu_idx m a))"

definition mach_ok :: "nat \<Rightarrow> mach \<Rightarrow> bool" where
  "mach_ok a m \<longleftrightarrow> first_idx (\<lambda>c. apicid c = a) (cpus m) = Some (cpu_idx m a) \<and>
     finite (mholds a m) \<and> int (card (mholds a m)) \<le> cpu_ncli (cpus m ! cpu_idx m a) \<and>
     (mnest a m \<noteq> 0 \<longrightarrow> \<not> if_flag m a)"

definition irq :: "nat \<Rightarrow> mach \<Rightarrow> bool" where
  "irq a m = (if mnest a m = 0 then if_flag m a else intena (cpus m ! cpu_idx m a))"

lemma first_idx_upd:
  "first_idx P xs = Some i \<Longrightarrow> P x = P (xs ! i) \<Longrightarrow> first_idx P (xs[i := x]) = Some i"
  by (auto simp: first_idx_Some nth_list_update)

lemma acquire_seq:
  assumes "mach_ok a m" "locked (locks m l) = 0"
  shows "\<exists>m'. acquire m a l v = Inr m' \<and> mach_ok a m' \<and> mholds a m' = insert l (mholds a m) \<and>
    mnest a m' = Suc (mnest a m) \<and> irq a m' = irq a m \<and>
    (\<forall>k. (locked (locks m' k) = 0) = (locked (locks m k) = 0 \<and> k \<noteq> l))"
proof -
  define i where "i = cpu_idx m a"
  define c where "c = cpus m ! i"
  define c' where "c' = (if cpu_ncli c = 0 then c\<lparr>intena := if_flag m a\<rparr> else c)\<lparr>cpu_ncli := cpu_ncli c + 1\<rparr>"
  define m' where "m' = m\<lparr>if_flag := (if_flag m)(a := False), cpus := (cpus m)[i := c'],
    locks := (locks m)(l := (locks m l)\<lparr>locked := 1, lk_cpu := Some i, lk_pcs := getcallerpcs (stack m) v\<rparr>)\<rparr>"
  have f: "first_idx (\<lambda>c. apicid c = a) (cpus m) = Some i" and fin: "finite (mholds a m)"
    and le: "int (card (mholds a m)) \<le> cpu_ncli c" and off: "mnest a m \<noteq> 0 \<longrightarrow> \<not> if_flag m a"
    using assms(1) by (auto simp: mach_ok_def i_def c_def)
  have i: "i < length (cpus m)" "apicid c = a"
    using first_idx_len [OF f] first_idx_sat [OF f] by (simp_all add: c_def)
  have fm: "cpus m' = (cpus m)[i := c']" "if_flag m' = (if_flag m)(a := False)"
    "locks m' = (locks m)(l := (locks m l)\<lparr>locked := 1, lk_cpu := Some i, lk_pcs := getcallerpcs (stack m) v\<rparr>)"
    by (simp_all add: m'_def)
  have c': "apicid c' = a" "cpu_ncli c' = cpu_ncli c + 1"
    "intena c' = (if cpu_ncli c = 0 then if_flag m a else intena c)"
    using i by (simp_all add: c'_def)
  have f': "first_idx (\<lambda>c. apicid c = a) ((cpus m)[i := c']) = Some i"
    using first_idx_upd [OF f, of c'] i c' by (simp add: c_def)
  have i': "cpu_idx m' a = i" by (simp add: cpu_idx_def fm f')
  have h: "mholds a m' = insert l (mholds a m)"
    by (auto simp: mholds_def i' i_def [symmetric] fm split: if_splits)
  have n: "cpus m' ! i = c'" using i by (simp add: fm)
  have nn: "mnest a m' = Suc (mnest a m)"
    using le by (simp add: mnest_def i' n c' i_def [symmetric] c_def [symmetric])
  have card: "int (card (mholds a m')) \<le> cpu_ncli c + 1"
    using fin le by (simp add: h card_insert_if)
  have p: "pushcli m a = Inr (m\<lparr>if_flag := (if_flag m)(a := False), cpus := (cpus m)[i := c']\<rparr>)"
    using f by (simp add: pushcli_def mycpu_def Let_def c'_def c_def)
  have "acquire m a l v = Inr m'"
    using assms(2) f' by (simp add: acquire_def acquire_enter_def p holding_def xchg_locked_def
        acquire_record_def mycpu_def m'_def)
  moreover have "mach_ok a m'"
    using f' fin h card i(1) by (simp add: mach_ok_def i' c' fm)
  moreover have "irq a m' = irq a m"
    using le by (simp add: irq_def nn i' n c') (simp add: mnest_def i_def c_def)
  ultimately show ?thesis using h nn by (auto simp: fm)
qed

lemma mholds_nest:
  assumes "mach_ok a m" "l \<in> mholds a m"
  shows "int (card (mholds a m - {l})) \<le> cpu_ncli (cpus m ! cpu_idx m a) - 1 \<and>
    0 < cpu_ncli (cpus m ! cpu_idx m a) \<and> \<not> if_flag m a"
proof -
  have "card (mholds a m) = Suc (card (mholds a m - {l}))"
    using assms by (intro card.remove) (auto simp: mach_ok_def)
  with assms(1) show ?thesis by (auto simp: mach_ok_def mnest_def)
qed

lemma popcli_seq:
  assumes "first_idx (\<lambda>c. apicid c = a) (cpus m) = Some i" "\<not> if_flag m a" "c = cpus m ! i" "0 < cpu_ncli c"
  shows "popcli m a = Inr (m\<lparr>if_flag := (if_flag m)(a := cpu_ncli c = 1 \<and> intena c),
    cpus := (cpus m)[i := c\<lparr>cpu_ncli := cpu_ncli c - 1\<rparr>]\<rparr>)"
proof -
  have "i < length (cpus m)" using assms(1) by (rule first_idx_len)
  moreover have "(if_flag m)(a := False) = if_flag m" using assms(2) by (simp add: fun_upd_idem)
  ultimately show ?thesis
    using assms by (auto simp: popcli_def mycpu_def Let_def intro: mach.equality)
qed

lemma release_seq:
  assumes ok: "mach_ok a m" and l: "l \<in> mholds a m"
  shows "\<exists>m'. release m a l = Inr m' \<and> mach_ok a m' \<and> mholds a m' = mholds a m - {l} \<and>
    Suc (mnest a m') = mnest a m \<and> irq a m' = irq a m \<and>
    (\<forall>k. (locked (locks m' k) = 0) = (locked (locks m k) = 0 \<or> k = l))"
proof -
  define i where "i = cpu_idx m a"
  define c where "c = cpus m ! i"
  define c' where "c' = c\<lparr>cpu_ncli := cpu_ncli c - 1\<rparr>"
  define m' where "m' = m\<lparr>
    locks := (locks m)(l := (locks m l)\<lparr>lk_pcs := (lk_pcs (locks m l))[0 := 0], lk_cpu := None, locked := 0\<rparr>),
    if_flag := (if_flag m)(a := cpu_ncli c = 1 \<and> intena c), cpus := (cpus m)[i := c']\<rparr>"
  have f: "first_idx (\<lambda>c. apicid c = a) (cpus m) = Some i" and fin: "finite (mholds a m)"
    and le: "int (card (mholds a m)) \<le> cpu_ncli c" and pos: "0 < cpu_ncli c" and off: "\<not> if_flag m a"
    using ok mholds_nest [OF ok l] by (auto simp: mach_ok_def i_def c_def)
  have i: "i < length (cpus m)" "apicid c = a"
    using first_idx_len [OF f] first_idx_sat [OF f] by (simp_all add: c_def)
  have lk: "locked (locks m l) \<noteq> 0" "lk_cpu (locks m l) = Some i"
    using l by (simp_all add: mholds_def i_def)
  have fm: "cpus m' = (cpus m)[i := c']" "if_flag m' = (if_flag m)(a := cpu_ncli c = 1 \<and> intena c)"
    "locks m' = (locks m)(l := (locks m l)\<lparr>lk_pcs := (lk_pcs (locks m l))[0 := 0], lk_cpu := None, locked := 0\<rparr>)"
    by (simp_all add: m'_def)
  have c': "apicid c' = a" "cpu_ncli c' = cpu_ncli c - 1" "intena c' = intena c"
    using i by (simp_all add: c'_def)
  have f': "first_idx (\<lambda>c. apicid c = a) ((cpus m)[i := c']) = Some i"
    using first_idx_upd [OF f, of c'] i c' by (simp add: c_def)
  have i': "cpu_idx m' a = i" by (simp add: cpu_idx_def fm f')
  have h: "mholds a m' = mholds a m - {l}"
    by (auto simp: mholds_def i' i_def [symmetric] fm split: if_splits)
  have n: "cpus m' ! i = c'" using i by (simp add: fm)
  have nn: "Suc (mnest a m') = mnest a m"
    using pos by (simp add: mnest_def i' n c' i_def [symmetric] c_def [symmetric])
  have card: "int (card (mholds a m - {l})) \<le> cpu_ncli c - 1"
    using mholds_nest [OF ok l] by (simp add: i_def c_def)
  have "release m a l = Inr m'"
    using f off lk pos by (simp add: release_def release_clear_def holding_def mycpu_def
        release_store_def popcli_seq [where c = c] c_def) (simp add: m'_def c'_def c_def)
  moreover have "mach_ok a m'"
    using f' fin h card i(1) nn by (auto simp: mach_ok_def i' c' fm mnest_def)
  moreover have "irq a m' = irq a m"
    using pos i(1) by (simp add: irq_def i' c' fm mnest_def) (auto simp: i_def c_def)
  ultimately show ?thesis using h nn by (auto simp: fm)
qed

lemma acquire_self:
  assumes ok: "mach_ok a m" and l: "l \<in> mholds a m"
  shows "acquire m a l v = panic ''acquire''"
proof -
  define i where "i = cpu_idx m a"
  have f: "first_idx (\<lambda>c. apicid c = a) (cpus m) = Some i"
    using ok by (simp add: mach_ok_def i_def)
  note len = first_idx_len [OF f] first_idx_sat [OF f]
  have "locked (locks m l) \<noteq> 0" "lk_cpu (locks m l) = Some i"
    using l by (simp_all add: mholds_def i_def)
  with f len mholds_nest [OF ok l] show ?thesis
    by (simp add: acquire_def acquire_enter_def pushcli_def mycpu_def holding_def Let_def
        first_idx_upd i_def)
qed

lemma release_not_held:
  assumes ok: "mach_ok a m" and l: "l \<notin> mholds a m" and n: "locked (locks m l) = 0 \<or> mnest a m \<noteq> 0"
  shows "release m a l = panic ''release''"
proof -
  have f: "first_idx (\<lambda>c. apicid c = a) (cpus m) = Some (cpu_idx m a)" and "mnest a m \<noteq> 0 \<longrightarrow> \<not> if_flag m a"
    using ok by (simp_all add: mach_ok_def)
  with l n show ?thesis
    by (auto simp: release_def release_clear_def holding_def mycpu_def mholds_def)
qed

interpretation ml: spin_iface "\<lambda>l m. acquire m a l v" "\<lambda>l m. release m a l" "mholds a"
    "\<lambda>m l. locked (locks m l) = 0" "mnest a" "mach_ok a" for a v
proof (unfold_locales, goal_cases)
  case (1 s l)
  from acquire_seq [OF this] show ?case by blast
next
  case (2 s l)
  then show ?case by (rule acquire_self)
next
  case (3 s l)
  from release_seq [OF this] show ?case by blast
next
  case (4 s l)
  then show ?case by (intro release_not_held)
next
  case (5 s l)
  then show ?case by (simp add: mholds_def)
qed

text \<open>The lock code also keeps the interrupt state the outermost \<open>pushcli\<close> saved.\<close>

locale spin_irq = spin_iface +
  fixes intr :: "'a \<Rightarrow> bool"
  assumes acq_intr: "ok s \<Longrightarrow> free s l \<Longrightarrow> acq l s = Inr s' \<Longrightarrow> intr s' = intr s"
    and rel_intr: "ok s \<Longrightarrow> l \<in> holds s \<Longrightarrow> rel l s = Inr s' \<Longrightarrow> intr s' = intr s"
begin

lemma acq_all_intr:
  assumes "ok s" "distinct ls" "\<forall>l \<in> set ls. free s l" "foldM acq ls s = Inr s'"
  shows "intr s' = intr s"
  using assms
proof (induction ls arbitrary: s)
  case (Cons l ls)
  then obtain s1 where "acq l s = Inr s1" "ok s1" "\<forall>k. free s1 k \<longleftrightarrow> free s k \<and> k \<noteq> l" "foldM acq ls s1 = Inr s'"
    using acq_ok [of s l] by (auto simp: bnd_eq_Inr)
  with Cons.prems Cons.IH [of s1] acq_intr [of s l s1] show ?case by auto
qed simp

lemma rel_all_intr:
  assumes "ok s" "distinct ls" "set ls \<subseteq> holds s" "foldM rel ls s = Inr s'"
  shows "intr s' = intr s"
  using assms
proof (induction ls arbitrary: s)
  case (Cons l ls)
  then obtain s1 where "rel l s = Inr s1" "ok s1" "holds s1 = holds s - {l}" "foldM rel ls s1 = Inr s'"
    using rel_ok [of s l] by (auto simp: bnd_eq_Inr)
  with Cons.prems Cons.IH [of s1] rel_intr [of s l s1] show ?case by auto
qed simp

lemma nested_intr:
  assumes "ok s" "distinct ls" "\<forall>l \<in> set ls. free s l" "distinct ks" "set ks = set ls"
  shows "\<exists>s1 s2. foldM acq ls s = Inr s1 \<and> holds s1 = holds s \<union> set ls \<and> foldM rel ks s1 = Inr s2 \<and>
    holds s2 = holds s \<and> nest s2 = nest s \<and> intr s2 = intr s"
proof -
  obtain s1 s2 where s: "foldM acq ls s = Inr s1" "holds s1 = holds s \<union> set ls"
      "foldM rel ks s1 = Inr s2" "holds s2 = holds s" "nest s2 = nest s"
    using nested [OF assms] by auto
  have "ok s1" using acq_all [OF assms(1-3)] s by auto
  with s assms acq_all_intr [OF assms(1-3) s(1)] rel_all_intr [of s1 ks s2]
  show ?thesis by auto
qed

end

interpretation mi: spin_irq "\<lambda>l m. acquire m a l v" "\<lambda>l m. release m a l" "mholds a"
    "\<lambda>m l. locked (locks m l) = 0" "mnest a" "mach_ok a" "irq a" for a v
proof unfold_locales
  fix s s' :: mach and l
  show "irq a s' = irq a s"
    if "mach_ok a s" "locked (locks s l) = 0" "acquire s a l v = Inr s'"
    using acquire_seq [OF that(1,2), of v] that(3) by auto
  show "irq a s' = irq a s" if "mach_ok a s" "l \<in> mholds a s" "release s a l = Inr s'"
    using release_seq [OF that(1,2)] that(3) by auto
qed

subsection \<open>Properties\<close>

text \<open>C3: In every reachable interleaving of processors running the lock code, a spin lock has at
  most one owner between the successful \<open>xchg\<close> of \<open>acquire\<close> and the store of \<open>release\<close>, and the
  owner runs with interrupts off and a positive \<open>ncli\<close>.\<close>

theorem spinlock_mutual_exclusion:
  assumes "lock_reach s" "owns s a l"
  shows "(\<forall>b. owns s b l \<longrightarrow> b = a) \<and>
    (\<forall>i < length (cpus (hw s)). apicid (cpus (hw s) ! i) = a \<longrightarrow>
       \<not> if_flag (hw s) a \<and> 0 < cpu_ncli (cpus (hw s) ! i))"
  using owns_unique [OF lock_reach_word_inv [OF assms(1)] _ assms(2)]
    owned_if_off [OF lock_reach_cli_inv [OF assms(1)]] assms(2) by blast

definition boot_mach :: mach where
  "boot_mach = \<lparr>locks = \<lambda>_. \<lparr>locked = 0, lk_name = [], lk_cpu = None, lk_pcs = replicate 10 0\<rparr>,
     cpus = [\<lparr>apicid = 0, cpu_ncli = 0, intena = False\<rparr>, \<lparr>apicid = 2, cpu_ncli = 0, intena = False\<rparr>],
     if_flag = (\<lambda>_. True), stack = (\<lambda>_. 0)\<rparr>"

definition boot_sys :: sys where
  "boot_sys = \<lparr>hw = boot_mach, ph = \<lambda>_. Run, depth = \<lambda>_. 0\<rparr>"

lemma boot_reach: "lock_reach boot_sys"
  by (rule r_start) (simp add: lock_init_def boot_sys_def boot_mach_def)

lemma boot_acquired:
  "\<exists>s. lock_reach s \<and> ph s 2 = Run \<and> owns s 2 L_ptable \<and> \<not> owns s 0 L_ptable \<and>
     1 < length (cpus (hw s)) \<and> apicid (cpus (hw s) ! 1) = 2"
proof -
  obtain m1 where m1: "Inr m1 = acquire_enter boot_mach 2 L_ptable" "locks m1 = locks boot_mach"
      "cpus m1 = [\<lparr>apicid = 0, cpu_ncli = 0, intena = False\<rparr>, \<lparr>apicid = 2, cpu_ncli = 1, intena = True\<rparr>]"
      "\<not> if_flag m1 2"
    by (simp add: acquire_enter_def pushcli_def mycpu_def holding_def boot_mach_def)
  let ?s1 = "boot_sys\<lparr>hw := m1, ph := (ph boot_sys)(2 := Spin L_ptable)\<rparr>"
  have r1: "lock_reach ?s1"
    by (rule r_step [OF boot_reach]) (rule s_enter, simp_all add: boot_sys_def m1(1) [symmetric])
  let ?m2 = "snd (xchg_locked m1 L_ptable)"
  let ?s2 = "?s1\<lparr>hw := ?m2, ph := (ph ?s1)(2 := Got L_ptable)\<rparr>"
  have r2: "lock_reach ?s2"
    by (rule r_step [OF r1], rule s_take [where old = 0])
      (simp_all add: xchg_locked_def m1(2) boot_mach_def)
  have "acquire_record ?m2 2 L_ptable 0 = Inr (?m2\<lparr>locks := (locks ?m2)(L_ptable :=
      (locks ?m2 L_ptable)\<lparr>lk_cpu := Some 1, lk_pcs := getcallerpcs (stack ?m2) 0\<rparr>)\<rparr>)" (is "_ = Inr ?m3")
    using m1(3,4) by (simp add: acquire_record_def mycpu_def xchg_locked_def)
  then have "lock_reach (?s2\<lparr>hw := ?m3, ph := (ph ?s2)(2 := Run)\<rparr>)"
    by (intro r_step [OF r2] s_record [where v = 0 and l = L_ptable]) simp_all
  moreover have "owns (?s2\<lparr>hw := ?m3, ph := (ph ?s2)(2 := Run)\<rparr>) 2 L_ptable"
    "\<not> owns (?s2\<lparr>hw := ?m3, ph := (ph ?s2)(2 := Run)\<rparr>) 0 L_ptable"
    by (auto simp: owns_def xchg_locked_def m1(3) boot_sys_def)
  moreover have "ph (?s2\<lparr>hw := ?m3, ph := (ph ?s2)(2 := Run)\<rparr>) 2 = Run"
    "1 < length (cpus (hw (?s2\<lparr>hw := ?m3, ph := (ph ?s2)(2 := Run)\<rparr>)))"
    "apicid (cpus (hw (?s2\<lparr>hw := ?m3, ph := (ph ?s2)(2 := Run)\<rparr>)) ! 1) = 2"
    by (simp_all add: xchg_locked_def m1(3))
  ultimately show ?thesis by blast
qed

theorem spinlock_mutual_exclusion_witness:
  "\<exists>s. lock_reach s \<and> owns s 2 L_ptable \<and> (\<forall>b. owns s b L_ptable \<longrightarrow> b = 2) \<and> \<not> if_flag (hw s) 2"
  using boot_acquired spinlock_mutual_exclusion by blast

text \<open>C22: In every reachable interleaving, \<open>release\<close> of a lock its processor owns returns: neither the
  ownership check nor the \<open>popcli\<close> underflow and interrupt checks can panic.\<close>

theorem release_never_panics:
  assumes "lock_reach s" "i < length (cpus (hw s))" "apicid (cpus (hw s) ! i) = a"
    and "ph s a = Run" "owns s a l"
  shows "\<exists>m. release (hw s) a l = Inr m"
  using release_owned [OF lock_reach_word_inv [OF assms(1)] lock_reach_cli_inv [OF assms(1)]] assms(2-)
  by blast

theorem release_never_panics_witness:
  "\<exists>s m. lock_reach s \<and> owns s 2 L_ptable \<and> release (hw s) 2 L_ptable = Inr m"
  using boot_acquired release_never_panics by blast

text \<open>C23: On one processor, acquiring any distinct free locks and releasing them in any order
  returns, leaves it holding what it held before, and restores the nesting depth and the
  interrupt flag saved by the outermost \<open>pushcli\<close>.\<close>

theorem critical_sections_nest:
  assumes "mach_ok a m" "distinct ls" "\<forall>l \<in> set ls. locked (locks m l) = 0"
    and "distinct ks" "set ks = set ls"
  shows "\<exists>m1 m2. foldM (\<lambda>l m. acquire m a l v) ls m = Inr m1 \<and> mholds a m1 = mholds a m \<union> set ls \<and>
    foldM (\<lambda>l m. release m a l) ks m1 = Inr m2 \<and>
    mholds a m2 = mholds a m \<and> mnest a m2 = mnest a m \<and> irq a m2 = irq a m"
  using assms by (rule mi.nested_intr)

theorem critical_sections_nest_witness:
  "\<exists>m1 m2. foldM (\<lambda>l m. acquire m 2 l 0) [L_ptable, L_kmem] boot_mach = Inr m1 \<and>
    mholds 2 m1 = {L_ptable, L_kmem} \<and>
    foldM (\<lambda>l m. release m 2 l) [L_ptable, L_kmem] m1 = Inr m2 \<and> mnest 2 m2 = 0 \<and> irq 2 m2"
proof -
  have "mholds 2 boot_mach = {}" "mach_ok 2 boot_mach" "mnest 2 boot_mach = 0" "irq 2 boot_mach"
    by (simp_all add: boot_mach_def mholds_def mach_ok_def cpu_idx_def mnest_def irq_def)
  then show ?thesis
    using critical_sections_nest [of 2 boot_mach "[L_ptable, L_kmem]" "[L_ptable, L_kmem]" 0]
    by (auto simp: boot_mach_def [THEN arg_cong, of locks])
qed

end
