(* ===== verification/Kalloc.thy ===== *)
theory Kalloc
  imports Bytes Spinlock
begin

text \<open>
  The physical page allocator, \<^verbatim>\<open>kalloc.c\<close>. Free pages are linked through their own first word,
  so the free list lives in the byte memory itself. \<open>kend\<close> is the linker symbol \<open>end\<close>. The
  allocator implements the interface \<open>page_alloc\<close>: what it hands out comes from a finite stock
  of pages, each page at most once.
\<close>

definition PHYSTOP :: u32 where
  "PHYSTOP = 0xE000000"

definition V2P :: "u32 \<Rightarrow> u32" where
  "V2P a = a - KERNBASE"

definition P2V :: "u32 \<Rightarrow> u32" where
  "P2V a = a + KERNBASE"

record kmem = kcpu +
  use_lock :: bool
  freelist :: u32
  kend :: u32
  mem :: mem

definition kmem_acquire :: "'a kmem_scheme \<Rightarrow> 'a kmem_scheme res" where
  "kmem_acquire s = (if use_lock s then lock L_kmem s else Ok s)"

definition kmem_release :: "'a kmem_scheme \<Rightarrow> 'a kmem_scheme res" where
  "kmem_release s = (if use_lock s then unlock L_kmem s else Ok s)"

definition kfree :: "u32 \<Rightarrow> 'a kmem_scheme \<Rightarrow> 'a kmem_scheme res" where
  "kfree v s =
     (if v mod PGSIZE \<noteq> 0 \<or> v < kend s \<or> PHYSTOP \<le> V2P v then panic ''kfree''
      else
        let s = s\<lparr>mem := fill (mem s) v 1 4096\<rparr> in
        bnd (kmem_acquire s) (\<lambda>s.
        kmem_release (s\<lparr>mem := st32 (mem s) v (freelist s), freelist := v\<rparr>)))"

definition kalloc :: "'a kmem_scheme \<Rightarrow> (u32 \<times> 'a kmem_scheme) res" where
  "kalloc s =
     bnd (kmem_acquire s) (\<lambda>s.
     let r = freelist s;
         s = (if r \<noteq> 0 then s\<lparr>freelist := ld32 (mem s) r\<rparr> else s)
     in bnd (kmem_release s) (\<lambda>s. Ok (r, s)))"

text \<open>A page \<open>kfree\<close> accepts.\<close>

definition kpage :: "'a kmem_scheme \<Rightarrow> u32 \<Rightarrow> bool" where
  "kpage s v \<longleftrightarrow> aligned v \<and> kend s \<le> v \<and> V2P v < PHYSTOP"

lemma aligned_word_mod: "aligned v \<longleftrightarrow> v mod PGSIZE = 0"
proof -
  have "unat (v mod PGSIZE) = unat v mod 4096" by (simp add: unat_mod_distrib PGSIZE_def)
  then show ?thesis by (metis aligned_mod unat_eq_zero)
qed

lemma kfree_accepts: "kpage s v \<longleftrightarrow> \<not> (v mod PGSIZE \<noteq> 0 \<or> v < kend s \<or> PHYSTOP \<le> V2P v)"
  unfolding kpage_def aligned_word_mod by (metis not_less)

lemma V2P_range: "V2P v < PHYSTOP \<Longrightarrow> 0x80000000 \<le> unat v \<and> unat v < 0x8E000000"
proof -
  assume "V2P v < PHYSTOP"
  then have "unat (v - 0x80000000) < 0xE000000"
    by (simp add: V2P_def KERNBASE_def PHYSTOP_def word_less_nat_alt)
  then show ?thesis
    using unsigned_less [of v, where ?'a = nat]
    by (auto simp: unat_diff_mod word_le_nat_alt split: if_splits)
qed

lemma kpage_nonnull: "kpage s v \<Longrightarrow> v \<noteq> 0"
  using V2P_range by (force simp: kpage_def)

lemma kpage_next: "V2P v < PHYSTOP \<Longrightarrow> unat (v + 4096) = unat v + 4096"
  using V2P_range [of v] by (simp add: unat_word_ariths)

lemma kfree_Inr: "kfree v s = Inr s' \<Longrightarrow> V2P v < PHYSTOP"
  by (auto simp: kfree_def not_le split: if_splits)

function freerange_loop :: "u32 \<Rightarrow> u32 \<Rightarrow> 'a kmem_scheme \<Rightarrow> 'a kmem_scheme res" where
  "freerange_loop p vend s =
     (if p + PGSIZE \<le> vend then bnd (kfree p s) (\<lambda>s. freerange_loop (p + PGSIZE) vend s) else Ok s)"
  by pat_completeness auto
termination
proof (relation "measure (\<lambda>(p, vend, s). 2 ^ 32 - unat p)", simp, clarsimp)
  fix p vend :: u32 and s s' :: "'a kmem_scheme"
  assume "kfree p s = Inr s'"
  then have "V2P p < PHYSTOP" by (rule kfree_Inr)
  from V2P_range [OF this] kpage_next [OF this]
  show "4294967296 - unat (p + PGSIZE) < 4294967296 - unat p"
    by (simp only: PGSIZE_def) linarith
qed

declare freerange_loop.simps [simp del]

definition freerange :: "u32 \<Rightarrow> u32 \<Rightarrow> 'a kmem_scheme \<Rightarrow> 'a kmem_scheme res" where
  "freerange vstart vend s = freerange_loop (PGROUNDUP vstart) vend s"

definition kinit1 :: "u32 \<Rightarrow> u32 \<Rightarrow> 'a kmem_scheme \<Rightarrow> 'a kmem_scheme res" where
  "kinit1 vstart vend s = freerange vstart vend (s\<lparr>use_lock := False\<rparr>)"

definition kinit2 :: "u32 \<Rightarrow> u32 \<Rightarrow> 'a kmem_scheme \<Rightarrow> 'a kmem_scheme res" where
  "kinit2 vstart vend s = bnd (freerange vstart vend s) (\<lambda>s. Ok (s\<lparr>use_lock := True\<rparr>))"

subsection \<open>The free list\<close>

definition ptr :: "u32 \<Rightarrow> u32 option" where
  "ptr a = (if a = 0 then None else Some a)"

definition free_pages :: "'a kmem_scheme \<Rightarrow> u32 list \<Rightarrow> bool" where
  "free_pages s ps \<longleftrightarrow> chain (\<lambda>p. ptr (ld32 (mem s) p)) (ptr (freelist s)) ps \<and> (\<forall>p \<in> set ps. kpage s p)"

definition stock :: "'a kmem_scheme \<Rightarrow> u32 set" where
  "stock s = {p. \<exists>ps. free_pages s ps \<and> p \<in> set ps}"

definition kmem_ok :: "'a kmem_scheme \<Rightarrow> bool" where
  "kmem_ok s \<longleftrightarrow> L_kmem \<notin> set (held s) \<and> (\<exists>ps. free_pages s ps)"

lemma ptr_eq [simp]: "ptr a = Some b \<longleftrightarrow> a \<noteq> 0 \<and> b = a" "ptr a = None \<longleftrightarrow> a = 0"
  by (auto simp: ptr_def)

lemma free_pages_unique: "free_pages s ps \<Longrightarrow> free_pages s qs \<Longrightarrow> ps = qs"
  by (auto simp: free_pages_def intro: chain_unique)

lemma stock_eq: "free_pages s ps \<Longrightarrow> stock s = set ps"
  by (auto simp: stock_def dest: free_pages_unique)

lemma free_pages_distinct: "free_pages s ps \<Longrightarrow> distinct ps"
  by (auto simp: free_pages_def dest: chain_distinct)

text \<open>The two operations with their locking resolved.\<close>

lemma kalloc_eval:
  assumes "L_kmem \<notin> set (held s)"
  shows "kalloc s = Ok (freelist s,
    if freelist s = 0 then s else s\<lparr>freelist := ld32 (mem s) (freelist s)\<rparr>)"
  using assms by (auto simp: kalloc_def kmem_acquire_def kmem_release_def Let_def intro!: kmem.equality)

lemma kfree_eval:
  assumes "L_kmem \<notin> set (held s)" "kpage s v"
  shows "kfree v s = Ok (s\<lparr>mem := st32 (fill (mem s) v 1 4096) v (freelist s), freelist := v\<rparr>)"
  using assms(1) assms(2) [unfolded kfree_accepts]
  by (auto simp: kfree_def kmem_acquire_def kmem_release_def Let_def intro!: kmem.equality)

lemma kfree_rejects: "\<not> kpage s v \<Longrightarrow> kfree v s = panic ''kfree''"
  unfolding kfree_accepts by (simp add: kfree_def)

lemma kalloc_free_pages:
  assumes "L_kmem \<notin> set (held s)" "free_pages s (p # ps)"
  shows "kalloc s = Ok (p, s\<lparr>freelist := ld32 (mem s) p\<rparr>) \<and> free_pages (s\<lparr>freelist := ld32 (mem s) p\<rparr>) ps"
  using assms kpage_nonnull by (auto simp: kalloc_eval free_pages_def kpage_def)

lemma kalloc_empty: "L_kmem \<notin> set (held s) \<Longrightarrow> free_pages s [] \<Longrightarrow> kalloc s = Ok (0, s)"
  by (simp add: kalloc_eval free_pages_def)

lemma kfree_free_pages:
  assumes "L_kmem \<notin> set (held s)" "free_pages s ps" "kpage s v" "v \<notin> set ps"
  shows "\<exists>s'. kfree v s = Ok s' \<and> free_pages s' (v # ps) \<and> (\<forall>a. \<not> in_page v a \<longrightarrow> mem s' a = mem s a)"
proof -
  let ?m = "st32 (fill (mem s) v 1 4096) v (freelist s)"
  have frame: "?m a = mem s a" if "\<not> in_page v a" for a
    using that by (simp add: st32_page fill_page)
  have "ld32 ?m p = ld32 (mem s) p" if "p \<in> set ps" for p
    using that assms frame by (intro ld32_frame [of v p]) (auto simp: free_pages_def kpage_def)
  then have "chain (\<lambda>p. ptr (ld32 ?m p)) (ptr (freelist s)) ps"
    using assms(2) chain_cong [of ps "\<lambda>p. ptr (ld32 ?m p)" "\<lambda>p. ptr (ld32 (mem s) p)"]
    by (auto simp: free_pages_def)
  with assms frame kpage_nonnull [OF assms(3)] show ?thesis
    by (auto simp: kfree_eval free_pages_def kpage_def)
qed

subsection \<open>The allocator interface\<close>

text \<open>
  \<open>bytes\<close> is the memory clients see and \<open>page_of\<close> the pages the allocator manages. A client that
  only touches pages it was handed keeps \<open>ok\<close>: that is the law \<open>write_ok\<close>.
\<close>

text \<open>\<open>n\<close> allocations in a row.\<close>

primrec take_pages :: "('s \<Rightarrow> (u32 \<times> 's) res) \<Rightarrow> nat \<Rightarrow> 's \<Rightarrow> (u32 list \<times> 's) res" where
  "take_pages alloc 0 s = Ok ([], s)"
| "take_pages alloc (Suc n) s =
     bnd (alloc s) (\<lambda>(p, s). bnd (take_pages alloc n s) (\<lambda>(ps, s). Ok (p # ps, s)))"

locale page_alloc =
  fixes alloc :: "'s \<Rightarrow> (u32 \<times> 's) res" and free :: "u32 \<Rightarrow> 's \<Rightarrow> 's res"
    and avail :: "'s \<Rightarrow> u32 set" and page :: "'s \<Rightarrow> u32 \<Rightarrow> bool"
    and bytes :: "'s \<Rightarrow> mem" and wr :: "mem \<Rightarrow> 's \<Rightarrow> 's" and ok :: "'s \<Rightarrow> bool"
  assumes avail_finite: "ok s \<Longrightarrow> finite (avail s)"
    and avail_page: "ok s \<Longrightarrow> p \<in> avail s \<Longrightarrow> page s p"
    and page_aligned: "page s p \<Longrightarrow> aligned p \<and> p \<noteq> 0"
    and alloc_some: "ok s \<Longrightarrow> avail s \<noteq> {} \<Longrightarrow> \<exists>p s'. alloc s = Inr (p, s') \<and> p \<in> avail s \<and>
        avail s' = avail s - {p} \<and> ok s' \<and> bytes s' = bytes s \<and> page s' = page s"
    and alloc_none: "ok s \<Longrightarrow> avail s = {} \<Longrightarrow> alloc s = Inr (0, s)"
    and free_ok: "ok s \<Longrightarrow> page s p \<Longrightarrow> p \<notin> avail s \<Longrightarrow> \<exists>s'. free p s = Inr s' \<and>
        avail s' = insert p (avail s) \<and> ok s' \<and> page s' = page s \<and>
        (\<forall>a. \<not> in_page p a \<longrightarrow> bytes s' a = bytes s a)"
    and free_bad: "\<not> page s p \<Longrightarrow> free p s = panic ''kfree''"
    and write_ok: "ok s \<Longrightarrow> \<forall>p \<in> avail s. \<forall>a. in_page p a \<longrightarrow> m a = bytes s a \<Longrightarrow>
        ok (wr m s) \<and> avail (wr m s) = avail s \<and> page (wr m s) = page s \<and> bytes (wr m s) = m"
begin

lemma alloc_total: "ok s \<Longrightarrow> \<exists>p s'. alloc s = Inr (p, s') \<and> ok s' \<and> bytes s' = bytes s \<and> page s' = page s \<and>
    (p = 0 \<and> avail s = {} \<and> s' = s \<or> p \<noteq> 0 \<and> p \<in> avail s \<and> page s p \<and> avail s' = avail s - {p})"
  using alloc_some [of s] alloc_none [of s] avail_page [of s] page_aligned
  by (cases "avail s = {}") (auto, metis)

lemma take_pages_ok:
  assumes "ok s" "n \<le> card (avail s)"
  shows "\<exists>ps s'. take_pages alloc n s = Inr (ps, s') \<and> length ps = n \<and> distinct ps \<and> set ps \<subseteq> avail s \<and>
    avail s' = avail s - set ps \<and> ok s' \<and> bytes s' = bytes s"
  using assms
proof (induction n arbitrary: s)
  case (Suc n)
  then have ne: "avail s \<noteq> {}" by auto
  from alloc_some [OF Suc.prems(1) ne] obtain p s1 where p: "alloc s = Inr (p, s1)" "p \<in> avail s"
      "avail s1 = avail s - {p}" "ok s1" "bytes s1 = bytes s" by auto
  have "n \<le> card (avail s1)"
    using Suc.prems p avail_finite by (simp add: card_Diff_singleton)
  from Suc.IH [OF p(4) this] obtain ps s' where "take_pages alloc n s1 = Inr (ps, s')" "length ps = n"
      "distinct ps" "set ps \<subseteq> avail s1" "avail s' = avail s1 - set ps" "ok s'" "bytes s' = bytes s1"
    by auto
  with p show ?case by auto
qed simp

end

lemma kmem_write_ok:
  assumes "kmem_ok s" "\<forall>p \<in> stock s. \<forall>a. in_page p a \<longrightarrow> m a = mem s a"
  shows "kmem_ok (s\<lparr>mem := m\<rparr>) \<and> stock (s\<lparr>mem := m\<rparr>) = stock s"
proof -
  obtain ps where ps: "free_pages s ps" and l: "L_kmem \<notin> set (held s)"
    using assms(1) by (auto simp: kmem_ok_def)
  have "ld32 m p = ld32 (mem s) p" if "p \<in> set ps" for p
    using assms(2) that stock_eq [OF ps] by (intro ld32_cong) auto
  with ps have "free_pages (s\<lparr>mem := m\<rparr>) ps"
    using chain_cong [of ps "\<lambda>p. ptr (ld32 m p)" "\<lambda>p. ptr (ld32 (mem s) p)"]
    by (auto simp: free_pages_def kpage_def)
  with ps l show ?thesis by (auto simp: kmem_ok_def stock_eq)
qed

lemma kpage_upd [simp]: "kpage (s\<lparr>freelist := f\<rparr>) = kpage s" "kpage (s\<lparr>mem := m\<rparr>) = kpage s"
  by (auto simp: kpage_def)

interpretation ka: page_alloc kalloc kfree stock kpage mem "\<lambda>m s. s\<lparr>mem := m\<rparr>" kmem_ok
proof (unfold_locales, goal_cases)
  case (1 s)
  then show ?case by (auto simp: kmem_ok_def stock_eq)
next
  case (2 s p)
  then show ?case by (auto simp: stock_def free_pages_def)
next
  case (3 s p)
  then show ?case using kpage_nonnull by (auto simp: kpage_def)
next
  case (4 s)
  then obtain qs where qs: "free_pages s qs" "qs \<noteq> []" and l: "L_kmem \<notin> set (held s)"
    by (fastforce simp: kmem_ok_def stock_eq)
  then obtain p ps where ps: "free_pages s (p # ps)" by (cases qs) auto
  have "p \<notin> set ps" using free_pages_distinct [OF ps] by simp
  with kalloc_free_pages [OF l ps] l show ?case
    by (auto simp: stock_eq [OF ps] stock_eq kmem_ok_def)
next
  case (5 s)
  then show ?case by (auto simp: kmem_ok_def stock_eq kalloc_empty)
next
  case (6 s p)
  then obtain ps where ps: "free_pages s ps" and l: "L_kmem \<notin> set (held s)"
    by (auto simp: kmem_ok_def)
  from kfree_free_pages [OF l ps 6(2)] 6(3) stock_eq [OF ps] obtain s' where
    s': "kfree p s = Ok s'" "free_pages s' (p # ps)" "\<forall>a. \<not> in_page p a \<longrightarrow> mem s' a = mem s a" by auto
  have "held s' = held s" "kpage s' = kpage s"
    using s'(1) kfree_eval [OF l] 6(2) by auto
  with s' l show ?case by (auto simp: stock_eq [OF ps] stock_eq kmem_ok_def)
next
  case (7 s p)
  then show ?case by (rule kfree_rejects)
next
  case (8 s m)
  then show ?case using kmem_write_ok by simp
qed

subsection \<open>Filling the stock\<close>

definition page_range :: "u32 \<Rightarrow> u32 \<Rightarrow> u32 set" where
  "page_range lo hi = {p. aligned p \<and> unat lo \<le> unat p \<and> unat p + 4096 \<le> unat hi}"

lemma page_range_step:
  assumes "aligned p" "unat (p + 4096) = unat p + 4096" "unat p + 4096 \<le> unat vend"
  shows "page_range p vend = insert p (page_range (p + 4096) vend) \<and> p \<notin> page_range (p + 4096) vend \<and> aligned (p + 4096)"
proof -
  obtain k where k: "unat p = 4096 * k" using assms(1) by (auto simp: aligned_mod)
  have "unat p + 4096 \<le> unat q" if q: "aligned q" "unat p \<le> unat q" "q \<noteq> p" for q
  proof -
    obtain j where j: "unat q = 4096 * j" using q(1) by (auto simp: aligned_mod)
    have "unat q \<noteq> unat p" using q(3) by (simp add: word_unat_eq_iff)
    with q(2) j k show ?thesis by simp
  qed
  moreover have "aligned (p + 4096)" using assms(1,2) by (simp add: aligned_mod)
  ultimately show ?thesis using assms by (auto simp: page_range_def)
qed

lemma page_range_empty: "unat hi < unat lo + 4096 \<Longrightarrow> page_range lo hi = {}"
  by (auto simp: page_range_def)

lemma kfree_keeps: "kfree v s = Ok s' \<Longrightarrow> kend s' = kend s \<and> use_lock s' = use_lock s"
  by (auto simp: kfree_def kmem_acquire_def kmem_release_def lock_def unlock_def Let_def bnd_eq_Inr split: if_splits)

lemma freerange_loop_fills:
  assumes "kmem_ok s" "aligned p" "kend s \<le> p" "0x80000000 \<le> unat p" "unat p \<le> 0x8E000000"
    and "unat vend \<le> 0x8E000000" and "page_range p vend \<inter> stock s = {}"
  shows "\<exists>s'. freerange_loop p vend s = Ok s' \<and> kmem_ok s' \<and> stock s' = stock s \<union> page_range p vend"
  using assms
proof (induction p vend s rule: freerange_loop.induct)
  case (1 p vend s)
  show ?case
  proof (cases "p + PGSIZE \<le> vend")
    case False
    then have "unat vend < unat p + 4096"
      using 1 by (simp add: PGSIZE_def word_le_nat_alt unat_word_ariths)
    with False 1 show ?thesis by (simp add: freerange_loop.simps page_range_empty)
  next
    case True
    have le: "unat p + 4096 \<le> unat vend" and nx: "unat (p + 4096) = unat p + 4096"
      using True 1(6) by (simp_all add: PGSIZE_def word_le_nat_alt unat_word_ariths)
    note rg = page_range_step [OF 1(3) nx le]
    have "unat (p - 0x80000000) < 0xE000000"
      using 1(5,7) le by (simp add: unat_diff_mod word_le_nat_alt)
    then have kp: "kpage s p"
      using 1(3,4) by (simp add: kpage_def V2P_def KERNBASE_def PHYSTOP_def word_less_nat_alt)
    obtain s1 where s1: "kfree p s = Ok s1" "stock s1 = insert p (stock s)" "kmem_ok s1"
      using ka.free_ok [OF 1(2) kp] 1(8) rg by auto
    have "kend s1 \<le> p + 4096"
      using kfree_keeps [OF s1(1)] 1(4) nx by (simp add: word_le_nat_alt)
    then obtain s' where "freerange_loop (p + 4096) vend s1 = Ok s'" "kmem_ok s'"
        "stock s' = stock s1 \<union> page_range (p + 4096) vend"
      using 1(1) [OF True s1(1)] s1 1(5,7,8) rg nx le by (auto simp: PGSIZE_def)
    with True s1 rg show ?thesis
      by (simp add: freerange_loop.simps [of p] PGSIZE_def)
  qed
qed

lemma PGROUNDUP_unat:
  assumes "unat a + 4095 < 2 ^ 32"
  shows "aligned (PGROUNDUP a) \<and> unat a \<le> unat (PGROUNDUP a) \<and> unat (PGROUNDUP a) < unat a + 4096"
proof -
  have "PGROUNDUP a = PGROUNDDOWN (a + 4095)"
    by (simp add: PGROUNDUP_def PGROUNDDOWN_def PGSIZE_def algebra_simps)
  moreover have "unat (a + 4095) = unat a + 4095"
    using assms by (simp add: unat_word_ariths)
  ultimately have e: "unat (PGROUNDUP a) = unat a + 4095 - (unat a + 4095) mod 4096"
    by (simp add: PGROUNDDOWN_unat)
  have "(unat a + 4095) mod 4096 < 4096" by simp
  with e have "unat a \<le> unat (PGROUNDUP a)" "unat (PGROUNDUP a) < unat a + 4096" by linarith+
  moreover have "unat (PGROUNDUP a) mod 4096 = 0"
    unfolding e by (simp add: minus_mod_eq_mult_div)
  ultimately show ?thesis by (simp add: aligned_mod)
qed

lemma aligned_le_top:
  assumes "aligned p" "unat p < 0x8E000000 + 4096"
  shows "unat p \<le> 0x8E000000"
proof -
  obtain k where k: "unat p = 4096 * k" using assms(1) by (auto simp: aligned_mod)
  with assms(2) have "k \<le> 0x8E000" by simp
  with k show ?thesis by simp
qed

lemma page_range_roundup:
  assumes "unat a + 4095 < 2 ^ 32"
  shows "page_range (PGROUNDUP a) hi = page_range a hi"
proof -
  note r = PGROUNDUP_unat [OF assms]
  have "unat (PGROUNDUP a) \<le> unat p" if al: "aligned p" "unat a \<le> unat p" for p
  proof -
    obtain j where j: "unat p = 4096 * j" using al(1) by (auto simp: aligned_mod)
    obtain k where k: "unat (PGROUNDUP a) = 4096 * k" using r by (auto simp: aligned_mod)
    have "4096 * k < 4096 * Suc j" using r al(2) j k by simp
    then show ?thesis using j k by simp
  qed
  with r show ?thesis by (auto simp: page_range_def intro: le_trans)
qed

subsection \<open>Properties\<close>

text \<open>C16: \<open>kalloc\<close> hands out each free page exactly once: \<open>n\<close> consecutive calls, \<open>n\<close> at most the
  number of free pages, return \<open>n\<close> distinct non-null pages, all taken from the stock, and write
  no memory; with an empty stock it returns 0. Giving a page back restores it to the stock and
  writes only inside that page.\<close>

theorem kalloc_kfree_pages:
  assumes "kmem_ok s"
  shows "(\<forall>n \<le> card (stock s). \<exists>ps s'. take_pages kalloc n s = Ok (ps, s') \<and> length ps = n \<and> distinct ps \<and>
      0 \<notin> set ps \<and> set ps \<subseteq> stock s \<and> stock s' = stock s - set ps \<and> kmem_ok s' \<and> mem s' = mem s) \<and>
    (stock s = {} \<longrightarrow> kalloc s = Ok (0, s)) \<and>
    (\<forall>p. kpage s p \<and> p \<notin> stock s \<longrightarrow> (\<exists>s'. kfree p s = Ok s' \<and> stock s' = insert p (stock s) \<and> kmem_ok s' \<and>
      (\<forall>a. \<not> in_page p a \<longrightarrow> mem s' a = mem s a)))"
proof (intro conjI allI impI)
  have nz: "0 \<notin> stock s" using ka.avail_page [OF assms] kpage_nonnull by blast
  fix n assume "n \<le> card (stock s)"
  from ka.take_pages_ok [OF assms this] nz
  show "\<exists>ps s'. take_pages kalloc n s = Ok (ps, s') \<and> length ps = n \<and> distinct ps \<and>
      0 \<notin> set ps \<and> set ps \<subseteq> stock s \<and> stock s' = stock s - set ps \<and> kmem_ok s' \<and> mem s' = mem s"
    by blast
next
  show "kalloc s = Ok (0, s)" if "stock s = {}" using ka.alloc_none [OF assms that] .
next
  fix p assume "kpage s p \<and> p \<notin> stock s"
  then show "\<exists>s'. kfree p s = Ok s' \<and> stock s' = insert p (stock s) \<and> kmem_ok s' \<and>
      (\<forall>a. \<not> in_page p a \<longrightarrow> mem s' a = mem s a)"
    using ka.free_ok [OF assms, of p] by blast
qed

definition boot_kmem :: kmem where
  "boot_kmem = \<lparr>held = [], ncli = 0, use_lock = False, freelist = 0, kend = 0x80115000, mem = \<lambda>_. 0\<rparr>"

lemma boot_kmem_ok: "kmem_ok boot_kmem \<and> stock boot_kmem = {}"
proof -
  have "free_pages boot_kmem []" by (simp add: free_pages_def boot_kmem_def)
  then show ?thesis by (auto simp: kmem_ok_def stock_eq) (auto simp: boot_kmem_def)
qed

theorem kalloc_kfree_pages_witness:
  "kmem_ok boot_kmem \<and> kalloc boot_kmem = Ok (0, boot_kmem) \<and>
   (\<exists>s'. kfree 0x80200000 boot_kmem = Ok s' \<and> stock s' = {0x80200000} \<and> kmem_ok s')"
proof -
  have "kpage boot_kmem 0x80200000"
    by (simp add: kpage_def boot_kmem_def aligned_def V2P_def KERNBASE_def PHYSTOP_def)
  with boot_kmem_ok kalloc_kfree_pages [of boot_kmem] show ?thesis by auto
qed

text \<open>C33: \<open>kinit1\<close> returns and the stock is exactly the whole pages inside \<open>[vstart, vend)\<close>, whatever the
  alignment of the bounds, provided the range lies above the kernel image and below
  \<open>KERNBASE + PHYSTOP\<close>; no page of the range is lost and none outside it is added.\<close>

theorem kinit1_stock:
  assumes "kmem_ok s" "stock s = {}" "kend s \<le> vstart" "KERNBASE \<le> vstart" "vstart \<le> vend"
    and "V2P vend \<le> PHYSTOP"
  shows "\<exists>s'. kinit1 vstart vend s = Ok s' \<and> kmem_ok s' \<and>
    stock s' = {p. aligned p \<and> unat vstart \<le> unat p \<and> unat p + 4096 \<le> unat vend}"
proof -
  have lo: "0x80000000 \<le> unat vstart" and hi: "unat vend \<le> 0x8E000000"
    using assms(4-) by (auto simp: KERNBASE_def V2P_def PHYSTOP_def word_le_nat_alt unat_diff_mod)
  have le: "unat vstart \<le> unat vend" using assms(5) by (simp add: word_le_nat_alt)
  note r = PGROUNDUP_unat [of vstart]
  have rr: "unat vstart + 4095 < 2 ^ 32" using hi le by simp
  let ?s = "s\<lparr>use_lock := False\<rparr>"
  have ok: "kmem_ok ?s" "stock ?s = {}"
    using assms(1,2) by (simp_all add: kmem_ok_def stock_def free_pages_def kpage_def)
  have "unat (PGROUNDUP vstart) \<le> 0x8E000000"
    using r [OF rr] hi le aligned_le_top [of "PGROUNDUP vstart"] by linarith
  then have "\<exists>s'. freerange_loop (PGROUNDUP vstart) vend ?s = Ok s' \<and> kmem_ok s' \<and>
      stock s' = stock ?s \<union> page_range (PGROUNDUP vstart) vend"
    using freerange_loop_fills [OF ok(1), of "PGROUNDUP vstart" vend] r [OF rr] assms(3) lo hi ok(2)
    by (auto simp: word_le_nat_alt)
  then show ?thesis
    using ok(2) page_range_roundup [OF rr] by (auto simp: kinit1_def freerange_def page_range_def)
qed

theorem kinit1_stock_witness:
  "\<exists>s'. kinit1 0x80115123 0x80118fff boot_kmem = Ok s' \<and> kmem_ok s' \<and>
    stock s' = {p. aligned p \<and> 0x80115123 \<le> unat p \<and> unat p + 4096 \<le> 0x80118fff}"
  using kinit1_stock [of boot_kmem "0x80115123" "0x80118fff"] boot_kmem_ok
  by (simp add: boot_kmem_def KERNBASE_def V2P_def PHYSTOP_def)

end
