(* ===== verification/Proc.thy ===== *)
theory Proc
  imports Kalloc
begin

text \<open>
  The process table and the primitives of \<^verbatim>\<open>proc.c\<close> that suspend, wake and kill processes:
  \<open>sched\<close>, \<open>yield\<close>, \<open>sleep\<close>, \<open>wakeup1\<close>, \<open>wakeup\<close>, \<open>kill\<close>, and the pipe numbers a parent leaves for
  its child. A process pointer is the index of its slot in \<open>ptable.proc\<close>.

  A wait channel is an address the kernel only compares; \<open>chan\<close> lists the objects whose
  addresses are used. A function that calls \<open>sched\<close> is cut there: what runs before the context
  switch, and what runs once \<open>scheduler\<close> has switched back.
\<close>

definition NPROC :: nat where
  "NPROC = 64"

definition NOFILE :: nat where
  "NOFILE = 16"

definition MUX_MAXNUM :: nat where
  "MUX_MAXNUM = 16"

definition SHM_MAXNUM :: nat where
  "SHM_MAXNUM = 16"

datatype procstate = UNUSED | EMBRYO | SLEEPING | RUNNABLE | RUNNING | ZOMBIE

datatype chan =
    Ch_proc nat | Ch_ticks | Ch_nread nat | Ch_nwrite nat | Ch_log | Ch_buf nat | Ch_sleeplock lockid
  | Ch_mutex nat | Ch_input

record shm_proc_info =
  shp_name :: string
  shp_addr :: u32

record proc =
  p_sz :: u32
  p_pgdir :: u32
  p_kstack :: u32
  p_state :: procstate
  p_pid :: int
  p_parent :: "nat option"
  p_tf :: u32
  p_context :: u32
  p_chan :: "chan option"
  p_killed :: bool
  p_ofile :: "nat option list"
  p_cwd :: "nat option"
  p_name :: string
  p_priority :: int
  p_next :: "nat option"
  p_shms :: "shm_proc_info list"
  p_locks :: "int list"
  p_ticks :: int
  p_cid :: int
  p_path :: string
  p_pipein :: int
  p_pipeout :: int

record ptable = kmem +
  procs :: "proc list"
  cur :: "nat option"
  nextpid :: int
  initproc :: "nat option"
  kpgdir :: u32
  cr3 :: u32
  ts_esp0 :: u32

text \<open>
  \<open>kpgdir\<close> is the scheduler's page table; \<open>cr3\<close> and \<open>ts_esp0\<close> are the page-table register and
  the kernel stack pointer of the task state segment.
  \<open>cur\<close> is \<open>mycpu()->proc\<close>: \<open>myproc\<close> reads it with interrupts off, so no other code of this
  processor runs in between. Dereferencing it when no process runs is a fault.
\<close>

definition myproc :: "'a ptable_scheme \<Rightarrow> nat res" where
  "myproc s = (case cur s of None \<Rightarrow> fault ''myproc'' | Some i \<Rightarrow> Ok i)"

definition upd_proc :: "nat \<Rightarrow> (proc \<Rightarrow> proc) \<Rightarrow> 'a ptable_scheme \<Rightarrow> 'a ptable_scheme" where
  "upd_proc i f s = s\<lparr>procs := (procs s)[i := f (procs s ! i)]\<rparr>"

text \<open>Loading the address space of a process, and the kernel's own (\<^verbatim>\<open>vm.c\<close>).\<close>

definition KSTACKSIZE :: u32 where
  "KSTACKSIZE = 4096"

definition switchuvm :: "nat \<Rightarrow> 'a ptable_scheme \<Rightarrow> 'a ptable_scheme res" where
  "switchuvm p s =
     (if p_kstack (procs s ! p) = 0 then panic ''switchuvm: no kstack''
      else if p_pgdir (procs s ! p) = 0 then panic ''switchuvm: no pgdir''
      else Ok (s\<lparr>ts_esp0 := p_kstack (procs s ! p) + KSTACKSIZE, cr3 := V2P (p_pgdir (procs s ! p))\<rparr>))"

definition switchkvm :: "'a ptable_scheme \<Rightarrow> 'a ptable_scheme" where
  "switchkvm s = s\<lparr>cr3 := V2P (kpgdir s)\<rparr>"

subsection \<open>Giving up the processor\<close>

text \<open>
  \<open>sched\<close> up to its \<open>swtch\<close>: the four checks. Interrupts are off exactly when \<open>ncli\<close> is
  positive, which the second check establishes, so the fourth cannot fail.
  \<open>scheduler_back\<close> is what \<open>scheduler\<close> does after the process has switched to it.
\<close>

definition sched :: "'a ptable_scheme \<Rightarrow> 'a ptable_scheme res" where
  "sched s =
     bnd (myproc s) (\<lambda>p.
     if L_ptable \<notin> set (held s) then panic ''sched ptable.lock''
     else if ncli s \<noteq> 1 then panic ''sched locks''
     else if p_state (procs s ! p) = RUNNING then panic ''sched running''
     else Ok s)"

definition scheduler_back :: "'a ptable_scheme \<Rightarrow> 'a ptable_scheme res" where
  "scheduler_back s = unlock L_ptable ((switchkvm s)\<lparr>cur := None\<rparr>)"

definition yield_out :: "'a ptable_scheme \<Rightarrow> 'a ptable_scheme res" where
  "yield_out s =
     bnd (lock L_ptable s) (\<lambda>s.
     bnd (myproc s) (\<lambda>p.
     sched (upd_proc p (\<lambda>x. x\<lparr>p_state := RUNNABLE\<rparr>) s)))"

definition yield_in :: "'a ptable_scheme \<Rightarrow> 'a ptable_scheme res" where
  "yield_in s = unlock L_ptable s"

definition sleep_out :: "chan option \<Rightarrow> lockid \<Rightarrow> 'a ptable_scheme \<Rightarrow> 'a ptable_scheme res" where
  "sleep_out ch lk s =
     (case cur s of None \<Rightarrow> panic ''sleep'' | Some p \<Rightarrow>
        bnd (if lk \<noteq> L_ptable then bnd (lock L_ptable s) (unlock lk) else Ok s) (\<lambda>s.
        sched (upd_proc p (\<lambda>x. x\<lparr>p_chan := ch, p_state := SLEEPING\<rparr>) s)))"

definition sleep_in :: "lockid \<Rightarrow> 'a ptable_scheme \<Rightarrow> 'a ptable_scheme res" where
  "sleep_in lk s =
     bnd (myproc s) (\<lambda>p.
     let s = upd_proc p (\<lambda>x. x\<lparr>p_chan := None\<rparr>) s in
     if lk \<noteq> L_ptable then bnd (unlock L_ptable s) (lock lk) else Ok s)"

subsection \<open>Waking and killing\<close>

definition wakeup1 :: "chan option \<Rightarrow> 'a ptable_scheme \<Rightarrow> 'a ptable_scheme" where
  "wakeup1 ch s = s\<lparr>procs := map (\<lambda>p.
     if p_state p = SLEEPING \<and> p_chan p = ch then p\<lparr>p_state := RUNNABLE\<rparr> else p) (procs s)\<rparr>"

definition wakeup :: "chan option \<Rightarrow> 'a ptable_scheme \<Rightarrow> 'a ptable_scheme res" where
  "wakeup ch s = bnd (lock L_ptable s) (\<lambda>s. unlock L_ptable (wakeup1 ch s))"

definition kill :: "int \<Rightarrow> 'a ptable_scheme \<Rightarrow> (int \<times> 'a ptable_scheme) res" where
  "kill pid s =
     bnd (lock L_ptable s) (\<lambda>s.
     case first_idx (\<lambda>p. p_pid p = pid) (procs s) of
       Some i \<Rightarrow>
         let s = upd_proc i (\<lambda>x. x\<lparr>p_killed := True\<rparr>) s;
             s = (if p_state (procs s ! i) = SLEEPING
                  then upd_proc i (\<lambda>x. x\<lparr>p_state := RUNNABLE\<rparr>) s else s)
         in bnd (unlock L_ptable s) (\<lambda>s. Ok (0, s))
     | None \<Rightarrow> bnd (unlock L_ptable s) (\<lambda>s. Ok (-1, s)))"

subsection \<open>Pipe numbers left for a child\<close>

definition set_proc_pipe :: "int \<Rightarrow> int \<Rightarrow> 'a ptable_scheme \<Rightarrow> (int \<times> 'a ptable_scheme) res" where
  "set_proc_pipe pin pout s =
     bnd (lock L_ptable s) (\<lambda>s.
     bnd (myproc s) (\<lambda>me.
     let s = (case first_idx (\<lambda>p. p_pid p = p_pid (procs s ! me)) (procs s) of
                Some i \<Rightarrow> upd_proc i (\<lambda>x. x\<lparr>p_pipein := pin, p_pipeout := pout\<rparr>) s
              | None \<Rightarrow> s)
     in bnd (unlock L_ptable s) (\<lambda>s. Ok (0, s))))"

text \<open>\<open>fds\<close> keeps its caller's contents when no process has the parent's pid.\<close>

definition get_proc_pipe :: "int \<times> int \<Rightarrow> 'a ptable_scheme \<Rightarrow> ((int \<times> int) \<times> 'a ptable_scheme) res" where
  "get_proc_pipe fds s =
     bnd (lock L_ptable s) (\<lambda>s.
     bnd (myproc s) (\<lambda>me.
     case p_parent (procs s ! me) of None \<Rightarrow> fault ''parent'' | Some pa \<Rightarrow>
       let (fds, s) = (case first_idx (\<lambda>p. p_pid p = p_pid (procs s ! pa)) (procs s) of
                Some i \<Rightarrow> let fds = (p_pipein (procs s ! i), p_pipeout (procs s ! i)) in
                   (fds, upd_proc me (\<lambda>x. x\<lparr>p_pipein := fst fds, p_pipeout := snd fds\<rparr>) s)
              | None \<Rightarrow> (fds, s))
       in bnd (unlock L_ptable s) (\<lambda>s. Ok (fds, s))))"

definition getcid :: "'a ptable_scheme \<Rightarrow> int res" where
  "getcid s = bnd (myproc s) (\<lambda>p. Ok (p_cid (procs s ! p)))"

subsection \<open>Facts\<close>

lemma upd_proc_simps [simp]:
  "length (procs (upd_proc i f s)) = length (procs s)"
  "held (upd_proc i f s) = held s" "ncli (upd_proc i f s) = ncli s" "cur (upd_proc i f s) = cur s"
  "mem (upd_proc i f s) = mem s" "freelist (upd_proc i f s) = freelist s" "kend (upd_proc i f s) = kend s"
  "use_lock (upd_proc i f s) = use_lock s" "nextpid (upd_proc i f s) = nextpid s"
  "initproc (upd_proc i f s) = initproc s" "cr3 (upd_proc i f s) = cr3 s" "kpgdir (upd_proc i f s) = kpgdir s"
  by (simp_all add: upd_proc_def)

lemma upd_proc_nth:
  "i < length (procs s) \<Longrightarrow> procs (upd_proc i f s) ! j = (if i = j then f (procs s ! j) else procs s ! j)"
  by (simp add: upd_proc_def nth_list_update)

lemma upd_proc_nth_eq [simp]: "i < length (procs s) \<Longrightarrow> procs (upd_proc i f s) ! i = f (procs s ! i)"
  by (simp add: upd_proc_nth)

lemma upd_proc_nth_neq [simp]: "i \<noteq> j \<Longrightarrow> procs (upd_proc i f s) ! j = procs s ! j"
  by (simp add: upd_proc_def)

lemma upd_proc_keep: "(\<And>x. g (f x) = g x) \<Longrightarrow> g (procs (upd_proc i f s) ! j) = g (procs s ! j)"
  by (simp add: upd_proc_def nth_upd_keep)

lemma wakeup1_simps [simp]:
  "length (procs (wakeup1 ch s)) = length (procs s)"
  "held (wakeup1 ch s) = held s" "ncli (wakeup1 ch s) = ncli s" "cur (wakeup1 ch s) = cur s"
  "i < length (procs s) \<Longrightarrow> procs (wakeup1 ch s) ! i =
     (let p = procs s ! i in if p_state p = SLEEPING \<and> p_chan p = ch then p\<lparr>p_state := RUNNABLE\<rparr> else p)"
  by (simp_all add: wakeup1_def Let_def)

lemma wakeup_eval:
  "L_ptable \<notin> set (held s) \<Longrightarrow> wakeup ch s = Ok (wakeup1 ch s)"
  by (simp add: wakeup_def wakeup1_def)

lemma myproc_vc [vc]:
  "spec (myproc s) Q \<longleftrightarrow> (\<forall>p. cur s = Some p \<longrightarrow> Q p)" "runs (myproc s) Q \<longleftrightarrow> (\<exists>p. cur s = Some p \<and> Q p)"
  by (auto simp: spec_def runs_def myproc_def split: option.splits)

lemma wakeup_vc [vc]:
  "spec (wakeup ch s) Q \<longleftrightarrow> (L_ptable \<notin> set (held s) \<longrightarrow> Q (wakeup1 ch s))"
  "runs (wakeup ch s) Q \<longleftrightarrow> (L_ptable \<notin> set (held s) \<and> Q (wakeup1 ch s))"
  by (auto simp: vc wakeup_def wakeup1_def)

lemma sched_vc [vc]:
  "spec (sched s) Q \<longleftrightarrow> (\<forall>p. cur s = Some p \<and> L_ptable \<in> set (held s) \<and> ncli s = 1 \<and> p_state (procs s ! p) \<noteq> RUNNING \<longrightarrow> Q s)"
  "runs (sched s) Q \<longleftrightarrow> (\<exists>p. cur s = Some p \<and> L_ptable \<in> set (held s) \<and> ncli s = 1 \<and> p_state (procs s ! p) \<noteq> RUNNING \<and> Q s)"
  by (auto simp: sched_def vc)

lemma wakeup_deadlock: "L_ptable \<in> set (held s) \<Longrightarrow> wakeup ch s = panic ''acquire''"
  by (simp add: wakeup_def)

text \<open>
  A process may sleep on \<open>ch\<close> exactly when the lock it hands in is the only one it holds:
  with any other lock held, the depth check of \<open>sched\<close> panics.
\<close>

lemma sleep_out_eval:
  assumes "cur s = Some p" "p < length (procs s)" "held s = [lk]" "ncli s = 1"
  shows "sleep_out ch lk s =
    Ok (upd_proc p (\<lambda>x. x\<lparr>p_chan := ch, p_state := SLEEPING\<rparr>) (s\<lparr>held := [L_ptable], ncli := 1\<rparr>))"
  using assms by (auto simp: sleep_out_def sched_def myproc_def unlock_def upd_proc_def intro!: ptable.equality)

lemma sleep_out_other_lock:
  assumes "cur s = Some p" "p < length (procs s)" "lk \<in> set (held s)" "L_ptable \<notin> set (held s)" "1 < ncli s"
  shows "sleep_out ch lk s = panic ''sched locks''"
proof -
  have "lk \<noteq> L_ptable" using assms by auto
  with assms show ?thesis by (auto simp: sleep_out_def sched_def myproc_def unlock_def)
qed

lemma sleep_in_eval:
  assumes "cur s = Some p" "held s = [L_ptable]" "ncli s = 1"
  shows "sleep_in lk s = Ok (upd_proc p (\<lambda>x. x\<lparr>p_chan := None\<rparr>) (s\<lparr>held := [lk], ncli := 1\<rparr>))"
  using assms by (auto simp: sleep_in_def myproc_def unlock_def lock_def upd_proc_def Let_def intro!: ptable.equality)

lemma scheduler_back_eval:
  "held s = [L_ptable] \<Longrightarrow> ncli s = 1 \<Longrightarrow>
     scheduler_back s = Ok (s\<lparr>held := [], ncli := 0, cr3 := V2P (kpgdir s), cur := None\<rparr>)"
  by (auto simp: scheduler_back_def switchkvm_def unlock_def intro!: ptable.equality)

lemma kill_eval:
  assumes "L_ptable \<notin> set (held s)"
  shows "kill pid s = (case first_idx (\<lambda>p. p_pid p = pid) (procs s) of
      Some i \<Rightarrow> Ok (0, upd_proc i (\<lambda>x. x\<lparr>p_killed := True,
          p_state := if p_state x = SLEEPING then RUNNABLE else p_state x\<rparr>) s)
    | None \<Rightarrow> Ok (-1, s))"
  using assms by (auto simp: kill_def upd_proc_def Let_def dest: first_idx_len split: option.splits
      intro!: ptable.equality)

end
