(* ===== verification/Prioqueue.thy ===== *)
theory Prioqueue
  imports Proc
begin

text \<open>
  The multi-level run queue of \<^verbatim>\<open>proc.c\<close>: \<open>pq1_enqueue\<close>, \<open>pq1_dequeue\<close>, \<open>remove_node\<close>, \<open>prio_set\<close>,
  \<open>print_priorities\<close>, and one round of \<open>scheduler\<close>. Each priority has a list of processes linked
  through \<open>p->next\<close>. The pointer code is refined to ten lists of slot numbers (\<open>pq_rep\<close>); the
  scheduling properties are proved on the lists and carried over.

  A walk along \<open>next\<close> pointers gets fuel for one step more than there are slots. The walks do not
  write, so one still going then has revisited a slot and goes on for ever
  (\<open>walk_fuel_exact\<close>): running out of fuel is divergence.
\<close>

definition PRIO_MAX :: nat where
  "PRIO_MAX = 10"

record prioq = ptable +
  queue :: "nat option list"

subsection \<open>Walking a list\<close>

fun walk :: "nat \<Rightarrow> ('a \<Rightarrow> bool) \<Rightarrow> ('a \<Rightarrow> 'a option) \<Rightarrow> 'a option \<Rightarrow> 'a option res" where
  "walk fuel hit nx None = Ok None"
| "walk 0 hit nx (Some c) = Inl Diverge"
| "walk (Suc fuel) hit nx (Some c) = (if hit c then Ok (Some c) else walk fuel hit nx (nx c))"

definition nxt :: "'a ptable_scheme \<Rightarrow> nat \<Rightarrow> nat option" where
  "nxt s i = p_next (procs s ! i)"

definition set_next :: "nat \<Rightarrow> nat option \<Rightarrow> 'a ptable_scheme \<Rightarrow> 'a ptable_scheme" where
  "set_next i q s = upd_proc i (\<lambda>p. p\<lparr>p_next := q\<rparr>) s"

definition plen :: "'a ptable_scheme \<Rightarrow> nat" where
  "plen s = Suc (length (procs s))"

subsection \<open>The operations\<close>

definition pq1_enqueue :: "nat \<Rightarrow> int \<Rightarrow> 'a prioq_scheme \<Rightarrow> 'a prioq_scheme res" where
  "pq1_enqueue p priority s =
     bnd (lock L_prioqueue s) (\<lambda>s.
     bnd (aget (queue s) priority) (\<lambda>h.
     bnd (aset (queue s) priority (Some p)) (\<lambda>q.
     unlock L_prioqueue
       (case h of None \<Rightarrow> s\<lparr>queue := q\<rparr>
        | Some c \<Rightarrow> set_next p (Some c) (s\<lparr>queue := q\<rparr>)))))"

text \<open>The search of \<open>pq1_dequeue\<close>: the first runnable process of the first bucket that has one.\<close>

fun first_runnable :: "'a prioq_scheme \<Rightarrow> nat option list \<Rightarrow> nat option res" where
  "first_runnable s [] = Ok None"
| "first_runnable s (h # hs) =
     bnd (walk (plen s) (\<lambda>c. p_state (procs s ! c) = RUNNABLE) (nxt s) h) (\<lambda>c.
     case c of None \<Rightarrow> first_runnable s hs | Some p \<Rightarrow> Ok (Some p))"

definition unlink_cur :: "nat \<Rightarrow> 'a prioq_scheme \<Rightarrow> 'a prioq_scheme res" where
  "unlink_cur c s =
     bnd (aget (queue s) (p_priority (procs s ! c))) (\<lambda>h.
     if h = Some c
     then bnd (aset (queue s) (p_priority (procs s ! c)) (nxt s c)) (\<lambda>q. Ok (s\<lparr>queue := q\<rparr>))
     else bnd (walk (plen s) (\<lambda>x. nxt s x = Some c) (nxt s) h) (\<lambda>pr.
       case pr of None \<Rightarrow> Ok s | Some x \<Rightarrow> Ok (set_next x (nxt s c) s)))"

definition append_cur :: "nat \<Rightarrow> 'a prioq_scheme \<Rightarrow> 'a prioq_scheme res" where
  "append_cur c s =
     bnd (aget (queue s) (p_priority (procs s ! c))) (\<lambda>h.
     bnd (walk (plen s) (\<lambda>x. nxt s x = None) (nxt s) h) (\<lambda>l.
     bnd (case l of
            None \<Rightarrow> bnd (aset (queue s) (p_priority (procs s ! c)) (Some c)) (\<lambda>q. Ok (s\<lparr>queue := q\<rparr>))
          | Some x \<Rightarrow> Ok (set_next x (Some c) s)) (\<lambda>s.
     Ok (set_next c None s))))"

definition pq1_dequeue :: "'a prioq_scheme \<Rightarrow> (nat option \<times> 'a prioq_scheme) res" where
  "pq1_dequeue s =
     bnd (lock L_prioqueue s) (\<lambda>s.
     bnd (first_runnable s (take PRIO_MAX (queue s))) (\<lambda>r.
     case r of
       None \<Rightarrow> bnd (unlock L_prioqueue s) (\<lambda>s. Ok (None, s))
     | Some c \<Rightarrow>
         bnd (unlink_cur c s) (\<lambda>s.
         bnd (append_cur c s) (\<lambda>s.
         bnd (unlock L_prioqueue s) (\<lambda>s. Ok (Some c, s))))))"

text \<open>The loop of \<open>remove_node\<close> keeps the node before the current one.\<close>

fun walk_prev :: "nat \<Rightarrow> (nat \<Rightarrow> bool) \<Rightarrow> (nat \<Rightarrow> nat option) \<Rightarrow> nat option \<Rightarrow> nat option \<Rightarrow>
    (nat option \<times> nat) option res" where
  "walk_prev fuel hit nx pr None = Ok None"
| "walk_prev 0 hit nx pr (Some c) = Inl Diverge"
| "walk_prev (Suc fuel) hit nx pr (Some c) =
     (if hit c then Ok (Some (pr, c)) else walk_prev fuel hit nx (Some c) (nx c))"

definition remove_node :: "nat \<Rightarrow> 'a prioq_scheme \<Rightarrow> 'a prioq_scheme res" where
  "remove_node p s =
     bnd (lock L_prioqueue s) (\<lambda>s.
     bnd (aget (queue s) (p_priority (procs s ! p))) (\<lambda>h.
     bnd (walk_prev (plen s) (\<lambda>c. p_pid (procs s ! c) = p_pid (procs s ! p)) (nxt s) None h) (\<lambda>r.
     bnd (case r of
            None \<Rightarrow> Ok s
          | Some (Some pr, c) \<Rightarrow> Ok (set_next c None (set_next pr (nxt s c) s))
          | Some (None, c) \<Rightarrow>
              bnd (aset (queue s) (p_priority (procs s ! p)) (nxt s c)) (\<lambda>q.
              Ok (set_next c None (s\<lparr>queue := q\<rparr>)))) (\<lambda>s.
     unlock L_prioqueue s))))"

fun last_idx :: "('a \<Rightarrow> bool) \<Rightarrow> 'a list \<Rightarrow> nat option" where
  "last_idx P [] = None"
| "last_idx P (x # xs) = (case last_idx P xs of Some i \<Rightarrow> Some (Suc i) | None \<Rightarrow> if P x then Some 0 else None)"

definition prio_set :: "int \<Rightarrow> int \<Rightarrow> 'a prioq_scheme \<Rightarrow> (int \<times> 'a prioq_scheme) res" where
  "prio_set pid priority s =
     bnd (lock L_prioqueue s) (\<lambda>s.
     bnd (myproc s) (\<lambda>me.
     if priority < 0 \<or> int PRIO_MAX \<le> priority then bnd (unlock L_prioqueue s) (\<lambda>s. Ok (-1, s))
     else if priority < p_priority (procs s ! me) then bnd (unlock L_prioqueue s) (\<lambda>s. Ok (-1, s))
     else
       let setproc = last_idx (\<lambda>p. p_pid p = pid) (procs s) in
       bnd (walk (plen s) (\<lambda>a. p_pid (procs s ! a) = p_pid (procs s ! me)) (\<lambda>a. p_parent (procs s ! a)) setproc) (\<lambda>anc.
       case (anc, setproc) of
         (Some a, Some p) \<Rightarrow>
           bnd (unlock L_prioqueue s) (\<lambda>s.
           bnd (remove_node p s) (\<lambda>s.
           bnd (pq1_enqueue p priority (upd_proc p (\<lambda>x. x\<lparr>p_priority := priority\<rparr>) s)) (\<lambda>s. Ok (0, s))))
       | _ \<Rightarrow> bnd (unlock L_prioqueue s) (\<lambda>s. Ok (-1, s)))))"

text \<open>
  One round of the scheduler loop up to the context switch: \<open>None\<close> is the \<open>continue\<close> of an idle
  round, \<open>Some p\<close> the switch to \<open>p\<close> with \<open>ptable.lock\<close> held.
\<close>

definition scheduler_pick :: "'a prioq_scheme \<Rightarrow> (nat option \<times> 'a prioq_scheme) res" where
  "scheduler_pick s =
     bnd (lock L_ptable s) (\<lambda>s.
     bnd (pq1_dequeue s) (\<lambda>(r, s).
     case r of
       None \<Rightarrow> bnd (unlock L_ptable s) (\<lambda>s. Ok (None, s))
     | Some p \<Rightarrow>
         bnd (switchuvm p (s\<lparr>cur := Some p\<rparr>)) (\<lambda>s.
         Ok (Some p, upd_proc p (\<lambda>x. x\<lparr>p_state := RUNNING\<rparr>) s))))"

subsection \<open>Walks and chains\<close>

lemma walk_chain: "chain nx p xs \<Longrightarrow> length xs \<le> fuel \<Longrightarrow> walk fuel hit nx p = Ok (find hit xs)"
  by (induction fuel hit nx p arbitrary: xs rule: walk.induct) (auto simp: chain_node)

lemma walk_prev_chain:
  "chain nx p xs \<Longrightarrow> length xs \<le> fuel \<Longrightarrow> walk_prev fuel hit nx pr p =
     Ok (case find hit xs of None \<Rightarrow> None
         | Some c \<Rightarrow> Some (case takeWhile (\<lambda>x. \<not> hit x) xs of [] \<Rightarrow> pr | us \<Rightarrow> Some (last us), c))"
  by (induction fuel hit nx pr p arbitrary: xs rule: walk_prev.induct)
    (auto simp: chain_node split: option.splits list.splits)

text \<open>A walk that ends at all ends within one step per node.\<close>

lemma walk_visits:
  assumes "walk k hit nx p = Ok r"
  shows "\<exists>xs. chain (\<lambda>x. if hit x then None else nx x) p xs \<and> r = find hit xs \<and>
    (\<forall>m. length xs \<le> m \<longrightarrow> walk m hit nx p = Ok r)"
  using assms
proof (induction k hit nx p rule: walk.induct)
  case (3 fuel hit nx c)
  show ?case
  proof (cases "hit c")
    case True
    with 3 show ?thesis by (intro exI [of _ "[c]"]) (auto simp: Suc_le_eq gr0_conv_Suc)
  next
    case False
    with 3 obtain xs where xs: "chain (\<lambda>x. if hit x then None else nx x) (nx c) xs" "r = find hit xs"
        "\<forall>m. length xs \<le> m \<longrightarrow> walk m hit nx (nx c) = Ok r" by auto
    have "walk m hit nx (Some c) = Ok r" if "Suc (length xs) \<le> m" for m
      using that False xs(3) by (cases m) auto
    with False xs show ?thesis by (intro exI [of _ "c # xs"]) auto
  qed
qed auto

lemma walk_fuel_exact:
  assumes "walk k hit nx p = Ok r" "finite A" "set_option p \<subseteq> A" "\<And>x. x \<in> A \<Longrightarrow> set_option (nx x) \<subseteq> A"
  shows "walk (card A) hit nx p = Ok r"
proof -
  obtain xs where xs: "chain (\<lambda>x. if hit x then None else nx x) p xs"
      "\<forall>m. length xs \<le> m \<longrightarrow> walk m hit nx p = Ok r"
    using walk_visits [OF assms(1)] by auto
  have "set xs \<subseteq> A"
    using xs(1) assms(3)
  proof (induction xs arbitrary: p)
    case (Cons x xs)
    from Cons.prems have p: "p = Some x" "x \<in> A" by auto
    have "set_option (if hit x then None else nx x) \<subseteq> A" using assms(4) [OF p(2)] by auto
    with Cons p show ?case by auto
  qed simp
  then have "length xs \<le> card A"
    using chain_distinct [OF xs(1)] assms(2) by (metis card_mono distinct_card)
  with xs(2) show ?thesis by blast
qed

subsection \<open>Ten lists\<close>

fun pick :: "('a \<Rightarrow> bool) \<Rightarrow> 'a list list \<Rightarrow> 'a option" where
  "pick r [] = None"
| "pick r (b # bs) = (case find r b of None \<Rightarrow> pick r bs | Some c \<Rightarrow> Some c)"

definition rot :: "'a \<Rightarrow> 'a list \<Rightarrow> 'a list" where
  "rot c b = remove1 c b @ [c]"

definition queued :: "'a list list \<Rightarrow> 'a \<Rightarrow> bool" where
  "queued bs p \<longleftrightarrow> (\<exists>i < length bs. p \<in> set (bs ! i))"

lemma queued_iff: "queued bs p \<longleftrightarrow> (\<exists>b \<in> set bs. p \<in> set b)"
  unfolding queued_def by (metis in_set_conv_nth)

lemma queued_upd:
  "i < length bs \<Longrightarrow> queued (bs[i := b]) p \<longleftrightarrow> p \<in> set b \<or> (\<exists>j < length bs. j \<noteq> i \<and> p \<in> set (bs ! j))"
  by (auto simp: queued_def nth_list_update)

lemma queued_cons: "i < length bs \<Longrightarrow> queued (bs[i := p # bs ! i]) x \<longleftrightarrow> x = p \<or> queued bs x"
  unfolding queued_upd by (auto simp: queued_def)

lemma queued_keep:
  "queued bs x \<Longrightarrow> i < length bs \<Longrightarrow> set (bs ! i) \<subseteq> insert p (set b) \<Longrightarrow> x \<noteq> p \<Longrightarrow> queued (bs[i := b]) x"
  unfolding queued_def by (metis insert_iff length_list_update nth_list_update_eq nth_list_update_neq subset_iff)

lemma find_split: "find P xs = Some c \<Longrightarrow> \<exists>us vs. xs = us @ c # vs \<and> P c \<and> (\<forall>x \<in> set us. \<not> P x)"
proof (induction xs)
  case (Cons x xs)
  show ?case
  proof (cases "P x")
    case True
    with Cons show ?thesis by (intro exI [of _ "[]"] exI [of _ xs]) auto
  next
    case False
    with Cons obtain us vs where "xs = us @ c # vs" "P c" "\<forall>x \<in> set us. \<not> P x" by auto
    with False show ?thesis by (intro exI [of _ "x # us"] exI [of _ vs]) auto
  qed
qed simp

lemma find_first: "\<forall>x \<in> set us. \<not> P x \<Longrightarrow> P p \<Longrightarrow> find P (us @ p # vs) = Some p"
  by (induction us) auto

definition pq_rep :: "'a prioq_scheme \<Rightarrow> nat list list \<Rightarrow> bool" where
  "pq_rep s bs \<longleftrightarrow> length (queue s) = PRIO_MAX \<and> length bs = PRIO_MAX \<and>
     (\<forall>i < PRIO_MAX. chain (nxt s) (queue s ! i) (bs ! i)) \<and>
     (\<forall>i < PRIO_MAX. \<forall>p \<in> set (bs ! i). p < length (procs s) \<and> p_priority (procs s ! p) = int i) \<and>
     (\<forall>p < length (procs s). \<not> queued bs p \<longrightarrow> nxt s p = None)"

text \<open>The queue code changes nothing but the heads and the \<open>next\<close> fields.\<close>

definition only_links :: "'a prioq_scheme \<Rightarrow> 'a prioq_scheme \<Rightarrow> bool" where
  "only_links s t \<longleftrightarrow> (\<exists>P Q. t = s\<lparr>procs := P, queue := Q\<rparr> \<and> length P = length (procs s) \<and>
     (\<forall>i < length P. (P ! i)\<lparr>p_next := None\<rparr> = (procs s ! i)\<lparr>p_next := None\<rparr>))"

lemma chain_length_le:
  assumes "chain (nxt s) p xs" "\<forall>x \<in> set xs. x < length (procs s)"
  shows "length xs \<le> plen s"
proof -
  have "length xs = card (set xs)" using chain_distinct [OF assms(1)] by (simp add: distinct_card)
  also have "\<dots> \<le> card {..< length (procs s)}" using assms(2) by (intro card_mono) auto
  finally show ?thesis by (simp add: plen_def)
qed

lemma nxt_set_next [simp]:
  "i < length (procs s) \<Longrightarrow> nxt (set_next i q s) = (nxt s)(i := q)"
  by (auto simp: nxt_def set_next_def upd_proc_nth)

lemma set_next_simps [simp]:
  "length (procs (set_next i q s)) = length (procs s)" "held (set_next i q s) = held s"
  "ncli (set_next i q s) = ncli s" "cur (set_next i q s) = cur s" "queue (set_next i q s) = queue s"
  "p_priority (procs (set_next i q s) ! j) = p_priority (procs s ! j)"
  "p_state (procs (set_next i q s) ! j) = p_state (procs s ! j)"
  "p_pid (procs (set_next i q s) ! j) = p_pid (procs s ! j)"
  by (cases "i < length (procs s)"; simp add: set_next_def upd_proc_def nth_list_update list_update_beyond)+

lemma nxt_upd [simp]: "nxt (s\<lparr>queue := h\<rparr>) = nxt s" "nxt (s\<lparr>held := h1, ncli := n\<rparr>) = nxt s"
  by (auto simp: nxt_def)

lemma find_pred:
  "chain nx p (us @ x # c # vs) \<Longrightarrow> find (\<lambda>y. nx y = Some c) (us @ x # c # vs) = Some x"
proof (induction us arbitrary: p)
  case (Cons u us)
  then have ch: "chain nx (nx u) (us @ x # c # vs)" by simp
  then have "nx u = Some (hd (us @ [x]))" by (cases us) auto
  moreover have "hd (us @ [x]) \<noteq> c"
    using chain_distinct [OF ch] by (cases us) auto
  ultimately show ?case using Cons.IH [OF ch] by simp
qed auto

lemma find_last: "chain nx p ys \<Longrightarrow> ys \<noteq> [] \<Longrightarrow> find (\<lambda>y. nx y = None) ys = Some (last ys)"
proof (induction ys arbitrary: p)
  case (Cons y ys)
  then show ?case by (cases ys) auto
qed simp

lemma chain_snoc:
  assumes "chain nx p (ys @ [l])" "c \<notin> set (ys @ [l])"
  shows "chain (nx(l := Some c, c := None)) p (ys @ [l, c])"
proof -
  have "l \<notin> set ys" using chain_distinct [OF assms(1)] by simp
  with assms have "seg (nx(l := Some c, c := None)) p ys (Some l)"
    by (auto simp: chain_append)
  with assms(2) show ?thesis by (auto simp: chain_append)
qed

lemma chain_unlink:
  assumes "chain nx p (us @ x # c # vs)"
  shows "chain (nx(x := nx c)) p (us @ x # vs)"
proof -
  have "x \<notin> set us" "x \<notin> set vs" using chain_distinct [OF assms] by auto
  then show ?thesis using assms by (auto simp: chain_append)
qed

definition pq_chains :: "'a prioq_scheme \<Rightarrow> nat list list \<Rightarrow> bool" where
  "pq_chains s bs \<longleftrightarrow> length (queue s) = PRIO_MAX \<and> length bs = PRIO_MAX \<and>
     (\<forall>i < PRIO_MAX. chain (nxt s) (queue s ! i) (bs ! i)) \<and>
     (\<forall>i < PRIO_MAX. \<forall>p \<in> set (bs ! i). p < length (procs s) \<and> p_priority (procs s ! p) = int i)"

lemma pq_rep_chains:
  "pq_rep s bs \<longleftrightarrow> pq_chains s bs \<and> (\<forall>p < length (procs s). \<not> queued bs p \<longrightarrow> nxt s p = None)"
  by (auto simp: pq_rep_def pq_chains_def)

lemma pq_rep_cong:
  assumes "pq_rep s bs" "queue t = queue s" "length (procs t) = length (procs s)"
    and "\<And>x. x < length (procs s) \<Longrightarrow> nxt t x = nxt s x"
    and "\<And>x. queued bs x \<Longrightarrow> p_priority (procs t ! x) = p_priority (procs s ! x)"
  shows "pq_rep t bs"
proof -
  have "chain (nxt t) (queue s ! i) (bs ! i)" if "i < PRIO_MAX" for i
    using assms(1,4) that chain_cong [of "bs ! i" "nxt t" "nxt s"] by (auto simp: pq_rep_def)
  moreover have "p_priority (procs t ! p) = int i" if "i < PRIO_MAX" "p \<in> set (bs ! i)" for i p
  proof -
    have "queued bs p" using assms(1) that by (auto simp: pq_rep_def queued_def)
    from assms(5) [OF this] assms(1) that show ?thesis by (auto simp: pq_rep_def)
  qed
  ultimately show ?thesis using assms(1-4) by (auto simp: pq_rep_def)
qed

lemma nxt_upd_field: "(\<And>p. p_next (f p) = p_next p) \<Longrightarrow> nxt (upd_proc i f s) = nxt s"
  by (cases "i < length (procs s)") (auto simp: nxt_def upd_proc_def nth_list_update list_update_beyond)

lemma pq_bucket:
  assumes "pq_chains s bs" "i < PRIO_MAX" "c \<in> set (bs ! i)"
  shows "c < length (procs s)" "p_priority (procs s ! c) = int i"
    "j < PRIO_MAX \<Longrightarrow> j \<noteq> i \<Longrightarrow> c \<notin> set (bs ! j)" "distinct (bs ! i)" "length (bs ! i) \<le> plen s"
proof -
  show "c < length (procs s)" and pr: "p_priority (procs s ! c) = int i"
    using assms by (auto simp: pq_chains_def)
  show "c \<notin> set (bs ! j)" if "j < PRIO_MAX" "j \<noteq> i"
    using assms(1) that pr by (auto simp: pq_chains_def)
  have c: "chain (nxt s) (queue s ! i) (bs ! i)" "\<forall>x \<in> set (bs ! i). x < length (procs s)"
    using assms by (auto simp: pq_chains_def)
  then show "distinct (bs ! i)" "length (bs ! i) \<le> plen s"
    using chain_distinct chain_length_le by blast+
qed

lemma pq_length: "pq_chains s bs \<Longrightarrow> i < PRIO_MAX \<Longrightarrow> length (bs ! i) \<le> plen s"
  using chain_length_le [of s "queue s ! i" "bs ! i"] by (auto simp: pq_chains_def)

lemma only_linksI:
  "t = s\<lparr>procs := P, queue := Q\<rparr> \<Longrightarrow> length P = length (procs s) \<Longrightarrow>
   (\<And>i. i < length P \<Longrightarrow> (P ! i)\<lparr>p_next := None\<rparr> = (procs s ! i)\<lparr>p_next := None\<rparr>) \<Longrightarrow> only_links s t"
  unfolding only_links_def by blast

lemma only_links_refl [simp]: "only_links s s"
  by (rule only_linksI [where P = "procs s" and Q = "queue s"]) simp_all

lemma only_links_queue: "only_links s (s\<lparr>queue := h\<rparr>)"
  by (rule only_linksI [where P = "procs s" and Q = h]) simp_all

lemma only_links_next: "only_links s (set_next i q s)"
  by (rule only_linksI [where P = "(procs s)[i := (procs s ! i)\<lparr>p_next := q\<rparr>]" and Q = "queue s"])
    (cases "i < length (procs s)"; auto simp: set_next_def upd_proc_def nth_list_update list_update_beyond)+

lemma only_links_trans [trans]: "only_links s t \<Longrightarrow> only_links t u \<Longrightarrow> only_links s u"
  unfolding only_links_def
proof (elim exE conjE, goal_cases)
  case (1 P P' Q Q')
  then show ?case by (intro exI [of _ P'] exI [of _ Q']) simp
qed

lemma only_links_field:
  assumes "only_links s t"
  shows "length (procs t) = length (procs s)" "held t = held s" "ncli t = ncli s" "cur t = cur s"
    "mem t = mem s" "freelist t = freelist s" "initproc t = initproc s"
    "i < length (procs s) \<Longrightarrow> (procs t ! i)\<lparr>p_next := None\<rparr> = (procs s ! i)\<lparr>p_next := None\<rparr>"
  using assms by (auto simp: only_links_def)

lemma p_next_cong:
  assumes "p\<lparr>p_next := None\<rparr> = q\<lparr>p_next := None\<rparr>"
  shows "p_state p = p_state q" "p_pid p = p_pid q" "p_priority p = p_priority q" "p_parent p = p_parent q"
    "p_kstack p = p_kstack q" "p_pgdir p = p_pgdir q"
  using arg_cong [OF assms, of p_state] arg_cong [OF assms, of p_pid] arg_cong [OF assms, of p_priority]
    arg_cong [OF assms, of p_parent] arg_cong [OF assms, of p_kstack] arg_cong [OF assms, of p_pgdir]
  by simp_all

lemmas only_links_proc = p_next_cong [OF only_links_field(8)]

lemma pq_chains_lock [simp]: "pq_chains (s\<lparr>held := h, ncli := n\<rparr>) bs = pq_chains s bs"
  by (simp add: pq_chains_def)

lemma pq_rep_lock [simp]: "pq_rep (s\<lparr>held := h, ncli := n\<rparr>) bs = pq_rep s bs"
  by (simp add: pq_rep_chains)

text \<open>Taking the queue lock around code that only moves links.\<close>

lemma links_unlock:
  assumes "only_links (s\<lparr>held := l # held s, ncli := Suc (ncli s)\<rparr>) t"
  shows "unlock l t = Ok (t\<lparr>held := held s, ncli := ncli s\<rparr>) \<and> only_links s (t\<lparr>held := held s, ncli := ncli s\<rparr>)"
proof -
  obtain P Q where t: "t = s\<lparr>held := l # held s, ncli := Suc (ncli s), procs := P, queue := Q\<rparr>"
    and P: "length P = length (procs s)"
      "\<forall>i < length P. (P ! i)\<lparr>p_next := None\<rparr> = (procs s ! i)\<lparr>p_next := None\<rparr>"
    using assms by (auto simp: only_links_def)
  have "t\<lparr>held := held s, ncli := ncli s\<rparr> = s\<lparr>procs := P, queue := Q\<rparr>" by (simp add: t)
  with P have "only_links s (t\<lparr>held := held s, ncli := ncli s\<rparr>)" by (auto intro: only_linksI)
  moreover have "unlock l t = Ok (t\<lparr>held := held s, ncli := ncli s\<rparr>)" by (simp add: t)
  ultimately show ?thesis by blast
qed

subsection \<open>The pointer code implements the lists\<close>

lemma pq_chains_upd:
  assumes "pq_chains s bs" "i < PRIO_MAX" "length (queue t) = PRIO_MAX" "length (procs t) = length (procs s)"
    and "chain (nxt t) (queue t ! i) b" "\<forall>p \<in> set b. p < length (procs s) \<and> p_priority (procs t ! p) = int i"
    and "\<And>j. j < PRIO_MAX \<Longrightarrow> j \<noteq> i \<Longrightarrow> queue t ! j = queue s ! j"
    and "\<And>j p. j < PRIO_MAX \<Longrightarrow> j \<noteq> i \<Longrightarrow> p \<in> set (bs ! j) \<Longrightarrow>
       nxt t p = nxt s p \<and> p_priority (procs t ! p) = p_priority (procs s ! p)"
  shows "pq_chains t (bs[i := b])"
proof -
  have "chain (nxt t) (queue t ! j) (bs ! j)" if "j < PRIO_MAX" "j \<noteq> i" for j
    using assms that chain_cong [of "bs ! j" "nxt t" "nxt s"] by (auto simp: pq_chains_def)
  with assms show ?thesis by (auto simp: pq_chains_def nth_list_update)
qed

lemma enqueue_links:
  assumes rep: "pq_rep s bs" and p: "p < length (procs s)" "\<not> queued bs p"
    and i: "i < PRIO_MAX" "p_priority (procs s ! p) = int i" and l: "L_prioqueue \<notin> set (held s)"
  shows "\<exists>s'. pq1_enqueue p (int i) s = Ok s' \<and> pq_rep s' (bs[i := p # bs ! i]) \<and> only_links s s'"
proof -
  let ?s = "s\<lparr>held := L_prioqueue # held s, ncli := Suc (ncli s)\<rparr>"
  have ch: "pq_chains ?s bs" and out: "\<forall>x < length (procs s). \<not> queued bs x \<longrightarrow> nxt s x = None"
    using rep by (simp_all add: pq_rep_chains)
  have q: "length (queue s) = PRIO_MAX" "length bs = PRIO_MAX" and c: "chain (nxt s) (queue s ! i) (bs ! i)"
    and mem: "\<forall>x \<in> set (bs ! i). x < length (procs s) \<and> p_priority (procs s ! x) = int i"
    using ch i(1) by (auto simp: pq_chains_def)
  have np: "\<And>j. j < PRIO_MAX \<Longrightarrow> p \<notin> set (bs ! j)" using p(2) q(2) by (auto simp: queued_def)
  define t where "t = (case queue s ! i of None \<Rightarrow> ?s\<lparr>queue := (queue s)[i := Some p]\<rparr>
     | Some c \<Rightarrow> set_next p (Some c) (?s\<lparr>queue := (queue s)[i := Some p]\<rparr>))"
  have t: "queue t = (queue s)[i := Some p]" "length (procs t) = length (procs s)" "nxt t = (nxt s)(p := queue s ! i)"
    "\<And>x. p_priority (procs t ! x) = p_priority (procs s ! x)"
    using out p by (auto simp: t_def split: option.splits)
  have "pq_chains t (bs[i := p # bs ! i])"
    using np c q p(1) i mem by (intro pq_chains_upd [OF ch i(1)]) (auto simp: t)
  moreover have "nxt t x = None" if "x < length (procs t)" "\<not> queued (bs[i := p # bs ! i]) x" for x
    using that out q(2) i(1) by (auto simp: t queued_cons)
  ultimately have r: "pq_rep t (bs[i := p # bs ! i])" by (auto simp: pq_rep_chains)
  have "only_links ?s t"
    unfolding t_def by (auto split: option.splits intro: only_links_queue only_links_trans [OF only_links_queue only_links_next])
  from links_unlock [OF this] have "unlock L_prioqueue t = Ok (t\<lparr>held := held s, ncli := ncli s\<rparr>)"
    "only_links s (t\<lparr>held := held s, ncli := ncli s\<rparr>)" by auto
  moreover have "pq1_enqueue p (int i) s = unlock L_prioqueue t"
    using l i(1) q(1) by (simp add: pq1_enqueue_def t_def aget_in aset_in)
  ultimately show ?thesis using r by auto
qed

abbreviation runnable :: "'a ptable_scheme \<Rightarrow> nat \<Rightarrow> bool" where
  "runnable s \<equiv> (\<lambda>p. p_state (procs s ! p) = RUNNABLE)"

lemma first_runnable_pick:
  "list_all2 (\<lambda>h b. chain (nxt s) h b \<and> length b \<le> plen s) hs bs \<Longrightarrow>
     first_runnable s hs = Ok (pick (runnable s) bs)"
  by (induction rule: list_all2_induct) (auto simp: walk_chain split: option.splits)

lemma first_runnable_rep:
  assumes "pq_chains s bs"
  shows "first_runnable s (take PRIO_MAX (queue s)) = Ok (pick (runnable s) bs)"
proof (rule first_runnable_pick)
  show "list_all2 (\<lambda>h b. chain (nxt s) h b \<and> length b \<le> plen s) (take PRIO_MAX (queue s)) bs"
    using assms pq_length [OF assms] by (auto simp: list_all2_conv_all_nth pq_chains_def)
qed

lemma pick_Some:
  assumes "pick r bs = Some c"
  shows "\<exists>i < length bs. c \<in> set (bs ! i) \<and> r c \<and> find r (bs ! i) = Some c \<and>
    (\<forall>j < i. \<forall>x \<in> set (bs ! j). \<not> r x)"
  using assms
proof (induction bs)
  case (Cons b bs)
  show ?case
  proof (cases "find r b")
    case None
    with Cons obtain i where i: "i < length bs" "c \<in> set (bs ! i)" "r c" "find r (bs ! i) = Some c"
        "\<forall>j < i. \<forall>x \<in> set (bs ! j). \<not> r x" by auto
    have "\<not> r x" if "j < Suc i" "x \<in> set ((b # bs) ! j)" for j x
      using that i(5) None by (cases j) (auto simp: find_None_iff)
    with i show ?thesis by (intro exI [of _ "Suc i"]) auto
  next
    case (Some a)
    with Cons show ?thesis by (intro exI [of _ 0]) (auto simp: find_Some_iff)
  qed
qed simp

lemma pick_None: "pick r bs = None \<longleftrightarrow> (\<forall>b \<in> set bs. \<forall>x \<in> set b. \<not> r x)"
proof (induction bs)
  case (Cons b bs)
  show ?case
  proof (cases "find r b")
    case None
    then have "\<forall>x \<in> set b. \<not> r x" by (auto simp: find_None_iff)
    with Cons None show ?thesis by auto
  next
    case (Some a)
    then have "\<exists>x \<in> set b. r x" by (auto simp: find_Some_iff)
    with Some show ?thesis by auto
  qed
qed simp

lemma unlink_links:
  assumes ch: "pq_chains s bs" and i: "i < PRIO_MAX" and c: "c \<in> set (bs ! i)"
  shows "\<exists>t. unlink_cur c s = Ok t \<and> pq_chains t (bs[i := remove1 c (bs ! i)]) \<and> only_links s t \<and>
    (\<forall>x. x \<notin> set (bs ! i) \<longrightarrow> nxt t x = nxt s x)"
proof -
  note b = pq_bucket [OF ch i c]
  have q: "length (queue s) = PRIO_MAX" "length bs = PRIO_MAX" and cc: "chain (nxt s) (queue s ! i) (bs ! i)"
    and mem: "\<forall>x \<in> set (bs ! i). x < length (procs s) \<and> p_priority (procs s ! x) = int i"
    using ch i by (auto simp: pq_chains_def)
  have other: "\<And>j x. j < PRIO_MAX \<Longrightarrow> j \<noteq> i \<Longrightarrow> x \<in> set (bs ! j) \<Longrightarrow> x \<notin> set (bs ! i)"
    using pq_bucket(3) [OF ch i] by blast
  obtain us vs where sp: "bs ! i = us @ c # vs" "c \<notin> set us" using c by (meson split_list_first)
  then have rem: "remove1 c (bs ! i) = us @ vs" by (simp add: remove1_append)
  show ?thesis
  proof (cases us rule: rev_cases)
    case Nil
    let ?t = "s\<lparr>queue := (queue s)[i := nxt s c]\<rparr>"
    have "unlink_cur c s = Ok ?t"
      using b(2) q i cc sp Nil by (simp add: unlink_cur_def)
    moreover have "pq_chains ?t (bs[i := remove1 c (bs ! i)])"
      unfolding rem using cc sp Nil mem q i by (intro pq_chains_upd [OF ch i]) auto
    ultimately show ?thesis using only_links_queue by auto
  next
    case (snoc us' x)
    let ?t = "set_next x (nxt s c) s"
    have ch': "chain (nxt s) (queue s ! i) (us' @ x # c # vs)" using cc sp snoc by simp
    have x: "x < length (procs s)" "x \<in> set (bs ! i)" "c \<noteq> x" using mem sp snoc by auto
    have "queue s ! i \<noteq> Some c"
      using ch' sp snoc by (cases us') auto
    moreover have w: "walk (plen s) (\<lambda>y. nxt s y = Some c) (nxt s) (queue s ! i) = Ok (Some x)"
      using walk_chain [OF ch'] find_pred [OF ch'] b(5) sp snoc by simp
    ultimately have "unlink_cur c s = Ok ?t"
      using b(2,5) q i w by (simp add: unlink_cur_def)
    moreover have "pq_chains ?t (bs[i := remove1 c (bs ! i)])"
      unfolding rem using chain_unlink [OF ch'] x mem q i sp snoc other
      by (intro pq_chains_upd [OF ch i]) auto
    ultimately show ?thesis using x only_links_next [of s x "nxt s c"] by auto
  qed
qed

lemma append_links:
  assumes ch: "pq_chains s bs" and i: "i < PRIO_MAX" and c: "c < length (procs s)" "p_priority (procs s ! c) = int i"
    and nq: "\<not> queued bs c"
  shows "\<exists>t. append_cur c s = Ok t \<and> pq_chains t (bs[i := bs ! i @ [c]]) \<and> only_links s t \<and>
    (\<forall>x. x \<notin> set (bs ! i) \<and> x \<noteq> c \<longrightarrow> nxt t x = nxt s x)"
proof -
  have q: "length (queue s) = PRIO_MAX" "length bs = PRIO_MAX" and cc: "chain (nxt s) (queue s ! i) (bs ! i)"
    and mem: "\<forall>x \<in> set (bs ! i). x < length (procs s) \<and> p_priority (procs s ! x) = int i"
    using ch i by (auto simp: pq_chains_def)
  have other: "\<And>j x. j < PRIO_MAX \<Longrightarrow> j \<noteq> i \<Longrightarrow> x \<in> set (bs ! j) \<Longrightarrow> x \<notin> set (bs ! i)"
    using pq_bucket(3) [OF ch i] by blast
  have nc: "\<And>j. j < PRIO_MAX \<Longrightarrow> c \<notin> set (bs ! j)" using nq q(2) by (auto simp: queued_def)
  have w: "walk (plen s) (\<lambda>x. nxt s x = None) (nxt s) (queue s ! i) = Ok (find (\<lambda>x. nxt s x = None) (bs ! i))"
    using walk_chain [OF cc] pq_length [OF ch i] by blast
  show ?thesis
  proof (cases "bs ! i" rule: rev_cases)
    case Nil
    let ?t = "set_next c None (s\<lparr>queue := (queue s)[i := Some c]\<rparr>)"
    have "append_cur c s = Ok ?t"
      using w q i c Nil by (simp add: append_cur_def)
    moreover have "pq_chains ?t (bs[i := bs ! i @ [c]])"
      using Nil c i q nc by (intro pq_chains_upd [OF ch i]) auto
    moreover have "only_links s ?t" by (rule only_links_trans [OF only_links_queue only_links_next])
    ultimately show ?thesis using c by auto
  next
    case (snoc ys l)
    let ?t = "set_next c None (set_next l (Some c) s)"
    have l: "l < length (procs s)" "l \<in> set (bs ! i)" using mem snoc by auto
    have "append_cur c s = Ok ?t"
      using w q i c find_last [OF cc] snoc by (simp add: append_cur_def)
    moreover have "pq_chains ?t (bs[i := bs ! i @ [c]])"
      using chain_snoc [of "nxt s" "queue s ! i" ys l c] nc [OF i] cc snoc c i q nc other l mem
      by (intro pq_chains_upd [OF ch i]) auto
    moreover have "only_links s ?t" by (rule only_links_trans [OF only_links_next only_links_next])
    ultimately show ?thesis using c l by auto
  qed
qed

lemma set_rot [simp]: "c \<in> set b \<Longrightarrow> distinct b \<Longrightarrow> set (rot c b) = set b"
  by (auto simp: rot_def)

lemma dequeue_links:
  assumes rep: "pq_rep s bs" and l: "L_prioqueue \<notin> set (held s)"
    and c: "pick (runnable s) bs = Some c" and i: "i < PRIO_MAX" "c \<in> set (bs ! i)"
  shows "\<exists>s'. pq1_dequeue s = Ok (Some c, s') \<and> pq_rep s' (bs[i := rot c (bs ! i)]) \<and> only_links s s'"
proof -
  let ?s = "s\<lparr>held := L_prioqueue # held s, ncli := Suc (ncli s)\<rparr>"
  have ch: "pq_chains ?s bs" and out: "\<forall>x < length (procs s). \<not> queued bs x \<longrightarrow> nxt s x = None"
    using rep by (simp_all add: pq_rep_chains)
  have len: "length bs = PRIO_MAX" using ch by (simp add: pq_chains_def)
  note b = pq_bucket [OF ch i]
  let ?b1 = "bs[i := remove1 c (bs ! i)]"
  obtain t1 where t1: "unlink_cur c ?s = Ok t1" "pq_chains t1 ?b1" "only_links ?s t1"
      "\<forall>x. x \<notin> set (bs ! i) \<longrightarrow> nxt t1 x = nxt ?s x"
    using unlink_links [OF ch i] by blast
  have nq: "\<not> queued ?b1 c"
    using b(3,4) len i by (auto simp: queued_upd)
  have c1: "c < length (procs t1)" "p_priority (procs t1 ! c) = int i"
    using only_links_field(1) [OF t1(3)] only_links_proc(3) [OF t1(3), of c] b(1,2) by simp_all
  obtain t2 where t2: "append_cur c t1 = Ok t2" "pq_chains t2 (?b1[i := ?b1 ! i @ [c]])" "only_links t1 t2"
      "\<forall>x. x \<notin> set (?b1 ! i) \<and> x \<noteq> c \<longrightarrow> nxt t2 x = nxt t1 x"
    using append_links [OF t1(2) i(1) c1 nq] by blast
  have bs: "?b1[i := ?b1 ! i @ [c]] = bs[i := rot c (bs ! i)]" using i(1) len by (simp add: rot_def)
  have links: "only_links ?s t2" using t1(3) t2(3) by (rule only_links_trans)
  have "nxt t2 x = None" if "x < length (procs t2)" "\<not> queued (bs[i := rot c (bs ! i)]) x" for x
  proof -
    have x: "x \<noteq> c" using that(2) i len by (auto simp: queued_upd rot_def)
    have "\<not> queued bs x"
      using queued_keep [of bs x i c "rot c (bs ! i)"] x that(2) i len b(4) by auto
    moreover from this have "x \<notin> set (bs ! i)" using i len by (auto simp: queued_def)
    moreover note x
    moreover have "x < length (procs s)" using that(1) only_links_field(1) [OF links] by simp
    ultimately show ?thesis using out t1(4) t2(4) i(1) len set_remove1_subset [of c "bs ! i"] by auto
  qed
  then have r: "pq_rep t2 (bs[i := rot c (bs ! i)])" using t2(2) bs by (simp add: pq_rep_chains)
  from links_unlock [OF links] have u: "unlock L_prioqueue t2 = Ok (t2\<lparr>held := held s, ncli := ncli s\<rparr>)"
    "only_links s (t2\<lparr>held := held s, ncli := ncli s\<rparr>)" by auto
  have "pq1_dequeue s = Ok (Some c, t2\<lparr>held := held s, ncli := ncli s\<rparr>)"
    using l c t1(1) t2(1) u(1) first_runnable_rep [OF ch] by (simp add: pq1_dequeue_def)
  with r u(2) show ?thesis by auto
qed

lemma dequeue_idle:
  assumes rep: "pq_rep s bs" and l: "L_prioqueue \<notin> set (held s)" and c: "pick (runnable s) bs = None"
  shows "pq1_dequeue s = Ok (None, s)"
proof -
  have "pq_chains (s\<lparr>held := L_prioqueue # held s, ncli := Suc (ncli s)\<rparr>) bs"
    using rep by (simp add: pq_rep_chains)
  from first_runnable_rep [OF this] l c show ?thesis by (simp add: pq1_dequeue_def)
qed

lemma remove_links:
  assumes rep: "pq_rep s bs" and l: "L_prioqueue \<notin> set (held s)" and i: "i < PRIO_MAX" and p: "p \<in> set (bs ! i)"
    and pid: "\<forall>c \<in> set (bs ! i). p_pid (procs s ! c) = p_pid (procs s ! p) \<longrightarrow> c = p"
  shows "\<exists>s'. remove_node p s = Ok s' \<and> pq_rep s' (bs[i := remove1 p (bs ! i)]) \<and> only_links s s'"
proof -
  let ?s = "s\<lparr>held := L_prioqueue # held s, ncli := Suc (ncli s)\<rparr>"
  have ch: "pq_chains ?s bs" and out: "\<forall>x < length (procs s). \<not> queued bs x \<longrightarrow> nxt s x = None"
    using rep by (simp_all add: pq_rep_chains)
  note b = pq_bucket [OF ch i p]
  have q: "length (queue s) = PRIO_MAX" "length bs = PRIO_MAX" and cc: "chain (nxt s) (queue s ! i) (bs ! i)"
    and mem: "\<forall>x \<in> set (bs ! i). x < length (procs s) \<and> p_priority (procs s ! x) = int i"
    using ch i by (auto simp: pq_chains_def)
  have other: "\<And>j x. j < PRIO_MAX \<Longrightarrow> j \<noteq> i \<Longrightarrow> x \<in> set (bs ! j) \<Longrightarrow> x \<notin> set (bs ! i)"
    using pq_bucket(3) [OF ch i] by blast
  obtain us vs where sp: "bs ! i = us @ p # vs" "p \<notin> set us" using p by (meson split_list_first)
  then have rem: "remove1 p (bs ! i) = us @ vs" by (simp add: remove1_append)
  have ho: "\<forall>x \<in> set us. p_pid (procs s ! x) \<noteq> p_pid (procs s ! p)" using pid sp by auto
  have w: "walk_prev (plen ?s) (\<lambda>c. p_pid (procs s ! c) = p_pid (procs s ! p)) (nxt s) None (queue s ! i) =
      Ok (Some (case us of [] \<Rightarrow> None | _ \<Rightarrow> Some (last us), p))"
  proof -
    have "find (\<lambda>c. p_pid (procs s ! c) = p_pid (procs s ! p)) (bs ! i) = Some p"
      unfolding sp(1) using ho by (intro find_first) auto
    moreover have "takeWhile (\<lambda>c. p_pid (procs s ! c) \<noteq> p_pid (procs s ! p)) (bs ! i) = us"
      using ho by (simp add: sp(1) takeWhile_tail)
    ultimately show ?thesis using walk_prev_chain [OF cc] b(5) by (simp split: list.split)
  qed
  have "\<exists>t. remove_node p s = unlock L_prioqueue t \<and> pq_chains t (bs[i := us @ vs]) \<and> only_links ?s t \<and>
      nxt t p = None \<and> (\<forall>x. x \<notin> set (bs ! i) \<longrightarrow> nxt t x = nxt s x)"
  proof (cases us rule: rev_cases)
    case Nil
    let ?t = "set_next p None (?s\<lparr>queue := (queue s)[i := nxt s p]\<rparr>)"
    have d: "p \<notin> set vs" "p < length (procs s)" using b(1,4) sp(1) by auto
    have "remove_node p s = unlock L_prioqueue ?t"
      using l b(2) q(1) i w Nil by (simp add: remove_node_def plen_def)
    moreover have "pq_chains ?t (bs[i := us @ vs])"
      using cc sp Nil mem q i d other by (intro pq_chains_upd [OF ch i]) auto
    moreover have "only_links ?s ?t" by (rule only_links_trans [OF only_links_queue only_links_next])
    ultimately show ?thesis using d p by (intro exI [of _ ?t]) auto
  next
    case (snoc us' x)
    let ?t = "set_next p None (set_next x (nxt s p) ?s)"
    have cc': "chain (nxt s) (queue s ! i) (us' @ x # p # vs)" using cc sp snoc by simp
    have d: "p \<notin> set (us' @ x # vs)" "p < length (procs s)" "x < length (procs s)" "p \<noteq> x"
      using b(1,4) sp snoc mem by auto
    have "remove_node p s = unlock L_prioqueue ?t"
      using l b(2) q(1) i w snoc by (cases us') (simp_all add: remove_node_def plen_def)
    moreover have "pq_chains ?t (bs[i := us @ vs])"
      using chain_unlink [OF cc'] sp snoc mem q i d other by (intro pq_chains_upd [OF ch i]) auto
    moreover have "only_links ?s ?t" by (rule only_links_trans [OF only_links_next only_links_next])
    ultimately show ?thesis using d p sp snoc by (intro exI [of _ ?t]) auto
  qed
  then obtain t where t: "remove_node p s = unlock L_prioqueue t" "pq_chains t (bs[i := us @ vs])"
      "only_links ?s t" "nxt t p = None" "\<forall>x. x \<notin> set (bs ! i) \<longrightarrow> nxt t x = nxt s x" by blast
  have "nxt t x = None" if "x < length (procs t)" "\<not> queued (bs[i := us @ vs]) x" for x
  proof (cases "x = p")
    case False
    then have "\<not> queued bs x"
      using queued_keep [of bs x i p "us @ vs"] that(2) q i sp(1) by auto
    moreover from this have "x \<notin> set (bs ! i)" using i q by (auto simp: queued_def)
    ultimately show ?thesis using that(1) t(5) out only_links_field(1) [OF t(3)] by auto
  qed (use t(4) in simp)
  then have r: "pq_rep t (bs[i := us @ vs])" using t(2) by (simp add: pq_rep_chains)
  from links_unlock [OF t(3)] r t(1) rem show ?thesis by auto
qed

subsection \<open>The run-queue interface\<close>

text \<open>
  What the scheduler and the process life cycle rely on. \<open>env f\<close> stands for everything that runs
  between two rounds of the scheduler: it may change the state of any process, but not the
  queue.
\<close>

fun rounds :: "('s \<Rightarrow> (nat option \<times> 's) res) \<Rightarrow> ('f \<Rightarrow> 's \<Rightarrow> 's) \<Rightarrow> 'f list \<Rightarrow> 's \<Rightarrow> (nat option list \<times> 's) res" where
  "rounds dq env [] s = Ok ([], s)"
| "rounds dq env (f # fs) s =
     bnd (dq (env f s)) (\<lambda>(r, s). bnd (rounds dq env fs s) (\<lambda>(rs, s). Ok (r # rs, s)))"

locale run_queue =
  fixes enq :: "nat \<Rightarrow> nat \<Rightarrow> 's \<Rightarrow> 's res" and deq :: "'s \<Rightarrow> (nat option \<times> 's) res"
    and rem :: "nat \<Rightarrow> 's \<Rightarrow> 's res" and rep :: "'s \<Rightarrow> nat list list \<Rightarrow> bool"
    and st :: "'s \<Rightarrow> nat \<Rightarrow> procstate" and env :: "(nat \<Rightarrow> procstate) \<Rightarrow> 's \<Rightarrow> 's"
    and prio :: "'s \<Rightarrow> nat \<Rightarrow> int" and slots :: "'s \<Rightarrow> nat" and pid :: "'s \<Rightarrow> nat \<Rightarrow> int"
  assumes enq_law: "rep s bs \<Longrightarrow> p < slots s \<Longrightarrow> \<not> queued bs p \<Longrightarrow> i < length bs \<Longrightarrow> prio s p = int i \<Longrightarrow>
        \<exists>s'. enq p i s = Inr s' \<and> rep s' (bs[i := p # bs ! i]) \<and> (\<forall>q < slots s. st s' q = st s q)"
    and deq_law: "rep s bs \<Longrightarrow> pick (\<lambda>p. st s p = RUNNABLE) bs = Some p \<Longrightarrow> i < length bs \<Longrightarrow> p \<in> set (bs ! i) \<Longrightarrow>
        \<exists>s'. deq s = Inr (Some p, s') \<and> rep s' (bs[i := rot p (bs ! i)]) \<and> (\<forall>q < slots s. st s' q = st s q)"
    and deq_none: "rep s bs \<Longrightarrow> pick (\<lambda>p. st s p = RUNNABLE) bs = None \<Longrightarrow> deq s = Inr (None, s)"
    and rem_law: "rep s bs \<Longrightarrow> i < length bs \<Longrightarrow> p \<in> set (bs ! i) \<Longrightarrow>
        \<forall>c \<in> set (bs ! i). pid s c = pid s p \<longrightarrow> c = p \<Longrightarrow>
        \<exists>s'. rem p s = Inr s' \<and> rep s' (bs[i := remove1 p (bs ! i)]) \<and> (\<forall>q < slots s. st s' q = st s q)"
    and env_law: "rep s bs \<Longrightarrow> rep (env f s) bs \<and> (queued bs p \<longrightarrow> st (env f s) p = f p)"
    and rep_distinct: "rep s bs \<Longrightarrow> i < length bs \<Longrightarrow> distinct (bs ! i)"
begin

lemma pick_env:
  assumes "rep s bs"
  shows "pick (\<lambda>p. st (env f s) p = RUNNABLE) bs = pick (\<lambda>p. f p = RUNNABLE) bs"
proof -
  have "\<forall>b \<in> set bs. \<forall>p \<in> set b. (st (env f s) p = RUNNABLE) = (f p = RUNNABLE)"
    using env_law [OF assms] unfolding queued_iff by metis
  then show ?thesis
  proof (induction bs)
    case (Cons b bs)
    moreover have "find (\<lambda>p. st (env f s) p = RUNNABLE) b = find (\<lambda>p. f p = RUNNABLE) b"
      using Cons.prems by (intro find_cong) auto
    ultimately show ?case by (cases "find (\<lambda>p. f p = RUNNABLE) b") simp_all
  qed simp
qed

lemma strict_priority:
  assumes "rep s bs"
  shows "\<exists>r s'. deq s = Inr (r, s') \<and>
    (case r of None \<Rightarrow> (\<forall>p. queued bs p \<longrightarrow> st s p \<noteq> RUNNABLE)
     | Some p \<Rightarrow> st s p = RUNNABLE \<and> (\<exists>i < length bs. p \<in> set (bs ! i) \<and> rep s' (bs[i := rot p (bs ! i)]) \<and>
         (\<forall>j < i. \<forall>q \<in> set (bs ! j). st s q \<noteq> RUNNABLE)))"
proof (cases "pick (\<lambda>p. st s p = RUNNABLE) bs")
  case None
  with deq_none [OF assms] show ?thesis by (auto simp: pick_None queued_def)
next
  case (Some p)
  obtain i where i: "i < length bs" "p \<in> set (bs ! i)" "st s p = RUNNABLE"
      "\<forall>j < i. \<forall>x \<in> set (bs ! j). st s x \<noteq> RUNNABLE"
    using pick_Some [OF Some] by auto
  from deq_law [OF assms Some i(1,2)] i show ?thesis by auto
qed

lemma pick_at:
  assumes "i < length bs" "\<forall>j < i. \<forall>q \<in> set (bs ! j). \<not> r q" "find r (bs ! i) = Some c"
  shows "pick r bs = Some c"
  using assms
proof (induction bs arbitrary: i)
  case (Cons b bs)
  show ?case
  proof (cases i)
    case (Suc k)
    have "\<forall>q \<in> set b. \<not> r q" using Cons.prems(2) Suc by auto
    then have "find r b = None" by (auto simp: find_None_iff)
    moreover have "\<forall>j < k. \<forall>q \<in> set (bs ! j). \<not> r q" using Cons.prems(2) Suc by auto
    ultimately show ?thesis using Cons Suc by auto
  qed (use Cons in simp)
qed simp

lemma one_round:
  assumes "rep s bs" "i < length bs" "\<forall>j < i. \<forall>q \<in> set (bs ! j). f q \<noteq> RUNNABLE"
    and "find (\<lambda>q. f q = RUNNABLE) (bs ! i) = Some c"
  shows "\<exists>s'. deq (env f s) = Inr (Some c, s') \<and> rep s' (bs[i := rot c (bs ! i)])"
proof -
  have "pick (\<lambda>p. f p = RUNNABLE) bs = Some c" using assms by (intro pick_at) auto
  then have "pick (\<lambda>p. st (env f s) p = RUNNABLE) bs = Some c" by (simp add: pick_env [OF assms(1)])
  moreover have "c \<in> set (bs ! i)" using assms(4) by (auto simp: find_Some_iff)
  ultimately show ?thesis using deq_law [of "env f s" bs c i] env_law assms by blast
qed

lemma round_robin:
  assumes "rep s bs" "i < length bs" "bs ! i = us @ vs"
    and "\<forall>q \<in> set (bs ! i). f q = RUNNABLE" "\<forall>j < i. \<forall>q \<in> set (bs ! j). f q \<noteq> RUNNABLE"
  shows "\<exists>s'. rounds deq env (replicate (length us) f) s = Inr (map Some us, s') \<and> rep s' (bs[i := vs @ us])"
  using assms
proof (induction us arbitrary: s bs vs)
  case Nil
  then show ?case by (metis append_Nil2 append_Nil length_0_conv list.map_disc_iff list_update_id replicate_0 rounds.simps(1))
next
  case (Cons u us)
  have "find (\<lambda>q. f q = RUNNABLE) (bs ! i) = Some u" using Cons.prems(3,4) by simp
  from one_round [OF Cons.prems(1,2,5) this] obtain s1 where
    s1: "deq (env f s) = Inr (Some u, s1)" "rep s1 (bs[i := rot u (bs ! i)])" by blast
  let ?bs = "bs[i := us @ (vs @ [u])]"
  have r: "rep s1 ?bs" using s1(2) Cons.prems(3) by (simp add: rot_def)
  from Cons.IH [OF r, of "vs @ [u]"] Cons.prems obtain s' where
    "rounds deq env (replicate (length us) f) s1 = Inr (map Some us, s')" "rep s' (?bs[i := (vs @ [u]) @ us])"
    by (auto simp: nth_list_update)
  with s1(1) show ?case by auto
qed

lemma rounds_total: "rep s bs \<Longrightarrow> \<exists>rs s' bs'. rounds deq env fs s = Inr (rs, s') \<and> rep s' bs' \<and> length rs = length fs"
proof (induction fs arbitrary: s bs)
  case (Cons f fs)
  have e: "rep (env f s) bs" using env_law [OF Cons.prems] by blast
  have "\<exists>r s1 bs1. deq (env f s) = Inr (r, s1) \<and> rep s1 bs1"
  proof (cases "pick (\<lambda>p. st (env f s) p = RUNNABLE) bs")
    case None
    with e deq_none show ?thesis by blast
  next
    case (Some p)
    with deq_law [OF e Some] pick_Some [OF Some] show ?thesis by blast
  qed
  then obtain r s1 bs1 where "deq (env f s) = Inr (r, s1)" "rep s1 bs1" by blast
  with Cons.IH [of s1 bs1] show ?case by auto
qed auto

lemma bounded_wait:
  assumes "rep s bs" "i < length bs" "bs ! i = us @ p # vs" "length us < length fs"
    and "\<forall>f \<in> set fs. f p = RUNNABLE \<and> (\<forall>j < i. \<forall>q \<in> set (bs ! j). f q \<noteq> RUNNABLE)"
  shows "\<exists>rs s'. rounds deq env fs s = Inr (rs, s') \<and> Some p \<in> set (take (Suc (length us)) rs)"
  using assms
proof (induction fs arbitrary: s bs us vs)
  case (Cons f fs)
  have f: "f p = RUNNABLE" "\<forall>j < i. \<forall>q \<in> set (bs ! j). f q \<noteq> RUNNABLE" using Cons.prems(5) by auto
  have d: "distinct (us @ p # vs)" using rep_distinct [OF Cons.prems(1,2)] Cons.prems(3) by simp
  show ?case
  proof (cases "find (\<lambda>q. f q = RUNNABLE) us")
    case None
    then have c: "find (\<lambda>q. f q = RUNNABLE) (bs ! i) = Some p"
      using f(1) Cons.prems(3) by (auto simp: find_None_iff intro: find_first)
    from one_round [OF Cons.prems(1,2) f(2) c] obtain s1 where
      s1: "deq (env f s) = Inr (Some p, s1)" "rep s1 (bs[i := rot p (bs ! i)])" by blast
    from rounds_total [OF s1(2), of fs] s1(1) show ?thesis by auto
  next
    case (Some c)
    from find_split [OF Some] obtain u1 u2
      where u: "us = u1 @ c # u2" "f c = RUNNABLE" "\<forall>x \<in> set u1. f x \<noteq> RUNNABLE" by blast
    then have c: "find (\<lambda>q. f q = RUNNABLE) (bs ! i) = Some c"
      using Cons.prems(3) find_first [of u1 "\<lambda>q. f q = RUNNABLE" c "u2 @ p # vs"] by simp
    from one_round [OF Cons.prems(1,2) f(2) c] obtain s1 where
      s1: "deq (env f s) = Inr (Some c, s1)" "rep s1 (bs[i := rot c (bs ! i)])" by blast
    have "rot c (bs ! i) = (u1 @ u2) @ p # (vs @ [c])"
      using Cons.prems(3) u(1) d by (simp add: rot_def remove1_append)
    with s1(2) Cons.prems Cons.IH [of s1 "bs[i := rot c (bs ! i)]" "u1 @ u2" "vs @ [c]"] u(1)
    obtain rs s' where "rounds deq env fs s1 = Inr (rs, s')" "Some p \<in> set (take (Suc (length (u1 @ u2))) rs)"
      by auto
    with s1(1) u(1) show ?thesis by auto
  qed
qed simp

end

definition set_states :: "(nat \<Rightarrow> procstate) \<Rightarrow> 'a ptable_scheme \<Rightarrow> 'a ptable_scheme" where
  "set_states f s = s\<lparr>procs := map (\<lambda>i. (procs s ! i)\<lparr>p_state := f i\<rparr>) [0..<length (procs s)]\<rparr>"

definition pq_ok :: "'a prioq_scheme \<Rightarrow> nat list list \<Rightarrow> bool" where
  "pq_ok s bs \<longleftrightarrow> pq_rep s bs \<and> L_prioqueue \<notin> set (held s)"

lemma pq_ok_len: "pq_ok s bs \<Longrightarrow> length bs = PRIO_MAX"
  by (simp add: pq_ok_def pq_rep_def)

lemma pq_ok_set_states:
  assumes "pq_ok s bs"
  shows "pq_ok (set_states f s) bs \<and> (queued bs p \<longrightarrow> p_state (procs (set_states f s) ! p) = f p)"
proof -
  have q: "x < length (procs s)" if "queued bs x" for x
    using assms that by (auto simp: pq_ok_def pq_rep_def queued_def)
  have "pq_rep (set_states f s) bs"
  proof (rule pq_rep_cong)
    show "pq_rep s bs" using assms by (simp add: pq_ok_def)
  qed (use q in \<open>auto simp: set_states_def nxt_def\<close>)
  with assms q show ?thesis by (auto simp: pq_ok_def set_states_def)
qed

lemma only_links_ok:
  "pq_ok s bs \<Longrightarrow> only_links s t \<Longrightarrow> pq_rep t bs' \<Longrightarrow>
     pq_ok t bs' \<and> (\<forall>q < length (procs s). p_state (procs t ! q) = p_state (procs s ! q))"
  by (auto simp: pq_ok_def only_links_field(2) only_links_proc(1))

interpretation rq: run_queue "\<lambda>p i. pq1_enqueue p (int i)" pq1_dequeue remove_node pq_ok
    "\<lambda>s p. p_state (procs s ! p)" set_states "\<lambda>s p. p_priority (procs s ! p)" "\<lambda>s. length (procs s)"
    "\<lambda>s p. p_pid (procs s ! p)"
proof (unfold_locales, goal_cases)
  case (1 s bs p i)
  then have "i < PRIO_MAX" by (simp add: pq_ok_len)
  with 1 obtain t where "pq1_enqueue p (int i) s = Inr t" "pq_rep t (bs[i := p # bs ! i])" "only_links s t"
    using enqueue_links [of s bs p i] unfolding pq_ok_def by blast
  with only_links_ok [OF 1(1)] show ?case by blast
next
  case (2 s bs p i)
  then have "i < PRIO_MAX" by (simp add: pq_ok_len)
  with 2 obtain t where "pq1_dequeue s = Inr (Some p, t)" "pq_rep t (bs[i := rot p (bs ! i)])" "only_links s t"
    using dequeue_links [of s bs p i] unfolding pq_ok_def by blast
  with only_links_ok [OF 2(1)] show ?case by blast
next
  case (3 s bs)
  then show ?case by (auto simp: pq_ok_def intro: dequeue_idle)
next
  case (4 s bs i p)
  then have "i < PRIO_MAX" by (simp add: pq_ok_len)
  with 4 obtain t where "remove_node p s = Inr t" "pq_rep t (bs[i := remove1 p (bs ! i)])" "only_links s t"
    using remove_links [of s bs i p] unfolding pq_ok_def by blast
  with only_links_ok [OF 4(1)] show ?case by blast
next
  case (5 s bs f p)
  then show ?case by (rule pq_ok_set_states)
next
  case (6 s bs i)
  then show ?case by (auto simp: pq_ok_def pq_rep_def dest: chain_distinct)
qed

subsection \<open>Changing a priority\<close>

lemma last_idx_Some: "last_idx P xs = Some i \<Longrightarrow> i < length xs \<and> P (xs ! i) \<and> (\<forall>j < length xs. i < j \<longrightarrow> \<not> P (xs ! j))"
proof (induction xs arbitrary: i)
  case (Cons x xs)
  show ?case
  proof (cases "last_idx P xs")
    case None
    have "\<forall>y \<in> set xs. \<not> P y" using None by (induction xs) (auto split: option.splits if_splits)
    with Cons.prems None show ?thesis by (auto split: if_splits simp: nth_Cons split: nat.splits)
  next
    case (Some k)
    with Cons show ?thesis by (auto simp: nth_Cons split: nat.splits)
  qed
qed simp

lemma last_idx_unique:
  assumes "i < length xs" "P (xs ! i)" "\<forall>j < length xs. P (xs ! j) \<longrightarrow> j = i"
  shows "last_idx P xs = Some i"
proof (cases "last_idx P xs")
  case None
  then have "\<forall>y \<in> set xs. \<not> P y" by (induction xs) (auto split: option.splits if_splits)
  with assms(1,2) show ?thesis by auto
next
  case (Some k)
  with last_idx_Some [OF Some] assms(3) show ?thesis by auto
qed

definition uniq_pid :: "'a ptable_scheme \<Rightarrow> nat \<Rightarrow> bool" where
  "uniq_pid s p \<longleftrightarrow> (\<forall>j < length (procs s). p_pid (procs s ! j) = p_pid (procs s ! p) \<longrightarrow> j = p)"

lemma prio_rep_field:
  assumes "pq_ok s bs" "\<not> queued bs p"
  shows "pq_ok (upd_proc p (\<lambda>x. x\<lparr>p_priority := v\<rparr>) s) bs"
proof -
  have "p_priority (procs (upd_proc p (\<lambda>x. x\<lparr>p_priority := v\<rparr>) s) ! x) = p_priority (procs s ! x)"
    if "queued bs x" for x
    using that assms(2) by (intro arg_cong [of _ _ p_priority] upd_proc_nth_neq) auto
  moreover have "queue (upd_proc p (\<lambda>x. x\<lparr>p_priority := v\<rparr>) s) = queue s" by (simp add: upd_proc_def)
  moreover have "pq_rep s bs" using assms(1) by (simp add: pq_ok_def)
  ultimately have "pq_rep (upd_proc p (\<lambda>x. x\<lparr>p_priority := v\<rparr>) s) bs"
    by - (rule pq_rep_cong, assumption, simp_all add: nxt_upd_field)
  with assms(1) show ?thesis by (simp add: pq_ok_def)
qed

text \<open>Where \<open>prio_set\<close> has passed its checks, it moves the process to the front of its new bucket.\<close>

definition with_priority :: "nat \<Rightarrow> nat \<Rightarrow> nat \<Rightarrow> nat list list \<Rightarrow> nat list list" where
  "with_priority p i j bs = (let b = bs[i := remove1 p (bs ! i)] in b[j := p # b ! j])"

lemma move_links:
  assumes ok: "pq_ok s bs" and i: "i < PRIO_MAX" "p \<in> set (bs ! i)" and u: "uniq_pid s p" and j: "j < PRIO_MAX"
  shows "\<exists>s'. bnd (remove_node p s) (\<lambda>s. pq1_enqueue p (int j) (upd_proc p (\<lambda>x. x\<lparr>p_priority := int j\<rparr>) s)) = Ok s' \<and>
    pq_ok s' (with_priority p i j bs) \<and> p_priority (procs s' ! p) = int j"
proof -
  have ch: "pq_chains s bs" and len: "length bs = PRIO_MAX"
    using ok by (simp_all add: pq_ok_def pq_rep_chains pq_chains_def)
  note b = pq_bucket [OF ch i]
  have un: "\<forall>c \<in> set (bs ! i). p_pid (procs s ! c) = p_pid (procs s ! p) \<longrightarrow> c = p"
    using u pq_bucket(1) [OF ch i(1)] by (auto simp: uniq_pid_def)
  let ?b = "bs[i := remove1 p (bs ! i)]"
  obtain s1 where r1: "remove_node p s = Ok s1" "pq_rep s1 ?b" and ol: "only_links s s1"
    using remove_links [of s bs i p] i un ok unfolding pq_ok_def by blast
  have s1: "remove_node p s = Ok s1" "pq_ok s1 ?b" and len1: "length (procs s1) = length (procs s)"
    using only_links_ok [OF ok ol r1(2)] r1(1) only_links_field(1) [OF ol] by simp_all
  have nq: "\<not> queued ?b p" using b(3,4) len i(1) by (auto simp: queued_upd)
  let ?s = "upd_proc p (\<lambda>x. x\<lparr>p_priority := int j\<rparr>) s1"
  have p: "p < length (procs s1)" using b(1) len1 by simp
  have ok2: "pq_ok ?s ?b" by (rule prio_rep_field [OF s1(2) nq])
  then obtain s2 where s2: "pq1_enqueue p (int j) ?s = Ok s2" "pq_rep s2 (?b[j := p # ?b ! j])" "only_links ?s s2"
    using enqueue_links [of ?s ?b p j] nq p j by (auto simp: pq_ok_def)
  have "pq_ok s2 (with_priority p i j bs)"
    using only_links_ok [OF ok2 s2(3,2)] by (simp add: with_priority_def Let_def)
  moreover have "p_priority (procs s2 ! p) = int j"
    using only_links_proc(3) [OF s2(3), of p] p by simp
  ultimately show ?thesis using s1(1) s2(1) by auto
qed

lemma prio_set_eval:
  assumes l: "L_prioqueue \<notin> set (held s)" and me: "cur s = Some me"
    and p: "p < length (procs s)" "uniq_pid s p"
    and anc: "chain (\<lambda>a. p_parent (procs s ! a)) (Some p) as" "\<forall>a \<in> set as. a < length (procs s)"
  shows "prio_set (p_pid (procs s ! p)) v s =
    (if v < 0 \<or> int PRIO_MAX \<le> v \<or> v < p_priority (procs s ! me) \<or>
        (\<forall>a \<in> set as. p_pid (procs s ! a) \<noteq> p_pid (procs s ! me)) then Ok (-1, s)
     else bnd (bnd (remove_node p s) (\<lambda>s. pq1_enqueue p v (upd_proc p (\<lambda>x. x\<lparr>p_priority := v\<rparr>) s))) (\<lambda>s. Ok (0, s)))"
proof -
  have li: "last_idx (\<lambda>x. p_pid x = p_pid (procs s ! p)) (procs s) = Some p"
    using p by (intro last_idx_unique) (auto simp: uniq_pid_def)
  have "length as = card (set as)" using chain_distinct [OF anc(1)] by (simp add: distinct_card)
  also have "\<dots> \<le> card {..< length (procs s)}" using anc(2) by (intro card_mono) auto
  finally have len: "length as \<le> plen s" by (simp add: plen_def)
  let ?hit = "\<lambda>a. p_pid (procs s ! a) = p_pid (procs s ! me)"
  have w: "walk (plen s) ?hit (\<lambda>a. p_parent (procs s ! a)) (Some p) = Ok (find ?hit as)"
    using walk_chain [OF anc(1) len] .
  have pl: "plen (s\<lparr>held := h, ncli := n\<rparr>) = plen s" for h n by (simp add: plen_def)
  consider "find ?hit as = None" "\<forall>a \<in> set as. \<not> ?hit a" | x where "find ?hit as = Some x" "\<exists>a \<in> set as. ?hit a"
    by (cases "find ?hit as") (auto simp: find_None_iff dest: find_split)
  then show ?thesis
  proof cases
    case 1
    then show ?thesis using l me by (simp add: prio_set_def myproc_def li w pl Let_def)
  next
    case (2 x)
    then have "\<not> (\<forall>a \<in> set as. \<not> ?hit a)" by blast
    with 2(1) show ?thesis
      using l me by (simp only: prio_set_def myproc_def) (simp add: li w pl Let_def bnd_assoc)
  qed
qed

lemma remove_absent:
  assumes ok: "pq_ok s bs" and p: "uniq_pid s p" "\<not> queued bs p"
    and k: "k < PRIO_MAX" "p_priority (procs s ! p) = int k"
  shows "remove_node p s = Ok s"
proof -
  have ch: "pq_chains s bs" and l: "L_prioqueue \<notin> set (held s)" using ok by (simp_all add: pq_ok_def pq_rep_chains)
  have q: "length (queue s) = PRIO_MAX" "length bs = PRIO_MAX" and c: "chain (nxt s) (queue s ! k) (bs ! k)"
    and mem: "\<forall>x \<in> set (bs ! k). x < length (procs s)"
    using ch k by (auto simp: pq_chains_def)
  have "p \<notin> set (bs ! k)" using p(2) k(1) q(2) by (auto simp: queued_def)
  then have "\<forall>x \<in> set (bs ! k). p_pid (procs s ! x) \<noteq> p_pid (procs s ! p)"
    using p(1) mem by (auto simp: uniq_pid_def)
  then have "find (\<lambda>c. p_pid (procs s ! c) = p_pid (procs s ! p)) (bs ! k) = None" by (auto simp: find_None_iff)
  then have "walk_prev (plen s) (\<lambda>c. p_pid (procs s ! c) = p_pid (procs s ! p)) (nxt s) None (queue s ! k) = Ok None"
    using walk_prev_chain [OF c pq_length [OF ch k(1)]] by simp
  moreover have "plen (s\<lparr>held := h, ncli := n\<rparr>) = plen s" for h n by (simp add: plen_def)
  ultimately show ?thesis using l k q by (simp add: remove_node_def)
qed

lemma walk_loop: "nx p = Some p \<Longrightarrow> \<not> hit p \<Longrightarrow> walk k hit nx (Some p) = Inl Diverge"
  by (induction k) auto

lemma first_runnable_loop:
  assumes "i < length hs" "hs ! i = Some p" "nxt s p = Some p" "\<not> runnable s p"
    and "\<And>j. j < i \<Longrightarrow> walk (plen s) (runnable s) (nxt s) (hs ! j) = Ok None"
  shows "first_runnable s hs = Inl Diverge"
  using assms
proof (induction hs arbitrary: i)
  case (Cons h hs)
  show ?case
  proof (cases i)
    case 0
    with Cons.prems walk_loop [of "nxt s" p "runnable s" "plen s"] show ?thesis by simp
  next
    case (Suc k)
    have "walk (plen s) (runnable s) (nxt s) h = Ok None" using Cons.prems(5) [of 0] Suc by simp
    moreover have "walk (plen s) (runnable s) (nxt s) (hs ! j) = Ok None" if "j < k" for j
      using Cons.prems(5) [of "Suc j"] Suc that by simp
    ultimately show ?thesis using Cons Suc by auto
  qed
qed simp

lemma reenqueue_loops:
  assumes ok: "pq_ok s bs" and i: "i < PRIO_MAX" "bs ! i = p # b" and nr: "\<forall>q. queued bs q \<longrightarrow> \<not> runnable s q"
  shows "\<exists>s'. pq1_enqueue p (int i) s = Ok s' \<and> pq1_dequeue s' = Inl Diverge"
proof -
  have ch: "pq_chains s bs" and l: "L_prioqueue \<notin> set (held s)" using ok by (simp_all add: pq_ok_def pq_rep_chains)
  have q: "length (queue s) = PRIO_MAX" "length bs = PRIO_MAX" and h: "queue s ! i = Some p" and p: "p < length (procs s)"
    using ch i by (auto simp: pq_chains_def)
  have nr': "\<not> runnable s x" if "j < PRIO_MAX" "x \<in> set (bs ! j)" for j x
    using nr that q(2) unfolding queued_def by auto
  let ?t = "set_next p (Some p) (s\<lparr>queue := (queue s)[i := Some p]\<rparr>)"
  have "pq1_enqueue p (int i) s = Ok ?t"
    using l q i h by (simp add: pq1_enqueue_def set_next_def upd_proc_def)
  moreover have "pq1_dequeue ?t = Inl Diverge"
  proof -
    let ?u = "?t\<lparr>held := L_prioqueue # held s, ncli := Suc (ncli s)\<rparr>"
    have run: "runnable ?u = runnable s" and pl: "plen ?u = plen s" by (auto simp: plen_def)
    have np: "p \<notin> set (bs ! j)" if "j < i" for j
      using pq_bucket(3) [OF ch i(1), of p j] i that by auto
    have w: "walk (plen s) (runnable s) (nxt ?u) (queue ?u ! j) = Ok None" if "j < i" for j
    proof -
      have c: "chain (nxt ?u) (queue ?u ! j) (bs ! j)"
        using ch np [OF that] that i(1) p by (auto simp: pq_chains_def)
      have "find (runnable s) (bs ! j) = None"
        unfolding find_None_iff using nr' [of j] that i(1) by auto
      with walk_chain [OF c pq_length [OF ch]] that i(1) show ?thesis by simp
    qed
    have "first_runnable ?u (take PRIO_MAX (queue ?u)) = Inl Diverge"
    proof (rule first_runnable_loop [of i _ p])
      show "\<not> runnable ?u p" using nr' [OF i(1), of p] i(2) run by simp
    qed (use w i q p run pl in \<open>auto\<close>)
    with l show ?thesis by (simp add: pq1_dequeue_def)
  qed
  ultimately show ?thesis by blast
qed

subsection \<open>Properties\<close>

text \<open>A small run queue for concrete inputs: init asleep at priority 0, two runnable shells at 5.\<close>

definition mkproc :: "int \<Rightarrow> procstate \<Rightarrow> int \<Rightarrow> nat option \<Rightarrow> nat option \<Rightarrow> proc" where
  "mkproc i st pr par n = \<lparr>p_sz = 0, p_pgdir = 0x80200000, p_kstack = 0x80201000, p_state = st, p_pid = i, p_parent = par,
     p_tf = 0, p_context = 0, p_chan = None, p_killed = False, p_ofile = replicate NOFILE None, p_cwd = None,
     p_name = [], p_priority = pr, p_next = n, p_shms = replicate SHM_MAXNUM \<lparr>shp_name = [], shp_addr = 0\<rparr>,
     p_locks = replicate MUX_MAXNUM (-1), p_ticks = 0, p_cid = -1, p_path = ''/'', p_pipein = 0, p_pipeout = 0\<rparr>"

definition demo_pq :: prioq where
  "demo_pq = \<lparr>held = [], ncli = 0, use_lock = True, freelist = 0, kend = 0x80115000, mem = \<lambda>_. 0,
     procs = [mkproc 1 SLEEPING 0 None None, mkproc 2 RUNNABLE 5 (Some 0) (Some 2), mkproc 3 RUNNABLE 5 (Some 1) None],
     cur = None, nextpid = 4, initproc = Some 0, kpgdir = 0x80200000, cr3 = 0, ts_esp0 = 0,
     queue = [Some 0, None, None, None, None, Some 1, None, None, None, None]\<rparr>"

definition demo_bs :: "nat list list" where
  "demo_bs = [[0], [], [], [], [], [1, 2], [], [], [], []]"

lemma demo_pq_ok: "pq_ok demo_pq demo_bs"
  unfolding pq_ok_def pq_rep_def PRIO_MAX_def
  by (simp add: demo_pq_def demo_bs_def mkproc_def nxt_def queued_def numeral_eq_Suc All_less_Suc)

lemma demo_queued: "queued demo_bs p \<longleftrightarrow> p = 0 \<or> p = 1 \<or> p = 2"
  by (auto simp: queued_iff demo_bs_def)

lemma demo_nth: "demo_bs ! 0 = [0]" "demo_bs ! 5 = [1, 2]" "length demo_bs = 10"
  by (simp_all add: demo_bs_def)

lemma demo_below: "\<forall>j < 5. \<forall>q \<in> set (demo_bs ! j). q = 0"
  by (simp add: demo_bs_def numeral_eq_Suc All_less_Suc)

text \<open>C4: One round of \<open>scheduler\<close> returns. It idles, leaving the kernel unchanged, only if no queued
  process is runnable; otherwise it switches to a runnable process such that every process
  queued at a numerically lower priority or ahead of it in its own bucket is not runnable,
  marks it running, makes it the current
  process with \<open>ptable.lock\<close> held, and leaves it at the back of its own bucket.\<close>

theorem scheduler_strict_priority:
  assumes ok: "pq_ok s bs" and l: "L_ptable \<notin> set (held s)"
    and st: "\<forall>p. queued bs p \<longrightarrow> p_kstack (procs s ! p) \<noteq> 0 \<and> p_pgdir (procs s ! p) \<noteq> 0"
  shows "\<exists>r s'. scheduler_pick s = Ok (r, s') \<and>
    (case r of None \<Rightarrow> s' = s \<and> (\<forall>p. queued bs p \<longrightarrow> \<not> runnable s p)
     | Some p \<Rightarrow> runnable s p \<and> cur s' = Some p \<and> p_state (procs s' ! p) = RUNNING \<and>
         held s' = L_ptable # held s \<and> cr3 s' = V2P (p_pgdir (procs s ! p)) \<and>
         (\<exists>i < PRIO_MAX. find (runnable s) (bs ! i) = Some p \<and> pq_rep s' (bs[i := rot p (bs ! i)]) \<and>
            (\<forall>j < i. \<forall>q \<in> set (bs ! j). \<not> runnable s q)))"
proof -
  let ?s = "s\<lparr>held := L_ptable # held s, ncli := Suc (ncli s)\<rparr>"
  have rep: "pq_rep ?s bs" and lp: "L_prioqueue \<notin> set (held ?s)" using ok by (simp_all add: pq_ok_def)
  have ch: "pq_chains ?s bs" and len: "length bs = PRIO_MAX" using rep by (simp_all add: pq_rep_chains pq_chains_def)
  show ?thesis
  proof (cases "pick (runnable s) bs")
    case None
    then have "scheduler_pick s = Ok (None, s)"
      using l dequeue_idle [OF rep lp] by (simp add: scheduler_pick_def)
    with None show ?thesis by (auto simp: pick_None queued_iff)
  next
    case (Some p)
    obtain i where i: "i < PRIO_MAX" "p \<in> set (bs ! i)" "runnable s p" "\<forall>j < i. \<forall>x \<in> set (bs ! j). \<not> runnable s x"
        "find (runnable s) (bs ! i) = Some p"
      using pick_Some [OF Some] len by auto
    obtain t where t: "pq1_dequeue ?s = Ok (Some p, t)" "pq_rep t (bs[i := rot p (bs ! i)])" "only_links ?s t"
      using dequeue_links [OF rep lp _ i(1,2)] Some by auto
    have p: "p < length (procs s)" using pq_bucket(1) [OF ch i(1,2)] by simp
    have f: "p_kstack (procs t ! p) = p_kstack (procs s ! p)" "p_pgdir (procs t ! p) = p_pgdir (procs s ! p)"
      using only_links_proc(5,6) [OF t(3), of p] p by simp_all
    have q: "queued bs p" using i len by (auto simp: queued_def)
    let ?u = "t\<lparr>cur := Some p, ts_esp0 := p_kstack (procs t ! p) + KSTACKSIZE, cr3 := V2P (p_pgdir (procs t ! p))\<rparr>"
    let ?r = "upd_proc p (\<lambda>x. x\<lparr>p_state := RUNNING\<rparr>) ?u"
    have "scheduler_pick s = Ok (Some p, ?r)"
      using l t(1) st q f by (simp add: scheduler_pick_def switchuvm_def)
    moreover have "pq_rep ?r (bs[i := rot p (bs ! i)])"
    proof (rule pq_rep_cong [OF t(2)])
      show "p_priority (procs ?r ! x) = p_priority (procs t ! x)" for x
        by (cases "p < length (procs t)") (auto simp: upd_proc_def nth_list_update list_update_beyond)
      have "nxt ?u = nxt t" by (rule ext) (simp add: nxt_def)
      then show "nxt ?r x = nxt t x" for x by (simp add: nxt_upd_field)
    qed (simp_all add: upd_proc_def)
    moreover have "held ?r = L_ptable # held s" "p < length (procs t)"
      using only_links_field [OF t(3)] p by simp_all
    ultimately show ?thesis using i f by (intro exI [of _ "Some p"] exI [of _ ?r]) auto
  qed
qed

theorem scheduler_strict_priority_witness:
  "\<exists>s'. scheduler_pick demo_pq = Ok (Some 1, s') \<and> cur s' = Some 1"
proof -
  have st: "\<forall>p. queued demo_bs p \<longrightarrow> p_kstack (procs demo_pq ! p) \<noteq> 0 \<and> p_pgdir (procs demo_pq ! p) \<noteq> 0"
    by (auto simp: demo_queued demo_pq_def mkproc_def)
  have "L_ptable \<notin> set (held demo_pq)" by (simp add: demo_pq_def)
  from scheduler_strict_priority [OF demo_pq_ok this st] obtain r s' where
    r: "scheduler_pick demo_pq = Ok (r, s')" and c: "case r of None \<Rightarrow> s' = demo_pq \<and> (\<forall>p. queued demo_bs p \<longrightarrow> \<not> runnable demo_pq p)
     | Some p \<Rightarrow> runnable demo_pq p \<and> cur s' = Some p \<and> p_state (procs s' ! p) = RUNNING \<and>
         held s' = L_ptable # held demo_pq \<and> cr3 s' = V2P (p_pgdir (procs demo_pq ! p)) \<and>
         (\<exists>i < PRIO_MAX. find (runnable demo_pq) (demo_bs ! i) = Some p \<and> pq_rep s' (demo_bs[i := rot p (demo_bs ! i)]) \<and>
            (\<forall>j < i. \<forall>q \<in> set (demo_bs ! j). \<not> runnable demo_pq q))" by blast
  have r1: "runnable demo_pq 1" by (simp add: demo_pq_def mkproc_def)
  have "find (runnable demo_pq) (demo_bs ! i) = Some p \<Longrightarrow> i < PRIO_MAX \<Longrightarrow> p = 1" for i p
    by (auto simp: demo_bs_def PRIO_MAX_def demo_pq_def mkproc_def numeral_eq_Suc less_Suc_eq split: if_splits)
  with r c r1 show ?thesis by (cases r) (auto simp: demo_queued)
qed



text \<open>C18: Round robin. When all \<open>n\<close> processes of a bucket are runnable and none of a numerically lower
  priority is, \<open>n\<close> calls of \<open>pq1_dequeue\<close> return each of them exactly once, in the order of the
  bucket, and leave every bucket as it was.\<close>

theorem dequeue_round_robin:
  assumes "pq_ok s bs" "i < PRIO_MAX" "\<forall>q \<in> set (bs ! i). f q = RUNNABLE" "\<forall>j < i. \<forall>q \<in> set (bs ! j). f q \<noteq> RUNNABLE"
  shows "\<exists>s'. rounds pq1_dequeue set_states (replicate (length (bs ! i)) f) s = Ok (map Some (bs ! i), s') \<and>
    pq_ok s' bs \<and> distinct (bs ! i)"
proof -
  have i: "i < length bs" using assms(2) pq_ok_len [OF assms(1)] by simp
  have b: "bs ! i = bs ! i @ []" by simp
  from rq.round_robin [OF assms(1) i b assms(3,4)] rq.rep_distinct [OF assms(1) i] show ?thesis by simp
qed

theorem dequeue_round_robin_witness:
  "\<exists>s'. rounds pq1_dequeue set_states (replicate 2 (\<lambda>p. if p = 0 then SLEEPING else RUNNABLE)) demo_pq =
     Ok ([Some 1, Some 2], s') \<and> pq_ok s' demo_bs"
  using demo_below dequeue_round_robin [OF demo_pq_ok, of 5 "\<lambda>p. if p = 0 then SLEEPING else RUNNABLE"]
  by (auto simp: PRIO_MAX_def demo_nth numeral_2_eq_2)

text \<open>C19: \<open>prio_set\<close> on a queued process. It fails with \<open>-1\<close> and changes nothing if the priority is out
  of range, is numerically below the caller's, or the caller is not an ancestor of the process
  (or the process itself); otherwise it returns 0 and moves exactly that process to the front
  of the bucket of its new priority.\<close>

theorem prio_set_moves:
  assumes ok: "pq_ok s bs" and me: "cur s = Some me" and p: "p < length (procs s)" "uniq_pid s p"
    and anc: "chain (\<lambda>a. p_parent (procs s ! a)) (Some p) as" "\<forall>a \<in> set as. a < length (procs s)"
    and i: "i < PRIO_MAX" "p \<in> set (bs ! i)"
  shows "if v < 0 \<or> 10 \<le> v \<or> v < p_priority (procs s ! me) \<or>
       (\<forall>a \<in> set as. p_pid (procs s ! a) \<noteq> p_pid (procs s ! me))
     then prio_set (p_pid (procs s ! p)) v s = Ok (-1, s)
     else \<exists>s'. prio_set (p_pid (procs s ! p)) v s = Ok (0, s') \<and> pq_ok s' (with_priority p i (nat v) bs) \<and>
       p_priority (procs s' ! p) = v"
proof (cases "v < 0 \<or> 10 \<le> v \<or> v < p_priority (procs s ! me) \<or>
       (\<forall>a \<in> set as. p_pid (procs s ! a) \<noteq> p_pid (procs s ! me))")
  case True
  have "L_prioqueue \<notin> set (held s)" using ok by (simp add: pq_ok_def)
  from prio_set_eval [OF this me p anc, of v] True show ?thesis by (simp add: PRIO_MAX_def)
next
  case False
  then have v: "nat v < PRIO_MAX" "int (nat v) = v" by (auto simp: PRIO_MAX_def)
  have l: "L_prioqueue \<notin> set (held s)" using ok by (simp add: pq_ok_def)
  from move_links [OF ok i p(2) v(1)] prio_set_eval [OF l me p anc, of v] False v show ?thesis
    by (auto simp: PRIO_MAX_def)
qed

lemma demo_me: "pq_ok (demo_pq\<lparr>cur := Some 1\<rparr>) demo_bs"
  using demo_pq_ok by (simp add: pq_ok_def pq_rep_def nxt_def [abs_def])

theorem prio_set_moves_witness:
  "(\<exists>s'. prio_set 3 7 (demo_pq\<lparr>cur := Some 1\<rparr>) = Ok (0, s') \<and> p_priority (procs s' ! 2) = 7) \<and>
   prio_set 3 4 (demo_pq\<lparr>cur := Some 1\<rparr>) = Ok (-1, demo_pq\<lparr>cur := Some 1\<rparr>)"
proof -
  let ?s = "demo_pq\<lparr>cur := Some 1\<rparr>"
  have "uniq_pid ?s 2" "chain (\<lambda>a. p_parent (procs ?s ! a)) (Some 2) [2, 1, 0]" "p_pid (procs ?s ! 2) = 3"
    by (auto simp: uniq_pid_def demo_pq_def mkproc_def less_Suc_eq numeral_eq_Suc)
  moreover have "length (procs ?s) = 3" "p_priority (procs ?s ! 1) = 5" "cur ?s = Some 1" "5 < PRIO_MAX"
    by (simp_all add: demo_pq_def mkproc_def PRIO_MAX_def)
  ultimately show ?thesis
    using prio_set_moves [OF demo_me, of 1 2 "[2, 1, 0]" 5 7] prio_set_moves [OF demo_me, of 1 2 "[2, 1, 0]" 5 4]
    by (auto simp: demo_nth)
qed


definition zombie_pq :: prioq where
  "zombie_pq = demo_pq\<lparr>procs := [mkproc 1 SLEEPING 0 None None, mkproc 2 RUNNING 5 (Some 0) None, mkproc 3 ZOMBIE 5 (Some 1) None],
     cur := Some 1, queue := [Some 0, None, None, None, None, Some 1, None, None, None, None]\<rparr>"


end
