(* ===== verification/Cstring.thy ===== *)
theory Cstring
  imports Bytes
begin

text \<open>
  The string routines of \<^verbatim>\<open>string.c\<close> and the two comparisons of \<^verbatim>\<open>container.c\<close>.

  A \<open>char *\<close> is the list of bytes from the pointed-to byte to the end of its array, so \<open>p++\<close> is the
  tail and reading or writing past the array is a fault. \<open>cstr\<close> is the text before the first
  zero byte. Each routine is shown to do on texts what the names promise, and to fault exactly
  when the destination is too small or the source unterminated.
\<close>

type_synonym buf = "char list"

abbreviation NUL :: char where
  "NUL \<equiv> CHR 0x00"

definition cstr :: "buf \<Rightarrow> string" where
  "cstr b = takeWhile (\<lambda>c. c \<noteq> NUL) b"

definition term_buf :: "buf \<Rightarrow> bool" where
  "term_buf b \<longleftrightarrow> NUL \<in> set b"

definition uchar :: "char \<Rightarrow> int" where
  "uchar c = of_char c"

definition schar :: "char \<Rightarrow> int" where
  "schar c = (let n = of_char c in if n < 128 then n else n - 256)"

subsection \<open>Reading\<close>

fun strlen :: "buf \<Rightarrow> nat res" where
  "strlen [] = fault ''strlen''"
| "strlen (c # s) = (if c = NUL then Ok 0 else bnd (strlen s) (\<lambda>n. Ok (Suc n)))"

fun strncmp :: "buf \<Rightarrow> buf \<Rightarrow> nat \<Rightarrow> int res" where
  "strncmp p q 0 = Ok 0"
| "strncmp (a # p) (b # q) (Suc n) = (if a \<noteq> NUL \<and> a = b then strncmp p q n else Ok (uchar a - uchar b))"
| "strncmp _ _ (Suc n) = fault ''strncmp''"

fun strcmp :: "buf \<Rightarrow> buf \<Rightarrow> int res" where
  "strcmp (a # p) (b # q) = (if a \<noteq> NUL \<and> a = b then strcmp p q else Ok (schar a - schar b))"
| "strcmp _ _ = fault ''strcmp''"

fun rootcmp :: "buf \<Rightarrow> buf \<Rightarrow> int res" where
  "rootcmp (a # p) (b # q) =
     (if a \<noteq> NUL \<and> a = b then rootcmp p q
      else if a = NUL then Ok 0 else Ok (schar a - schar b))"
| "rootcmp _ _ = fault ''rootcmp''"

fun memcmp :: "byte list \<Rightarrow> byte list \<Rightarrow> nat \<Rightarrow> int res" where
  "memcmp p q 0 = Ok 0"
| "memcmp (a # p) (b # q) (Suc n) = (if a \<noteq> b then Ok (uint a - uint b) else memcmp p q n)"
| "memcmp _ _ (Suc n) = fault ''memcmp''"

fun strchr :: "buf \<Rightarrow> char \<Rightarrow> buf option res" where
  "strchr [] c = fault ''strchr''"
| "strchr (a # s) c = (if a = NUL then Ok None else if a = c then Ok (Some (a # s)) else strchr s c)"

fun strcspn :: "buf \<Rightarrow> buf \<Rightarrow> nat res" where
  "strcspn [] t = fault ''strcspn''"
| "strcspn (a # s) t =
     (if a = NUL then Ok 0
      else bnd (strchr t a) (\<lambda>r. case r of Some _ \<Rightarrow> Ok 0 | None \<Rightarrow> bnd (strcspn s t) (\<lambda>n. Ok (Suc n))))"

subsection \<open>Writing\<close>

fun strcpy :: "buf \<Rightarrow> buf \<Rightarrow> buf res" where
  "strcpy d [] = fault ''strcpy''"
| "strcpy [] (t # ts) = fault ''strcpy''"
| "strcpy (d # ds) (t # ts) = (if t = NUL then Ok (t # ds) else bnd (strcpy ds ts) (\<lambda>r. Ok (t # r)))"

text \<open>The zero fill of \<open>strncpy\<close>.\<close>

fun zfill :: "nat \<Rightarrow> buf \<Rightarrow> buf res" where
  "zfill 0 d = Ok d"
| "zfill (Suc n) [] = fault ''strncpy''"
| "zfill (Suc n) (d # ds) = bnd (zfill n ds) (\<lambda>r. Ok (NUL # r))"

fun strncpy :: "buf \<Rightarrow> buf \<Rightarrow> nat \<Rightarrow> buf res" where
  "strncpy d t 0 = Ok d"
| "strncpy (d # ds) (t # ts) (Suc n) =
     (if t = NUL then bnd (zfill n ds) (\<lambda>r. Ok (t # r)) else bnd (strncpy ds ts n) (\<lambda>r. Ok (t # r)))"
| "strncpy _ _ (Suc n) = fault ''strncpy''"

text \<open>
  \<open>safestrcpy\<close> with \<open>n\<close> positive: the loop copies while \<open>--n > 0\<close>, then a zero byte is stored at the
  place reached, one past the copied terminator when there was room for it.
\<close>

fun safe_loop :: "buf \<Rightarrow> buf \<Rightarrow> nat \<Rightarrow> buf res" where
  "safe_loop [] t n = fault ''safestrcpy''"
| "safe_loop (d # ds) t 0 = Ok (NUL # ds)"
| "safe_loop (d # ds) [] (Suc n) = fault ''safestrcpy''"
| "safe_loop (d # ds) (t # ts) (Suc n) =
     (if t = NUL then (case ds of [] \<Rightarrow> fault ''safestrcpy'' | _ # es \<Rightarrow> Ok (t # NUL # es))
      else bnd (safe_loop ds ts n) (\<lambda>r. Ok (t # r)))"

definition safestrcpy :: "buf \<Rightarrow> buf \<Rightarrow> int \<Rightarrow> buf res" where
  "safestrcpy d t n = (if n \<le> 0 then Ok d else safe_loop d t (nat n - 1))"

fun strcat_at :: "buf \<Rightarrow> buf \<Rightarrow> buf res" where
  "strcat_at d [] = fault ''strcat''"
| "strcat_at [] (t # ts) = fault ''strcat''"
| "strcat_at (d # ds) (t # ts) = (if t = NUL then Ok (NUL # ds) else bnd (strcat_at ds ts) (\<lambda>r. Ok (t # r)))"

fun strcat :: "buf \<Rightarrow> buf \<Rightarrow> buf res" where
  "strcat [] t = fault ''strcat''"
| "strcat (d # ds) t = (if d \<noteq> NUL then bnd (strcat ds t) (\<lambda>r. Ok (d # r)) else strcat_at (d # ds) t)"

subsection \<open>Texts\<close>

lemma cstr_simps [simp]: "cstr [] = []" "cstr (c # s) = (if c = NUL then [] else c # cstr s)"
  by (simp_all add: cstr_def)

lemma term_simps [simp]: "term_buf (c # s) \<longleftrightarrow> c = NUL \<or> term_buf s" "\<not> term_buf []"
  by (auto simp: term_buf_def)

lemma cstr_no_nul [simp]: "NUL \<notin> set (cstr b)"
  by (auto simp: cstr_def dest: set_takeWhileD)

lemma cstr_append_nul [simp]: "NUL \<notin> set x \<Longrightarrow> cstr (x @ NUL # r) = x" "term_buf (x @ NUL # r)"
  by (induction x) auto

lemma term_split: "term_buf b \<Longrightarrow> b = cstr b @ NUL # drop (Suc (length (cstr b))) b"
  by (induction b) auto

lemma strlen_cstr: "strlen b = (if term_buf b then Ok (length (cstr b)) else fault ''strlen'')"
  by (induction b) auto

lemma strcpy_cstr:
  "term_buf t \<Longrightarrow> strcpy d t = (if length (cstr t) < length d
     then Ok (cstr t @ NUL # drop (Suc (length (cstr t))) d) else fault ''strcpy'')"
  by (induction d t rule: strcpy.induct) auto

lemma strcat_at_cstr:
  "term_buf t \<Longrightarrow> strcat_at d t = (if length (cstr t) < length d
     then Ok (cstr t @ NUL # drop (Suc (length (cstr t))) d) else fault ''strcat'')"
  by (induction d t rule: strcat_at.induct) auto

lemma strcat_cstr:
  "term_buf t \<Longrightarrow> term_buf d \<Longrightarrow> strcat d t = (if length (cstr d) + length (cstr t) < length d
     then Ok (cstr d @ cstr t @ NUL # drop (Suc (length (cstr d) + length (cstr t))) d) else fault ''strcat'')"
  by (induction d t rule: strcat.induct) (auto simp: strcat_at_cstr)

lemma uchar_inj: "uchar a = uchar b \<longleftrightarrow> a = b"
  by (simp add: uchar_def)

lemma schar_inj: "schar a = schar b \<longleftrightarrow> a = b"
proof -
  have "(of_char a :: int) = of_char b" if "schar a = schar b"
  proof -
    have r: "0 \<le> (of_char c :: int) \<and> (of_char c :: int) < 256" for c
      by (metis of_nat_0_le_iff of_nat_less_numeral_iff of_nat_of_char nat_of_char_less_256)
    from that r [of a] r [of b] show ?thesis by (auto simp: schar_def Let_def split: if_splits)
  qed
  then show ?thesis by auto
qed

lemma strncmp_zero:
  "term_buf p \<Longrightarrow> term_buf q \<Longrightarrow> \<exists>r. strncmp p q n = Ok r \<and> (r = 0 \<longleftrightarrow> take n (cstr p) = take n (cstr q))"
  by (induction p q n rule: strncmp.induct) (auto simp: uchar_inj)

lemma strcmp_zero:
  "term_buf p \<Longrightarrow> term_buf q \<Longrightarrow> \<exists>r. strcmp p q = Ok r \<and> (r = 0 \<longleftrightarrow> cstr p = cstr q)"
  by (induction p q rule: strcmp.induct) (auto simp: schar_inj)

lemma rootcmp_zero:
  "term_buf p \<Longrightarrow> term_buf q \<Longrightarrow> \<exists>r. rootcmp p q = Ok r \<and> (r = 0 \<longleftrightarrow> (\<exists>z. cstr q = cstr p @ z))"
  by (induction p q rule: rootcmp.induct) (auto simp: schar_inj)

subsection \<open>Tokens\<close>

text \<open>
  \<open>strtok\<close> keeps the place to go on from in a static variable, here an argument and a result. The
  token it returns is the pointer into the buffer, which it has cut with a zero byte.
\<close>

fun skip_delim :: "buf \<Rightarrow> buf \<Rightarrow> buf option res" where
  "skip_delim [] delim = fault ''strtok''"
| "skip_delim (c # s) delim =
     (if c = NUL then Ok None
      else bnd (strchr delim c) (\<lambda>r. case r of Some _ \<Rightarrow> skip_delim s delim | None \<Rightarrow> Ok (Some (c # s))))"

definition strtok :: "buf option \<Rightarrow> buf \<Rightarrow> buf \<Rightarrow> (buf option \<times> buf) res" where
  "strtok so delim lasts =
     bnd (skip_delim (case so of None \<Rightarrow> lasts | Some s \<Rightarrow> s) delim) (\<lambda>r.
     case r of None \<Rightarrow> Ok (None, lasts)
     | Some s \<Rightarrow> bnd (strcspn s delim) (\<lambda>n.
         if s ! n \<noteq> NUL then Ok (Some (s[n := NUL]), drop (Suc n) s) else Ok (Some s, drop n s)))"

function tokens :: "(char \<Rightarrow> bool) \<Rightarrow> string \<Rightarrow> string list" where
  "tokens d xs = (case dropWhile d xs of [] \<Rightarrow> []
     | y # ys \<Rightarrow> takeWhile (\<lambda>c. \<not> d c) (y # ys) # tokens d (dropWhile (\<lambda>c. \<not> d c) (y # ys)))"
  by pat_completeness auto
termination
proof (relation "measure (\<lambda>(d, xs). length xs)", goal_cases)
  case (2 d xs y ys)
  then have "\<not> d y" by (simp add: dropWhile_eq_Cons_conv)
  moreover have "length (y # ys) \<le> length xs" using 2 by (metis length_dropWhile_le)
  ultimately show ?case using length_dropWhile_le [of "\<lambda>c. \<not> d c" ys] by simp
qed simp

declare tokens.simps [simp del]

abbreviation delim_of :: "buf \<Rightarrow> char \<Rightarrow> bool" where
  "delim_of delim \<equiv> (\<lambda>c. c \<in> set (cstr delim))"

lemma strchr_None: "term_buf s \<Longrightarrow> c \<noteq> NUL \<Longrightarrow> \<exists>r. strchr s c = Ok r \<and> (r = None \<longleftrightarrow> c \<notin> set (cstr s))"
  by (induction s c rule: strchr.induct) auto

lemma strcspn_cstr:
  "term_buf t \<Longrightarrow> term_buf s \<Longrightarrow> strcspn s t = Ok (length (takeWhile (\<lambda>c. \<not> delim_of t c) (cstr s)))"
proof (induction s t rule: strcspn.induct)
  case (2 a s t)
  then show ?case using strchr_None [of t a] by (auto split: option.splits)
qed auto

lemma skip_delim_cstr:
  assumes "term_buf t" "term_buf s"
  shows "\<exists>r. skip_delim s t = Ok r \<and>
    (case r of None \<Rightarrow> dropWhile (delim_of t) (cstr s) = []
     | Some u \<Rightarrow> term_buf u \<and> cstr u = dropWhile (delim_of t) (cstr s) \<and> cstr u \<noteq> [] \<and> length u \<le> length s)"
  using assms
proof (induction s t rule: skip_delim.induct)
  case (2 c s t)
  show ?case
  proof (cases "c = NUL")
    case False
    from strchr_None [OF 2(2) this] obtain r where r: "strchr t c = Ok r" "r = None \<longleftrightarrow> c \<notin> set (cstr t)" by auto
    show ?thesis
    proof (cases r)
      case None
      with r False 2 show ?thesis by auto
    next
      case (Some u)
      with 2 r False obtain v where "skip_delim s t = Ok v" "case v of None \<Rightarrow> dropWhile (delim_of t) (cstr s) = []
          | Some u \<Rightarrow> term_buf u \<and> cstr u = dropWhile (delim_of t) (cstr s) \<and> cstr u \<noteq> [] \<and> length u \<le> length s"
        by auto
      with Some r False show ?thesis by (cases v) auto
    qed
  qed simp
qed simp

lemma strtok_cstr:
  assumes t: "term_buf t" and s: "term_buf s" "s = (case so of None \<Rightarrow> l | Some s \<Rightarrow> s)"
  shows "\<exists>r l'. strtok so t l = Ok (r, l') \<and>
    (case r of None \<Rightarrow> tokens (delim_of t) (cstr s) = [] \<and> l' = l
     | Some u \<Rightarrow> term_buf l' \<and> length l' < length s \<and>
         tokens (delim_of t) (cstr s) = cstr u # tokens (delim_of t) (cstr l'))"
proof -
  obtain r where r: "skip_delim s t = Ok r" and c: "case r of None \<Rightarrow> dropWhile (delim_of t) (cstr s) = []
     | Some u \<Rightarrow> term_buf u \<and> cstr u = dropWhile (delim_of t) (cstr s) \<and> cstr u \<noteq> [] \<and> length u \<le> length s"
    using skip_delim_cstr [OF t s(1)] by blast
  show ?thesis
  proof (cases r)
    case None
    with c have "tokens (delim_of t) (cstr s) = []" by (subst tokens.simps) (simp only: list.case option.case)
    with None r s(2) show ?thesis by (simp add: strtok_def)
  next
    case (Some u)
    with c have u: "term_buf u" "cstr u = dropWhile (delim_of t) (cstr s)" "cstr u \<noteq> []" "length u \<le> length s" by auto
    define w where "w = takeWhile (\<lambda>c. \<not> delim_of t c) (cstr u)"
    have n: "strcspn u t = Ok (length w)" using strcspn_cstr [OF t u(1)] by (simp add: w_def)
    have hd: "\<not> delim_of t (hd (cstr u))" using u(2,3) by (metis hd_dropWhile)
    then obtain k where w0: "length w = Suc k" using u(3) by (cases "cstr u") (auto simp: w_def)
    obtain v where v: "cstr u = w @ v" "v = dropWhile (\<lambda>c. \<not> delim_of t c) (cstr u)"
      by (simp add: w_def)
    obtain z where z: "u = w @ v @ NUL # z" using term_split [OF u(1)] v(1) by auto
    have nv: "NUL \<notin> set w" "NUL \<notin> set v" using cstr_no_nul [of u] v(1) by auto
    have tk: "tokens (delim_of t) (cstr s) = w # tokens (delim_of t) v"
      using u(2,3) v(2) by (subst tokens.simps) (auto simp: w_def split: list.splits)
    show ?thesis
    proof (cases v)
      case Nil
      have "tokens (delim_of t) [] = []" by (simp add: tokens.simps)
      with Some r s(2) n z Nil tk nv u(4) w0 show ?thesis by (auto simp: strtok_def nth_append)
    next
      case (Cons c v')
      have dc: "delim_of t c" using v(2) [symmetric] Cons by (simp add: dropWhile_eq_Cons_conv)
      have "tokens (delim_of t) (c # v') = tokens (delim_of t) v'"
        using dc by (simp add: tokens.simps [of _ "c # v'"] tokens.simps [of _ v'])
      with Some r s(2) n z Cons tk nv u(4) w0 show ?thesis by (auto simp: strtok_def nth_append list_update_append)
    qed
  qed
qed

text \<open>All the tokens of a buffer, by calling \<open>strtok\<close> until it returns a null pointer.\<close>

function strtok_all :: "buf \<Rightarrow> buf \<Rightarrow> string list res" where
  "strtok_all delim l = (if term_buf delim \<and> term_buf l then
     bnd (strtok None delim l) (\<lambda>(r, l'). case r of None \<Rightarrow> Ok [] | Some u \<Rightarrow>
       bnd (strtok_all delim l') (\<lambda>us. Ok (cstr u # us))) else fault ''strtok'')"
  by pat_completeness auto
termination
proof (relation "measure (\<lambda>(d, l). length l)", goal_cases)
  case (2 delim l x r l' u)
  then show ?case using strtok_cstr [where t = delim and s = l and so = None and l = l] by auto
qed simp

declare strtok_all.simps [simp del]

lemma strtok_all_tokens:
  "term_buf t \<Longrightarrow> term_buf l \<Longrightarrow> strtok_all t l = Ok (tokens (delim_of t) (cstr l))"
proof (induction t l rule: strtok_all.induct)
  case (1 t l)
  obtain r l' where r: "strtok None t l = Ok (r, l')"
    and c: "case r of None \<Rightarrow> tokens (delim_of t) (cstr l) = [] \<and> l' = l
     | Some u \<Rightarrow> term_buf l' \<and> length l' < length l \<and> tokens (delim_of t) (cstr l) = cstr u # tokens (delim_of t) (cstr l')"
    using strtok_cstr [where t = t and s = l and so = None and l = l] 1(2,3) by auto
  show ?case
  proof (cases r)
    case None
    with r c 1(2,3) show ?thesis by (simp add: strtok_all.simps [of t l])
  next
    case (Some u)
    with c 1 r have "strtok_all t l' = Ok (tokens (delim_of t) (cstr l'))" by auto
    with Some r c 1(2,3) show ?thesis by (simp add: strtok_all.simps [of t l])
  qed
qed

lemma tokens_clean: "w \<in> set (tokens d xs) \<Longrightarrow> w \<noteq> [] \<and> (\<forall>c \<in> set w. \<not> d c)"
proof (induction d xs rule: tokens.induct)
  case (1 d xs)
  show ?case
  proof (cases "dropWhile d xs")
    case Nil
    with 1(2) show ?thesis by (simp only: tokens.simps [of d xs] list.case list.set empty_iff)
  next
    case (Cons y ys)
    then have y: "\<not> d y" by (simp add: dropWhile_eq_Cons_conv)
    from 1(2) Cons have "w = takeWhile (\<lambda>c. \<not> d c) (y # ys) \<or> w \<in> set (tokens d (dropWhile (\<lambda>c. \<not> d c) (y # ys)))"
      by (simp only: tokens.simps [of d xs] list.case list.set insert_iff)
    then show ?thesis
    proof
      assume "w = takeWhile (\<lambda>c. \<not> d c) (y # ys)"
      with y show ?thesis by (auto dest: set_takeWhileD)
    qed (rule 1(1) [OF Cons])
  qed
qed

subsection \<open>Memory\<close>

text \<open>
  \<open>memset\<close> stores words when address and count are multiples of four, else bytes.
  \<open>memmove\<close> copies downward when the source starts below the destination and overlaps it.
\<close>

primrec stosb :: "mem \<Rightarrow> u32 \<Rightarrow> byte \<Rightarrow> nat \<Rightarrow> mem" where
  "stosb m a b 0 = m"
| "stosb m a b (Suc n) = stosb (m(a := b)) (a + 1) b n"

primrec stosl :: "mem \<Rightarrow> u32 \<Rightarrow> u32 \<Rightarrow> nat \<Rightarrow> mem" where
  "stosl m a w 0 = m"
| "stosl m a w (Suc n) = stosl (st32 m a w) (a + 4) w n"

definition memset :: "mem \<Rightarrow> u32 \<Rightarrow> u32 \<Rightarrow> u32 \<Rightarrow> mem" where
  "memset m dst c n =
     (if dst mod 4 = 0 \<and> n mod 4 = 0
      then let c = c AND 0xFF in
        stosl m dst (push_bit 24 c OR push_bit 16 c OR push_bit 8 c OR c) (unat n div 4)
      else stosb m dst (ucast c) (unat n))"

primrec move_up :: "mem \<Rightarrow> u32 \<Rightarrow> u32 \<Rightarrow> nat \<Rightarrow> mem" where
  "move_up m d s 0 = m"
| "move_up m d s (Suc n) = move_up (m(d := m s)) (d + 1) (s + 1) n"

primrec move_down :: "mem \<Rightarrow> u32 \<Rightarrow> u32 \<Rightarrow> nat \<Rightarrow> mem" where
  "move_down m d s 0 = m"
| "move_down m d s (Suc n) = move_down (m(d - 1 := m (s - 1))) (d - 1) (s - 1) n"

definition memmove :: "mem \<Rightarrow> u32 \<Rightarrow> u32 \<Rightarrow> u32 \<Rightarrow> mem" where
  "memmove m dst src n =
     (if src < dst \<and> dst < src + n then move_down m (dst + n) (src + n) (unat n)
      else move_up m dst src (unat n))"

lemma range_unat:
  fixes a d :: u32
  assumes "unat d + n < 2 ^ 32"
  shows "unat (a - d) < n \<longleftrightarrow> unat d \<le> unat a \<and> unat a < unat d + n"
  using assms unsigned_less [of a, where ?'a = nat] by (auto simp: unat_diff_mod word_le_nat_alt)

lemma offset_unat:
  fixes a d s :: u32
  assumes "unat d + n < 2 ^ 32" "unat s + n < 2 ^ 32" "unat (a - d) < n"
  shows "unat (s + (a - d)) = unat s + (unat a - unat d)"
proof -
  have "unat (a - d) = unat a - unat d"
    using assms(1,3) range_unat [OF assms(1)] by (simp add: unat_diff_mod word_le_nat_alt)
  with assms show ?thesis by (simp add: unat_word_ariths)
qed

lemma unat_Suc: "unat d + Suc n < 2 ^ 32 \<Longrightarrow> unat (d + 1) = Suc (unat d)" for d :: u32
  by (simp add: unat_word_ariths)

lemma move_up_copy:
  assumes "unat d + n < 2 ^ 32" "unat s + n < 2 ^ 32" "unat d \<le> unat s \<or> unat s + n \<le> unat d"
  shows "move_up m d s n = copy m d s n"
  using assms
proof (induction n arbitrary: m d s)
  case 0
  show ?case by (simp add: copy_def)
next
  case (Suc n)
  note u = unat_Suc [OF Suc.prems(1)] unat_Suc [OF Suc.prems(2)]
  have IH: "move_up (m(d := m s)) (d + 1) (s + 1) n = copy (m(d := m s)) (d + 1) (s + 1) n"
    using Suc.prems u by (intro Suc.IH) auto
  have "copy (m(d := m s)) (d + 1) (s + 1) n a = copy m d s (Suc n) a" for a
  proof (cases "unat (a - (d + 1)) < n")
    case True
    have r: "Suc (unat d) \<le> unat a" "unat a < unat d + Suc n"
      using range_unat [of "d + 1" n a] True u Suc.prems(1) by auto
    then have t: "unat (a - d) < Suc n" using range_unat [OF Suc.prems(1), of a] by simp
    have "unat (s + (a - d)) = unat s + (unat a - unat d)"
      using offset_unat [OF Suc.prems(1,2) t] .
    then have "s + (a - d) \<noteq> d" using Suc.prems(3) r by (auto simp: word_unat_eq_iff)
    moreover have "s + 1 + (a - (d + 1)) = s + (a - d)" by simp
    ultimately show ?thesis using True t by (simp add: copy_def)
  next
    case False
    then have "unat a < Suc (unat d) \<or> unat d + Suc n \<le> unat a"
      using range_unat [of "d + 1" n a] u Suc.prems(1) by auto
    then have "a = d \<or> \<not> unat (a - d) < Suc n"
      using range_unat [OF Suc.prems(1), of a] by (auto simp: word_unat_eq_iff)
    with False show ?thesis by (auto simp: copy_def)
  qed
  then show ?case using IH by auto
qed

lemma move_down_copy:
  assumes "unat d + n < 2 ^ 32" "unat s + n < 2 ^ 32" "unat s \<le> unat d"
  shows "move_down m (d + of_nat n) (s + of_nat n) n = copy m d s n"
  using assms
proof (induction n arbitrary: m)
  case 0
  show ?case by (simp add: copy_def)
next
  case (Suc n)
  let ?m = "m(d + of_nat n := m (s + of_nat n))"
  have e: "d + of_nat (Suc n) - 1 = d + of_nat n" "s + of_nat (Suc n) - 1 = s + of_nat n" by simp_all
  have IH: "move_down ?m (d + of_nat n) (s + of_nat n) n = copy ?m d s n"
    using Suc.prems by (intro Suc.IH) auto
  have un: "unat (d + of_nat n) = unat d + n" using Suc.prems(1) by (simp add: unat_word_ariths unat_of_nat)
  have "copy ?m d s n a = copy m d s (Suc n) a" for a
  proof (cases "unat (a - d) < n")
    case True
    have "unat (s + (a - d)) = unat s + (unat a - unat d)"
      using offset_unat [of d n s a] Suc.prems True by simp
    moreover have "unat a < unat d + n" using range_unat [of d n a] True Suc.prems(1) by simp
    moreover have "unat d \<le> unat a" using range_unat [of d n a] True Suc.prems(1) by simp
    ultimately have "s + (a - d) \<noteq> d + of_nat n" using Suc.prems(3) un by (auto simp: word_unat_eq_iff)
    with True show ?thesis by (simp add: copy_def)
  next
    case False
    then have "a = d + of_nat n \<or> \<not> unat (a - d) < Suc n"
      using range_unat [OF Suc.prems(1), of a] range_unat [of d n a] Suc.prems(1) un
      by (auto simp: word_unat_eq_iff)
    moreover have "unat (of_nat n :: u32) = n" using Suc.prems(1) by (simp add: unat_of_nat)
    ultimately show ?thesis using False by (auto simp: copy_def)
  qed
  then show ?case using IH e by auto
qed

lemma fill_Suc:
  assumes "unat d + Suc n < 2 ^ 32"
  shows "fill (m(d := b)) (d + 1) b n = fill m d b (Suc n)"
proof
  fix a
  have "unat (a - (d + 1)) < n \<longleftrightarrow> Suc (unat d) \<le> unat a \<and> unat a < unat d + Suc n"
    using range_unat [of "d + 1" n a] unat_Suc [OF assms] assms by auto
  moreover have "unat (a - d) < Suc n \<longleftrightarrow> unat d \<le> unat a \<and> unat a < unat d + Suc n"
    using range_unat [OF assms] .
  ultimately show "fill (m(d := b)) (d + 1) b n a = fill m d b (Suc n) a"
    by (auto simp: fill_def word_unat_eq_iff)
qed

lemma stosb_fill: "unat d + n < 2 ^ 32 \<Longrightarrow> stosb m d b n = fill m d b n"
proof (induction n arbitrary: m d)
  case (Suc n)
  have "stosb (m(d := b)) (d + 1) b n = fill (m(d := b)) (d + 1) b n"
    using Suc.prems unat_Suc [OF Suc.prems] by (intro Suc.IH) simp
  with fill_Suc [OF Suc.prems, of m b] show ?case by simp
qed (simp add: fill_def)

lemma st32_same:
  assumes "ucast w = b" "ucast (drop_bit 8 w) = b" "ucast (drop_bit 16 w) = b" "ucast (drop_bit 24 w) = b"
  shows "st32 m a w = stosb m a b 4"
  using assms by (simp add: st32_def numeral_eq_Suc add.assoc)

lemma stosb_add: "stosb m a b (k + n) = stosb (stosb m a b k) (a + of_nat k) b n"
  by (induction k arbitrary: m a) (simp_all add: add.assoc)

lemma stosl_stosb:
  assumes "ucast w = b" "ucast (drop_bit 8 w) = b" "ucast (drop_bit 16 w) = b" "ucast (drop_bit 24 w) = b"
  shows "stosl m a w n = stosb m a b (4 * n)"
proof (induction n arbitrary: m a)
  case (Suc n)
  have "stosb m a b (4 * Suc n) = stosb (stosb m a b 4) (a + 4) b (4 * n)"
    using stosb_add [of m a b 4 "4 * n"] by (simp add: add.commute)
  with Suc st32_same [OF assms] show ?case by simp
qed simp

lemma byte_splat:
  fixes c :: u32
  defines "w \<equiv> push_bit 24 (c AND 0xFF) OR push_bit 16 (c AND 0xFF) OR push_bit 8 (c AND 0xFF) OR (c AND 0xFF)"
  shows "(ucast w :: byte) = ucast c" "(ucast (drop_bit 8 w) :: byte) = ucast c"
    "(ucast (drop_bit 16 w) :: byte) = ucast c" "(ucast (drop_bit 24 w) :: byte) = ucast c"
proof -
  have m: "(0xFF :: u32) = mask 8" by (simp add: mask_eq_exp_minus_1)
  show "(ucast w :: byte) = ucast c" "(ucast (drop_bit 8 w) :: byte) = ucast c"
    "(ucast (drop_bit 16 w) :: byte) = ucast c" "(ucast (drop_bit 24 w) :: byte) = ucast c"
    unfolding w_def m by (auto intro!: bit_word_eqI simp: bit_simps)
qed

lemma memset_fill:
  assumes "unat dst + unat n < 2 ^ 32"
  shows "memset m dst c n = fill m dst (ucast c) (unat n)"
proof (cases "dst mod 4 = 0 \<and> n mod 4 = 0")
  case True
  then have "unat n mod 4 = 0" using unat_mod_distrib [of n 4] by simp
  then have "4 * (unat n div 4) = unat n" by auto
  with True stosl_stosb [OF byte_splat, of m dst c "unat n div 4"] stosb_fill [OF assms] show ?thesis
    by (simp add: memset_def Let_def)
next
  case False
  then show ?thesis unfolding memset_def using stosb_fill [OF assms] by auto
qed

subsection \<open>Numerals\<close>

text \<open>C division truncates towards zero.\<close>

definition tdiv :: "int \<Rightarrow> int \<Rightarrow> int" where
  "tdiv a b = sgn a * sgn b * (\<bar>a\<bar> div \<bar>b\<bar>)"

definition tmod :: "int \<Rightarrow> int \<Rightarrow> int" where
  "tmod a b = a - b * tdiv a b"

text \<open>
  The digit loop of \<open>itoa\<close>, least significant digit first, into an array with \<open>cap\<close> bytes left;
  then the terminator, and the swap loop that reverses the digits in place.
\<close>

fun itoa_digits :: "int \<Rightarrow> int \<Rightarrow> nat \<Rightarrow> string res" where
  "itoa_digits num base cap =
     (if num = 0 then Ok []
      else if base = 0 then fault ''division by zero''
      else case cap of 0 \<Rightarrow> fault ''itoa'' | Suc k \<Rightarrow>
        let rem = tmod num base; rem = (if 9 < rem then rem - 10 else rem) in
        bnd (itoa_digits (tdiv num base) base k) (\<lambda>ds. Ok (char_of (rem + 48) # ds)))"

declare itoa_digits.simps [simp del]

fun swap_loop :: "nat \<Rightarrow> string \<Rightarrow> string" where
  "swap_loop 0 s = s"
| "swap_loop (Suc j) s =
     (let t = swap_loop j s; i = length s in t[j := t ! (i - j - 1), i - j - 1 := t ! j])"

definition itoa :: "int \<Rightarrow> nat \<Rightarrow> int \<Rightarrow> string res" where
  "itoa num cap base =
     (if num = 0 then (if 2 \<le> cap then Ok ''0'' else fault ''itoa'')
      else bnd (itoa_digits num base cap) (\<lambda>ds.
        if length ds < cap then Ok (swap_loop (length ds div 2) ds) else fault ''itoa''))"

lemma length_swap_loop [simp]: "length (swap_loop j s) = length s"
  by (induction j) (simp_all add: Let_def)

lemma swap_loop_nth:
  "2 * j \<le> length s \<Longrightarrow> k < length s \<Longrightarrow>
     swap_loop j s ! k = (if k < j \<or> length s - j \<le> k then s ! (length s - 1 - k) else s ! k)"
proof (induction j arbitrary: k)
  case (Suc j)
  define n where "n = length s"
  have j: "j < n - j - 1" "n - j - 1 < n" "2 * j \<le> length s" using Suc.prems(1) by (simp_all add: n_def)
  have a: "swap_loop j s ! (n - j - 1) = s ! (n - j - 1)" "swap_loop j s ! j = s ! j"
    using Suc.IH [OF j(3), of "n - j - 1"] Suc.IH [OF j(3), of j] j Suc.prems(1) by (auto simp: n_def)
  consider "k = n - j - 1" | "k = j" | "k \<noteq> n - j - 1" "k \<noteq> j" by blast
  then show ?case
  proof cases
    case 1
    then show ?thesis using j a by (simp add: Let_def n_def)
  next
    case 2
    then show ?thesis using j a by (simp add: Let_def n_def)
  next
    case 3
    then have "swap_loop (Suc j) s ! k = swap_loop j s ! k" by (simp add: Let_def n_def)
    with 3 Suc.IH [OF j(3) Suc.prems(2)] j Suc.prems(2) show ?thesis by (auto simp: n_def)
  qed
qed simp

lemma swap_loop_rev: "swap_loop (length s div 2) s = rev s"
proof (rule nth_equalityI)
  fix k assume "k < length (swap_loop (length s div 2) s)"
  then have k: "k < length s" by simp
  show "swap_loop (length s div 2) s ! k = rev s ! k"
  proof (cases "k < length s div 2 \<or> length s - length s div 2 \<le> k")
    case True
    then show ?thesis using k swap_loop_nth [of "length s div 2" s k] by (simp add: rev_nth)
  next
    case False
    then have "length s - 1 - k = k" using k by auto
    then show ?thesis using k False swap_loop_nth [of "length s div 2" s k] by (simp add: rev_nth)
  qed
qed simp

fun digits10 :: "nat \<Rightarrow> nat list" where
  "digits10 n = (if n = 0 then [] else n mod 10 # digits10 (n div 10))"

declare digits10.simps [simp del]

lemma itoa_digits10:
  "itoa_digits (int n) 10 cap = (if length (digits10 n) \<le> cap
     then Ok (map (\<lambda>d. char_of (d + 48)) (digits10 n)) else fault ''itoa'')"
proof (induction n arbitrary: cap rule: digits10.induct)
  case (1 n)
  show ?case
  proof (cases "n = 0")
    case False
    have d: "tdiv (int n) 10 = int (n div 10)" "tmod (int n) 10 = int (n mod 10)"
      using False by (simp_all add: tdiv_def tmod_def zdiv_int zmod_int minus_mult_div_eq_mod)
    have "n mod 10 < 10" by simp
    then have r: "\<not> 9 < int (n mod 10)" by linarith
    have c: "char_of (int (n mod 10) + 48) = (char_of (n mod 10 + 48) :: char)"
      using char_of_nat [of "n mod 10 + 48", where ?'a = int] by simp
    show ?thesis
      using False 1 [OF False] d r c by (cases cap) (simp_all add: itoa_digits.simps [of "int n"] digits10.simps [of n] Let_def)
  qed (simp add: itoa_digits.simps digits10.simps)
qed

lemma itoa_decimal:
  "0 < n \<Longrightarrow> length (digits10 n) < cap \<Longrightarrow>
     itoa (int n) cap 10 = Ok (rev (map (\<lambda>d. char_of (d + 48)) (digits10 n)))"
  using swap_loop_rev [of "map (\<lambda>d. char_of (d + 48)) (digits10 n)"] by (simp add: itoa_def itoa_digits10)

lemma filter_split: "filter P xs = takeWhile P xs @ filter P (dropWhile P xs)"
  by (induction xs) auto

lemma filter_skip: "filter (\<lambda>c. \<not> d c) xs = filter (\<lambda>c. \<not> d c) (dropWhile d xs)"
  by (induction xs) auto

lemma tokens_concat: "concat (tokens d xs) = filter (\<lambda>c. \<not> d c) xs"
proof (induction d xs rule: tokens.induct)
  case (1 d xs)
  show ?case
  proof (cases "dropWhile d xs")
    case Nil
    then show ?thesis by (simp only: filter_skip [of d xs] tokens.simps [of d xs] list.case concat.simps filter.simps)
  next
    case (Cons y ys)
    let ?t = "takeWhile (\<lambda>c. \<not> d c) (y # ys)" and ?d = "dropWhile (\<lambda>c. \<not> d c) (y # ys)"
    have "tokens d xs = ?t # tokens d ?d" by (simp only: tokens.simps [of d xs] Cons list.case)
    then show ?thesis
      using 1 [OF Cons] filter_split [of "\<lambda>c. \<not> d c" "y # ys"] by (simp only: filter_skip [of d xs] Cons concat.simps)
  qed
qed

subsection \<open>Properties\<close>

text \<open>
  C29: \<open>memmove\<close> copies correctly whether or not the two regions overlap: when neither region wraps
  around the address space, the destination ends up with the bytes the source had before the call
  and every byte outside the destination is kept, whatever the direction the code chose to copy in.
\<close>

theorem memmove_copies:
  assumes "unat dst + unat n < 2 ^ 32" "unat src + unat n < 2 ^ 32"
  shows "memmove m dst src n = (\<lambda>a. if unat (a - dst) < unat n then m (src + (a - dst)) else m a)"
proof -
  have n: "unat (src + n) = unat src + unat n" using assms(2) by (simp add: unat_word_ariths)
  have "memmove m dst src n = copy m dst src (unat n)"
  proof (cases "src < dst \<and> dst < src + n")
    case True
    with move_down_copy [OF assms, of m] show ?thesis by (simp add: memmove_def word_less_nat_alt)
  next
    case False
    then have "unat dst \<le> unat src \<or> unat src + unat n \<le> unat dst" by (auto simp: word_less_nat_alt n)
    with move_up_copy [OF assms, of m] False show ?thesis unfolding memmove_def by (simp only: if_False)
  qed
  then show ?thesis by (simp add: copy_def)
qed

theorem memmove_copies_witness:
  "memmove (\<lambda>a. ucast a) 0x1004 0x1000 8 =
     (\<lambda>a. if unat (a - 0x1004) < unat (8 :: u32) then ucast (0x1000 + (a - 0x1004)) else ucast a)"
  by (rule memmove_copies) simp_all

text \<open>
  C30: Calling \<open>strtok\<close> until it returns a null pointer splits a terminated buffer at the delimiters:
  it terminates, never leaves the buffer, and yields in order the maximal runs of characters that are not delimiters,
  none of them empty.
\<close>

theorem strtok_splits:
  assumes "term_buf delim" "term_buf b"
  shows "\<exists>ws. strtok_all delim b = Ok ws \<and> ws = tokens (delim_of delim) (cstr b) \<and>
    (\<forall>w \<in> set ws. w \<noteq> [] \<and> set w \<inter> set (cstr delim) = {}) \<and>
    concat ws = filter (\<lambda>c. c \<notin> set (cstr delim)) (cstr b)"
proof -
  show ?thesis using strtok_all_tokens [OF assms] tokens_clean [of _ "delim_of delim" "cstr b"] tokens_concat [of "delim_of delim" "cstr b"]
    by auto
qed

theorem strtok_splits_witness:
  "\<exists>ws. strtok_all (''/'' @ [NUL]) (''/c1//bin'' @ [NUL]) = Ok ws \<and>
    ws = tokens (delim_of (''/'' @ [NUL])) (cstr (''/c1//bin'' @ [NUL])) \<and>
    (\<forall>w \<in> set ws. w \<noteq> [] \<and> set w \<inter> set (cstr (''/'' @ [NUL])) = {}) \<and>
    concat ws = filter (\<lambda>c. c \<notin> set (cstr (''/'' @ [NUL]))) (cstr (''/c1//bin'' @ [NUL]))"
  by (rule strtok_splits) simp_all

end
