(* ===== verification/Container.thy ===== *)
theory Container
  imports Prioqueue Cstring "HOL-Library.Sublist"
begin

text \<open>
  The container table of \<^verbatim>\<open>container.c\<close>: names, limits, path confinement and the per-container process
  count. Texts are stored without their terminator; copying one into an array of \<open>cap\<close> bytes
  (\<open>put_text\<close>) is a fault when it does not fit, which is what \<open>strcpy_cstr\<close> of theory \<open>Cstring\<close>
  says of \<open>strcpy\<close>. An index outside the table, such as the container id \<open>-1\<close> of a process
  outside every container, is a fault.

  \<open>setpath\<close> is refined to a stack of path components (\<open>resolve\<close>).
\<close>

definition MAX_NUM_CONTAINERS :: nat where
  "MAX_NUM_CONTAINERS = 10"

record container =
  c_alive :: int
  c_name :: string
  c_path :: string
  c_max_proc :: int
  c_next_proc :: int
  c_root_path :: string
  c_active :: int
  c_shm :: u32
  c_pipein :: int
  c_pipeout :: int

record conts = prioq +
  containers :: "container list"

definition put_text :: "nat \<Rightarrow> string \<Rightarrow> string res" where
  "put_text cap x = (if length x < cap then Ok x else fault ''buffer overflow'')"

lemma put_text_strcpy:
  assumes "term_buf t"
  shows "(\<exists>r. strcpy d t = Ok r \<and> cstr r = cstr t) \<longleftrightarrow> put_text (length d) (cstr t) = Ok (cstr t)"
  using assms by (simp add: strcpy_cstr put_text_def)

definition upd_con :: "int \<Rightarrow> (container \<Rightarrow> container) \<Rightarrow> 'a conts_scheme \<Rightarrow> 'a conts_scheme res" where
  "upd_con i f s =
     bnd (aget (containers s) i) (\<lambda>c.
     bnd (aset (containers s) i (f c)) (\<lambda>cs.
     Ok (s\<lparr>containers := cs\<rparr>)))"

subsection \<open>Attributes\<close>

definition getname :: "int \<Rightarrow> 'a conts_scheme \<Rightarrow> (string \<times> 'a conts_scheme) res" where
  "getname i s =
     bnd (lock L_manager s) (\<lambda>s.
     bnd (aget (containers s) i) (\<lambda>c.
     bnd (unlock L_manager s) (\<lambda>s. Ok (c_name c, s))))"

definition setname :: "int \<Rightarrow> string \<Rightarrow> 'a conts_scheme \<Rightarrow> (int \<times> 'a conts_scheme) res" where
  "setname i name s =
     bnd (lock L_manager s) (\<lambda>s.
     bnd (put_text 32 name) (\<lambda>name.
     bnd (upd_con i (\<lambda>c. c\<lparr>c_name := name\<rparr>) s) (\<lambda>s.
     bnd (unlock L_manager s) (\<lambda>s. Ok (0, s)))))"

definition getmaxproc :: "int \<Rightarrow> 'a conts_scheme \<Rightarrow> (int \<times> 'a conts_scheme) res" where
  "getmaxproc i s =
     bnd (lock L_manager s) (\<lambda>s.
     bnd (aget (containers s) i) (\<lambda>c.
     bnd (unlock L_manager s) (\<lambda>s. Ok (c_max_proc c, s))))"

definition setmaxproc :: "int \<Rightarrow> int \<Rightarrow> 'a conts_scheme \<Rightarrow> (int \<times> 'a conts_scheme) res" where
  "setmaxproc i n s =
     bnd (lock L_manager s) (\<lambda>s.
     bnd (upd_con i (\<lambda>c. c\<lparr>c_max_proc := n\<rparr>) s) (\<lambda>s.
     bnd (unlock L_manager s) (\<lambda>s. Ok (0, s))))"

definition setalive :: "int \<Rightarrow> int \<Rightarrow> 'a conts_scheme \<Rightarrow> (int \<times> 'a conts_scheme) res" where
  "setalive i v s = bnd (upd_con i (\<lambda>c. c\<lparr>c_alive := v\<rparr>) s) (\<lambda>s. Ok (0, s))"

definition getalive :: "int \<Rightarrow> 'a conts_scheme \<Rightarrow> int res" where
  "getalive i s = bnd (aget (containers s) i) (\<lambda>c. Ok (c_alive c))"

definition getpath :: "int \<Rightarrow> 'a conts_scheme \<Rightarrow> (string \<times> 'a conts_scheme) res" where
  "getpath i s =
     bnd (lock L_manager s) (\<lambda>s.
     bnd (myproc s) (\<lambda>p.
     bnd (unlock L_manager s) (\<lambda>s. Ok (p_path (procs s ! p), s))))"

definition get_new_cid :: "'a conts_scheme \<Rightarrow> int" where
  "get_new_cid s =
     (case first_idx (\<lambda>c. c_alive c = 0) (containers s) of Some i \<Rightarrow> int i | None \<Rightarrow> -1)"

text \<open>
  The loop of \<open>getnumcontainers\<close> increments its index before using it, and compares an array
  member with a null pointer, which is never equal: it counts one for each of the indices
  1 to 10. Only the address of \<open>name\<close> is formed, so no memory is read.
\<close>

primrec count_names :: "nat \<Rightarrow> int" where
  "count_names 0 = 0"
| "count_names (Suc i) = count_names i + 1"

definition getnumcontainers :: int where
  "getnumcontainers = count_names MAX_NUM_CONTAINERS"

definition setroot :: "int \<Rightarrow> string \<Rightarrow> 'a conts_scheme \<Rightarrow> (int \<times> 'a conts_scheme) res" where
  "setroot cid root s =
     bnd (lock L_manager s) (\<lambda>s.
     bnd (put_text 128 root) (\<lambda>root.
     bnd (upd_con cid (\<lambda>c. c\<lparr>c_root_path := root, c_path := root\<rparr>) s) (\<lambda>s.
     bnd (unlock L_manager s) (\<lambda>s.
     bnd (myproc s) (\<lambda>p.
     Ok (0, upd_proc p (\<lambda>x. x\<lparr>p_path := root\<rparr>) s))))))"

definition setnextproc :: "int \<Rightarrow> int \<Rightarrow> 'a conts_scheme \<Rightarrow> (int \<times> 'a conts_scheme) res" where
  "setnextproc i v s =
     (if -1 < i then
        bnd (aget (containers s) i) (\<lambda>c.
        if c_alive c = 1 \<and> c_max_proc c + 1 < c_active c then Ok (-1, s)
        else bnd (upd_con i (\<lambda>c. c\<lparr>c_next_proc := v, c_active := c_active c + 1\<rparr>) s) (\<lambda>s. Ok (1, s)))
      else Ok (0, s))"

subsection \<open>Paths\<close>

abbreviation slash :: "char \<Rightarrow> bool" where
  "slash c \<equiv> c = CHR ''/''"

text \<open>\<open>path_arr\<close> without its first entry \<open>"/"\<close>, as the list of the components up to \<open>i\<close>.\<close>

definition push_token :: "string list \<Rightarrow> string \<Rightarrow> string list" where
  "push_token arr tok = (if tok = ''..'' then butlast arr else arr @ [tok])"

definition render :: "string list \<Rightarrow> string" where
  "render arr = ''/'' @ concat (map (\<lambda>t. t @ ''/'') arr)"

definition strip_slash :: "string \<Rightarrow> string res" where
  "strip_slash path =
     (if path = [] then fault ''path[-1]''
      else Ok (if slash (last path) \<and> 1 < length path then butlast path else path))"

definition setpath :: "int \<Rightarrow> string \<Rightarrow> int \<Rightarrow> 'a conts_scheme \<Rightarrow> ((int \<times> string) \<times> 'a conts_scheme) res" where
  "setpath index path_addr update s =
     bnd (put_text 128 path_addr) (\<lambda>path.
     bnd (myproc s) (\<lambda>p.
     let index = (if index < 0 then p_cid (procs s ! p) else index);
         single = (CHR ''/'' \<notin> set path)
     in
     bnd (if path \<noteq> [] \<and> slash (hd path)
          then bnd (aget (containers s) index) (\<lambda>c. put_text 128 (c_root_path c @ tl path))
          else Ok path) (\<lambda>path.
     bnd (strip_slash path) (\<lambda>path.
     if path = ''.'' then Ok ((0, path_addr), s)
     else
       let orig = p_path (procs s ! p);
           cab = tokens slash orig;
           arr = (if \<not> single then foldl push_token cab (tokens slash path_addr)
                  else push_token cab path)
       in
       bnd (put_text 128 (if 1 \<le> update then render arr else path)) (\<lambda>new.
       let s = upd_proc p (\<lambda>x. x\<lparr>p_path := new\<rparr>) s in
       bnd (aget (containers s) index) (\<lambda>c.
       bnd (rootcmp (c_root_path c @ [NUL]) (new @ [NUL])) (\<lambda>r.
       if r \<noteq> 0
       then Ok ((-1, path_addr), upd_proc p (\<lambda>x. x\<lparr>p_path := if update = 2 then orig else c_root_path c\<rparr>) s)
       else Ok ((0, new), if update = 2 then upd_proc p (\<lambda>x. x\<lparr>p_path := orig\<rparr>) s else s))))))))"

subsection \<open>Components\<close>

text \<open>A path component: not empty and without a slash. \<open>render\<close> and \<open>tokens\<close> are inverse on them.\<close>

definition comps :: "string list \<Rightarrow> bool" where
  "comps cs \<longleftrightarrow> (\<forall>c \<in> set cs. c \<noteq> [] \<and> CHR ''/'' \<notin> set c)"

definition resolve :: "string list \<Rightarrow> string \<Rightarrow> string list" where
  "resolve cs path = foldl push_token cs (tokens slash path)"

lemma comps_tokens [simp]: "comps (tokens slash xs)"
  unfolding comps_def using tokens_clean [of _ slash xs] by auto

lemma comps_push: "comps cs \<Longrightarrow> t \<noteq> [] \<Longrightarrow> CHR ''/'' \<notin> set t \<Longrightarrow> comps (push_token cs t)"
  by (auto simp: comps_def push_token_def dest: in_set_butlastD)

lemma comps_foldl: "comps cs \<Longrightarrow> comps ts \<Longrightarrow> comps (foldl push_token cs ts)"
proof (induction ts arbitrary: cs)
  case (Cons t ts)
  have t: "t \<noteq> []" "CHR ''/'' \<notin> set t" and ts: "comps ts" using Cons.prems(2) by (simp_all add: comps_def)
  have "comps (push_token cs t)" using Cons.prems(1) t by (rule comps_push)
  from Cons.IH [OF this ts] show ?case by simp
qed simp

lemma comps_resolve: "comps cs \<Longrightarrow> comps (resolve cs path)"
  unfolding resolve_def by (simp add: comps_foldl)

lemma tokens_skip: "d c \<Longrightarrow> tokens d (c # xs) = tokens d xs"
proof -
  assume "d c"
  then have "dropWhile d (c # xs) = dropWhile d xs" by simp
  then show ?thesis by (simp only: tokens.simps [of d "c # xs"] tokens.simps [of d xs])
qed

lemma word_end:
  "\<forall>c \<in> set w. \<not> d c \<Longrightarrow> d e \<Longrightarrow>
     takeWhile (\<lambda>c. \<not> d c) (w @ e # xs) = w \<and> dropWhile (\<lambda>c. \<not> d c) (w @ e # xs) = e # xs"
  by (induction w) auto

lemma tokens_word:
  assumes "w \<noteq> []" "\<forall>c \<in> set w. \<not> d c" "d e"
  shows "tokens d (w @ e # xs) = w # tokens d (e # xs)"
proof -
  obtain y ys where w: "w = y # ys" using assms(1) by (cases w) auto
  have dw: "dropWhile d (w @ e # xs) = y # (ys @ e # xs)" using assms(2) by (simp add: w)
  have tw: "takeWhile (\<lambda>c. \<not> d c) (y # ys @ e # xs) = w" "dropWhile (\<lambda>c. \<not> d c) (y # ys @ e # xs) = e # xs"
    using word_end [OF assms(2,3), of xs] by (simp_all add: w)
  show ?thesis by (subst tokens.simps) (simp only: dw list.case tw)
qed

lemma tokens_nil [simp]: "tokens d [] = []"
  by (simp only: tokens.simps [of d "[]"] dropWhile.simps list.case)

lemma tokens_comps: "comps cs \<Longrightarrow> tokens slash (concat (map (\<lambda>t. t @ ''/'') cs)) = cs"
proof (induction cs)
  case (Cons c cs)
  then have "tokens slash (c @ CHR ''/'' # concat (map (\<lambda>t. t @ ''/'') cs)) =
      c # tokens slash (CHR ''/'' # concat (map (\<lambda>t. t @ ''/'') cs))"
    by (intro tokens_word) (auto simp: comps_def)
  with Cons show ?case by (simp add: tokens_skip comps_def)
qed simp

lemma tokens_render [simp]: "comps cs \<Longrightarrow> tokens slash (render cs) = cs"
  by (simp add: render_def tokens_skip tokens_comps)

lemma word_cut:
  assumes "r @ CHR ''/'' # x = c @ CHR ''/'' # y" "CHR ''/'' \<notin> set r" "CHR ''/'' \<notin> set c"
  shows "r = c \<and> x = y"
proof -
  have t: "takeWhile (\<lambda>a. \<not> slash a) (w @ CHR ''/'' # z) = w" if "CHR ''/'' \<notin> set w" for w z
    using that by (induction w) auto
  have "r = c" using t [OF assms(2), of x] t [OF assms(3), of y] assms(1) by simp
  with assms(1) show ?thesis by simp
qed

lemma prefix_render:
  assumes "comps rs" "comps cs" "render rs @ z = render cs"
  shows "\<exists>ds. cs = rs @ ds"
proof -
  have "concat (map (\<lambda>t. t @ ''/'') rs) @ z = concat (map (\<lambda>t. t @ ''/'') cs) \<Longrightarrow> \<exists>ds. cs = rs @ ds"
    using assms(1,2)
  proof (induction rs arbitrary: cs)
    case (Cons r rs)
    show ?case
    proof (cases cs)
      case Nil
      with Cons.prems(1) show ?thesis by simp
    next
      case (Cons c cs')
      with Cons.prems have "r = c \<and> concat (map (\<lambda>t. t @ ''/'') rs) @ z = concat (map (\<lambda>t. t @ ''/'') cs')"
        by (intro word_cut) (auto simp: comps_def)
      with Cons.IH [of cs'] Cons.prems Cons show ?thesis by (auto simp: comps_def)
    qed
  qed simp
  with assms(3) show ?thesis by (simp add: render_def)
qed

lemma rootcmp_text:
  assumes "NUL \<notin> set x" "NUL \<notin> set y"
  shows "\<exists>r. rootcmp (x @ [NUL]) (y @ [NUL]) = Ok r \<and> (r = 0 \<longleftrightarrow> (\<exists>z. y = x @ z))"
  using rootcmp_zero [of "x @ [NUL]" "y @ [NUL]"] assms by (simp add: cstr_append_nul(1) [of _ "[]", simplified])

subsection \<open>What \<open>setpath\<close> computes\<close>

lemma tokens_single: "CHR ''/'' \<notin> set w \<Longrightarrow> w \<noteq> [] \<Longrightarrow> tokens slash w = [w]"
proof -
  assume w: "CHR ''/'' \<notin> set w" "w \<noteq> []"
  obtain y ys where y: "w = y # ys" using w(2) by (cases w) auto
  have d: "dropWhile slash w = y # ys" using w by (auto simp: y)
  have "takeWhile (\<lambda>c. \<not> slash c) w = w" "dropWhile (\<lambda>c. \<not> slash c) w = []"
    using w(1) by (auto simp: takeWhile_eq_all_conv dropWhile_eq_Nil_conv)
  then have "takeWhile (\<lambda>c. \<not> slash c) (y # ys) = w" "dropWhile (\<lambda>c. \<not> slash c) (y # ys) = []" by (simp_all only: y)
  then show ?thesis by (simp only: tokens.simps [of slash w] d list.case tokens_nil)
qed

text \<open>
  The text that is compared with \<open>"."\<close>: an absolute path has the container root put in front, and
  one trailing slash is dropped.
\<close>

definition shown_path :: "string \<Rightarrow> string \<Rightarrow> string" where
  "shown_path root path =
     (let q = (if path \<noteq> [] \<and> slash (hd path) then root @ tl path else path) in
      if q \<noteq> [] \<and> slash (last q) \<and> 1 < length q then butlast q else q)"

lemma setpath_eval:
  assumes p: "cur s = Some p" "p < length (procs s)"
    and i: "i = (if index < 0 then p_cid (procs s ! p) else index)" "0 \<le> i" "i < int (length (containers s))"
    and root: "root = c_root_path (containers s ! nat i)" "NUL \<notin> set root" and pa: "pa \<noteq> []" "length pa < 128"
    and fit: "slash (hd pa) \<Longrightarrow> length (root @ tl pa) < 128 \<and> root @ tl pa \<noteq> []"
    and dot: "shown_path root pa \<noteq> ''.''"
    and new: "new = (if 1 \<le> update then render (resolve (tokens slash (p_path (procs s ! p))) pa) else shown_path root pa)"
    and fit2: "length new < 128" "NUL \<notin> set new"
  shows "setpath index pa update s =
    (if \<exists>z. new = root @ z
     then Ok ((0, new), if update = 2 then s else upd_proc p (\<lambda>x. x\<lparr>p_path := new\<rparr>) s)
     else Ok ((-1, pa), if update = 2 then s else upd_proc p (\<lambda>x. x\<lparr>p_path := root\<rparr>) s))"
proof -
  let ?q = "if slash (hd pa) then root @ tl pa else pa"
  have q: "bnd (if pa \<noteq> [] \<and> slash (hd pa) then put_text 128 (root @ tl pa) else Ok pa)
      strip_slash = Ok (shown_path root pa)"
    using pa i fit root(1) by (auto simp: put_text_def strip_slash_def shown_path_def Let_def)
  let ?cab = "tokens slash (p_path (procs s ! p))"
  have arr: "(if \<not> CHR ''/'' \<notin> set pa then foldl push_token ?cab (tokens slash pa) else push_token ?cab (shown_path root pa)) =
      resolve ?cab pa"
  proof (cases "CHR ''/'' \<in> set pa")
    case False
    then have "tokens slash pa = [pa]" "\<not> slash (hd pa)" "\<not> slash (last pa)"
      using pa(1) tokens_single [of pa] hd_in_set [of pa] last_in_set [of pa] by metis+
    with False show ?thesis by (simp add: resolve_def shown_path_def)
  qed (simp add: resolve_def)
  have u: "upd_proc p (\<lambda>x. x\<lparr>p_path := a\<rparr>) (upd_proc p (\<lambda>x. x\<lparr>p_path := b\<rparr>) s) = upd_proc p (\<lambda>x. x\<lparr>p_path := a\<rparr>) s"
    "upd_proc p (\<lambda>x. x\<lparr>p_path := p_path (procs s ! p)\<rparr>) s = s" for a b
    using p(2) by (simp_all add: upd_proc_def)
  have cs: "containers (upd_proc p f s) = containers s" for f by (simp add: upd_proc_def)
  obtain r where r: "rootcmp (root @ [NUL]) (new @ [NUL]) = Ok r" "r = 0 \<longleftrightarrow> (\<exists>z. new = root @ z)"
    using rootcmp_text [OF root(2) fit2(2)] by blast
  have c: "aget (containers s) i = Ok (containers s ! nat i)" using i by simp
  have my: "myproc s = Ok p" using p by (simp add: myproc_def)
  have pt: "put_text 128 pa = Ok pa" "put_text 128 new = Ok new" using pa fit2 by (simp_all add: put_text_def)
  have new': "(if 1 \<le> update then render (resolve ?cab pa) else shown_path root pa) = new" by (simp add: new)
  show ?thesis
    unfolding setpath_def
    by (simp only: pt my bnd_Inr Let_def i(1) [symmetric] bnd_assoc [symmetric] q dot if_False arr new' cs c root(1) [symmetric] u bnd_Inr) (simp add: r u(2))
qed

subsection \<open>Confinement\<close>

text \<open>
  C5: A container root that is a rendered list of components confines its processes: whatever
  relative or absolute path a process of the container passes to \<open>setpath\<close>, with updating, the call
  answers 0 with the components of the working directory followed by those of the path (each
  \<open>..\<close> dropping one) when they lie below the root, and answers -1 and sends the process back to
  the root otherwise; the path the process is left with always lies below the root.
\<close>

theorem setpath_confines:
  assumes "cur s = Some p" "p < length (procs s)" "0 \<le> i" "i < int (length (containers s))"
    and "c_root_path (containers s ! nat i) = render rs" "comps rs" "NUL \<notin> set (render rs)"
    and "pa \<noteq> []" "length pa < 128" "length (render rs @ tl pa) < 128" "shown_path (render rs) pa \<noteq> ''.''"
    and "p_path (procs s ! p) = render cs" "comps cs" "ds = resolve cs pa"
    and "length (render ds) < 128" "NUL \<notin> set (render ds)"
  shows "(if prefix rs ds then setpath i pa 1 s = Ok ((0, render ds), upd_proc p (\<lambda>x. x\<lparr>p_path := render ds\<rparr>) s)
          else setpath i pa 1 s = Ok ((-1, pa), upd_proc p (\<lambda>x. x\<lparr>p_path := render rs\<rparr>) s)) \<and>
         (\<forall>r pa' s'. setpath i pa 1 s = Ok ((r, pa'), s') \<longrightarrow>
            (\<exists>es. comps es \<and> p_path (procs s' ! p) = render (rs @ es)))"
proof -
  have cds: "comps ds" using assms(13,14) by (simp add: comps_resolve)
  have new: "render ds = (if (1::int) \<le> 1 then render (resolve (tokens slash (p_path (procs s ! p))) pa) else shown_path (render rs) pa)"
    using assms(12-14) by simp
  have iff: "(\<exists>z. render ds = render rs @ z) \<longleftrightarrow> prefix rs ds"
    using prefix_render [OF assms(6) cds] by (fastforce simp: prefix_def render_def)
  have ne: "render rs @ tl pa \<noteq> []" by (simp add: render_def)
  have e: "setpath i pa 1 s =
    (if prefix rs ds then Ok ((0, render ds), upd_proc p (\<lambda>x. x\<lparr>p_path := render ds\<rparr>) s)
     else Ok ((-1, pa), upd_proc p (\<lambda>x. x\<lparr>p_path := render rs\<rparr>) s))"
    using setpath_eval [of s p i i "render rs" pa "render ds" 1, unfolded iff] assms ne new by simp
  have "\<exists>es. comps es \<and> render ds = render (rs @ es)" if "prefix rs ds"
  proof -
    from that obtain zs where z: "ds = rs @ zs" by (auto simp: prefix_def)
    with cds have "comps zs" by (simp add: comps_def)
    with z show ?thesis by blast
  qed
  moreover have "comps []" by (simp add: comps_def)
  moreover have "p_path (procs (upd_proc p (\<lambda>x. x\<lparr>p_path := q\<rparr>) s) ! p) = q" for q
    using assms(2) by (simp add: upd_proc_def)
  ultimately show ?thesis unfolding e by (auto intro: exI [of _ "[]"])
qed

lemma prioq_extend [simp]:
  "held (prioq.extend r m) = held r" "ncli (prioq.extend r m) = ncli r" "use_lock (prioq.extend r m) = use_lock r"
  "freelist (prioq.extend r m) = freelist r" "kend (prioq.extend r m) = kend r" "mem (prioq.extend r m) = mem r"
  "procs (prioq.extend r m) = procs r" "cur (prioq.extend r m) = cur r" "nextpid (prioq.extend r m) = nextpid r"
  "initproc (prioq.extend r m) = initproc r" "kpgdir (prioq.extend r m) = kpgdir r" "cr3 (prioq.extend r m) = cr3 r"
  "ts_esp0 (prioq.extend r m) = ts_esp0 r" "queue (prioq.extend r m) = queue r"
  "containers (prioq.extend r (conts.fields v0)) = v0"
  by (simp_all add: prioq.defs conts.defs)

definition demo_conts :: conts where
  "demo_conts = prioq.extend (demo_pq\<lparr>cur := Some 2, procs := (procs demo_pq)[2 := (procs demo_pq ! 2)\<lparr>p_cid := 0, p_path := render [''c1'']\<rparr>]\<rparr>)
     (conts.fields [\<lparr>c_alive = 1, c_name = ''c1'', c_path = ''/c1/'', c_max_proc = 2, c_next_proc = 0, c_root_path = render [''c1''],
        c_active = 3, c_shm = 0, c_pipein = 0, c_pipeout = 0\<rparr>])"

lemma demo_conts_simps [simp]:
  "cur demo_conts = Some 2" "length (procs demo_conts) = 3" "length (containers demo_conts) = 1"
  "c_root_path (containers demo_conts ! 0) = render [''c1'']" "p_path (procs demo_conts ! 2) = render [''c1'']"
  "c_alive (containers demo_conts ! 0) = 1" "c_max_proc (containers demo_conts ! 0) = 2" "c_active (containers demo_conts ! 0) = 3"
  by (simp_all add: demo_conts_def demo_pq_def)

lemma demo_resolve: "tokens slash ''../c2'' = [''..'', ''c2'']" "resolve [''c1''] ''../c2'' = [''c2'']"
proof -
  show t: "tokens slash ''../c2'' = [''..'', ''c2'']"
    using tokens_word [of "''..''" slash "CHR ''/''" "''c2''"] tokens_skip [of slash "CHR ''/''" "''c2''"] tokens_single [of "''c2''"] by simp
  show "resolve [''c1''] ''../c2'' = [''c2'']" by (simp add: resolve_def t push_token_def)
qed

theorem setpath_confines_witness:
  "setpath 0 ''../c2'' 1 demo_conts =
     Ok ((-1, ''../c2''), upd_proc 2 (\<lambda>x. x\<lparr>p_path := render [''c1'']\<rparr>) demo_conts)"
  using setpath_confines [of demo_conts 2 0 "[''c1'']" "''../c2''" "[''c1'']" "[''c2'']"]
  by (simp add: comps_def render_def shown_path_def demo_resolve)

text \<open>
  C36: The test at the end of \<open>setpath\<close> compares characters, not components. A root stored
  without its trailing slash, as \<open>setroot\<close> stores whatever text it is given, admits every sibling
  directory whose name merely starts with the root's: from \<open>/c1\<close> the path \<open>../c10\<close> is accepted.
\<close>

theorem setpath_prefix_escape:
  assumes "cur s = Some p" "p < length (procs s)" "0 \<le> i" "i < int (length (containers s))"
    and "c_root_path (containers s ! nat i) = ''/c1''" "p_path (procs s ! p) = ''/c1''"
  shows "setpath i ''../c10'' 1 s = Ok ((0, ''/c10/''), upd_proc p (\<lambda>x. x\<lparr>p_path := ''/c10/''\<rparr>) s)"
proof -
  have t1: "tokens slash ''/c1'' = [''c1'']" using tokens_skip [of slash "CHR ''/''" "''c1''"] tokens_single [of "''c1''"] by simp
  have t2: "tokens slash ''../c10'' = [''..'', ''c10'']"
    using tokens_word [of "''..''" slash "CHR ''/''" "''c10''"] tokens_skip [of slash "CHR ''/''" "''c10''"] tokens_single [of "''c10''"] by simp
  have r: "render (resolve (tokens slash ''/c1'') ''../c10'') = ''/c10/''"
    by (simp add: resolve_def t1 t2 push_token_def render_def)
  show ?thesis
    using setpath_eval [of s p i i "''/c1''" "''../c10''" "''/c10/''" 1] assms r by (simp add: shown_path_def)
qed

fun admit :: "nat \<Rightarrow> int \<Rightarrow> 'a conts_scheme \<Rightarrow> (int list \<times> 'a conts_scheme) res" where
  "admit 0 i s = Ok ([], s)"
| "admit (Suc n) i s = bnd (setnextproc i 0 s) (\<lambda>(r, s). bnd (admit n i s) (\<lambda>(rs, s). Ok (r # rs, s)))"

lemma admit_refused:
  assumes "0 \<le> i" "i < int (length (containers s))" "c_alive (containers s ! nat i) = 1"
    "c_max_proc (containers s ! nat i) + 1 < c_active (containers s ! nat i)"
  shows "admit k i s = Ok (replicate k (-1), s)"
  using assms by (induction k) (simp_all add: setnextproc_def)

lemma admit_all:
  assumes "0 \<le> i" "i < int (length (containers s))" "c_alive (containers s ! nat i) = 1"
    "c_active (containers s ! nat i) + int n = c_max_proc (containers s ! nat i) + 2"
  shows "\<exists>s'. admit (n + k) i s = Ok (replicate n 1 @ replicate k (-1), s') \<and>
    c_active (containers s' ! nat i) = c_max_proc (containers s ! nat i) + 2"
  using assms
proof (induction n arbitrary: s)
  case 0
  then show ?case by (simp add: admit_refused)
next
  case (Suc n)
  let ?c = "(containers s ! nat i)\<lparr>c_next_proc := 0, c_active := c_active (containers s ! nat i) + 1\<rparr>"
  let ?s = "s\<lparr>containers := (containers s)[nat i := ?c]\<rparr>"
  have "setnextproc i 0 s = Ok (1, ?s)"
    using Suc.prems by (simp add: setnextproc_def upd_con_def)
  moreover have "\<exists>s'. admit (n + k) i ?s = Ok (replicate n 1 @ replicate k (-1), s') \<and>
    c_active (containers s' ! nat i) = c_max_proc (containers ?s ! nat i) + 2"
    using Suc.prems by (intro Suc.IH) auto
  ultimately show ?case using Suc.prems by auto
qed



theorem setpath_prefix_escape_witness:
  "setpath 0 ''../c10'' 1 (upd_proc 2 (\<lambda>x. x\<lparr>p_path := ''/c1''\<rparr>) (demo_conts\<lparr>containers := [(containers demo_conts ! 0)\<lparr>c_root_path := ''/c1''\<rparr>]\<rparr>)) =
   Ok ((0, ''/c10/''), upd_proc 2 (\<lambda>x. x\<lparr>p_path := ''/c10/''\<rparr>)
     (upd_proc 2 (\<lambda>x. x\<lparr>p_path := ''/c1''\<rparr>) (demo_conts\<lparr>containers := [(containers demo_conts ! 0)\<lparr>c_root_path := ''/c1''\<rparr>]\<rparr>)))"
  by (rule setpath_prefix_escape) (simp_all add: upd_proc_def)

end
