(* ===== verification/Sleeplock.thy ===== *)
theory Sleeplock
  imports Container
begin

text \<open>
  Sleep locks (\<^verbatim>\<open>sleeplock.c\<close>). A sleep lock is named by the identifier of the spin lock inside it; its own
  address is the wait channel. \<open>acquiresleep\<close> is cut where it calls \<open>sleep\<close>: one pass of its
  loop either takes the lock or leaves the caller asleep, and \<open>acquiresleep_resume\<close> is the pass a
  woken process makes. \<open>getsleep\<close> is the whole call for code that is modelled up to the point where
  it would have to wait.
\<close>

record sleeplock =
  sl_locked :: bool
  sl_name :: string
  sl_pid :: int

record slps = conts +
  sleeplocks :: "lockid \<Rightarrow> sleeplock"

abbreviation put_sl :: "lockid \<Rightarrow> sleeplock \<Rightarrow> 'a slps_scheme \<Rightarrow> 'a slps_scheme" where
  "put_sl l x s \<equiv> s\<lparr>sleeplocks := (sleeplocks s)(l := x)\<rparr>"

definition initsleeplock :: "lockid \<Rightarrow> string \<Rightarrow> 'a slps_scheme \<Rightarrow> 'a slps_scheme" where
  "initsleeplock l nm s = put_sl l \<lparr>sl_locked = False, sl_name = nm, sl_pid = 0\<rparr> s"

text \<open>The result says whether the lock was taken; if not, the caller sleeps on it.\<close>

definition acquiresleep_loop :: "lockid \<Rightarrow> 'a slps_scheme \<Rightarrow> (bool \<times> 'a slps_scheme) res" where
  "acquiresleep_loop l s =
     (if sl_locked (sleeplocks s l)
      then bnd (sleep_out (Some (Ch_sleeplock l)) l s) (\<lambda>s. Ok (False, s))
      else
        bnd (myproc s) (\<lambda>p.
        bnd (unlock l (put_sl l ((sleeplocks s l)\<lparr>sl_locked := True, sl_pid := p_pid (procs s ! p)\<rparr>) s)) (\<lambda>s.
        Ok (True, s))))"

definition acquiresleep :: "lockid \<Rightarrow> 'a slps_scheme \<Rightarrow> (bool \<times> 'a slps_scheme) res" where
  "acquiresleep l s = bnd (lock l s) (acquiresleep_loop l)"

definition acquiresleep_resume :: "lockid \<Rightarrow> 'a slps_scheme \<Rightarrow> (bool \<times> 'a slps_scheme) res" where
  "acquiresleep_resume l s = bnd (sleep_in l s) (acquiresleep_loop l)"

definition getsleep :: "lockid \<Rightarrow> 'a slps_scheme \<Rightarrow> 'a slps_scheme res" where
  "getsleep l s = bnd (acquiresleep l s) (\<lambda>(b, s). if b then Ok s else Inl Asleep)"

definition releasesleep :: "lockid \<Rightarrow> 'a slps_scheme \<Rightarrow> 'a slps_scheme res" where
  "releasesleep l s =
     bnd (lock l s) (\<lambda>s.
     bnd (wakeup (Some (Ch_sleeplock l)) (put_sl l ((sleeplocks s l)\<lparr>sl_locked := False, sl_pid := 0\<rparr>) s)) (unlock l))"

definition holdingsleep :: "lockid \<Rightarrow> 'a slps_scheme \<Rightarrow> (bool \<times> 'a slps_scheme) res" where
  "holdingsleep l s =
     bnd (lock l s) (\<lambda>s.
     bnd (unlock l s) (\<lambda>s. Ok (sl_locked (sleeplocks s l), s)))"

subsection \<open>What the operations compute\<close>

lemma upd_proc_slps [simp]: "sleeplocks (upd_proc p f s) = sleeplocks s" "containers (upd_proc p f s) = containers s"
  "queue (upd_proc p f s) = queue s"
  by (simp_all add: upd_proc_def)

lemma wakeup1_slps [simp]: "sleeplocks (wakeup1 c s) = sleeplocks s" "containers (wakeup1 c s) = containers s"
  "queue (wakeup1 c s) = queue s" "mem (wakeup1 c s) = mem s"
  by (simp_all add: wakeup1_def)

lemma acquiresleep_free:
  assumes "l \<notin> set (held s)" "\<not> sl_locked (sleeplocks s l)" "cur s = Some p"
  shows "acquiresleep l s = Ok (True, put_sl l ((sleeplocks s l)\<lparr>sl_locked := True, sl_pid := p_pid (procs s ! p)\<rparr>) s)"
  using assms by (simp add: acquiresleep_def acquiresleep_loop_def myproc_def)

lemma getsleep_free:
  assumes "l \<notin> set (held s)" "\<not> sl_locked (sleeplocks s l)" "cur s = Some p"
  shows "getsleep l s = Ok (put_sl l ((sleeplocks s l)\<lparr>sl_locked := True, sl_pid := p_pid (procs s ! p)\<rparr>) s)"
  using acquiresleep_free [OF assms] by (simp add: getsleep_def)

lemma acquiresleep_busy:
  assumes "held s = []" "ncli s = 0" "sl_locked (sleeplocks s l)" "cur s = Some p" "p < length (procs s)"
  shows "acquiresleep l s = Ok (False, upd_proc p (\<lambda>x. x\<lparr>p_chan := Some (Ch_sleeplock l), p_state := SLEEPING\<rparr>)
      (s\<lparr>held := [L_ptable], ncli := 1\<rparr>))"
  using assms sleep_out_eval [of "s\<lparr>held := [l], ncli := 1\<rparr>" p l "Some (Ch_sleeplock l)"]
  by (simp add: acquiresleep_def acquiresleep_loop_def)

lemma releasesleep_eval:
  assumes "l \<notin> set (held s)" "L_ptable \<notin> set (held s)" "l \<noteq> L_ptable"
  shows "releasesleep l s = Ok (wakeup1 (Some (Ch_sleeplock l)) (put_sl l ((sleeplocks s l)\<lparr>sl_locked := False, sl_pid := 0\<rparr>) s))"
  using assms by (simp add: releasesleep_def wakeup_eval unlock_def wakeup1_def)

lemma holdingsleep_eval:
  "l \<notin> set (held s) \<Longrightarrow> holdingsleep l s = Ok (sl_locked (sleeplocks s l), s)"
  by (simp add: holdingsleep_def)

lemma acquiresleep_resume_eval:
  assumes "held s = [L_ptable]" "ncli s = 1" "cur s = Some p" "p < length (procs s)"
  shows "acquiresleep_resume l s =
    (if sl_locked (sleeplocks s l)
     then Ok (False, upd_proc p (\<lambda>x. x\<lparr>p_chan := Some (Ch_sleeplock l), p_state := SLEEPING\<rparr>) s)
     else Ok (True, upd_proc p (\<lambda>x. x\<lparr>p_chan := None\<rparr>) (put_sl l ((sleeplocks s l)\<lparr>sl_locked := True, sl_pid := p_pid (procs s ! p)\<rparr>) s)\<lparr>held := [], ncli := 0\<rparr>))"
proof -
  let ?s = "upd_proc p (\<lambda>x. x\<lparr>p_chan := None\<rparr>) (s\<lparr>held := [l], ncli := 1\<rparr>)"
  have r: "acquiresleep_resume l s = acquiresleep_loop l ?s"
    using sleep_in_eval [OF assms(3,1,2), of l] by (simp add: acquiresleep_resume_def)
  have b: "sleep_out (Some (Ch_sleeplock l)) l ?s = Ok (upd_proc p (\<lambda>x. x\<lparr>p_chan := Some (Ch_sleeplock l), p_state := SLEEPING\<rparr>) s)"
    using sleep_out_eval [of ?s p l "Some (Ch_sleeplock l)"] assms by (simp add: upd_proc_def)
  show ?thesis
    using assms b unfolding r acquiresleep_loop_def
    by (auto simp: myproc_def upd_proc_def unlock_def intro!: slps.equality)
qed

end
