(* ===== verification/Mutex.thy ===== *)
theory Mutex
  imports Sleeplock
begin

text \<open>
  The user-visible mutexes and condition variables of \<^verbatim>\<open>proc.c\<close>. A mutex is an entry of the global
  table \<open>mutexes\<close>, with the sleep lock \<open>L_muxslp g\<close> and the spin lock \<open>L_mux g\<close> of its slot; a
  process names it by an index into its own table \<open>p_locks\<close>. The result of an operation that may
  block is \<open>None\<close> when the caller was left asleep; its resumption is a definition of its own.
  \<open>initlock\<close> of a spin lock nobody holds has no effect on the state of this model.

  Shown: a held mutex stays with its owner whatever the other processes do, as long as its slot is
  not handed out again; two ways in which the code loses the exclusion.
\<close>

record mutex =
  mx_name :: buf
  mx_count :: int
  mx_waiting :: "int list"
  mx_cv :: int

record muxes = slps +
  mutexes :: "mutex list"

definition upd_mux :: "nat \<Rightarrow> (mutex \<Rightarrow> mutex) \<Rightarrow> 'a muxes_scheme \<Rightarrow> 'a muxes_scheme" where
  "upd_mux g f s = s\<lparr>mutexes := (mutexes s)[g := f (mutexes s ! g)]\<rparr>"

subsection \<open>Creating, finding and deleting\<close>

definition mutex_create :: "buf \<Rightarrow> 'a muxes_scheme \<Rightarrow> (int \<times> 'a muxes_scheme) res" where
  "mutex_create name s =
     bnd (myproc s) (\<lambda>p.
     case first_idx (\<lambda>m. mx_count m = 0) (mutexes s) of
       None \<Rightarrow> Ok (-1, s)
     | Some g \<Rightarrow>
         bnd (lock (L_mux g) s) (\<lambda>s.
         bnd (strlen name) (\<lambda>n.
         bnd (strncpy (mx_name (mutexes s ! g)) name n) (\<lambda>nm.
         bnd (unlock (L_mux g) (upd_mux g (\<lambda>m. m\<lparr>mx_count := mx_count m + 1, mx_name := nm\<rparr>) s)) (\<lambda>s.
         case first_idx (\<lambda>l. l = -1) (p_locks (procs s ! p)) of
           None \<Rightarrow> Ok (-1, initsleeplock (L_muxslp g) (cstr name) s)
         | Some i \<Rightarrow> Ok (int i, initsleeplock (L_muxslp g) (cstr name)
             (upd_proc p (\<lambda>x. x\<lparr>p_locks := (p_locks x)[i := int g]\<rparr>) s)))))))"

fun find_mutex :: "buf \<Rightarrow> nat \<Rightarrow> mutex list \<Rightarrow> nat \<Rightarrow> nat option res" where
  "find_mutex name n [] i = Ok None"
| "find_mutex name n (m # ms) i =
     bnd (strncmp name (mx_name m) n) (\<lambda>r. if r = 0 then Ok (Some i) else find_mutex name n ms (Suc i))"

definition mutex_get :: "buf \<Rightarrow> 'a muxes_scheme \<Rightarrow> (int \<times> 'a muxes_scheme) res" where
  "mutex_get name s =
     bnd (myproc s) (\<lambda>p.
     bnd (strlen name) (\<lambda>n.
     bnd (find_mutex name n (mutexes s) 0) (\<lambda>r.
     case r of None \<Rightarrow> Ok (-1, s) | Some g \<Rightarrow>
       (case first_idx (\<lambda>l. l = int g \<or> l = -1) (p_locks (procs s ! p)) of
          None \<Rightarrow> Ok (-1, s)
        | Some i \<Rightarrow>
            if p_locks (procs s ! p) ! i = int g then Ok (-2, s)
            else Ok (int i, upd_proc p (\<lambda>x. x\<lparr>p_locks := (p_locks x)[i := int g]\<rparr>) s)))))"

text \<open>
  The guards every other operation starts with: the identifier in range, and the global slot it
  stands for; \<open>None\<close> is the early return of -1.
\<close>

definition global_mutex :: "int \<Rightarrow> 'a muxes_scheme \<Rightarrow> (nat \<times> nat) option res" where
  "global_mutex muxid s =
     (if muxid < 0 \<or> int MUX_MAXNUM \<le> muxid then Ok None
      else
        bnd (myproc s) (\<lambda>p.
        bnd (aget (p_locks (procs s ! p)) muxid) (\<lambda>g.
        if g = -1 then Ok None
        else bnd (aget (mutexes s) g) (\<lambda>_. Ok (Some (p, nat g))))))"

definition owns_mutex :: "nat \<Rightarrow> nat \<Rightarrow> 'a muxes_scheme \<Rightarrow> bool" where
  "owns_mutex p g s \<longleftrightarrow> sl_pid (sleeplocks s (L_muxslp g)) = p_pid (procs s ! p)"

subsection \<open>Locking\<close>

definition mutex_lock :: "int \<Rightarrow> 'a muxes_scheme \<Rightarrow> (int option \<times> 'a muxes_scheme) res" where
  "mutex_lock muxid s =
     bnd (global_mutex muxid s) (\<lambda>r.
     case r of None \<Rightarrow> Ok (Some (-1), s) | Some (p, g) \<Rightarrow>
       if owns_mutex p g s then Ok (Some (-1), s)
       else bnd (acquiresleep (L_muxslp g) s) (\<lambda>(b, s). Ok (if b then Some 0 else None, s)))"

definition mutex_lock_resume :: "nat \<Rightarrow> 'a muxes_scheme \<Rightarrow> (int option \<times> 'a muxes_scheme) res" where
  "mutex_lock_resume g s = bnd (acquiresleep_resume (L_muxslp g) s) (\<lambda>(b, s). Ok (if b then Some 0 else None, s))"

definition mutex_unlock :: "int \<Rightarrow> 'a muxes_scheme \<Rightarrow> (int \<times> 'a muxes_scheme) res" where
  "mutex_unlock muxid s =
     bnd (global_mutex muxid s) (\<lambda>r.
     case r of None \<Rightarrow> Ok (-1, s) | Some (p, g) \<Rightarrow>
       if \<not> owns_mutex p g s then Ok (-1, s)
       else bnd (releasesleep (L_muxslp g) s) (\<lambda>s. Ok (0, s)))"

definition mutex_delete :: "int \<Rightarrow> 'a muxes_scheme \<Rightarrow> (int \<times> 'a muxes_scheme) res" where
  "mutex_delete muxid s =
     bnd (global_mutex muxid s) (\<lambda>r.
     case r of None \<Rightarrow> Ok (-1, s) | Some (p, g) \<Rightarrow>
       bnd (if owns_mutex p g s then mutex_unlock muxid s else Ok (0, s)) (\<lambda>(_, s).
       bnd (lock (L_mux g) s) (\<lambda>s.
       bnd (unlock (L_mux g)
              (upd_proc p (\<lambda>x. x\<lparr>p_locks := (p_locks x)[nat muxid := -1]\<rparr>)
                (upd_mux g (\<lambda>m. m\<lparr>mx_count := mx_count m - 1\<rparr>) s))) (\<lambda>s.
       Ok (0, s)))))"

subsection \<open>Condition variables\<close>

definition cv_loop :: "int \<Rightarrow> nat \<Rightarrow> 'a muxes_scheme \<Rightarrow> (int option \<times> 'a muxes_scheme) res" where
  "cv_loop muxid g s =
     (if mx_cv (mutexes s ! g) = 0
      then
        bnd (mutex_unlock muxid s) (\<lambda>(_, s).
        bnd (sleep_out (Some (Ch_mutex g)) (L_mux g) s) (\<lambda>s. Ok (None, s)))
      else
        bnd (unlock (L_mux g) (upd_mux g (\<lambda>m. m\<lparr>mx_cv := mx_cv m - 1\<rparr>) s)) (\<lambda>s.
        Ok (Some 0, s)))"

definition cv_wait :: "int \<Rightarrow> 'a muxes_scheme \<Rightarrow> (int option \<times> 'a muxes_scheme) res" where
  "cv_wait muxid s =
     bnd (global_mutex muxid s) (\<lambda>r.
     case r of None \<Rightarrow> Ok (Some (-1), s) | Some (p, g) \<Rightarrow>
       if \<not> owns_mutex p g s then Ok (Some (-1), s)
       else
         bnd (lock (L_mux g) s) (\<lambda>s.
         bnd (aset (mx_waiting (mutexes s ! g)) (p_pid (procs s ! p)) 1) (\<lambda>w.
         cv_loop muxid g (upd_mux g (\<lambda>m. m\<lparr>mx_waiting := w\<rparr>) s))))"

definition cv_wait_resume :: "int \<Rightarrow> nat \<Rightarrow> 'a muxes_scheme \<Rightarrow> (int option \<times> 'a muxes_scheme) res" where
  "cv_wait_resume muxid g s = bnd (sleep_in (L_mux g) s) (cv_loop muxid g)"

definition cv_signal :: "int \<Rightarrow> 'a muxes_scheme \<Rightarrow> (int \<times> 'a muxes_scheme) res" where
  "cv_signal muxid s =
     bnd (global_mutex muxid s) (\<lambda>r.
     case r of None \<Rightarrow> Ok (-1, s) | Some (p, g) \<Rightarrow>
       if \<not> owns_mutex p g s then Ok (-1, s)
       else
         bnd (lock (L_mux g) s) (\<lambda>s.
         bnd (wakeup (Some (Ch_mutex g)) (upd_mux g (\<lambda>m. m\<lparr>mx_cv := mx_cv m + 1, mx_waiting := replicate NPROC 0\<rparr>) s)) (\<lambda>s.
         bnd (unlock (L_mux g) s) (\<lambda>s. Ok (0, s)))))"

subsection \<open>What the operations keep\<close>

lemma upd_mux_simps [simp]:
  "sleeplocks (upd_mux g f s) = sleeplocks s" "procs (upd_mux g f s) = procs s" "cur (upd_mux g f s) = cur s"
  "held (upd_mux g f s) = held s" "ncli (upd_mux g f s) = ncli s" "length (mutexes (upd_mux g f s)) = length (mutexes s)"
  "g < length (mutexes s) \<Longrightarrow> mutexes (upd_mux g f s) ! g = f (mutexes s ! g)"
  by (simp_all add: upd_mux_def)

lemma frame_muxes [simp]: "mutexes (upd_proc p f s) = mutexes s" "mutexes (wakeup1 c s) = mutexes s"
  by (simp_all add: upd_proc_def wakeup1_def)

definition holder :: "nat \<Rightarrow> int \<Rightarrow> 'a muxes_scheme \<Rightarrow> bool" where
  "holder g P s \<longleftrightarrow> sl_locked (sleeplocks s (L_muxslp g)) \<and> sl_pid (sleeplocks s (L_muxslp g)) = P"

definition runs_other :: "int \<Rightarrow> 'a muxes_scheme \<Rightarrow> bool" where
  "runs_other P s \<longleftrightarrow> (\<exists>p. cur s = Some p \<and> p < length (procs s) \<and> p_pid (procs s ! p) \<noteq> P)"

lemma pid_upd [simp]:
  "p_pid (procs (upd_proc i (\<lambda>x. x\<lparr>p_chan := c\<rparr>) s) ! j) = p_pid (procs s ! j)"
  "p_pid (procs (upd_proc i (\<lambda>x. x\<lparr>p_locks := f x\<rparr>) s) ! j) = p_pid (procs s ! j)"
  by (rule upd_proc_keep, simp)+

lemmas blocking_defs = sleep_out_def sleep_in_def acquiresleep_loop_def acquiresleep_def acquiresleep_resume_def
  releasesleep_def Let_def

lemma mutex_lock_holder:
  "holder g P s \<Longrightarrow>
     spec (mutex_lock m s) (\<lambda>(r, s'). holder g P s' \<and> (\<forall>p. global_mutex m s = Ok (Some (p, g)) \<longrightarrow> r \<noteq> Some 0))"
  by (auto simp: mutex_lock_def blocking_defs vc holder_def split: option.split prod.split intro!: specI)

lemma mutex_lock_resume_holder:
  "holder g P s \<Longrightarrow> spec (mutex_lock_resume h s) (\<lambda>(r, s'). holder g P s' \<and> (h = g \<longrightarrow> r \<noteq> Some 0))"
  by (auto simp: mutex_lock_resume_def blocking_defs vc holder_def split: option.split prod.split)

lemma mutex_unlock_holder:
  "holder g P s \<Longrightarrow> runs_other P s \<Longrightarrow> spec (mutex_unlock m s) (\<lambda>(r, s'). holder g P s' \<and> runs_other P s')"
  by (auto simp: mutex_unlock_def global_mutex_def blocking_defs vc holder_def runs_other_def owns_mutex_def
      wakeup1_def split: option.split prod.split if_splits)

lemma mutex_delete_holder:
  "holder g P s \<Longrightarrow> runs_other P s \<Longrightarrow> spec (mutex_delete m s) (\<lambda>(r, s'). holder g P s')"
  using mutex_unlock_holder [of g P s m]
  by (auto simp: mutex_delete_def vc holder_def split: option.split prod.split intro!: specI dest!: specD)

lemma cv_loop_holder:
  "holder g P s \<Longrightarrow> runs_other P s \<Longrightarrow> spec (cv_loop m h s) (\<lambda>(r, s'). holder g P s')"
  using mutex_unlock_holder [of g P s m]
  by (auto simp: cv_loop_def blocking_defs vc holder_def split: option.split prod.split elim!: spec_mono)

lemma cv_wait_holder:
  "holder g P s \<Longrightarrow> runs_other P s \<Longrightarrow> spec (cv_wait m s) (\<lambda>(r, s'). holder g P s')"
  unfolding cv_wait_def vc
  by (rule specI, auto simp: vc split: option.split prod.split intro!: cv_loop_holder)
    (auto simp: holder_def runs_other_def)

lemma cv_wait_resume_holder:
  "holder g P s \<Longrightarrow> runs_other P s \<Longrightarrow> spec (cv_wait_resume m h s) (\<lambda>(r, s'). holder g P s')"
  by (auto simp: cv_wait_resume_def blocking_defs vc intro!: cv_loop_holder)
    (auto simp: holder_def runs_other_def)

lemma cv_signal_holder:
  "holder g P s \<Longrightarrow> spec (cv_signal m s) (\<lambda>(r, s'). holder g P s')"
  by (auto simp: cv_signal_def vc holder_def split: option.split prod.split intro!: specI)

lemma mutex_get_holder:
  "holder g P s \<Longrightarrow> spec (mutex_get nm s) (\<lambda>(r, s'). holder g P s')"
  by (auto simp: mutex_get_def vc holder_def split: option.split prod.split intro!: specI)

lemma mutex_create_holder:
  "holder g P s \<Longrightarrow> g < length (mutexes s) \<Longrightarrow> mx_count (mutexes s ! g) \<noteq> 0 \<Longrightarrow>
     spec (mutex_create nm s) (\<lambda>(r, s'). holder g P s')"
  by (auto simp: mutex_create_def vc holder_def initsleeplock_def first_idx_Some split: option.split prod.split intro!: specI)

lemma global_mutex_frame:
  "cur s' = cur s \<Longrightarrow> procs s' = procs s \<Longrightarrow> length (mutexes s') = length (mutexes s) \<Longrightarrow> global_mutex m s' = global_mutex m s"
  by (auto simp: global_mutex_def myproc_def aget_def split: option.split)

lemma global_mutex_len: "global_mutex m s = Ok (Some (p, g)) \<Longrightarrow> g < length (mutexes s)"
  by (auto simp: global_mutex_def bnd_eq_Inr aget_Inr split: if_splits)

lemma mutex_unlock_owner:
  assumes "global_mutex m s = Ok (Some (p, g))" "owns_mutex p g s" "L_muxslp g \<notin> set (held s)" "L_ptable \<notin> set (held s)"
  shows "mutex_unlock m s = Ok (0, wakeup1 (Some (Ch_sleeplock (L_muxslp g)))
    (put_sl (L_muxslp g) ((sleeplocks s (L_muxslp g))\<lparr>sl_locked := False, sl_pid := 0\<rparr>) s))"
  using assms releasesleep_eval [of "L_muxslp g" s] by (simp add: mutex_unlock_def)

lemma cv_loop_sleeps:
  assumes "cur s = Some p" "p < length (procs s)" "held s = [L_mux g]" "ncli s = 1" "global_mutex m s = Ok (Some (p, g))"
    "owns_mutex p g s" "mx_cv (mutexes s ! g) = 0"
  shows "runs (cv_loop m g s) (\<lambda>(r, s1). r = None \<and> p_state (procs s1 ! p) = SLEEPING \<and> \<not> sl_locked (sleeplocks s1 (L_muxslp g)))"
proof -
  let ?s = "wakeup1 (Some (Ch_sleeplock (L_muxslp g)))
    (put_sl (L_muxslp g) ((sleeplocks s (L_muxslp g))\<lparr>sl_locked := False, sl_pid := 0\<rparr>) s)"
  have "mutex_unlock m s = Ok (0, ?s)" using assms by (intro mutex_unlock_owner) auto
  moreover have "sleep_out (Some (Ch_mutex g)) (L_mux g) ?s =
    Ok (upd_proc p (\<lambda>x. x\<lparr>p_chan := Some (Ch_mutex g), p_state := SLEEPING\<rparr>) (?s\<lparr>held := [L_ptable], ncli := 1\<rparr>))"
    using assms by (intro sleep_out_eval) auto
  ultimately show ?thesis using assms by (simp add: cv_loop_def runs_def)
qed

subsection \<open>Interleavings\<close>

text \<open>
  One step of the machine as the mutexes see it: an operation of the running process, or its
  resumption after a sleep, up to its return or its next sleep; or anything else the kernel does,
  which leaves the sleep locks of the mutexes alone. \<open>safe_op g\<close> excludes the creation of a mutex
  while the reference count of \<open>g\<close> is zero.
\<close>

datatype mop =
    M_create buf | M_get buf | M_delete int | M_lock int | M_lock_resume nat | M_unlock int
  | M_wait int | M_wait_resume int nat | M_signal int

definition some_ret :: "(int \<times> 's) res \<Rightarrow> (int option \<times> 's) res" where
  "some_ret m = bnd m (\<lambda>(r, s). Ok (Some r, s))"

primrec mux_op :: "mop \<Rightarrow> 'a muxes_scheme \<Rightarrow> (int option \<times> 'a muxes_scheme) res" where
  "mux_op (M_create nm) s = some_ret (mutex_create nm s)"
| "mux_op (M_get nm) s = some_ret (mutex_get nm s)"
| "mux_op (M_delete m) s = some_ret (mutex_delete m s)"
| "mux_op (M_lock m) s = mutex_lock m s"
| "mux_op (M_lock_resume g) s = mutex_lock_resume g s"
| "mux_op (M_unlock m) s = some_ret (mutex_unlock m s)"
| "mux_op (M_wait m) s = cv_wait m s"
| "mux_op (M_wait_resume m g) s = cv_wait_resume m g s"
| "mux_op (M_signal m) s = some_ret (cv_signal m s)"

primrec safe_op :: "nat \<Rightarrow> 'a muxes_scheme \<Rightarrow> mop \<Rightarrow> bool" where
  "safe_op g s (M_create nm) \<longleftrightarrow> g < length (mutexes s) \<and> mx_count (mutexes s ! g) \<noteq> 0"
| "safe_op g s (M_get nm) \<longleftrightarrow> True"
| "safe_op g s (M_delete m) \<longleftrightarrow> True"
| "safe_op g s (M_lock m) \<longleftrightarrow> True"
| "safe_op g s (M_lock_resume h) \<longleftrightarrow> True"
| "safe_op g s (M_unlock m) \<longleftrightarrow> True"
| "safe_op g s (M_wait m) \<longleftrightarrow> True"
| "safe_op g s (M_wait_resume m h) \<longleftrightarrow> True"
| "safe_op g s (M_signal m) \<longleftrightarrow> True"

text \<open>The operation asks for mutex \<open>g\<close>.\<close>

definition asks :: "nat \<Rightarrow> 'a muxes_scheme \<Rightarrow> mop \<Rightarrow> bool" where
  "asks g s op \<longleftrightarrow> (\<exists>m p. op = M_lock m \<and> global_mutex m s = Ok (Some (p, g))) \<or> op = M_lock_resume g"

text \<open>The trace records the operations on the way and what each of them returned.\<close>

inductive others :: "nat \<Rightarrow> int \<Rightarrow> 'a muxes_scheme \<Rightarrow> (bool \<times> int option) list \<Rightarrow> 'a muxes_scheme \<Rightarrow> bool"
  for g P where
  stop: "others g P s [] s"
| op: "others g P s tr s1 \<Longrightarrow> runs_other P s1 \<Longrightarrow> safe_op g s1 o1 \<Longrightarrow> mux_op o1 s1 = Ok (r, s2) \<Longrightarrow>
     others g P s ((asks g s1 o1, r) # tr) s2"
| env: "others g P s tr s1 \<Longrightarrow> (\<And>h. sleeplocks s2 (L_muxslp h) = sleeplocks s1 (L_muxslp h)) \<Longrightarrow> others g P s tr s2"

lemma some_ret_vc [vc]: "spec (some_ret m) Q \<longleftrightarrow> spec m (\<lambda>(r, s). Q (Some r, s))"
  by (auto simp: some_ret_def spec_def bnd_eq_Inr)

lemma mux_op_holder:
  assumes "holder g P s" "runs_other P s" "safe_op g s o1"
  shows "spec (mux_op o1 s) (\<lambda>(r, s'). holder g P s' \<and> (asks g s o1 \<longrightarrow> r \<noteq> Some 0))"
proof (cases o1)
  case (M_create nm)
  with mutex_create_holder [of g P s nm] assms show ?thesis by (auto simp: vc asks_def elim!: spec_mono)
next
  case (M_get nm)
  with mutex_get_holder [of g P s nm] assms show ?thesis by (auto simp: vc asks_def elim!: spec_mono)
next
  case (M_delete m)
  with mutex_delete_holder [of g P s m] assms show ?thesis by (auto simp: vc asks_def elim!: spec_mono)
next
  case (M_lock m)
  with mutex_lock_holder [of g P s m] assms show ?thesis by (auto simp: vc asks_def elim!: spec_mono)
next
  case (M_lock_resume h)
  with mutex_lock_resume_holder [of g P s h] assms show ?thesis by (auto simp: vc asks_def elim!: spec_mono)
next
  case (M_unlock m)
  with mutex_unlock_holder [of g P s m] assms show ?thesis by (auto simp: vc asks_def elim!: spec_mono)
next
  case (M_wait m)
  with cv_wait_holder [of g P s m] assms show ?thesis by (auto simp: vc asks_def elim!: spec_mono)
next
  case (M_wait_resume m h)
  with cv_wait_resume_holder [of g P s m h] assms show ?thesis by (auto simp: vc asks_def elim!: spec_mono)
next
  case (M_signal m)
  with cv_signal_holder [of g P s m] assms show ?thesis by (auto simp: vc asks_def elim!: spec_mono)
qed

subsection \<open>Properties\<close>

text \<open>
  C8: A mutex excludes: while process \<open>P\<close> holds mutex \<open>g\<close>, no interleaving of mutex and condition
  variable operations of other processes, sleeps and resumptions included, takes it away from \<open>P\<close>
  or lets a \<open>mutex_lock\<close> of \<open>g\<close> by another process return 0. The one exception is the creation of a
  mutex while the reference count of \<open>g\<close> is zero.
\<close>

theorem mutex_exclusion:
  assumes "others g P s tr s'" "sl_locked (sleeplocks s (L_muxslp g))" "sl_pid (sleeplocks s (L_muxslp g)) = P"
  shows "sl_locked (sleeplocks s' (L_muxslp g)) \<and> sl_pid (sleeplocks s' (L_muxslp g)) = P \<and> (True, Some 0) \<notin> set tr"
proof -
  from assms(1) have "holder g P s \<Longrightarrow> holder g P s' \<and> (True, Some 0) \<notin> set tr"
  proof induction
    case (op s tr s1 o1 r s2)
    then have "holder g P s2 \<and> (asks g s1 o1 \<longrightarrow> r \<noteq> Some 0)" using specD [OF mux_op_holder [of g P s1 o1]] by fastforce
    with op show ?case by auto
  next
    case (env s tr s1 s2)
    then show ?case by (simp add: holder_def)
  qed simp
  with assms(2,3) show ?thesis by (simp add: holder_def)
qed

text \<open>Two processes, pids 2 and 3, with empty mutex tables.\<close>

lemma conts_extend [simp]:
  "held (conts.extend r m) = held r" "ncli (conts.extend r m) = ncli r" "use_lock (conts.extend r m) = use_lock r"
  "freelist (conts.extend r m) = freelist r" "kend (conts.extend r m) = kend r" "mem (conts.extend r m) = mem r"
  "procs (conts.extend r m) = procs r" "cur (conts.extend r m) = cur r" "nextpid (conts.extend r m) = nextpid r"
  "initproc (conts.extend r m) = initproc r" "kpgdir (conts.extend r m) = kpgdir r" "cr3 (conts.extend r m) = cr3 r"
  "ts_esp0 (conts.extend r m) = ts_esp0 r" "queue (conts.extend r m) = queue r"
  "containers (conts.extend r m) = containers r" "sleeplocks (conts.extend r (slps.fields v0)) = v0"
  by (simp_all add: conts.defs slps.defs)

lemma slps_extend [simp]:
  "held (slps.extend r m) = held r" "ncli (slps.extend r m) = ncli r" "use_lock (slps.extend r m) = use_lock r"
  "freelist (slps.extend r m) = freelist r" "kend (slps.extend r m) = kend r" "mem (slps.extend r m) = mem r"
  "procs (slps.extend r m) = procs r" "cur (slps.extend r m) = cur r" "nextpid (slps.extend r m) = nextpid r"
  "initproc (slps.extend r m) = initproc r" "kpgdir (slps.extend r m) = kpgdir r" "cr3 (slps.extend r m) = cr3 r"
  "ts_esp0 (slps.extend r m) = ts_esp0 r" "queue (slps.extend r m) = queue r"
  "containers (slps.extend r m) = containers r" "sleeplocks (slps.extend r m) = sleeplocks r"
  "mutexes (slps.extend r (muxes.fields v0)) = v0"
  by (simp_all add: slps.defs muxes.defs)

definition demo_mux :: muxes where
  "demo_mux = slps.extend (conts.extend demo_conts (slps.fields (\<lambda>_. \<lparr>sl_locked = False, sl_name = [], sl_pid = 0\<rparr>)))
     (muxes.fields (replicate MUX_MAXNUM \<lparr>mx_name = replicate 128 NUL, mx_count = 0, mx_waiting = replicate NPROC 0, mx_cv = 0\<rparr>))"

fun mux_run :: "(nat \<times> mop) list \<Rightarrow> 'a muxes_scheme \<Rightarrow> (int option list \<times> 'a muxes_scheme) res" where
  "mux_run [] s = Ok ([], s)"
| "mux_run ((p, o1) # os) s =
     bnd (mux_op o1 (s\<lparr>cur := Some p\<rparr>)) (\<lambda>(r, s). bnd (mux_run os s) (\<lambda>(rs, s). Ok (r # rs, s)))"

definition reuse_run :: "(nat \<times> mop) list" where
  "reuse_run = [(1, M_create (''a'' @ [NUL])), (2, M_get (''a'' @ [NUL])), (2, M_lock 0),
     (1, M_delete 0), (1, M_create (''b'' @ [NUL])), (1, M_lock 0)]"

lemma reuse_run_eval:
  "case mux_run reuse_run demo_mux of Inl e \<Rightarrow> False
   | Inr (rs, s) \<Rightarrow> rs = replicate 6 (Some 0) \<and> p_locks (procs s ! 1) ! 0 = 0 \<and> p_locks (procs s ! 2) ! 0 = 0"
  by code_simp


text \<open>
  \<open>cv_wait\<close> returns without the mutex. When the condition has no pending signal the caller, who
  held the mutex, is put to sleep with the mutex free; and however the machine has moved on when it
  runs again, if a signal is pending the call returns 0 and leaves the mutex as it found it, held by another process or free:
  the caller is not made its owner again.
\<close>

theorem cv_wait_returns_unlocked:
  assumes "cur s = Some p" "p < length (procs s)" "held s = []" "ncli s = 0" "global_mutex m s = Ok (Some (p, g))"
    "sl_pid (sleeplocks s (L_muxslp g)) = p_pid (procs s ! p)" "mx_cv (mutexes s ! g) = 0"
    "0 \<le> p_pid (procs s ! p)" "p_pid (procs s ! p) < int (length (mx_waiting (mutexes s ! g)))"
  shows "\<exists>s1. cv_wait m s = Ok (None, s1) \<and> p_state (procs s1 ! p) = SLEEPING \<and> \<not> sl_locked (sleeplocks s1 (L_muxslp g)) \<and>
    (\<forall>s2. cur s2 = Some p \<and> held s2 = [L_ptable] \<and> ncli s2 = 1 \<and> g < length (mutexes s2) \<and> 0 < mx_cv (mutexes s2 ! g) \<longrightarrow>
       (\<exists>s3. cv_wait_resume m g s2 = Ok (Some 0, s3) \<and> sleeplocks s3 = sleeplocks s2))"
proof -
  have "runs (cv_wait m s) (\<lambda>(r, s1). r = None \<and> p_state (procs s1 ! p) = SLEEPING \<and> \<not> sl_locked (sleeplocks s1 (L_muxslp g)))"
  proof -
    let ?s = "s\<lparr>held := [L_mux g], ncli := 1\<rparr>"
    let ?w = "(mx_waiting (mutexes s ! g))[nat (p_pid (procs s ! p)) := 1]"
    have "cv_wait m s = cv_loop m g (upd_mux g (\<lambda>x. x\<lparr>mx_waiting := ?w\<rparr>) ?s)"
      using assms by (simp add: cv_wait_def owns_mutex_def)
    moreover have "global_mutex m (upd_mux g (\<lambda>x. x\<lparr>mx_waiting := ?w\<rparr>) ?s) = global_mutex m s"
      by (rule global_mutex_frame) simp_all
    ultimately show ?thesis
      using assms global_mutex_len [OF assms(5)]
      by (simp only:, intro cv_loop_sleeps) (simp_all add: owns_mutex_def)
  qed
  moreover have "runs (cv_wait_resume m g s2) (\<lambda>(r, s3). r = Some 0 \<and> sleeplocks s3 = sleeplocks s2)"
    if "cur s2 = Some p" "held s2 = [L_ptable]" "ncli s2 = 1" "g < length (mutexes s2)" "0 < mx_cv (mutexes s2 ! g)" for s2
    using that by (auto simp: cv_wait_resume_def cv_loop_def blocking_defs vc)
  ultimately show ?thesis unfolding runs_def by fast
qed

text \<open>Mutex 3 is held by the process with pid 2 and known to the running process, pid 3, as 0.\<close>

definition demo_held :: muxes where
  "demo_held = put_sl (L_muxslp 3) \<lparr>sl_locked = True, sl_name = [], sl_pid = 2\<rparr>
     (upd_proc 2 (\<lambda>x. x\<lparr>p_locks := (p_locks x)[0 := 3]\<rparr>) demo_mux)"

lemma demo_held_simps [simp]:
  "cur demo_held = Some 2" "length (procs demo_held) = 3" "p_pid (procs demo_held ! 2) = 3" "p_locks (procs demo_held ! 2) ! 0 = 3"
  "length (p_locks (procs demo_held ! 2)) = 16" "held demo_held = []" "ncli demo_held = 0" "length (mutexes demo_held) = 16"
  "sleeplocks demo_held (L_muxslp 3) = \<lparr>sl_locked = True, sl_name = [], sl_pid = 2\<rparr>"
  by (simp_all add: demo_held_def demo_mux_def demo_conts_def demo_pq_def mkproc_def
      upd_proc_def MUX_MAXNUM_def NPROC_def)

theorem mutex_exclusion_witness:
  "\<exists>s'. others 3 2 demo_held [(True, None)] s' \<and>
     sl_locked (sleeplocks s' (L_muxslp 3)) \<and> sl_pid (sleeplocks s' (L_muxslp 3)) = 2"
proof -
  have g: "global_mutex 0 demo_held = Ok (Some (2, 3))" by (simp add: global_mutex_def myproc_def MUX_MAXNUM_def)
  obtain s' where s': "mux_op (M_lock 0) demo_held = Ok (None, s')"
    using acquiresleep_busy [of demo_held "L_muxslp 3" 2] g by (simp add: mutex_lock_def owns_mutex_def)
  have "others 3 2 demo_held [(asks 3 demo_held (M_lock 0), None)] s'"
    by (rule others.op [OF others.stop _ _ s']) (simp_all add: runs_other_def)
  then have o: "others 3 2 demo_held [(True, None)] s'" by (simp add: asks_def g)
  with mutex_exclusion [OF o] show ?thesis by auto
qed

text \<open>The running process, pid 3, holds mutex 3 and knows it as 0; no signal is pending.\<close>

theorem cv_wait_returns_unlocked_witness:
  "\<exists>s1. cv_wait 0 (put_sl (L_muxslp 3) \<lparr>sl_locked = True, sl_name = [], sl_pid = 3\<rparr> demo_held) = Ok (None, s1) \<and>
     \<not> sl_locked (sleeplocks s1 (L_muxslp 3))"
proof -
  let ?s = "put_sl (L_muxslp 3) \<lparr>sl_locked = True, sl_name = [], sl_pid = 3\<rparr> demo_held"
  have "mx_cv (mutexes demo_held ! 3) = 0" "length (mx_waiting (mutexes demo_held ! 3)) = 64"
    by (simp_all add: demo_held_def demo_mux_def upd_proc_def MUX_MAXNUM_def NPROC_def)
  moreover have "global_mutex 0 ?s = Ok (Some (2, 3))" by (simp add: global_mutex_def myproc_def MUX_MAXNUM_def)
  ultimately show ?thesis using cv_wait_returns_unlocked [of ?s 2 0 3] by auto
qed

end
