(* ===== verification/Pipe.thy ===== *)
theory Pipe
  imports Mutex
begin

text \<open>
  Pipes (\<^verbatim>\<open>pipe.c\<close>): a ring of 512 bytes with free-running 32-bit counters, one page each. \<open>pipes\<close>
  maps the address of the page to the structure stored there; using an address that is no pipe is a
  fault. A call that blocks leaves what it has still to do: \<open>Sleeps\<close>, with the bytes not yet written.
  Sizes are not negative, which \<open>argptr\<close> checks before \<open>fileread\<close> and \<open>filewrite\<close> are called.

  Shown: the ring refines a bounded queue, through the wrap-around of its counters (locale \<open>fifo\<close>);
  what readers get is what writers put in, in order; no wake-up is lost except by a killed writer.
\<close>

definition PIPESIZE :: nat where
  "PIPESIZE = 512"

record pipe =
  pp_data :: "byte list"
  pp_nread :: u32
  pp_nwrite :: u32
  pp_readopen :: bool
  pp_writeopen :: bool

record pipetab = muxes +
  pipes :: "u32 \<Rightarrow> pipe option"

datatype ('r, 'k) call = Ret 'r | Sleeps 'k

definition get_pipe :: "u32 \<Rightarrow> 'a pipetab_scheme \<Rightarrow> pipe res" where
  "get_pipe p s = (case pipes s p of None \<Rightarrow> fault ''pipe'' | Some x \<Rightarrow> Ok x)"

abbreviation put_pipe :: "u32 \<Rightarrow> pipe \<Rightarrow> 'a pipetab_scheme \<Rightarrow> 'a pipetab_scheme" where
  "put_pipe p x s \<equiv> s\<lparr>pipes := (pipes s)(p := Some x)\<rparr>"

abbreviation L_pp :: "u32 \<Rightarrow> lockid" where
  "L_pp p \<equiv> L_pipe (unat p)"

abbreviation Ch_r :: "u32 \<Rightarrow> chan option" where
  "Ch_r p \<equiv> Some (Ch_nread (unat p))"

abbreviation Ch_w :: "u32 \<Rightarrow> chan option" where
  "Ch_w p \<equiv> Some (Ch_nwrite (unat p))"

subsection \<open>The ring\<close>

definition pipe_full :: "pipe \<Rightarrow> bool" where
  "pipe_full x \<longleftrightarrow> pp_nwrite x = pp_nread x + of_nat PIPESIZE"

definition pipe_empty :: "pipe \<Rightarrow> bool" where
  "pipe_empty x \<longleftrightarrow> pp_nread x = pp_nwrite x"

definition pipe_put :: "byte \<Rightarrow> pipe \<Rightarrow> pipe" where
  "pipe_put b x = x\<lparr>pp_data := (pp_data x)[unat (pp_nwrite x) mod PIPESIZE := b], pp_nwrite := pp_nwrite x + 1\<rparr>"

definition pipe_get :: "pipe \<Rightarrow> byte \<times> pipe" where
  "pipe_get x = (pp_data x ! (unat (pp_nread x) mod PIPESIZE), x\<lparr>pp_nread := pp_nread x + 1\<rparr>)"

fun pipe_copy :: "nat \<Rightarrow> pipe \<Rightarrow> byte list \<times> pipe" where
  "pipe_copy 0 x = ([], x)"
| "pipe_copy (Suc n) x =
     (if pipe_empty x then ([], x)
      else let (b, x) = pipe_get x; (bs, x) = pipe_copy n x in (b # bs, x))"

subsection \<open>Operations\<close>

definition pipeclose :: "u32 \<Rightarrow> bool \<Rightarrow> 'a pipetab_scheme \<Rightarrow> 'a pipetab_scheme res" where
  "pipeclose p writable s =
     bnd (lock (L_pp p) s) (\<lambda>s.
     bnd (get_pipe p s) (\<lambda>x.
     bnd (if writable then wakeup (Ch_r p) (put_pipe p (x\<lparr>pp_writeopen := False\<rparr>) s)
          else wakeup (Ch_w p) (put_pipe p (x\<lparr>pp_readopen := False\<rparr>) s)) (\<lambda>s.
     bnd (get_pipe p s) (\<lambda>x.
     bnd (unlock (L_pp p) s) (\<lambda>s.
     if \<not> pp_readopen x \<and> \<not> pp_writeopen x then kfree p (s\<lparr>pipes := (pipes s)(p := None)\<rparr>)
     else Ok s)))))"

text \<open>
  The loop of \<open>pipewrite\<close>, with the pipe locked: \<open>bs\<close> are the bytes \<open>addr[i]\<close>, \<open>addr[i+1]\<close>, ... still to
  be written, \<open>n\<close> the number the call returns. The bytes left are part of the result.
\<close>

fun pipewrite_loop :: "u32 \<Rightarrow> int \<Rightarrow> byte list \<Rightarrow> 'a pipetab_scheme \<Rightarrow> ((int, unit) call \<times> byte list \<times> 'a pipetab_scheme) res" where
  "pipewrite_loop p n [] s =
     bnd (wakeup (Ch_r p) s) (\<lambda>s.
     bnd (unlock (L_pp p) s) (\<lambda>s. Ok (Ret n, [], s)))"
| "pipewrite_loop p n (b # bs) s =
     bnd (get_pipe p s) (\<lambda>x.
     if pipe_full x then
       bnd (if \<not> pp_readopen x then Ok True else bnd (myproc s) (\<lambda>me. Ok (p_killed (procs s ! me)))) (\<lambda>give_up.
       if give_up
       then bnd (unlock (L_pp p) s) (\<lambda>s. Ok (Ret (-1), b # bs, s))
       else
         bnd (wakeup (Ch_r p) s) (\<lambda>s.
         bnd (sleep_out (Ch_w p) (L_pp p) s) (\<lambda>s. Ok (Sleeps (), b # bs, s))))
     else pipewrite_loop p n bs (put_pipe p (pipe_put b x) s))"

definition pipewrite :: "u32 \<Rightarrow> byte list \<Rightarrow> 'a pipetab_scheme \<Rightarrow> ((int, unit) call \<times> byte list \<times> 'a pipetab_scheme) res" where
  "pipewrite p addr s = bnd (lock (L_pp p) s) (pipewrite_loop p (int (length addr)) addr)"

definition pipewrite_resume :: "u32 \<Rightarrow> int \<Rightarrow> byte list \<Rightarrow> 'a pipetab_scheme \<Rightarrow> ((int, unit) call \<times> byte list \<times> 'a pipetab_scheme) res" where
  "pipewrite_resume p n bs s = bnd (sleep_in (L_pp p) s) (pipewrite_loop p n bs)"

definition piperead_loop :: "u32 \<Rightarrow> nat \<Rightarrow> 'a pipetab_scheme \<Rightarrow> ((int, unit) call \<times> byte list \<times> 'a pipetab_scheme) res" where
  "piperead_loop p n s =
     bnd (get_pipe p s) (\<lambda>x.
     if pipe_empty x \<and> pp_writeopen x then
       bnd (myproc s) (\<lambda>me.
       if p_killed (procs s ! me)
       then bnd (unlock (L_pp p) s) (\<lambda>s. Ok (Ret (-1), [], s))
       else bnd (sleep_out (Ch_r p) (L_pp p) s) (\<lambda>s. Ok (Sleeps (), [], s)))
     else
       let (bs, x) = pipe_copy n x in
       bnd (wakeup (Ch_w p) (put_pipe p x s)) (\<lambda>s.
       bnd (unlock (L_pp p) s) (\<lambda>s. Ok (Ret (int (length bs)), bs, s))))"

definition piperead :: "u32 \<Rightarrow> nat \<Rightarrow> 'a pipetab_scheme \<Rightarrow> ((int, unit) call \<times> byte list \<times> 'a pipetab_scheme) res" where
  "piperead p n s = bnd (lock (L_pp p) s) (piperead_loop p n)"

definition piperead_resume :: "u32 \<Rightarrow> nat \<Rightarrow> 'a pipetab_scheme \<Rightarrow> ((int, unit) call \<times> byte list \<times> 'a pipetab_scheme) res" where
  "piperead_resume p n s = bnd (sleep_in (L_pp p) s) (piperead_loop p n)"

subsection \<open>Bounded queues\<close>

locale fifo =
  fixes items :: "'q \<Rightarrow> 'a list" and ok :: "'q \<Rightarrow> bool" and cap :: nat
    and full :: "'q \<Rightarrow> bool" and empty :: "'q \<Rightarrow> bool"
    and put :: "'a \<Rightarrow> 'q \<Rightarrow> 'q" and get :: "'q \<Rightarrow> 'a \<times> 'q"
  assumes full_iff: "ok q \<Longrightarrow> full q \<longleftrightarrow> length (items q) = cap"
    and empty_iff: "ok q \<Longrightarrow> empty q \<longleftrightarrow> items q = []"
    and bounded: "ok q \<Longrightarrow> length (items q) \<le> cap"
    and put_ok: "ok q \<Longrightarrow> \<not> full q \<Longrightarrow> ok (put a q) \<and> items (put a q) = items q @ [a]"
    and get_ok: "ok q \<Longrightarrow> items q = a # as \<Longrightarrow> \<exists>q'. get q = (a, q') \<and> ok q' \<and> items q' = as"
begin

lemma put_all:
  assumes "ok q" "length (items q) + length as \<le> cap"
  shows "ok (fold put as q) \<and> items (fold put as q) = items q @ as"
  using assms
proof (induction as arbitrary: q)
  case (Cons a as)
  have "\<not> full q" using Cons.prems full_iff by auto
  with Cons.IH [of "put a q"] put_ok [of q a] Cons.prems show ?case by simp
qed simp

lemma get_front:
  assumes "ok q" "\<not> empty q"
  shows "\<exists>q'. get q = (hd (items q), q') \<and> ok q' \<and> items q' = tl (items q)"
  using get_ok [OF assms(1), of "hd (items q)" "tl (items q)"] assms empty_iff by (cases "items q") auto

end

definition ring_items :: "pipe \<Rightarrow> byte list" where
  "ring_items x = map (\<lambda>k. pp_data x ! (unat (pp_nread x + of_nat k) mod PIPESIZE)) [0..<unat (pp_nwrite x - pp_nread x)]"

definition ring_ok :: "pipe \<Rightarrow> bool" where
  "ring_ok x \<longleftrightarrow> length (pp_data x) = PIPESIZE \<and> unat (pp_nwrite x - pp_nread x) \<le> PIPESIZE"

lemma ring_idx: "unat (a + of_nat k :: u32) mod 512 = (unat a + k) mod 512"
proof -
  have "unat (a + of_nat k :: u32) = (unat a + k) mod 2 ^ 32"
    by (simp add: unat_word_ariths unsigned_of_nat take_bit_nat_def mod_add_right_eq)
  then show ?thesis using mod_mod_cancel [of 512 "2 ^ 32" "unat a + k"] by simp
qed

lemma ring_off: "(a + j) mod 512 = (a + k) mod 512 \<Longrightarrow> j \<le> k \<Longrightarrow> k < j + 512 \<Longrightarrow> j = k" for a :: nat
proof -
  assume a: "(a + j) mod 512 = (a + k) mod 512" "j \<le> k" "k < j + 512"
  then have "(a + k) mod 512 = (a + j) mod 512" "a + j \<le> a + k" by simp_all
  then have "512 dvd (a + k) - (a + j)" by (simp only: mod_eq_dvd_iff_nat)
  then have "512 dvd k - j" by simp
  with a show ?thesis by (auto dest: dvd_imp_le)
qed

lemma ring_diff:
  fixes w r :: u32
  assumes "unat (w - r) < 512"
  shows "unat (w + 1 - r) = Suc (unat (w - r))" "w = r + of_nat (unat (w - r))"
proof -
  have "w + 1 - r = (w - r) + 1" by simp
  also have "unat ((w - r) + 1) = Suc (unat (w - r))" using assms by (simp add: unat_word_ariths)
  finally show "unat (w + 1 - r) = Suc (unat (w - r))" .
qed simp

lemma ring_put:
  assumes "ring_ok x" "unat (pp_nwrite x - pp_nread x) < 512"
  shows "ring_ok (pipe_put b x) \<and> ring_items (pipe_put b x) = ring_items x @ [b]"
proof -
  define d where "d = unat (pp_nwrite x - pp_nread x)"
  have len: "length (pp_data x) = 512" using assms(1) by (simp add: ring_ok_def PIPESIZE_def)
  have w: "unat (pp_nwrite x) mod 512 = (unat (pp_nread x) + d) mod 512"
    using ring_diff(2) [OF assms(2)] ring_idx [of "pp_nread x" d] by (simp add: d_def)
  have ne: "(unat (pp_nread x) + k) mod 512 \<noteq> (unat (pp_nread x) + d) mod 512" if "k < d" for k
    using that assms(2) ring_off [of "unat (pp_nread x)" k d] by (auto simp: d_def)
  have "ring_items (pipe_put b x) =
      map (\<lambda>k. (pp_data x)[unat (pp_nwrite x) mod 512 := b] ! ((unat (pp_nread x) + k) mod 512)) [0..<Suc d]"
    using assms(2) by (simp add: ring_items_def pipe_put_def PIPESIZE_def ring_idx ring_diff(1) d_def del: upt_Suc)
  also have "\<dots> = map (\<lambda>k. pp_data x ! ((unat (pp_nread x) + k) mod 512)) [0..<d] @ [b]"
    using ne len by (auto simp: w dest!: ne [THEN not_sym])
  finally have i: "ring_items (pipe_put b x) = ring_items x @ [b]"
    by (simp add: ring_items_def ring_idx PIPESIZE_def d_def)
  moreover have "ring_ok (pipe_put b x)"
    using assms ring_diff(1) [OF assms(2)] by (simp add: ring_ok_def pipe_put_def PIPESIZE_def)
  ultimately show ?thesis by simp
qed

lemma ring_get:
  assumes "ring_ok x" "ring_items x = a # as"
  shows "\<exists>x'. pipe_get x = (a, x') \<and> ring_ok x' \<and> ring_items x' = as"
proof -
  define d where "d = unat (pp_nwrite x - pp_nread x)"
  have "length (ring_items x) = d" by (simp add: ring_items_def d_def)
  then have d: "0 < d" "d \<le> 512" using assms by (auto simp: ring_ok_def d_def PIPESIZE_def)
  have e: "unat (pp_nwrite x - (pp_nread x + 1)) = d - 1"
  proof -
    have "pp_nwrite x - (pp_nread x + 1) = (pp_nwrite x - pp_nread x) - 1" by simp
    moreover have "1 \<le> pp_nwrite x - pp_nread x" using d(1) by (simp add: d_def word_le_nat_alt)
    ultimately show ?thesis using unat_sub [of 1 "pp_nwrite x - pp_nread x"] by (simp only: d_def unsigned_1)
  qed
  have i: "ring_items x = pp_data x ! (unat (pp_nread x) mod 512) # map (\<lambda>k. pp_data x ! ((unat (pp_nread x) + Suc k) mod 512)) [0..<d - 1]"
    using d by (cases d) (simp_all add: ring_items_def PIPESIZE_def ring_idx d_def [symmetric] upt_conv_Cons map_Suc_upt [symmetric] o_def del: upt_Suc)
  have "ring_items (x\<lparr>pp_nread := pp_nread x + 1\<rparr>) = as"
  proof -
    have "unat (pp_nread x + 1 + of_nat k) mod 512 = (unat (pp_nread x) + Suc k) mod 512" for k
      using ring_idx [of "pp_nread x" "Suc k"] by (simp add: add.assoc)
    then show ?thesis using i assms(2) by (simp add: ring_items_def PIPESIZE_def e)
  qed
  moreover have "ring_ok (x\<lparr>pp_nread := pp_nread x + 1\<rparr>)" using assms(1) d e by (simp add: ring_ok_def PIPESIZE_def)
  moreover have "pp_data x ! (unat (pp_nread x) mod 512) = a" using i assms(2) by simp
  ultimately show ?thesis by (simp add: pipe_get_def PIPESIZE_def)
qed

interpretation pr: fifo ring_items ring_ok PIPESIZE pipe_full pipe_empty pipe_put pipe_get
proof
  fix q a as
  assume ok: "ring_ok q"
  have f: "pp_nwrite q = pp_nread q + of_nat PIPESIZE \<longleftrightarrow> unat (pp_nwrite q - pp_nread q) = PIPESIZE"
  proof -
    have "pp_nwrite q = pp_nread q + 512 \<longleftrightarrow> pp_nwrite q - pp_nread q = 512" by (auto simp: algebra_simps)
    then show ?thesis by (simp add: PIPESIZE_def word_unat_eq_iff)
  qed
  show "pipe_full q \<longleftrightarrow> length (ring_items q) = PIPESIZE"
    using f by (simp add: pipe_full_def ring_items_def)
  show "pipe_empty q \<longleftrightarrow> ring_items q = []"
    by (auto simp: pipe_empty_def ring_items_def unat_eq_0)
  show "length (ring_items q) \<le> PIPESIZE" using ok by (simp add: ring_ok_def ring_items_def)
  show "ring_ok (pipe_put a q) \<and> ring_items (pipe_put a q) = ring_items q @ [a]" if "\<not> pipe_full q"
    using that ok f ring_put [OF ok] by (auto simp: pipe_full_def ring_ok_def PIPESIZE_def)
  show "\<exists>q'. pipe_get q = (a, q') \<and> ring_ok q' \<and> ring_items q' = as" if "ring_items q = a # as"
    by (rule ring_get [OF ok that])
qed

lemma get_pipe_vc [vc]:
  "spec (get_pipe p s) Q \<longleftrightarrow> (\<forall>x. pipes s p = Some x \<longrightarrow> Q x)" "runs (get_pipe p s) Q \<longleftrightarrow> (\<exists>x. pipes s p = Some x \<and> Q x)"
  by (auto simp: spec_def runs_def get_pipe_def split: option.splits)

lemma frame_pipes [simp]: "pipes (upd_proc q f s) = pipes s" "pipes (wakeup1 c s) = pipes s"
  by (simp_all add: upd_proc_def wakeup1_def)

subsection \<open>Order\<close>

text \<open>
  Any sequence of calls on the pipe \<open>p\<close>, of resumptions after a sleep, and of anything else that
  leaves the pipe alone. The two lists are the bytes writers have put in and the bytes readers have
  been given. With the flag set, writers are processes that have not been killed.
\<close>

definition alive :: "'a ptable_scheme \<Rightarrow> bool" where
  "alive s \<longleftrightarrow> (\<exists>me. cur s = Some me \<and> me < length (procs s) \<and> \<not> p_killed (procs s ! me))"

definition asleep_on :: "chan option \<Rightarrow> proc list \<Rightarrow> nat set" where
  "asleep_on c ps = {q. q < length ps \<and> p_state (ps ! q) = SLEEPING \<and> p_chan (ps ! q) = c}"

inductive pipe_run :: "u32 \<Rightarrow> bool \<Rightarrow> 'a pipetab_scheme \<Rightarrow> byte list \<Rightarrow> byte list \<Rightarrow> 'a pipetab_scheme \<Rightarrow> bool"
  for p K s where
  start: "pipe_run p K s [] [] s"
| wr: "pipe_run p K s w r s1 \<Longrightarrow> K \<longrightarrow> alive s1 \<Longrightarrow> pipewrite p bs s1 = Ok (c, left, s2) \<Longrightarrow>
     pipe_run p K s (w @ take (length bs - length left) bs) r s2"
| wr_resume: "pipe_run p K s w r s1 \<Longrightarrow> K \<longrightarrow> alive s1 \<Longrightarrow> pipewrite_resume p n bs s1 = Ok (c, left, s2) \<Longrightarrow>
     pipe_run p K s (w @ take (length bs - length left) bs) r s2"
| rd: "pipe_run p K s w r s1 \<Longrightarrow> piperead p n s1 = Ok (c, out, s2) \<Longrightarrow> pipe_run p K s w (r @ out) s2"
| rd_resume: "pipe_run p K s w r s1 \<Longrightarrow> piperead_resume p n s1 = Ok (c, out, s2) \<Longrightarrow> pipe_run p K s w (r @ out) s2"
| close: "pipe_run p K s w r s1 \<Longrightarrow> pipeclose p b s1 = Ok s2 \<Longrightarrow> pipe_run p K s w r s2"
| env: "pipe_run p K s w r s1 \<Longrightarrow> pipes s2 p = pipes s1 p \<Longrightarrow> asleep_on (Ch_r p) (procs s2) \<subseteq> asleep_on (Ch_r p) (procs s1) \<Longrightarrow>
     asleep_on (Ch_w p) (procs s2) \<subseteq> asleep_on (Ch_w p) (procs s1) \<Longrightarrow> pipe_run p K s w r s2"

lemma pipe_copy_items:
  "ring_ok x \<Longrightarrow> pipe_copy n x = (bs, x') \<Longrightarrow> ring_ok x' \<and> ring_items x = bs @ ring_items x' \<and>
     length bs = min n (length (ring_items x)) \<and> pp_readopen x' = pp_readopen x \<and> pp_writeopen x' = pp_writeopen x"
proof (induction n arbitrary: x bs)
  case (Suc n)
  show ?case
  proof (cases "pipe_empty x")
    case True
    with Suc.prems pr.empty_iff [of x] show ?thesis by simp
  next
    case False
    with pr.get_front [OF Suc.prems(1)] obtain y where y: "pipe_get x = (hd (ring_items x), y)" "ring_ok y"
      "ring_items y = tl (ring_items x)" by blast
    obtain a as where i: "ring_items x = a # as" using False pr.empty_iff [OF Suc.prems(1)] by (cases "ring_items x") auto
    obtain cs where cs: "pipe_copy n y = (cs, x')" "bs = a # cs"
      using Suc.prems(2) False y(1) i by (auto split: prod.splits)
    have o: "pp_readopen y = pp_readopen x" "pp_writeopen y = pp_writeopen x"
      using y(1) by (auto simp: pipe_get_def)
    have ys: "ring_items y = as" using y(3) i by simp
    note ih = Suc.IH [OF y(2) cs(1), unfolded ys o]
    have "length bs = min (Suc n) (length (ring_items x))" using ih cs(2) i by (simp only: length_Cons min_Suc_Suc)
    moreover have "ring_items x = bs @ ring_items x'" using ih cs(2) i by (simp only: append_Cons)
    ultimately show ?thesis using ih by blast
  qed
qed simp

lemma pipewrite_loop_ring:
  "pipes s p = Some x \<Longrightarrow> ring_ok x \<Longrightarrow>
   spec (pipewrite_loop p n bs s) (\<lambda>(c, left, s'). \<exists>x' k. pipes s' p = Some x' \<and> ring_ok x' \<and> bs = k @ left \<and>
     ring_items x' = ring_items x @ k)"
proof (induction bs arbitrary: s x)
  case Nil
  then show ?case by (auto simp: vc)
next
  case (Cons b bs)
  show ?case
  proof (cases "pipe_full x")
    case True
    with Cons.prems show ?thesis by (auto simp: vc blocking_defs split: option.split)
  next
    case False
    with pr.put_ok [OF Cons.prems(2), of b] have y: "ring_ok (pipe_put b x)" "ring_items (pipe_put b x) = ring_items x @ [b]" by auto
    with Cons.IH [of "put_pipe p (pipe_put b x) s" "pipe_put b x"] Cons.prems False show ?thesis
      by (auto simp: vc elim!: spec_mono)
  qed
qed

lemma piperead_loop_ring:
  "pipes s p = Some x \<Longrightarrow> ring_ok x \<Longrightarrow>
   spec (piperead_loop p n s) (\<lambda>(c, out, s'). \<exists>x'. pipes s' p = Some x' \<and> ring_ok x' \<and> ring_items x = out @ ring_items x')"
proof -
  assume s: "pipes s p = Some x" "ring_ok x"
  obtain bs x' where c: "pipe_copy n x = (bs, x')" by (cases "pipe_copy n x")
  have k: "ring_ok x'" "ring_items x = bs @ ring_items x'" using pipe_copy_items [OF s(2) c] by blast+
  show ?thesis
  proof (cases "pipe_empty x \<and> pp_writeopen x")
    case True
    then show ?thesis using s by (simp add: piperead_loop_def vc sleep_out_def split: option.split)
  next
    case False
    then show ?thesis using s(1) k by (auto simp: piperead_loop_def c vc Let_def)
  qed
qed

lemma loops_none:
  "pipes s p = None \<Longrightarrow> spec (pipewrite_loop p n bs s) (\<lambda>(c, left, s'). pipes s' p = None)"
  "pipes s p = None \<Longrightarrow> spec (piperead_loop p m s) (\<lambda>(c, out, s'). pipes s' p = None)"
  by (cases bs) (auto simp: vc piperead_loop_def)

text \<open>What a call adds to the ring at its tail (\<open>put\<close>) or takes from its head (\<open>got\<close>).\<close>

definition ring_step :: "u32 \<Rightarrow> byte list \<Rightarrow> byte list \<Rightarrow> 'a pipetab_scheme \<Rightarrow> 'a pipetab_scheme \<Rightarrow> bool" where
  "ring_step p put got s s' \<longleftrightarrow> (\<forall>y'. pipes s' p = Some y' \<longrightarrow>
     (\<exists>y. pipes s p = Some y \<and> (ring_ok y \<longrightarrow> ring_ok y' \<and> ring_items y @ put = got @ ring_items y')))"

lemma pipewrite_loop_step:
  "spec (pipewrite_loop p n bs s) (\<lambda>(c, left, s'). ring_step p (take (length bs - length left) bs) [] s s')"
proof (cases "pipes s p")
  case None
  then show ?thesis using loops_none(1) [of s p n bs] by (auto simp: ring_step_def elim!: spec_mono)
next
  case (Some x)
  show ?thesis
  proof (cases "ring_ok x")
    case True
    then show ?thesis using pipewrite_loop_ring [OF Some True, of n bs] Some by (fastforce simp: ring_step_def elim!: spec_mono)
  next
    case False
    then show ?thesis using Some by (auto simp: ring_step_def intro!: specI)
  qed
qed

lemma piperead_loop_step:
  "spec (piperead_loop p n s) (\<lambda>(c, out, s'). ring_step p [] out s s')"
proof (cases "pipes s p")
  case None
  then show ?thesis using loops_none(2) [of s p n] by (auto simp: ring_step_def elim!: spec_mono)
next
  case (Some x)
  show ?thesis
  proof (cases "ring_ok x")
    case True
    then show ?thesis using piperead_loop_ring [OF Some True, of n] Some by (fastforce simp: ring_step_def elim!: spec_mono)
  next
    case False
    then show ?thesis using Some by (auto simp: ring_step_def intro!: specI)
  qed
qed

lemma ring_run:
  assumes "ring_step p a b s1 s2" "\<forall>y. pipes s1 p = Some y \<longrightarrow> ring_ok y \<and> w = r @ ring_items y"
  shows "\<forall>y. pipes s2 p = Some y \<longrightarrow> ring_ok y \<and> w @ a = (r @ b) @ ring_items y"
proof (intro allI impI)
  fix y' assume "pipes s2 p = Some y'"
  with assms(1) obtain y where "pipes s1 p = Some y" "ring_ok y \<longrightarrow> ring_ok y' \<and> ring_items y @ a = b @ ring_items y'"
    unfolding ring_step_def by blast
  with assms(2) show "ring_ok y' \<and> w @ a = (r @ b) @ ring_items y'" by simp
qed

lemma ring_step_frame: "pipes s p = pipes t p \<Longrightarrow> ring_step p a b s s' = ring_step p a b t s'"
  by (simp add: ring_step_def)

lemma kfree_pipes: "kfree v s = Ok s' \<Longrightarrow> pipes s' = pipes s \<and> procs s' = procs s"
  by (auto simp: kfree_def kmem_acquire_def kmem_release_def Let_def bnd_eq_Inr lock_def unlock_def split: if_splits)

lemma sleep_in_pipes: "spec (sleep_in l s) (\<lambda>s'. pipes s' = pipes s)"
  by (auto simp: sleep_in_def Let_def vc)

lemma pipe_calls_step:
  fixes s :: "'a pipetab_scheme"
  shows "spec (pipewrite p bs s) (\<lambda>(c, left, s'). ring_step p (take (length bs - length left) bs) [] s s')"
  "spec (pipewrite_resume p n bs s) (\<lambda>(c, left, s'). ring_step p (take (length bs - length left) bs) [] s s')"
  "spec (piperead p m s) (\<lambda>(c, out, s'). ring_step p [] out s s')"
  "spec (piperead_resume p m s) (\<lambda>(c, out, s'). ring_step p [] out s s')"
  "spec (pipeclose p b s) (ring_step p [] [] s)"
proof -
  have f: "ring_step p a b (s\<lparr>held := h, ncli := k\<rparr>) s' = ring_step p a b s s'" for a b h k s'
    by (rule ring_step_frame) simp
  show "spec (pipewrite p bs s) (\<lambda>(c, left, s'). ring_step p (take (length bs - length left) bs) [] s s')"
    using pipewrite_loop_step [of p "int (length bs)" bs "s\<lparr>held := L_pp p # held s, ncli := ncli s + 1\<rparr>"]
    by (simp add: pipewrite_def vc f)
  show "spec (piperead p m s) (\<lambda>(c, out, s'). ring_step p [] out s s')"
    using piperead_loop_step [of p m "s\<lparr>held := L_pp p # held s, ncli := ncli s + 1\<rparr>"] by (simp add: piperead_def vc f)
  show "spec (pipewrite_resume p n bs s) (\<lambda>(c, left, s'). ring_step p (take (length bs - length left) bs) [] s s')"
    unfolding pipewrite_resume_def vc
  proof (rule spec_mono [OF sleep_in_pipes])
    fix s1 :: "'a pipetab_scheme" assume "pipes s1 = pipes s"
    then have "ring_step p a b s1 s' = ring_step p a b s s'" for a b s' by (intro ring_step_frame) simp
    then show "spec (pipewrite_loop p n bs s1) (\<lambda>(c, left, s'). ring_step p (take (length bs - length left) bs) [] s s')"
      using pipewrite_loop_step [of p n bs s1] by simp
  qed
  show "spec (piperead_resume p m s) (\<lambda>(c, out, s'). ring_step p [] out s s')"
    unfolding piperead_resume_def vc
  proof (rule spec_mono [OF sleep_in_pipes])
    fix s1 :: "'a pipetab_scheme" assume "pipes s1 = pipes s"
    then have "ring_step p a b s1 s' = ring_step p a b s s'" for a b s' by (intro ring_step_frame) simp
    then show "spec (piperead_loop p m s1) (\<lambda>(c, out, s'). ring_step p [] out s s')"
      using piperead_loop_step [of p m s1] by simp
  qed
  show "spec (pipeclose p b s) (ring_step p [] [] s)"
    by (auto simp: pipeclose_def vc ring_step_def ring_ok_def ring_items_def intro!: specI dest!: kfree_pipes)
qed

text \<open>
  C6: A pipe delivers exactly what was written, in order: from a fresh pipe, after any interleaving
  of writes and reads that block, resume, fail or complete, the bytes given to readers followed by the bytes in
  the ring are the bytes put in by writers; nothing is lost, duplicated or reordered, also when the
  32-bit counters wrap around.
\<close>

theorem pipe_in_order:
  assumes "pipe_run p K s w r s'" "pipes s p = Some x" "length (pp_data x) = PIPESIZE" "pp_nread x = pp_nwrite x"
    "pipes s' p = Some x'"
  shows "w = r @ ring_items x' \<and> length (ring_items x') \<le> PIPESIZE"
proof -
  have "ring_ok x" "ring_items x = []" using assms(3,4) by (simp_all add: ring_ok_def ring_items_def)
  from assms(1) have "\<forall>y. pipes s' p = Some y \<longrightarrow> ring_ok y \<and> w = r @ ring_items y"
  proof induction
    case start
    with \<open>ring_ok x\<close> \<open>ring_items x = []\<close> assms(2) show ?case by simp
  next
    case (wr w r s1 bs c left s2)
    from specD [OF pipe_calls_step(1) wr.hyps(3)] have "ring_step p (take (length bs - length left) bs) [] s1 s2" by simp
    from ring_run [OF this wr.IH] show ?case by simp
  next
    case (wr_resume w r s1 n bs c left s2)
    from specD [OF pipe_calls_step(2) wr_resume.hyps(3)] have "ring_step p (take (length bs - length left) bs) [] s1 s2" by simp
    from ring_run [OF this wr_resume.IH] show ?case by simp
  next
    case (rd w r s1 n c out s2)
    from specD [OF pipe_calls_step(3) rd.hyps(2)] have "ring_step p [] out s1 s2" by simp
    from ring_run [OF this rd.IH] show ?case by simp
  next
    case (rd_resume w r s1 n c out s2)
    from specD [OF pipe_calls_step(4) rd_resume.hyps(2)] have "ring_step p [] out s1 s2" by simp
    from ring_run [OF this rd_resume.IH] show ?case by simp
  next
    case (close w r s1 b s2)
    from specD [OF pipe_calls_step(5) close.hyps(2)] have "ring_step p [] [] s1 s2" by simp
    from ring_run [OF this close.IH] show ?case by simp
  next
    case (env w r s1 s2)
    then show ?case by simp
  qed
  with assms(5) show ?thesis using pr.bounded by auto
qed

subsection \<open>Wake-ups\<close>

text \<open>
  Nobody waits for what is already there: readers with the read end open sleep only while the ring is empty and a writer may come,
  writers only while it is full and a reader may come.
\<close>

definition awake :: "u32 \<Rightarrow> 'a pipetab_scheme \<Rightarrow> bool" where
  "awake p s \<longleftrightarrow> (\<forall>x. pipes s p = Some x \<longrightarrow>
     (pp_readopen x \<and> asleep_on (Ch_r p) (procs s) \<noteq> {} \<longrightarrow> pipe_empty x \<and> pp_writeopen x) \<and>
     (asleep_on (Ch_w p) (procs s) \<noteq> {} \<longrightarrow> pipe_full x \<and> pp_readopen x))"

lemma asleep_wakeup: "asleep_on c (procs (wakeup1 d s)) = (if c = d then {} else asleep_on c (procs s))"
  by (auto simp: asleep_on_def wakeup1_def split: if_splits)

lemma asleep_none: "\<forall>x \<in> set ps. p_state x = SLEEPING \<longrightarrow> p_chan x \<noteq> c \<Longrightarrow> asleep_on c ps = {}"
  by (auto simp: asleep_on_def)

lemma asleep_sleep:
  "c \<noteq> d \<Longrightarrow> asleep_on c (procs (upd_proc me (\<lambda>x. x\<lparr>p_chan := d, p_state := SLEEPING\<rparr>) s)) \<subseteq> asleep_on c (procs s)"
  by (cases "me < length (procs s)") (auto simp: asleep_on_def upd_proc_def nth_list_update list_update_beyond split: if_splits)

lemma asleep_resume:
  "c \<noteq> None \<Longrightarrow> asleep_on c (procs (upd_proc me (\<lambda>x. x\<lparr>p_chan := None\<rparr>) s)) \<subseteq> asleep_on c (procs s)"
  by (cases "me < length (procs s)") (auto simp: asleep_on_def upd_proc_def nth_list_update list_update_beyond split: if_splits)

lemma pipe_copy_open: "pipe_copy n x = (bs, x') \<Longrightarrow> pp_readopen x' = pp_readopen x \<and> pp_writeopen x' = pp_writeopen x"
  by (induction n arbitrary: x bs) (auto simp: pipe_get_def Let_def split: if_splits prod.splits)

lemma pipewrite_loop_awake:
  assumes "asleep_on (Ch_w p) (procs s) \<noteq> {} \<Longrightarrow> \<forall>x. pipes s p = Some x \<longrightarrow> pipe_full x \<and> pp_readopen x" "alive s"
  shows "spec (pipewrite_loop p n bs s) (\<lambda>(c, left, s'). awake p s')"
  using assms
proof (induction bs arbitrary: s)
  case Nil
  then show ?case by (auto simp: vc awake_def asleep_wakeup)
next
  case (Cons b bs)
  show ?case
  proof (cases "pipes s p")
    case (Some x)
    show ?thesis
    proof (cases "pipe_full x")
      case True
      have w: "asleep_on (Ch_r p) (procs (upd_proc me (\<lambda>x. x\<lparr>p_chan := Ch_w p, p_state := SLEEPING\<rparr>) (wakeup1 (Ch_r p) s))) = {}" for me
        using asleep_sleep [of "Ch_r p" "Ch_w p" me "wakeup1 (Ch_r p) s"] by (simp add: asleep_wakeup)
      with True Some Cons.prems show ?thesis
        by (auto simp: vc sleep_out_def awake_def alive_def upd_proc_def split: option.split)
    next
      case False
      with Some Cons.prems(1) have "asleep_on (Ch_w p) (procs s) = {}" by auto
      with Cons.IH [of "put_pipe p (pipe_put b x) s"] Some False Cons.prems(2) show ?thesis
        by (simp add: vc alive_def)
    qed
  qed (simp add: vc get_pipe_vc)
qed

lemma piperead_loop_awake:
  assumes "awake p s"
  shows "spec (piperead_loop p n s) (\<lambda>(c, out, s'). awake p s')"
proof (cases "pipes s p")
  case None
  then show ?thesis by (simp add: piperead_loop_def vc)
next
  case (Some x)
  obtain bs x' where c: "pipe_copy n x = (bs, x')" by (cases "pipe_copy n x")
  show ?thesis
  proof (cases "pipe_empty x \<and> pp_writeopen x")
    case True
    have "asleep_on (Ch_w p) (procs (upd_proc me (\<lambda>x. x\<lparr>p_chan := Ch_r p, p_state := SLEEPING\<rparr>) s)) \<subseteq> asleep_on (Ch_w p) (procs s)" for me
      by (rule asleep_sleep) simp
    then have "asleep_on (Ch_w p) (procs (upd_proc me (\<lambda>x. x\<lparr>p_chan := Ch_r p, p_state := SLEEPING\<rparr>) s)) \<noteq> {} \<longrightarrow> asleep_on (Ch_w p) (procs s) \<noteq> {}" for me
      by blast
    with True Some assms show ?thesis
      by (auto simp: piperead_loop_def vc sleep_out_def awake_def upd_proc_def split: option.split)
  next
    case False
    with Some assms pipe_copy_open [OF c] show ?thesis
      by (auto simp: piperead_loop_def c vc Let_def awake_def asleep_wakeup)
  qed
qed

lemma awake_frame:
  assumes "awake p s1" "pipes s2 p = pipes s1 p" "asleep_on (Ch_r p) (procs s2) \<subseteq> asleep_on (Ch_r p) (procs s1)"
    "asleep_on (Ch_w p) (procs s2) \<subseteq> asleep_on (Ch_w p) (procs s1)"
  shows "awake p s2"
  using assms unfolding awake_def by (metis subset_empty)

lemma sleep_in_awake: "awake p s \<Longrightarrow> spec (sleep_in l s) (\<lambda>s'. awake p s' \<and> (alive s \<longrightarrow> alive s'))"
proof -
  assume a: "awake p s"
  have f: "awake p (upd_proc me (\<lambda>x. x\<lparr>p_chan := None\<rparr>) s)" for me
    by (rule awake_frame [OF a]) (simp_all add: asleep_resume)
  have k: "alive s \<Longrightarrow> alive (upd_proc me (\<lambda>x. x\<lparr>p_chan := None\<rparr>) s)" for me
    by (auto simp: alive_def upd_proc_keep [of p_killed])
  show ?thesis using f k by (auto simp: sleep_in_def Let_def vc awake_def alive_def)
qed

lemma awake_held: "awake p (s\<lparr>held := h, ncli := k\<rparr>) = awake p s" "alive (s\<lparr>held := h, ncli := k\<rparr>) = alive s"
  by (simp_all add: awake_def alive_def)

lemma awake_writers: "awake p s \<Longrightarrow> asleep_on (Ch_w p) (procs s) \<noteq> {} \<Longrightarrow> \<forall>x. pipes s p = Some x \<longrightarrow> pipe_full x \<and> pp_readopen x"
  by (simp add: awake_def)

lemma pipe_calls_awake:
  assumes "awake p s"
  shows "alive s \<Longrightarrow> spec (pipewrite p bs s) (\<lambda>(c, left, s'). awake p s')"
    "alive s \<Longrightarrow> spec (pipewrite_resume p n bs s) (\<lambda>(c, left, s'). awake p s')"
    "spec (piperead p m s) (\<lambda>(c, out, s'). awake p s')"
    "spec (piperead_resume p m s) (\<lambda>(c, out, s'). awake p s')"
  using assms
  by (auto simp: pipewrite_def piperead_def pipewrite_resume_def piperead_resume_def vc awake_held
      intro!: pipewrite_loop_awake piperead_loop_awake elim!: spec_mono [OF sleep_in_awake] dest: awake_writers)

lemma pipeclose_awake:
  fixes s :: "'a pipetab_scheme"
  shows "awake p s \<Longrightarrow> spec (pipeclose p b s) (awake p)"
proof -
  assume a: "awake p s"
  have k: "spec (kfree p s') (awake p)" if "pipes s' p = None" for s' :: "'a pipetab_scheme"
    using that kfree_pipes [of p s'] by (auto simp: awake_def intro!: specI)
  show ?thesis
  proof (cases "pipes s p")
    case (Some x)
    then show ?thesis using a by (cases b) (simp_all add: pipeclose_def vc k awake_def asleep_wakeup pipe_full_def)
  qed (simp add: pipeclose_def vc)
qed

text \<open>
  C9: No wake-up is lost: whatever calls on the pipe are interleaved, by writers that have not been
  killed, no process is ever left asleep waiting for bytes, with the read end open, while the ring holds some or the write end
  is closed, and none is left asleep waiting for room while there is room or the read end is closed.
\<close>

theorem pipe_no_lost_wakeup:
  assumes "pipe_run p True s w r s'" "asleep_on (Ch_r p) (procs s) = {}" "asleep_on (Ch_w p) (procs s) = {}" "pipes s' p = Some x"
  shows "(pp_readopen x \<and> asleep_on (Ch_r p) (procs s') \<noteq> {} \<longrightarrow> pp_nread x = pp_nwrite x \<and> pp_writeopen x) \<and>
    (asleep_on (Ch_w p) (procs s') \<noteq> {} \<longrightarrow> pp_nwrite x = pp_nread x + 512 \<and> pp_readopen x)"
proof -
  from assms(1) have "awake p s'"
  proof induction
    case start
    then show ?case using assms(2,3) by (simp add: awake_def)
  next
    case (wr w r s1 bs c left s2)
    then show ?case using specD [OF pipe_calls_awake(1)] by fastforce
  next
    case (wr_resume w r s1 n bs c left s2)
    then show ?case using specD [OF pipe_calls_awake(2)] by fastforce
  next
    case (rd w r s1 n c out s2)
    then show ?case using specD [OF pipe_calls_awake(3)] by fastforce
  next
    case (rd_resume w r s1 n c out s2)
    then show ?case using specD [OF pipe_calls_awake(4)] by fastforce
  next
    case (close w r s1 b s2)
    then show ?case using specD [OF pipeclose_awake] by fastforce
  next
    case (env w r s1 s2)
    then show ?case by (blast intro: awake_frame)
  qed
  with assms(4) show ?thesis by (simp add: awake_def pipe_empty_def pipe_full_def PIPESIZE_def)
qed

lemma pipewrite_loop_killed:
  assumes "pipes s p = Some x" "ring_ok x" "PIPESIZE < length (ring_items x) + length bs" "cur s = Some me"
    "p_killed (procs s ! me)" "L_pp p \<in> set (held s)" "ncli s \<noteq> 0"
  shows "runs (pipewrite_loop p n bs s) (\<lambda>(c, left, s'). c = Ret (-1) \<and> procs s' = procs s \<and>
    (\<exists>x'. pipes s' p = Some x' \<and> length (ring_items x') = PIPESIZE))"
  using assms
proof (induction bs arbitrary: s x)
  case Nil
  then show ?case using pr.bounded [of x] by simp
next
  case (Cons b bs)
  show ?case
  proof (cases "pipe_full x")
    case True
    with Cons.prems pr.full_iff [of x] show ?thesis by (auto simp: vc)
  next
    case False
    with pr.put_ok [OF Cons.prems(2), of b] Cons.prems(1,3-)
      Cons.IH [of "put_pipe p (pipe_put b x) s" "pipe_put b x"]
    show ?thesis by (simp add: vc)
  qed
qed

text \<open>
  The exception is real: a killed writer that fills the ring gives up without a wake-up. A reader
  that was asleep stays asleep although the ring is then full of bytes it could read.
\<close>

theorem killed_writer_strands_reader:
  assumes "pipes s p = Some x" "length (pp_data x) = PIPESIZE" "pp_nread x = pp_nwrite x" "PIPESIZE < length bs"
    "cur s = Some me" "p_killed (procs s ! me)" "L_pp p \<notin> set (held s)" "q \<in> asleep_on (Ch_r p) (procs s)"
  shows "\<exists>left s' x'. pipewrite p bs s = Ok (Ret (-1), left, s') \<and> q \<in> asleep_on (Ch_r p) (procs s') \<and>
    pipes s' p = Some x' \<and> length (ring_items x') = PIPESIZE"
proof -
  have "ring_ok x" "ring_items x = []" using assms(2,3) by (simp_all add: ring_ok_def ring_items_def)
  then have "runs (pipewrite p bs s) (\<lambda>(c, left, s'). c = Ret (-1) \<and> procs s' = procs s \<and>
      (\<exists>x'. pipes s' p = Some x' \<and> length (ring_items x') = PIPESIZE))"
    using assms pipewrite_loop_killed [of "s\<lparr>held := L_pp p # held s, ncli := ncli s + 1\<rparr>" p x bs me "int (length bs)"]
    by (simp add: pipewrite_def vc)
  then show ?thesis using assms(8) by (auto simp: runs_def)
qed

subsection \<open>A concrete pipe\<close>

text \<open>A pipe whose counters are about to wrap; the process in slot 1 waits for bytes.\<close>

lemma muxes_extend [simp]:
  "held (muxes.extend r m) = held r" "ncli (muxes.extend r m) = ncli r" "use_lock (muxes.extend r m) = use_lock r"
  "freelist (muxes.extend r m) = freelist r" "kend (muxes.extend r m) = kend r" "mem (muxes.extend r m) = mem r"
  "procs (muxes.extend r m) = procs r" "cur (muxes.extend r m) = cur r" "nextpid (muxes.extend r m) = nextpid r"
  "initproc (muxes.extend r m) = initproc r" "kpgdir (muxes.extend r m) = kpgdir r" "cr3 (muxes.extend r m) = cr3 r"
  "ts_esp0 (muxes.extend r m) = ts_esp0 r" "queue (muxes.extend r m) = queue r"
  "containers (muxes.extend r m) = containers r" "sleeplocks (muxes.extend r m) = sleeplocks r"
  "mutexes (muxes.extend r m) = mutexes r" "pipes (muxes.extend r (pipetab.fields v0)) = v0"
  by (simp_all add: muxes.defs pipetab.defs)

definition demo_pipe :: pipe where
  "demo_pipe = \<lparr>pp_data = replicate PIPESIZE 0, pp_nread = -1, pp_nwrite = -1, pp_readopen = True, pp_writeopen = True\<rparr>"

definition demo_pipes :: pipetab where
  "demo_pipes = upd_proc 2 (\<lambda>x. x\<lparr>p_killed := True\<rparr>) (upd_proc 1 (\<lambda>x. x\<lparr>p_state := SLEEPING, p_chan := Ch_r 0x80400000\<rparr>)
     (muxes.extend demo_mux (pipetab.fields ((\<lambda>_. None)(0x80400000 := Some demo_pipe)))))"

lemma demo_pipe_simps:
  "length (pp_data demo_pipe) = PIPESIZE" "pp_nread demo_pipe = pp_nwrite demo_pipe" "PIPESIZE = 512"
  by (simp_all add: demo_pipe_def PIPESIZE_def)

lemma demo_pipes_procs:
  "procs demo_pipes = [mkproc 1 SLEEPING 0 None None, (mkproc 2 RUNNABLE 5 (Some 0) (Some 2))\<lparr>p_state := SLEEPING, p_chan := Ch_r 0x80400000\<rparr>,
     (mkproc 3 RUNNABLE 5 (Some 1) None)\<lparr>p_cid := 0, p_path := render [''c1''], p_killed := True\<rparr>]"
  by (simp add: demo_pipes_def upd_proc_def demo_mux_def demo_conts_def demo_pq_def)

lemma demo_pipes_simps [simp]:
  "pipes demo_pipes 0x80400000 = Some demo_pipe" "cur demo_pipes = Some 2" "held demo_pipes = []" "ncli demo_pipes = 0"
  "length (procs demo_pipes) = 3" "p_killed (procs demo_pipes ! 2)"
  by (simp_all add: demo_pipes_def demo_mux_def demo_conts_def demo_pq_def upd_proc_def)

lemma demo_pipes_asleep: "1 \<in> asleep_on (Ch_r 0x80400000) (procs demo_pipes)"
  by (simp add: asleep_on_def demo_pipes_procs mkproc_def)

theorem killed_writer_strands_reader_witness:
  "\<exists>left s' x'. pipewrite 0x80400000 (replicate 600 65) demo_pipes = Ok (Ret (-1), left, s') \<and>
    1 \<in> asleep_on (Ch_r 0x80400000) (procs s') \<and> pipes s' 0x80400000 = Some x' \<and> length (ring_items x') = PIPESIZE"
  using killed_writer_strands_reader [OF demo_pipes_simps(1) demo_pipe_simps(1,2), of "replicate 600 65" 2 1] demo_pipes_asleep
  by (simp add: demo_pipe_simps(3))

text \<open>The running process writes two bytes into it, across the wrap-around of the counters.\<close>

theorem pipe_in_order_witness:
  "\<exists>s' x'. pipe_run 0x80400000 False demo_pipes [65, 66] [] s' \<and> pipes s' 0x80400000 = Some x' \<and> ring_items x' = [65, 66]"
proof -
  have e: "runs (pipewrite 0x80400000 [65, 66] demo_pipes) (\<lambda>(c, left, s'). left = [] \<and> (\<exists>x'. pipes s' 0x80400000 = Some x'))"
    by (simp add: pipewrite_def vc demo_pipe_def pipe_full_def pipe_put_def PIPESIZE_def)
  then obtain c s' x' where s': "pipewrite 0x80400000 [65, 66] demo_pipes = Ok (c, [], s')" "pipes s' 0x80400000 = Some x'"
    by (auto simp: runs_def)
  have run: "pipe_run 0x80400000 False demo_pipes [65, 66] [] s'"
    using pipe_run.wr [OF pipe_run.start _ s'(1), of False] by simp
  with pipe_in_order [OF run _ _ _ s'(2), of demo_pipe] s'(2) show ?thesis by (auto simp: demo_pipe_def)
qed

text \<open>The reader has been woken and the running process, not killed, writes a byte.\<close>

definition demo_awake :: pipetab where
  "demo_awake = upd_proc 2 (\<lambda>x. x\<lparr>p_killed := False\<rparr>) (upd_proc 1 (\<lambda>x. x\<lparr>p_state := RUNNABLE\<rparr>) demo_pipes)"

theorem pipe_no_lost_wakeup_witness:
  "\<exists>s' x. pipe_run 0x80400000 True demo_awake [65] [] s' \<and> pipes s' 0x80400000 = Some x \<and> pp_nread x \<noteq> pp_nwrite x \<and>
     (pp_readopen x \<longrightarrow> asleep_on (Ch_r 0x80400000) (procs s') = {})"
proof -
  have a: "asleep_on (Some c) (procs demo_awake) = {}" for c
    by (rule asleep_none) (simp add: demo_awake_def upd_proc_def demo_pipes_procs mkproc_def)
  have al: "alive demo_awake" by (simp add: alive_def demo_awake_def upd_proc_def demo_pipes_procs)
  have "runs (pipewrite 0x80400000 [65] demo_awake) (\<lambda>(c, left, s'). left = [] \<and> (\<exists>x. pipes s' 0x80400000 = Some x \<and> pp_nread x \<noteq> pp_nwrite x))"
    by (simp add: pipewrite_def vc demo_awake_def demo_pipe_def pipe_full_def pipe_put_def PIPESIZE_def)
  then obtain c s' x where s': "pipewrite 0x80400000 [65] demo_awake = Ok (c, [], s')" "pipes s' 0x80400000 = Some x" "pp_nread x \<noteq> pp_nwrite x"
    by (auto simp: runs_def)
  have run: "pipe_run 0x80400000 True demo_awake [65] [] s'"
    using pipe_run.wr [OF pipe_run.start _ s'(1), of True] al by simp
  with pipe_no_lost_wakeup [OF run a a s'(2)] s' show ?thesis by blast
qed

end
