(* ===== verification/Vm.thy ===== *)
theory Vm
  imports Pipe
begin

text \<open>
  Page tables and user memory (\<^verbatim>\<open>vm.c\<close>) in the byte memory of theory \<open>Bytes\<close>: page directories and page tables are
  pages of 1024 words, kernel addresses are physical ones plus \<open>KERNBASE\<close>, and \<open>walkpgdir\<close> returns the
  address of a table entry, 0 for none. Also the shared memory segments, a global table and one per
  process with the same index.
  \<open>kdata\<close> is the linker symbol \<open>data\<close>. A null or missing entry that the code reads is a fault. A loop over
  addresses whose next address has wrapped around starts again at 0 and never ends: \<open>Diverge\<close>.

  Shown: \<open>mappages\<close> changes the translation of exactly the page it maps, \<open>allocuvm\<close> adds exactly the pages between the sizes, all
  of them fresh and zeroed.
\<close>

definition PTE_P :: u32 where "PTE_P = 1"
definition PTE_W :: u32 where "PTE_W = 2"
definition PTE_U :: u32 where "PTE_U = 4"
definition EXTMEM :: u32 where "EXTMEM = 0x100000"
definition DEVSPACE :: u32 where "DEVSPACE = 0xFE000000"
definition KERNLINK :: u32 where "KERNLINK = KERNBASE + EXTMEM"

definition PDX :: "u32 \<Rightarrow> u32" where
  "PDX va = drop_bit 22 va AND 0x3FF"

definition PTX :: "u32 \<Rightarrow> u32" where
  "PTX va = drop_bit 12 va AND 0x3FF"

definition PGADDR :: "u32 \<Rightarrow> u32 \<Rightarrow> u32 \<Rightarrow> u32" where
  "PGADDR d t off = push_bit 22 d OR push_bit 12 t OR off"

definition PTE_ADDR :: "u32 \<Rightarrow> u32" where
  "PTE_ADDR pte = pte AND NOT 0xFFF"

definition PTE_FLAGS :: "u32 \<Rightarrow> u32" where
  "PTE_FLAGS pte = pte AND 0xFFF"

abbreviation present :: "u32 \<Rightarrow> bool" where
  "present e \<equiv> e AND PTE_P \<noteq> 0"

record shm_info =
  sh_page_addr :: u32
  sh_name :: string
  sh_ref_count :: int

record shmtab = pipetab +
  shm_infos :: "shm_info list"
  kdata :: u32

subsection \<open>Page tables\<close>

definition walkpgdir :: "u32 \<Rightarrow> u32 \<Rightarrow> bool \<Rightarrow> 'a kmem_scheme \<Rightarrow> (u32 \<times> 'a kmem_scheme) res" where
  "walkpgdir pgdir va alloc s =
     (let pde = pgdir + 4 * PDX va; e = ld32 (mem s) pde in
      if present e then Ok (P2V (PTE_ADDR e) + 4 * PTX va, s)
      else if \<not> alloc then Ok (0, s)
      else
        bnd (kalloc s) (\<lambda>(pgtab, s).
        if pgtab = 0 then Ok (0, s)
        else
          let m = memset (mem s) pgtab 0 PGSIZE in
          Ok (pgtab + 4 * PTX va, s\<lparr>mem := st32 m pde (V2P pgtab OR PTE_P OR PTE_W OR PTE_U)\<rparr>)))"

definition map_one :: "u32 \<Rightarrow> u32 \<Rightarrow> u32 \<Rightarrow> u32 \<Rightarrow> 'a kmem_scheme \<Rightarrow> (bool \<times> 'a kmem_scheme) res" where
  "map_one pgdir a pa perm s =
     bnd (walkpgdir pgdir a True s) (\<lambda>(pte, s).
     if pte = 0 then Ok (False, s)
     else if present (ld32 (mem s) pte) then panic ''remap''
     else Ok (True, s\<lparr>mem := st32 (mem s) pte (pa OR perm OR PTE_P)\<rparr>))"

text \<open>
  The loop of \<open>mappages\<close> stops when \<open>a == last\<close>. Both are page aligned, so that is after
  \<open>(last - a) / PGSIZE\<close> further pages, also when the range runs through the top of the address space.
\<close>

primrec mappages_loop :: "u32 \<Rightarrow> u32 \<Rightarrow> u32 \<Rightarrow> u32 \<Rightarrow> nat \<Rightarrow> 'a kmem_scheme \<Rightarrow> (int \<times> 'a kmem_scheme) res" where
  "mappages_loop pgdir a pa perm 0 s =
     bnd (map_one pgdir a pa perm s) (\<lambda>(ok, s). Ok (if ok then 0 else -1, s))"
| "mappages_loop pgdir a pa perm (Suc n) s =
     bnd (map_one pgdir a pa perm s) (\<lambda>(ok, s).
     if ok then mappages_loop pgdir (a + PGSIZE) (pa + PGSIZE) perm n s else Ok (-1, s))"

definition mappages :: "u32 \<Rightarrow> u32 \<Rightarrow> u32 \<Rightarrow> u32 \<Rightarrow> u32 \<Rightarrow> 'a kmem_scheme \<Rightarrow> (int \<times> 'a kmem_scheme) res" where
  "mappages pgdir va sz pa perm s =
     (let a = PGROUNDDOWN va; last = PGROUNDDOWN (va + sz - 1) in
      mappages_loop pgdir a pa perm (unat (last - a) div 4096) s)"

subsection \<open>Releasing user memory\<close>

definition is_shm_page :: "u32 \<Rightarrow> 'a shmtab_scheme \<Rightarrow> bool" where
  "is_shm_page v s \<longleftrightarrow> (\<exists>x \<in> set (shm_infos s). sh_page_addr x = v)"

definition drop_page :: "u32 \<Rightarrow> 'a shmtab_scheme \<Rightarrow> 'a shmtab_scheme res" where
  "drop_page v s = (if is_shm_page v s then Ok s else kfree v s)"

text \<open>One iteration: the address from which the loop goes on, before its increment.\<close>

definition dealloc_one :: "u32 \<Rightarrow> u32 \<Rightarrow> 'a shmtab_scheme \<Rightarrow> (u32 \<times> 'a shmtab_scheme) res" where
  "dealloc_one pgdir a s =
     bnd (walkpgdir pgdir a False s) (\<lambda>(pte, s).
     if pte = 0 then Ok (PGADDR (PDX a + 1) 0 0 - PGSIZE, s)
     else if present (ld32 (mem s) pte) then
       let pa = PTE_ADDR (ld32 (mem s) pte) in
       if pa = 0 then panic ''kfree''
       else bnd (drop_page (P2V pa) s) (\<lambda>s. Ok (a, s\<lparr>mem := st32 (mem s) pte 0\<rparr>))
     else Ok (a, s))"

function dealloc_loop :: "u32 \<Rightarrow> u32 \<Rightarrow> u32 \<Rightarrow> 'a shmtab_scheme \<Rightarrow> 'a shmtab_scheme res" where
  "dealloc_loop pgdir a oldsz s =
     (if a < oldsz then
        bnd (dealloc_one pgdir a s) (\<lambda>(b, s).
        if b + PGSIZE \<le> a then Inl Diverge else dealloc_loop pgdir (b + PGSIZE) oldsz s)
      else Ok s)"
  by pat_completeness auto
termination
  by (relation "measure (\<lambda>(_, a, _). 2 ^ 32 - unat a)")
    (auto simp: word_le_nat_alt not_le intro!: diff_less_mono2 unsigned_less [where ?'a = nat, THEN less_le_trans])

declare dealloc_loop.simps [simp del]

definition deallocuvm :: "u32 \<Rightarrow> u32 \<Rightarrow> u32 \<Rightarrow> 'a shmtab_scheme \<Rightarrow> (u32 \<times> 'a shmtab_scheme) res" where
  "deallocuvm pgdir oldsz newsz s =
     (if oldsz \<le> newsz then Ok (oldsz, s)
      else bnd (dealloc_loop pgdir (PGROUNDUP newsz) oldsz s) (\<lambda>s. Ok (newsz, s)))"

primrec free_tables :: "u32 \<Rightarrow> nat \<Rightarrow> 'a shmtab_scheme \<Rightarrow> 'a shmtab_scheme res" where
  "free_tables pgdir 0 s = Ok s"
| "free_tables pgdir (Suc n) s =
     bnd (free_tables pgdir n s) (\<lambda>s.
     let e = ld32 (mem s) (pgdir + 4 * of_nat n) in
     if present e then drop_page (P2V (PTE_ADDR e)) s else Ok s)"

definition NPDENTRIES :: nat where
  "NPDENTRIES = 1024"

definition freevm :: "u32 \<Rightarrow> 'a shmtab_scheme \<Rightarrow> 'a shmtab_scheme res" where
  "freevm pgdir s =
     (if pgdir = 0 then panic ''freevm: no pgdir''
      else
        bnd (deallocuvm pgdir KERNBASE 0 s) (\<lambda>(_, s).
        bnd (free_tables pgdir NPDENTRIES s) (kfree pgdir)))"

subsection \<open>The kernel part\<close>

record kmap =
  km_virt :: u32
  km_phys_start :: u32
  km_phys_end :: u32
  km_perm :: u32

definition kmaps :: "'a shmtab_scheme \<Rightarrow> kmap list" where
  "kmaps s =
     [\<lparr>km_virt = KERNBASE, km_phys_start = 0, km_phys_end = EXTMEM, km_perm = PTE_W\<rparr>,
      \<lparr>km_virt = KERNLINK, km_phys_start = V2P KERNLINK, km_phys_end = V2P (kdata s), km_perm = 0\<rparr>,
      \<lparr>km_virt = kdata s, km_phys_start = V2P (kdata s), km_phys_end = PHYSTOP, km_perm = PTE_W\<rparr>,
      \<lparr>km_virt = DEVSPACE, km_phys_start = DEVSPACE, km_phys_end = 0, km_perm = PTE_W\<rparr>]"

fun map_kernel :: "u32 \<Rightarrow> kmap list \<Rightarrow> 'a shmtab_scheme \<Rightarrow> (bool \<times> 'a shmtab_scheme) res" where
  "map_kernel pgdir [] s = Ok (True, s)"
| "map_kernel pgdir (k # ks) s =
     bnd (mappages pgdir (km_virt k) (km_phys_end k - km_phys_start k) (km_phys_start k) (km_perm k) s) (\<lambda>(r, s).
     if r < 0 then Ok (False, s) else map_kernel pgdir ks s)"

definition setupkvm :: "'a shmtab_scheme \<Rightarrow> (u32 \<times> 'a shmtab_scheme) res" where
  "setupkvm s =
     bnd (kalloc s) (\<lambda>(pgdir, s).
     if pgdir = 0 then Ok (0, s)
     else
       let s = s\<lparr>mem := memset (mem s) pgdir 0 PGSIZE\<rparr> in
       if DEVSPACE < P2V PHYSTOP then panic ''PHYSTOP too high''
       else
         bnd (map_kernel pgdir (kmaps s) s) (\<lambda>(b, s).
         if b then Ok (pgdir, s) else bnd (freevm pgdir s) (\<lambda>s. Ok (0, s))))"

definition kvmalloc :: "'a shmtab_scheme \<Rightarrow> 'a shmtab_scheme res" where
  "kvmalloc s = bnd (setupkvm s) (\<lambda>(d, s). Ok (switchkvm (s\<lparr>kpgdir := d\<rparr>)))"

subsection \<open>User memory\<close>

definition inituvm :: "u32 \<Rightarrow> u32 \<Rightarrow> u32 \<Rightarrow> 'a shmtab_scheme \<Rightarrow> 'a shmtab_scheme res" where
  "inituvm pgdir init sz s =
     (if PGSIZE \<le> sz then panic ''inituvm: more than a page''
      else
        bnd (kalloc s) (\<lambda>(v, s).
        if v = 0 then fault ''memset''
        else
          bnd (mappages pgdir 0 PGSIZE (V2P v) (PTE_W OR PTE_U) (s\<lparr>mem := memset (mem s) v 0 PGSIZE\<rparr>)) (\<lambda>(_, s).
          Ok (s\<lparr>mem := memmove (mem s) v init sz\<rparr>))))"

function alloc_loop :: "u32 \<Rightarrow> u32 \<Rightarrow> u32 \<Rightarrow> u32 \<Rightarrow> 'a shmtab_scheme \<Rightarrow> (u32 \<times> 'a shmtab_scheme) res" where
  "alloc_loop pgdir a oldsz newsz s =
     (if a < newsz then
        bnd (kalloc s) (\<lambda>(v, s).
        if v = 0 then bnd (deallocuvm pgdir newsz oldsz s) (\<lambda>(_, s). Ok (0, s))
        else
          bnd (mappages pgdir a PGSIZE (V2P v) (PTE_W OR PTE_U) (s\<lparr>mem := memset (mem s) v 0 PGSIZE\<rparr>)) (\<lambda>(r, s).
          if r < 0 then
            bnd (deallocuvm pgdir newsz oldsz s) (\<lambda>(_, s).
            bnd (kfree v s) (\<lambda>s. Ok (0, s)))
          else if a + PGSIZE \<le> a then Inl Diverge
          else alloc_loop pgdir (a + PGSIZE) oldsz newsz s))
      else Ok (newsz, s))"
  by pat_completeness auto
termination
  by (relation "measure (\<lambda>(_, a, _). 2 ^ 32 - unat a)")
    (auto simp: word_le_nat_alt not_le intro!: diff_less_mono2 unsigned_less [where ?'a = nat, THEN less_le_trans])

declare alloc_loop.simps [simp del]

definition allocuvm :: "u32 \<Rightarrow> u32 \<Rightarrow> u32 \<Rightarrow> 'a shmtab_scheme \<Rightarrow> (u32 \<times> 'a shmtab_scheme) res" where
  "allocuvm pgdir oldsz newsz s =
     (if KERNBASE \<le> newsz then Ok (0, s)
      else if newsz < oldsz then Ok (oldsz, s)
      else alloc_loop pgdir (PGROUNDUP oldsz) oldsz newsz s)"

definition clearpteu :: "u32 \<Rightarrow> u32 \<Rightarrow> 'a shmtab_scheme \<Rightarrow> 'a shmtab_scheme res" where
  "clearpteu pgdir uva s =
     bnd (walkpgdir pgdir uva False s) (\<lambda>(pte, s).
     if pte = 0 then panic ''clearpteu''
     else Ok (s\<lparr>mem := st32 (mem s) pte (ld32 (mem s) pte AND NOT PTE_U)\<rparr>))"

definition clone_page :: "u32 \<Rightarrow> u32 \<Rightarrow> u32 \<Rightarrow> shm_proc_info list \<Rightarrow> 'a shmtab_scheme \<Rightarrow> (bool \<times> 'a shmtab_scheme) res" where
  "clone_page pgdir d i shms s =
     bnd (walkpgdir pgdir i False s) (\<lambda>(pte, s).
     if pte = 0 then panic ''copyuvm: pte should exist''
     else
       let e = ld32 (mem s) pte; pa = PTE_ADDR e; flags = PTE_FLAGS e in
       if \<not> present e then panic ''copyuvm: page not present''
       else
         bnd (case last_idx (\<lambda>x. i \<noteq> 0 \<and> shp_addr x = i) shms of
                Some j \<Rightarrow> bnd (aget (shm_infos s) (int j)) (\<lambda>x.
                  if sh_page_addr x = 0 then fault ''memmove'' else Ok (sh_page_addr x, s))
              | None \<Rightarrow> kalloc s) (\<lambda>(v, s).
         if v = 0 then Ok (False, s)
         else
           bnd (mappages d i PGSIZE (V2P v) flags (s\<lparr>mem := memmove (mem s) v (P2V pa) PGSIZE\<rparr>)) (\<lambda>(r, s).
           Ok (0 \<le> r, s))))"

function clone_loop :: "u32 \<Rightarrow> u32 \<Rightarrow> u32 \<Rightarrow> u32 \<Rightarrow> shm_proc_info list \<Rightarrow> 'a shmtab_scheme \<Rightarrow> (bool \<times> 'a shmtab_scheme) res" where
  "clone_loop pgdir d i sz shms s =
     (if i < sz then
        bnd (clone_page pgdir d i shms s) (\<lambda>(ok, s).
        if \<not> ok then Ok (False, s)
        else if i + PGSIZE \<le> i then Inl Diverge
        else clone_loop pgdir d (i + PGSIZE) sz shms s)
      else Ok (True, s))"
  by pat_completeness auto
termination
  by (relation "measure (\<lambda>(_, _, i, _). 2 ^ 32 - unat i)")
    (auto simp: word_le_nat_alt not_le intro!: diff_less_mono2 unsigned_less [where ?'a = nat, THEN less_le_trans])

declare clone_loop.simps [simp del]

definition copyuvm :: "u32 \<Rightarrow> u32 \<Rightarrow> 'a shmtab_scheme \<Rightarrow> (u32 \<times> 'a shmtab_scheme) res" where
  "copyuvm pgdir sz s =
     bnd (myproc s) (\<lambda>p.
     bnd (setupkvm s) (\<lambda>(d, s).
     if d = 0 then Ok (0, s)
     else
       bnd (clone_loop pgdir d 0 sz (p_shms (procs s ! p)) s) (\<lambda>(ok, s).
       if ok then Ok (d, s) else bnd (freevm d s) (\<lambda>s. Ok (0, s)))))"

definition uva2ka :: "u32 \<Rightarrow> u32 \<Rightarrow> 'a shmtab_scheme \<Rightarrow> u32 res" where
  "uva2ka pgdir uva s =
     bnd (walkpgdir pgdir uva False s) (\<lambda>(pte, s).
     if pte = 0 then fault ''uva2ka''
     else
       let e = ld32 (mem s) pte in
       if e AND PTE_P = 0 then Ok 0
       else if e AND PTE_U = 0 then Ok 0
       else Ok (P2V (PTE_ADDR e)))"

lemma copy_step:
  fixes va len :: u32
  assumes "len > 0"
  shows "unat (len - min (PGSIZE - (va - PGROUNDDOWN va)) len) < unat len"
proof -
  have "unat (PGROUNDDOWN va) = unat va - unat va mod 4096" by (rule PGROUNDDOWN_unat)
  moreover have "unat va mod 4096 < 4096" by simp
  ultimately have "unat (va - PGROUNDDOWN va) = unat va mod 4096"
    by (subst unat_diff_mod) (simp add: word_le_nat_alt)
  then have "unat (PGSIZE - (va - PGROUNDDOWN va)) = 4096 - unat va mod 4096"
    by (subst unat_diff_mod) (simp add: word_le_nat_alt PGSIZE_def)
  then have "0 < unat (PGSIZE - (va - PGROUNDDOWN va))" by simp
  then show ?thesis using assms
    by (subst unat_diff_mod) (simp add: word_le_nat_alt word_less_nat_alt min_def)
qed

function copyout :: "u32 \<Rightarrow> u32 \<Rightarrow> u32 \<Rightarrow> u32 \<Rightarrow> 'a shmtab_scheme \<Rightarrow> (int \<times> 'a shmtab_scheme) res" where
  "copyout pgdir va buf len s =
     (if len > 0 then
        let va0 = PGROUNDDOWN va in
        bnd (uva2ka pgdir va0 s) (\<lambda>pa0.
        if pa0 = 0 then Ok (-1, s)
        else
          let n = min (PGSIZE - (va - va0)) len in
          copyout pgdir (va0 + PGSIZE) (buf + n) (len - n) (s\<lparr>mem := memmove (mem s) (pa0 + (va - va0)) buf n\<rparr>))
      else Ok (0, s))"
  by pat_completeness auto
termination
  by (relation "measure (\<lambda>(_, _, _, len, _). unat len)") (auto simp: copy_step)

declare copyout.simps [simp del]

subsection \<open>Words of a page\<close>

definition ent :: "mem \<Rightarrow> u32 \<Rightarrow> u32 \<Rightarrow> u32" where
  "ent m p k = ld32 m (p + 4 * k)"

lemma ent_unat: "k < 1024 \<Longrightarrow> unat (4 * k) = 4 * unat k" for k :: u32
  by (simp add: word_less_nat_alt unat_word_ariths)

lemma ent_byte:
  fixes k :: u32
  assumes "k < 1024" "unat j < 4"
  shows "unat (4 * k + j) = 4 * unat k + unat j" "in_page p (p + 4 * k + j)"
proof -
  have k: "unat k < 1024" using assms(1) by (simp add: word_less_nat_alt)
  then show u: "unat (4 * k + j) = 4 * unat k + unat j"
    using assms by (simp add: unat_word_ariths)
  show "in_page p (p + 4 * k + j)"
    using in_page_off [of "4 * k + j" p] u k assms(2) by (simp add: add.assoc)
qed

lemma ent_in: "k < 1024 \<Longrightarrow> in_page p (p + 4 * k)"
  using ent_byte(2) [of k 0 p] by simp

lemma ent_cong:
  assumes "k < 1024" "\<And>a. in_page p a \<Longrightarrow> m' a = m a"
  shows "ent m' p k = ent m p k"
  unfolding ent_def using assms(2) ent_byte(2) [OF assms(1), of _ p] ent_in [OF assms(1)]
  by (intro ld32_cong) simp_all

lemma ent_frame:
  assumes "k < 1024" "aligned p" "aligned q" "p \<noteq> q" "\<And>a. \<not> in_page p a \<Longrightarrow> m' a = m a"
  shows "ent m' q k = ent m q k"
  using assms(1) by (rule ent_cong) (use assms in_page_unique in blast)

lemma ent_st_frame: "k < 1024 \<Longrightarrow> \<not> in_page p a \<Longrightarrow> st32 m (p + 4 * k) v a = m a"
  using ent_byte(2) [of k _ p] ent_in [of k p] by (intro st32_other) auto

lemma ent_st:
  fixes i j :: u32
  assumes "i < 1024" "j < 1024"
  shows "ent (st32 m (p + 4 * i) v) p j = (if i = j then v else ent m p j)"
proof (cases "i = j")
  case False
  have ne: "p + 4 * j + x \<noteq> p + 4 * i + y" if "unat x < 4" "unat y < 4" for x y
  proof
    assume "p + 4 * j + x = p + 4 * i + y"
    then have "4 * j + x = 4 * i + y" by (simp add: add.assoc)
    then have "4 * unat j + unat x = 4 * unat i + unat y"
      using ent_byte(1) [OF assms(1) that(2)] ent_byte(1) [OF assms(2) that(1)] by simp
    with that have "unat i = unat j" by linarith
    with False show False by (simp add: word_unat_eq_iff)
  qed
  have "st32 m (p + 4 * i) v (p + 4 * j + x) = m (p + 4 * j + x)" if "unat x < 4" for x
    using ne [OF that, of 0] ne [OF that, of 1] ne [OF that, of 2] ne [OF that, of 3] by (intro st32_other) simp_all
  from this [of 0] this [of 1] this [of 2] this [of 3] have "ent (st32 m (p + 4 * i) v) p j = ent m p j"
    unfolding ent_def by (intro ld32_cong) simp_all
  with False show ?thesis by simp
qed (simp add: ent_def)

lemma ent_zero: "k < 1024 \<Longrightarrow> ent (fill m p 0 4096) p k = 0"
  using ent_in [of k p] ent_byte(2) [of k _ p]
  by (simp add: ent_def ld32_def fill_def in_page_def word_less_nat_alt)

subsection \<open>Page tables as functions\<close>

text \<open>
  \<open>tab m d i\<close> is the page table a directory has for index \<open>i\<close>, \<open>pte m d va\<close> the entry that translates an
  address, 0 when there is no table.
\<close>

definition tab :: "mem \<Rightarrow> u32 \<Rightarrow> u32 \<Rightarrow> u32 option" where
  "tab m d i = (let e = ent m d i in if present e then Some (P2V (PTE_ADDR e)) else None)"

definition pte :: "mem \<Rightarrow> u32 \<Rightarrow> u32 \<Rightarrow> u32" where
  "pte m d va = (case tab m d (PDX va) of None \<Rightarrow> 0 | Some p \<Rightarrow> ent m p (PTX va))"

definition tables :: "mem \<Rightarrow> u32 \<Rightarrow> u32 set" where
  "tables m d = {p. \<exists>i < 1024. tab m d i = Some p}"

definition pt_ok :: "u32 \<Rightarrow> 'a kmem_scheme \<Rightarrow> bool" where
  "pt_ok d s \<longleftrightarrow> kmem_ok s \<and> kpage s d \<and> d \<notin> stock s \<and>
     (\<forall>p \<in> tables (mem s) d. kpage s p \<and> p \<notin> stock s \<and> p \<noteq> d) \<and>
     (\<forall>i < 1024. \<forall>j < 1024. \<forall>p. tab (mem s) d i = Some p \<and> tab (mem s) d j = Some p \<longrightarrow> i = j)"

lemma idx_unat: "unat (PDX va) = unat va div 4194304" "unat (PTX va) = unat va div 4096 mod 1024"
proof -
  have m: "unat (drop_bit n va AND 0x3FF) = unat va div 2 ^ n mod 1024" for n
  proof -
    have "drop_bit n va AND 0x3FF = take_bit 10 (drop_bit n va)" by (simp add: take_bit_eq_mask mask_eq_exp_minus_1)
    then show ?thesis
      by (simp only: unsigned_take_bit_eq unsigned_drop_bit_eq)
        (use unsigned_less [of va, where ?'a = nat] in \<open>simp add: take_bit_eq_mod drop_bit_eq_div\<close>)
  qed
  show "unat (PTX va) = unat va div 4096 mod 1024" using m [of 12] by (simp add: PTX_def)
  show "unat (PDX va) = unat va div 4194304"
    using m [of 22] unsigned_less [of va, where ?'a = nat] by (simp add: PDX_def)
qed

lemma idx_bound [simp]: "PDX va < 1024" "PTX va < 1024"
  using unsigned_less [of va, where ?'a = nat] by (simp_all add: word_less_nat_alt idx_unat)

lemma page_number: "PGROUNDDOWN a = PGROUNDDOWN b \<longleftrightarrow> unat a div 4096 = unat b div 4096"
proof -
  have "unat (PGROUNDDOWN x) = 4096 * (unat x div 4096)" for x
    by (simp add: PGROUNDDOWN_unat minus_mod_eq_mult_div)
  then show ?thesis by (simp add: word_unat_eq_iff)
qed

lemma same_page: "PDX a = PDX b \<and> PTX a = PTX b \<longleftrightarrow> PGROUNDDOWN a = PGROUNDDOWN b"
proof -
  have "x div 4096 = 1024 * (x div 4194304) + x div 4096 mod 1024" "x div 4194304 = x div 4096 div 1024" for x :: nat
    using div_mult2_eq [of x 4096 1024] mult_div_mod_eq [of 1024 "x div 4096"] by simp_all
  then have "unat a div 4194304 = unat b div 4194304 \<and> unat a div 4096 mod 1024 = unat b div 4096 mod 1024 \<longleftrightarrow>
    unat a div 4096 = unat b div 4096" by metis
  then show ?thesis unfolding page_number by (simp add: word_unat_eq_iff idx_unat)
qed

lemma PTE_ADDR_flags:
  assumes "aligned p" "f AND NOT 0xFFF = 0"
  shows "PTE_ADDR (p OR f) = p"
proof -
  have "p AND NOT 0xFFF = p"
  proof (rule bit_word_eqI)
    fix n assume "n < LENGTH(32)"
    moreover have "\<not> bit p n" if "bit (0xFFF :: u32) n"
      using assms(1) that unfolding aligned_def by (metis bit_0_eq bit_and_iff bot_apply bot_bool_def)
    ultimately show "bit (p AND NOT 0xFFF) n = bit p n" by (auto simp: bit_simps)
  qed
  with assms(2) show ?thesis by (simp add: PTE_ADDR_def bit.conj_disj_distrib2)
qed

lemma V2P_aligned: "kpage s p \<Longrightarrow> aligned (V2P p)"
proof -
  assume p: "kpage s p"
  then obtain k where k: "unat p = 4096 * k" by (auto simp: kpage_def aligned_mod)
  have "0x80000000 \<le> unat p" using V2P_range [of p] p by (simp add: kpage_def)
  then have "unat (V2P p) = 4096 * (k - 0x80000)"
    using k by (simp add: V2P_def KERNBASE_def unat_diff_mod word_le_nat_alt diff_mult_distrib2)
  then show ?thesis by (simp add: aligned_mod)
qed

lemma PTE_ADDR_page:
  assumes "kpage s p"
  shows "P2V (PTE_ADDR (V2P p OR PTE_P OR PTE_W OR PTE_U)) = p" "present (V2P p OR PTE_P OR PTE_W OR PTE_U)"
proof -
  have "PTE_ADDR (V2P p OR 7) = V2P p" using V2P_aligned [OF assms] by (rule PTE_ADDR_flags) simp
  moreover have "V2P p OR PTE_P OR PTE_W OR PTE_U = V2P p OR 7"
    by (simp add: PTE_P_def PTE_W_def PTE_U_def or.assoc)
  ultimately show "P2V (PTE_ADDR (V2P p OR PTE_P OR PTE_W OR PTE_U)) = p"
    by (simp add: P2V_def V2P_def)
  show "present (V2P p OR PTE_P OR PTE_W OR PTE_U)"
    by (simp add: PTE_P_def bit.conj_disj_distrib2)
qed

lemma entry_nonnull: "kpage s p \<Longrightarrow> k < 1024 \<Longrightarrow> p + 4 * k \<noteq> 0"
proof
  assume "kpage s p" "k < 1024" "p + 4 * k = 0"
  moreover from this have "0x80000000 \<le> unat p" "unat p < 0x8E000000" using V2P_range [of p] by (auto simp: kpage_def)
  ultimately show False
    using ent_unat [of k] by (simp add: word_less_nat_alt unat_word_ariths flip: word_unat_eq_iff) (simp add: word_unat_eq_iff unat_word_ariths)
qed

lemma pt_okD:
  assumes "pt_ok d s"
  shows "kmem_ok s" "kpage s d" "d \<notin> stock s" "aligned d"
    "i < 1024 \<Longrightarrow> tab (mem s) d i = Some p \<Longrightarrow> kpage s p \<and> aligned p \<and> p \<notin> stock s \<and> p \<noteq> d"
    "i < 1024 \<Longrightarrow> j < 1024 \<Longrightarrow> tab (mem s) d i = Some p \<Longrightarrow> tab (mem s) d j = Some p \<Longrightarrow> i = j"
  using assms by (auto simp: pt_ok_def tables_def kpage_def)

lemma pt_okI:
  assumes "kmem_ok s" "kpage s d" "d \<notin> stock s"
    and "\<And>i p. i < 1024 \<Longrightarrow> tab (mem s) d i = Some p \<Longrightarrow> kpage s p \<and> p \<notin> stock s \<and> p \<noteq> d"
    and "\<And>i j p. i < 1024 \<Longrightarrow> j < 1024 \<Longrightarrow> tab (mem s) d i = Some p \<Longrightarrow> tab (mem s) d j = Some p \<Longrightarrow> i = j"
  shows "pt_ok d s"
  using assms unfolding pt_ok_def tables_def by blast

text \<open>A page table taken from the stock and hooked into an empty slot of the directory.\<close>

definition hook :: "mem \<Rightarrow> u32 \<Rightarrow> u32 \<Rightarrow> u32 \<Rightarrow> mem" where
  "hook m d i p = st32 (fill m p 0 4096) (d + 4 * i) (V2P p OR PTE_P OR PTE_W OR PTE_U)"

lemma hook_frame: "i < 1024 \<Longrightarrow> \<not> in_page p a \<Longrightarrow> \<not> in_page d a \<Longrightarrow> hook m d i p a = m a"
  by (simp add: hook_def ent_st_frame fill_page)

lemma hook_tab:
  assumes "pt_ok d s" "p \<in> stock s" "i < 1024" "j < 1024"
  shows "tab (hook (mem s) d i p) d j = (if j = i then Some p else tab (mem s) d j)"
proof -
  note ok = pt_okD [OF assms(1)]
  have p: "kpage s p" "p \<noteq> d" using assms(2) ok ka.avail_page by auto
  have "ent (fill (mem s) p 0 4096) d j = ent (mem s) d j"
    using assms(4) p ok(4) by (intro ent_frame [of _ p]) (auto simp: fill_page kpage_def)
  then show ?thesis
    using assms(3,4) PTE_ADDR_page [OF p(1)] by (simp add: tab_def hook_def ent_st)
qed

lemma hook_pte:
  assumes "pt_ok d s" "p \<in> stock s" "i < 1024" "tab (mem s) d i = None"
  shows "pte (hook (mem s) d i p) d b = pte (mem s) d b"
proof (cases "PDX b = i")
  case True
  note ok = pt_okD [OF assms(1)]
  have p: "kpage s p" "p \<noteq> d" using assms(2) ok ka.avail_page by auto
  have "ent (hook (mem s) d i p) p (PTX b) = ent (fill (mem s) p 0 4096) p (PTX b)"
    using p ok(4) assms(3) by (intro ent_frame [of _ d]) (auto simp: hook_def ent_st_frame kpage_def)
  then show ?thesis
    using True assms by (simp add: pte_def hook_tab ent_zero)
next
  case False
  note ok = pt_okD [OF assms(1)]
  have p: "kpage s p" using assms(2) ok(1) by (rule ka.avail_page [rotated])
  have "ent (hook (mem s) d i p) q (PTX b) = ent (mem s) q (PTX b)" if "tab (mem s) d (PDX b) = Some q" for q
  proof (rule ent_cong)
    fix a assume "in_page q a"
    moreover have "aligned p" "aligned q" "q \<noteq> p" "q \<noteq> d"
      using p ok(5) [OF _ that] assms(2) by (auto simp: kpage_def)
    ultimately show "hook (mem s) d i p a = mem s a"
      using ok(4) in_page_unique assms(3) by (intro hook_frame) blast+
  qed simp
  then show ?thesis
    using False assms by (simp add: pte_def hook_tab split: option.split)
qed

text \<open>
  What an operation on the page table of \<open>d\<close> leaves alone: all state but the memory and the free
  list, and all bytes outside the directory, its tables and the stock.
\<close>

definition pt_keep :: "u32 \<Rightarrow> 'a kmem_scheme \<Rightarrow> 'a kmem_scheme \<Rightarrow> bool" where
  "pt_keep d s s' \<longleftrightarrow> (\<exists>m f. s' = s\<lparr>mem := m, freelist := f\<rparr>) \<and> stock s' \<subseteq> stock s \<and>
     tables (mem s') d \<subseteq> tables (mem s) d \<union> stock s \<and>
     (\<forall>a. (\<forall>p \<in> insert d (tables (mem s) d \<union> stock s). \<not> in_page p a) \<longrightarrow> mem s' a = mem s a)"

lemma pt_keep_refl [simp]: "pt_keep d s s"
proof -
  have "s = s\<lparr>mem := mem s, freelist := freelist s\<rparr>" by simp
  then show ?thesis unfolding pt_keep_def by blast
qed

lemma pt_keep_trans: "pt_keep d s s1 \<Longrightarrow> pt_keep d s1 s2 \<Longrightarrow> pt_keep d s s2"
proof -
  assume 1: "pt_keep d s s1" and 2: "pt_keep d s1 s2"
  from 1 obtain m f where s1: "s1 = s\<lparr>mem := m, freelist := f\<rparr>" by (auto simp: pt_keep_def)
  from 2 obtain m' f' where s2: "s2 = s1\<lparr>mem := m', freelist := f'\<rparr>" by (auto simp: pt_keep_def)
  have "s2 = s\<lparr>mem := m', freelist := f'\<rparr>" by (simp add: s1 s2)
  moreover have "stock s2 \<subseteq> stock s" "tables (mem s2) d \<subseteq> tables (mem s) d \<union> stock s"
    using 1 2 unfolding pt_keep_def by blast+
  moreover have "mem s2 a = mem s a" if "\<forall>p \<in> insert d (tables (mem s) d \<union> stock s). \<not> in_page p a" for a
  proof -
    have "\<forall>p \<in> insert d (tables (mem s1) d \<union> stock s1). \<not> in_page p a"
      using 1 that unfolding pt_keep_def by blast
    with 1 2 that show ?thesis unfolding pt_keep_def by metis
  qed
  ultimately show ?thesis unfolding pt_keep_def by blast
qed

lemma hook_ok:
  assumes "pt_ok d s" "p \<in> stock s" "i < 1024" "tab (mem s) d i = None"
    and "kmem_ok s1" "stock s1 = stock s - {p}" "mem s1 = mem s" "kpage s1 = kpage s"
  shows "pt_ok d (s1\<lparr>mem := hook (mem s) d i p\<rparr>)" "stock (s1\<lparr>mem := hook (mem s) d i p\<rparr>) = stock s - {p}"
proof -
  note ok = pt_okD [OF assms(1)]
  have p: "kpage s p" "p \<noteq> d" using assms(2) ok ka.avail_page by auto
  have fr: "hook (mem s) d i p a = mem s1 a" if "q \<in> stock s1" "in_page q a" for q a
  proof -
    have "aligned q" "q \<noteq> p" "q \<noteq> d" using that assms ok ka.avail_page [of s q] by (auto simp: kpage_def)
    then show ?thesis
      using p ok(4) in_page_unique that assms(3,7) by (auto simp: kpage_def intro!: hook_frame)
  qed
  from ka.write_ok [OF assms(5), of "hook (mem s) d i p"] fr
  have w: "kmem_ok (s1\<lparr>mem := hook (mem s) d i p\<rparr>)" "stock (s1\<lparr>mem := hook (mem s) d i p\<rparr>) = stock s - {p}"
    using assms(6) by auto
  show "stock (s1\<lparr>mem := hook (mem s) d i p\<rparr>) = stock s - {p}" by (rule w)
  have t: "j = i \<and> q = p \<or> j \<noteq> i \<and> tab (mem s) d j = Some q \<and> q \<noteq> p"
    if "j < 1024" "tab (hook (mem s) d i p) d j = Some q" for j q
    using hook_tab [OF assms(1-3) that(1)] that ok(5) [OF that(1)] assms(2) by (auto split: if_splits)
  show "pt_ok d (s1\<lparr>mem := hook (mem s) d i p\<rparr>)"
  proof (rule pt_okI)
    fix j q assume "j < 1024" "tab (mem (s1\<lparr>mem := hook (mem s) d i p\<rparr>)) d j = Some q"
    then show "kpage (s1\<lparr>mem := hook (mem s) d i p\<rparr>) q \<and> q \<notin> stock (s1\<lparr>mem := hook (mem s) d i p\<rparr>) \<and> q \<noteq> d"
      using t [of j q] ok(5) [of j q] w p assms(8) by auto
  next
    fix j k q assume "j < 1024" "k < 1024" "tab (mem (s1\<lparr>mem := hook (mem s) d i p\<rparr>)) d j = Some q"
      "tab (mem (s1\<lparr>mem := hook (mem s) d i p\<rparr>)) d k = Some q"
    then show "j = k" using t [of j q] t [of k q] ok(6) [of j k q] by auto
  qed (use w ok(2,3) assms(8) in simp_all)
qed

lemma tab_walk: "walkpgdir d va al s =
    (case tab (mem s) d (PDX va) of
       Some p \<Rightarrow> Ok (p + 4 * PTX va, s)
     | None \<Rightarrow> if \<not> al then Ok (0, s)
         else bnd (kalloc s) (\<lambda>(p, s). if p = 0 then Ok (0, s) else
           Ok (p + 4 * PTX va, s\<lparr>mem := st32 (memset (mem s) p 0 PGSIZE) (d + 4 * PDX va) (V2P p OR PTE_P OR PTE_W OR PTE_U)\<rparr>)))"
  unfolding walkpgdir_def tab_def ent_def Let_def by simp

lemma hook_memset:
  "kpage s p \<Longrightarrow> st32 (memset m p 0 PGSIZE) (d + 4 * i) (V2P p OR PTE_P OR PTE_W OR PTE_U) = hook m d i p"
  using V2P_range [of p] by (simp add: hook_def memset_fill PGSIZE_def kpage_def)

lemma walk_alloc:
  assumes "pt_ok d s"
  shows "\<exists>q s'. walkpgdir d va True s = Ok (q, s') \<and>
    (q = 0 \<and> s' = s \<and> stock s = {} \<or>
     (\<exists>p. tab (mem s') d (PDX va) = Some p \<and> q = p + 4 * PTX va \<and> q \<noteq> 0 \<and> pt_ok d s' \<and> pt_keep d s s' \<and>
        card (stock s) \<le> Suc (card (stock s')) \<and> (\<forall>b. pte (mem s') d b = pte (mem s) d b)))"
proof (cases "tab (mem s) d (PDX va)")
  case (Some p)
  then have "kpage s p" using pt_okD(5) [OF assms, of "PDX va" p] by simp
  with Some assms show ?thesis by (simp add: tab_walk entry_nonnull)
next
  case None
  note ok = pt_okD [OF assms]
  from ka.alloc_total [OF ok(1)] obtain p s1 where p: "kalloc s = Inr (p, s1)" "kmem_ok s1" "mem s1 = mem s"
      "kpage s1 = kpage s" "p = 0 \<and> stock s = {} \<and> s1 = s \<or> p \<noteq> 0 \<and> p \<in> stock s \<and> kpage s p \<and> stock s1 = stock s - {p}"
    by blast
  show ?thesis
  proof (cases "p = 0")
    case True
    with p None show ?thesis by (simp add: tab_walk)
  next
    case False
    let ?m = "hook (mem s) d (PDX va) p"
    have p': "p \<in> stock s" "kpage s p" "stock s1 = stock s - {p}" using p(5) False by auto
    obtain f where f: "s1 = s\<lparr>freelist := f\<rparr>"
      using p(1) kalloc_eval [of s] ok(1) False by (auto simp: kmem_ok_def split: if_splits intro: that)
    have w: "walkpgdir d va True s = Ok (p + 4 * PTX va, s1\<lparr>mem := ?m\<rparr>)"
      using None p(1,3) False hook_memset [OF p'(2)] by (simp add: tab_walk)
    note h = hook_ok [OF assms p'(1) idx_bound(1) None p(2) p'(3) p(3,4)]
    have "s1\<lparr>mem := ?m\<rparr> = s\<lparr>mem := ?m, freelist := f\<rparr>" by (simp add: f)
    moreover have "tables ?m d \<subseteq> tables (mem s) d \<union> stock s"
      using hook_tab [OF assms p'(1) idx_bound(1)] p'(1) by (auto simp: tables_def split: if_splits)
    moreover have "?m a = mem s a" if "\<forall>q \<in> insert d (tables (mem s) d \<union> stock s). \<not> in_page q a" for a
      using that p'(1) by (intro hook_frame) auto
    ultimately have "pt_keep d s (s1\<lparr>mem := ?m\<rparr>)"
      using h(2) unfolding pt_keep_def by auto
    moreover have "card (stock s) \<le> Suc (card (stock (s1\<lparr>mem := ?m\<rparr>)))"
      using h(2) p'(1) ka.avail_finite [OF ok(1)] by (simp add: card_Diff_singleton)
    ultimately show ?thesis
      using w h(1) hook_tab [OF assms p'(1) idx_bound(1) idx_bound(1), of va va] hook_pte [OF assms p'(1) idx_bound(1) None]
      entry_nonnull [OF p'(2)] by auto
  qed
qed

text \<open>Writing an entry of a table that is there.\<close>

lemma set_entry:
  assumes "pt_ok d s" "tab (mem s) d (PDX va) = Some p"
  shows "pt_ok d (s\<lparr>mem := st32 (mem s) (p + 4 * PTX va) v\<rparr>)"
    "pt_keep d s (s\<lparr>mem := st32 (mem s) (p + 4 * PTX va) v\<rparr>)"
    "pte (st32 (mem s) (p + 4 * PTX va) v) d b = (if PGROUNDDOWN b = PGROUNDDOWN va then v else pte (mem s) d b)"
    "stock (s\<lparr>mem := st32 (mem s) (p + 4 * PTX va) v\<rparr>) = stock s"
proof -
  let ?m = "st32 (mem s) (p + 4 * PTX va) v"
  note ok = pt_okD [OF assms(1)]
  have p: "kpage s p" "aligned p" "p \<notin> stock s" "p \<noteq> d" using ok(5) [OF idx_bound(1) assms(2)] by auto
  have fr: "?m a = mem s a" if "\<not> in_page p a" for a using that by (simp add: ent_st_frame)
  have t: "tab ?m d i = tab (mem s) d i" if "i < 1024" for i
    using that p ok(4) fr ent_frame [of i p d ?m "mem s"] by (simp add: tab_def)
  have "\<forall>q \<in> stock s. \<forall>a. in_page q a \<longrightarrow> ?m a = mem s a"
    using p ok(1) in_page_unique ka.avail_page [of s] fr by (metis kpage_def)
  note w = ka.write_ok [OF ok(1) this]
  show "stock (s\<lparr>mem := ?m\<rparr>) = stock s" using w by simp
  have tb: "tables ?m d = tables (mem s) d" using t by (auto simp: tables_def)
  show "pt_ok d (s\<lparr>mem := ?m\<rparr>)"
    using assms(1) w t tb by (simp add: pt_ok_def)
  have "s\<lparr>mem := ?m\<rparr> = s\<lparr>mem := ?m, freelist := freelist s\<rparr>" by simp
  moreover have "p \<in> tables (mem s) d" using assms(2) idx_bound(1) by (auto simp: tables_def simp del: idx_bound)
  ultimately show "pt_keep d s (s\<lparr>mem := ?m\<rparr>)"
    unfolding pt_keep_def using w tb fr by (intro conjI exI [of _ ?m] exI [of _ "freelist s"]) auto
  show "pte ?m d b = (if PGROUNDDOWN b = PGROUNDDOWN va then v else pte (mem s) d b)"
  proof (cases "PDX b = PDX va")
    case True
    then show ?thesis using assms(2) t by (auto simp: pte_def ent_st simp flip: same_page)
  next
    case False
    have "ent ?m q (PTX b) = ent (mem s) q (PTX b)" if q: "tab (mem s) d (PDX b) = Some q" for q
      using p ok(5) [OF _ q] ok(6) [OF _ _ q] assms(2) False fr by (intro ent_frame [of _ p]) auto
    with False t show ?thesis by (auto simp: pte_def simp flip: same_page split: option.split)
  qed
qed

subsection \<open>Mapping pages\<close>

lemma walk_pte:
  "tab (mem s) d (PDX va) = Some p \<Longrightarrow> ld32 (mem s) (p + 4 * PTX va) = pte (mem s) d va"
  by (simp add: pte_def ent_def)

lemma map_one_remap: "pt_ok d s \<Longrightarrow> present (pte (mem s) d a) \<Longrightarrow> map_one d a pa perm s = panic ''remap''"
proof -
  assume ok: "pt_ok d s" and pr: "present (pte (mem s) d a)"
  then obtain p where p: "tab (mem s) d (PDX a) = Some p" by (auto simp: pte_def split: option.splits)
  then have "kpage s p" using pt_okD(5) [OF ok] idx_bound(1) by blast
  with p pr show ?thesis by (simp add: map_one_def tab_walk entry_nonnull walk_pte)
qed

lemma map_one_ok:
  assumes "pt_ok d s" "\<not> present (pte (mem s) d a)"
  shows "\<exists>ok s'. map_one d a pa perm s = Ok (ok, s') \<and> pt_ok d s' \<and> pt_keep d s s' \<and> (\<not> ok \<longrightarrow> stock s = {} \<and> stock s' = {}) \<and>
    card (stock s) \<le> Suc (card (stock s')) \<and>
    (\<forall>b. pte (mem s') d b = (if ok \<and> PGROUNDDOWN b = PGROUNDDOWN a then pa OR perm OR PTE_P else pte (mem s) d b))"
proof -
  from walk_alloc [OF assms(1), of a] obtain q s1 where q: "walkpgdir d a True s = Ok (q, s1)"
    "q = 0 \<and> s1 = s \<and> stock s = {} \<or> (\<exists>p. tab (mem s1) d (PDX a) = Some p \<and> q = p + 4 * PTX a \<and> q \<noteq> 0 \<and>
       pt_ok d s1 \<and> pt_keep d s s1 \<and> card (stock s) \<le> Suc (card (stock s1)) \<and> (\<forall>b. pte (mem s1) d b = pte (mem s) d b))" by blast
  show ?thesis
  proof (cases "q = 0")
    case True
    with q assms(1) show ?thesis by (auto simp: map_one_def)
  next
    case False
    with q(2) obtain p where p: "tab (mem s1) d (PDX a) = Some p" "q = p + 4 * PTX a" "pt_ok d s1" "pt_keep d s s1" "card (stock s) \<le> Suc (card (stock s1))"
      "\<forall>b. pte (mem s1) d b = pte (mem s) d b" by blast
    note e = set_entry [OF p(3,1), of "pa OR perm OR PTE_P"]
    have "map_one d a pa perm s = Ok (True, s1\<lparr>mem := st32 (mem s1) (p + 4 * PTX a) (pa OR perm OR PTE_P)\<rparr>)"
      using q(1) False p(2,6) assms(2) walk_pte [OF p(1)] by (simp add: map_one_def)
    with e(1,3,4) pt_keep_trans [OF p(4) e(2)] p(5,6) show ?thesis by auto
  qed
qed

lemma page_shift:
  fixes y :: u32
  assumes "unat y mod 4096 = 0" "j < 2 ^ 20"
  shows "unat y < 4096 * Suc j \<longleftrightarrow> y = 0 \<or> unat (y - 4096) < 4096 * j" "y = 0 \<Longrightarrow> \<not> unat (y - 4096) < 4096 * j"
proof -
  obtain q where q: "unat y = 4096 * q" using assms(1) by auto
  have d: "unat (y - 4096) = (if q = 0 then 2 ^ 32 - 4096 else 4096 * q - 4096)"
    using q by (auto simp: unat_diff_mod word_le_nat_alt)
  have z: "y = 0 \<longleftrightarrow> q = 0" using q by (simp add: word_unat_eq_iff)
  show "unat y < 4096 * Suc j \<longleftrightarrow> y = 0 \<or> unat (y - 4096) < 4096 * j" using q d z assms(2) by auto
  show "y = 0 \<Longrightarrow> \<not> unat (y - 4096) < 4096 * j" using d z assms(2) by auto
qed

lemma page_dist: "aligned a \<Longrightarrow> unat (PGROUNDDOWN b - a) mod 4096 = 0"
proof -
  assume "aligned a"
  then obtain k where k: "unat a = 4096 * k" by (auto simp: aligned_mod)
  have r: "unat (PGROUNDDOWN b) = 4096 * (unat b div 4096)" by (simp add: PGROUNDDOWN_unat minus_mod_eq_mult_div)
  show ?thesis
  proof (cases "a \<le> PGROUNDDOWN b")
    case True
    then have "unat (PGROUNDDOWN b - a) = 4096 * (unat b div 4096 - k)"
      using r k by (simp add: unat_diff_mod diff_mult_distrib2)
    then show ?thesis by simp
  next
    case False
    then have "unat (PGROUNDDOWN b - a) = 4096 * (0x100000 + unat b div 4096 - k)"
      using r k by (simp add: unat_diff_mod diff_mult_distrib2)
    then show ?thesis by simp
  qed
qed

lemma mappages_loop_ok:
  assumes "pt_ok d s" "aligned a" "n < 2 ^ 20"
    and "\<And>b. unat (PGROUNDDOWN b - a) < 4096 * Suc n \<Longrightarrow> \<not> present (pte (mem s) d b)"
  shows "\<exists>j s'. mappages_loop d a pa perm n s = Ok (if j = Suc n then 0 else -1, s') \<and> j \<le> Suc n \<and> pt_ok d s' \<and>
    pt_keep d s s' \<and> (j \<le> n \<longrightarrow> stock s' = {}) \<and>
    (\<forall>b. pte (mem s') d b = (if unat (PGROUNDDOWN b - a) < 4096 * j then (pa + (PGROUNDDOWN b - a)) OR perm OR PTE_P
       else pte (mem s) d b))"
  using assms
proof (induction n arbitrary: a pa s)
  case 0
  have al: "PGROUNDDOWN a = a" using 0(2) by (simp add: word_unat_eq_iff PGROUNDDOWN_unat aligned_mod)
  have "\<not> present (pte (mem s) d a)" using 0(4) [of a] al by simp
  from map_one_ok [OF 0(1) this] obtain ok s1 where s1: "map_one d a pa perm s = Ok (ok, s1)" "pt_ok d s1" "pt_keep d s s1"
      "\<not> ok \<longrightarrow> stock s1 = {}"
      "\<forall>b. pte (mem s1) d b = (if ok \<and> PGROUNDDOWN b = PGROUNDDOWN a then pa OR perm OR PTE_P else pte (mem s) d b)" by blast
  have "unat (PGROUNDDOWN b - a) < 4096 \<longleftrightarrow> PGROUNDDOWN b = a" for b
    using page_shift(1) [OF page_dist [OF 0(2)], of 0 b] by simp
  with s1 al show ?case by (intro exI [of _ "if ok then 1 else 0"] exI [of _ s1]) auto
next
  case (Suc n)
  have al: "PGROUNDDOWN a = a" using Suc(3) by (simp add: word_unat_eq_iff PGROUNDDOWN_unat aligned_mod)
  have sh: "unat (PGROUNDDOWN b - a) < 4096 * Suc j \<longleftrightarrow> PGROUNDDOWN b = a \<or> unat (PGROUNDDOWN b - (a + 4096)) < 4096 * j"
    "PGROUNDDOWN b = a \<Longrightarrow> \<not> unat (PGROUNDDOWN b - (a + 4096)) < 4096 * j" if "j \<le> Suc n" for b j
    using page_shift [OF page_dist [OF Suc(3)], of j b] that Suc(4) by (simp_all add: diff_diff_eq)
  have "\<not> present (pte (mem s) d a)" using Suc(5) [of a] al by simp
  from map_one_ok [OF Suc(2) this, of pa perm] obtain ok s1 where s1: "map_one d a pa perm s = Ok (ok, s1)" "pt_ok d s1" "pt_keep d s s1"
      "\<not> ok \<longrightarrow> stock s1 = {}"
      "\<And>b. pte (mem s1) d b = (if ok \<and> PGROUNDDOWN b = a then pa OR perm OR PTE_P else pte (mem s) d b)" unfolding al by blast
  show ?case
  proof (cases ok)
    case False
    with s1 show ?thesis by (intro exI [of _ 0] exI [of _ s1]) auto
  next
    case True
    have "aligned (a + 4096)"
      using Suc(3) unfolding aligned_mod by (simp add: unat_word_ariths mod_mod_cancel)
    moreover have "\<not> present (pte (mem s1) d b)" if "unat (PGROUNDDOWN b - (a + 4096)) < 4096 * Suc n" for b
      using that sh [of "Suc n" b] Suc(5) [of b] s1(5) [of b] by auto
    ultimately obtain j s2 where j: "mappages_loop d (a + 4096) (pa + 4096) perm n s1 = Ok (if j = Suc n then 0 else -1, s2)"
        "j \<le> Suc n" "pt_ok d s2" "pt_keep d s1 s2" "j \<le> n \<longrightarrow> stock s2 = {}"
        "\<And>b. pte (mem s2) d b = (if unat (PGROUNDDOWN b - (a + 4096)) < 4096 * j
           then (pa + 4096 + (PGROUNDDOWN b - (a + 4096))) OR perm OR PTE_P else pte (mem s1) d b)"
      using Suc.IH [OF s1(2), of "a + 4096" "pa + 4096"] Suc(4) by auto
    have "pte (mem s2) d b = (if unat (PGROUNDDOWN b - a) < 4096 * Suc j then (pa + (PGROUNDDOWN b - a)) OR perm OR PTE_P
       else pte (mem s) d b)" for b
      using j(6) [of b] s1(5) [of b] sh [OF j(2), of b] True by auto
    with j s1(1) True pt_keep_trans [OF s1(3) j(4)] show ?thesis
      by (intro exI [of _ "Suc j"] exI [of _ s2]) (auto simp: PGSIZE_def)
  qed
qed

subsection \<open>Growing a process\<close>

text \<open>Writing to a page that is neither free nor part of the page table.\<close>

lemma data_write:
  assumes "pt_ok d s" "aligned v" "v \<noteq> d" "v \<notin> tables (mem s) d" "v \<notin> stock s" "\<And>a. \<not> in_page v a \<Longrightarrow> m a = mem s a"
  shows "pt_ok d (s\<lparr>mem := m\<rparr>)" "stock (s\<lparr>mem := m\<rparr>) = stock s" "tables m d = tables (mem s) d" "pte m d b = pte (mem s) d b"
proof -
  note ok = pt_okD [OF assms(1)]
  have "ent m d i = ent (mem s) d i" if "i < 1024" for i
    using that assms ok(4) by (intro ent_frame [of _ v]) auto
  then have t: "tab m d i = tab (mem s) d i" if "i < 1024" for i using that by (simp add: tab_def)
  have "\<forall>q \<in> stock s. \<forall>a. in_page q a \<longrightarrow> m a = mem s a"
    using assms(2,5,6) ok(1) in_page_unique ka.avail_page [of s] by (metis kpage_def)
  note w = ka.write_ok [OF ok(1) this]
  show st: "stock (s\<lparr>mem := m\<rparr>) = stock s" using w by simp
  show tb: "tables m d = tables (mem s) d" using t by (auto simp: tables_def)
  show "pt_ok d (s\<lparr>mem := m\<rparr>)" using assms(1) w t tb by (simp add: pt_ok_def)
  have "ent m q (PTX b) = ent (mem s) q (PTX b)" if q: "tab (mem s) d (PDX b) = Some q" for q
  proof (rule ent_frame [of _ v])
    show "aligned q" using ok(5) [OF _ q] by simp
    have "q \<in> tables (mem s) d" using q idx_bound(1) unfolding tables_def by blast
    then show "v \<noteq> q" using assms(4) by blast
  qed (use assms in simp_all)
  then show "pte m d b = pte (mem s) d b" using t by (simp add: pte_def split: option.split)
qed

text \<open>Taking a page from the stock and clearing it, as the loop of \<open>allocuvm\<close> does.\<close>

lemma take_page:
  assumes "pt_ok d s" "stock s \<noteq> {}"
  shows "\<exists>v s1. kalloc s = Ok (v, s1) \<and> v \<noteq> 0 \<and> kpage s v \<and> v \<in> stock s \<and> v \<noteq> d \<and> v \<notin> tables (mem s) d \<and>
    mem s1 = mem s \<and> (\<exists>f. s1 = s\<lparr>freelist := f\<rparr>) \<and>
    (let s2 = s1\<lparr>mem := memset (mem s1) v 0 PGSIZE\<rparr> in
      pt_ok d s2 \<and> pt_keep d s s2 \<and> stock s2 = stock s - {v} \<and> tables (mem s2) d = tables (mem s) d \<and>
      mem s2 = fill (mem s) v 0 4096 \<and> (\<forall>b. pte (mem s2) d b = pte (mem s) d b))"
proof -
  note ok = pt_okD [OF assms(1)]
  from ka.alloc_some [OF ok(1) assms(2)] obtain v s1 where v: "kalloc s = Inr (v, s1)" "v \<in> stock s" "stock s1 = stock s - {v}"
      "kmem_ok s1" "mem s1 = mem s" "kpage s1 = kpage s" by blast
  have kp: "kpage s v" "v \<noteq> 0" using ka.avail_page [OF ok(1) v(2)] kpage_nonnull by blast+
  have nt: "v \<noteq> d" "v \<notin> tables (mem s) d" using v(2) ok(3) assms(1) by (auto simp: pt_ok_def)
  obtain f where f: "s1 = s\<lparr>freelist := f\<rparr>"
    using v(1) kalloc_eval [of s] ok(1) kp(2) by (auto simp: kmem_ok_def split: if_splits intro: that)
  have ok1: "pt_ok d s1" using assms(1) v unfolding pt_ok_def by auto
  have ms: "memset (mem s1) v 0 PGSIZE = fill (mem s) v 0 4096"
    using kp(1) V2P_range [of v] v(5) by (simp add: memset_fill PGSIZE_def kpage_def)
  have "aligned v" "v \<notin> stock s1" "v \<notin> tables (mem s1) d" using kp(1) v nt by (simp_all add: kpage_def)
  note w = data_write [OF ok1 this(1) nt(1) this(3,2), of "fill (mem s) v 0 4096"]
  have "pt_keep d s (s1\<lparr>mem := fill (mem s) v 0 4096\<rparr>)"
    unfolding pt_keep_def using w v f
    by (intro conjI exI [of _ "fill (mem s) v 0 4096"] exI [of _ f]) (auto simp: fill_page)
  with w kp nt v f ms show ?thesis by (auto simp: fill_page Let_def)
qed

lemma keep_page:
  assumes "pt_keep d s s'" "pt_ok d s" "aligned v" "v \<noteq> d" "v \<notin> tables (mem s) d" "v \<notin> stock s"
  shows "v \<notin> tables (mem s') d" "v \<notin> stock s'" "in_page v y \<Longrightarrow> mem s' y = mem s y"
proof -
  show "v \<notin> tables (mem s') d" "v \<notin> stock s'" using assms(1,5,6) by (auto simp: pt_keep_def)
  assume y: "in_page v y"
  note ok = pt_okD [OF assms(2)]
  have "\<not> in_page p y" if "p \<in> insert d (tables (mem s) d \<union> stock s)" for p
  proof
    assume "in_page p y"
    moreover have "aligned p" using that ok(4) ka.avail_page [OF ok(1)] assms(2) by (auto simp: pt_ok_def kpage_def)
    ultimately have "p = v" using in_page_unique y assms(3) by blast
    with that assms(4-6) show False by blast
  qed
  with assms(1) show "mem s' y = mem s y" unfolding pt_keep_def by blast
qed

lemma aligned_down: "aligned a \<Longrightarrow> PGROUNDDOWN a = a" "aligned (PGROUNDDOWN a)"
  by (simp_all add: word_unat_eq_iff PGROUNDDOWN_unat aligned_mod minus_mod_eq_mult_div)

lemma mappages_page:
  assumes "aligned a"
  shows "mappages d a PGSIZE pa perm s = bnd (map_one d a pa perm s) (\<lambda>(ok, s). Ok (if ok then 0 else -1, s))"
proof -
  obtain k where k: "unat a = 4096 * k" using assms by (auto simp: aligned_mod)
  have "unat (a + 4095) = unat a + 4095"
    using k unsigned_less [of a, where ?'a = nat] by (simp add: unat_word_ariths)
  then have "PGROUNDDOWN (4095 + a) = a"
    unfolding add.commute [of 4095] using k by (simp add: word_unat_eq_iff PGROUNDDOWN_unat)
  then show ?thesis using aligned_down(1) [OF assms] by (simp add: mappages_def PGSIZE_def)
qed

definition page_list :: "u32 \<Rightarrow> u32 \<Rightarrow> u32 set" where
  "page_list a hi = {x. aligned x \<and> a \<le> x \<and> x < hi}"

lemma page_list_step:
  assumes "aligned a" "a < hi" "hi < KERNBASE"
  shows "page_list a hi = insert a (page_list (a + 4096) hi)" "aligned (a + 4096)" "unat (a + 4096) = unat a + 4096"
proof -
  have b: "unat a < 0x80000000" "unat a < unat hi" using assms by (simp_all add: KERNBASE_def word_less_nat_alt)
  show u: "unat (a + 4096) = unat a + 4096" using b by (simp add: unat_word_ariths)
  show "aligned (a + 4096)" using assms(1) u by (simp add: aligned_mod)
  have "a \<le> x \<longleftrightarrow> x = a \<or> a + 4096 \<le> x" if x: "aligned x" for x
  proof -
    obtain k where "unat a = 4096 * k" using assms(1) by (auto simp: aligned_mod)
    moreover obtain l where "unat x = 4096 * l" using x by (auto simp: aligned_mod)
    ultimately have "unat a \<le> unat x \<longleftrightarrow> unat x = unat a \<or> unat a + 4096 \<le> unat x" by auto
    with u show ?thesis by (simp add: word_le_nat_alt word_unat_eq_iff)
  qed
  with assms(1,2) show "page_list a hi = insert a (page_list (a + 4096) hi)" by (auto simp: page_list_def)
qed

text \<open>The pages of a range are mapped by \<open>g\<close> to pages of the stock, all different, all zero.\<close>

definition fresh_map :: "u32 \<Rightarrow> (u32 \<Rightarrow> u32) \<Rightarrow> u32 set \<Rightarrow> 'a kmem_scheme \<Rightarrow> 'a kmem_scheme \<Rightarrow> bool" where
  "fresh_map d g P s s' \<longleftrightarrow> inj_on g P \<and>
     (\<forall>x \<in> P. g x \<in> stock s - stock s' \<and> g x \<notin> tables (mem s') d \<and> (\<forall>y. in_page (g x) y \<longrightarrow> mem s' y = 0)) \<and>
     (\<forall>b. pte (mem s') d b = (if PGROUNDDOWN b \<in> P then V2P (g (PGROUNDDOWN b)) OR (PTE_W OR PTE_U) OR PTE_P
        else pte (mem s) d b))"

lemma alloc_loop_ok:
  assumes "pt_ok d s" "aligned a" "newsz < KERNBASE"
    and "\<And>b. PGROUNDDOWN b \<in> page_list a newsz \<Longrightarrow> \<not> present (pte (mem s) d b)"
    and "2 * k \<le> card (stock s)" "unat newsz \<le> unat a + 4096 * k"
  shows "\<exists>g s'. alloc_loop d a oldsz newsz s = Ok (newsz, s') \<and> pt_ok d s' \<and> pt_keep d s s' \<and>
    fresh_map d g (page_list a newsz) s s'"
  using assms
proof (induction k arbitrary: a s)
  case 0
  then have "\<not> a < newsz" by (simp add: word_less_nat_alt)
  moreover from this have "page_list a newsz = {}" by (auto simp: page_list_def)
  ultimately show ?case using 0 by (auto simp: alloc_loop.simps [of d a] fresh_map_def)
next
  case (Suc k)
  show ?case
  proof (cases "a < newsz")
    case False
    moreover from this have "page_list a newsz = {}" by (auto simp: page_list_def)
    ultimately show ?thesis using Suc.prems by (auto simp: alloc_loop.simps [of d a] fresh_map_def)
  next
    case True
    note st = page_list_step [OF Suc.prems(2) True Suc.prems(3)]
    have ne: "stock s \<noteq> {}" using Suc.prems(5) by auto
    from take_page [OF Suc.prems(1) ne] obtain v s1 where v: "kalloc s = Ok (v, s1)" "v \<noteq> 0" "kpage s v" "v \<in> stock s" "v \<noteq> d"
      "v \<notin> tables (mem s) d" by (auto simp: Let_def)
    define s2 where "s2 = s1\<lparr>mem := memset (mem s1) v 0 PGSIZE\<rparr>"
    have s2: "pt_ok d s2" "pt_keep d s s2" "stock s2 = stock s - {v}" "tables (mem s2) d = tables (mem s) d"
      "mem s2 = fill (mem s) v 0 4096" "\<And>b. pte (mem s2) d b = pte (mem s) d b"
      using take_page [OF Suc.prems(1) ne] v(1) by (auto simp: Let_def s2_def)
    have fin: "finite (stock s)" using ka.avail_finite pt_okD(1) [OF Suc.prems(1)] by blast
    have c2: "2 * k + 1 \<le> card (stock s2)" using Suc.prems(5) v(4) s2(3) fin by (simp add: card_Diff_singleton)
    have "\<not> present (pte (mem s2) d a)" using Suc.prems(4) [of a] aligned_down(1) [OF Suc.prems(2)] s2(6) st(1) by simp
    from map_one_ok [OF s2(1) this, of "V2P v" "PTE_W OR PTE_U"] obtain ok s3 where
      m: "map_one d a (V2P v) (PTE_W OR PTE_U) s2 = Ok (ok, s3)" "pt_ok d s3" "pt_keep d s2 s3" "card (stock s2) \<le> Suc (card (stock s3))"
      "\<not> ok \<longrightarrow> stock s2 = {}"
      "\<And>b. pte (mem s3) d b = (if ok \<and> PGROUNDDOWN b = a then V2P v OR (PTE_W OR PTE_U) OR PTE_P else pte (mem s2) d b)"
      unfolding aligned_down(1) [OF Suc.prems(2)] by blast
    have ok using m(5) c2 by auto
    then have s3: "map_one d a (V2P v) (PTE_W OR PTE_U) s2 = Ok (True, s3)" "pt_ok d s3" "pt_keep d s2 s3" "2 * k \<le> card (stock s3)"
      "\<And>b. pte (mem s3) d b = (if PGROUNDDOWN b = a then V2P v OR (PTE_W OR PTE_U) OR PTE_P else pte (mem s2) d b)"
      using m c2 by auto
    have un: "\<not> present (pte (mem s3) d b)" if "PGROUNDDOWN b \<in> page_list (a + 4096) newsz" for b
    proof -
      have "PGROUNDDOWN b \<noteq> a" using that st(3) by (auto simp: page_list_def word_le_nat_alt)
      then show ?thesis using that Suc.prems(4) [of b] st(1) s3(5) s2(6) by simp
    qed
    have k: "unat newsz \<le> unat (a + 4096) + 4096 * k" using Suc.prems(6) st(3) by simp
    from Suc.IH [OF s3(2) st(2) Suc.prems(3) un s3(4) k] obtain g s' where
      s': "alloc_loop d (a + 4096) oldsz newsz s3 = Ok (newsz, s')" "pt_ok d s'" "pt_keep d s3 s'"
        "fresh_map d g (page_list (a + 4096) newsz) s3 s'" by blast
    have al: "aligned v" using v(3) by (simp add: kpage_def)
    have vv: "v \<notin> stock s2" "v \<notin> tables (mem s2) d" using v s2 by auto
    note k3 = keep_page [OF s3(3) s2(1) al v(5) vv(2,1)]
    note k4 = keep_page [OF s'(3) s3(2) al v(5) k3(1,2)]
    have z: "mem s' y = 0" if "in_page v y" for y
      using k4(3) [OF that] k3(3) [OF that] that s2(5) by (simp add: fill_def in_page_def word_less_nat_alt)
    have sub: "stock s3 \<subseteq> stock s2" using s3(3) by (simp add: pt_keep_def)
    have na: "a \<notin> page_list (a + 4096) newsz" using st(3) by (auto simp: page_list_def word_le_nat_alt)
    have "fresh_map d (g(a := v)) (page_list a newsz) s s'"
      using s'(4) sub vv s2(3,6) s3(5) k4(1,2) z v(4) na unfolding st(1) fresh_map_def
      by (auto simp: inj_on_def)
    moreover have "alloc_loop d a oldsz newsz s = Ok (newsz, s')"
    proof -
      have "\<not> a + PGSIZE \<le> a" "a + PGSIZE = a + 4096" using st(3) by (simp_all add: PGSIZE_def word_le_nat_alt)
      moreover have "mappages d a PGSIZE (V2P v) (PTE_W OR PTE_U) s2 = Ok (0, s3)"
        using mappages_page [OF Suc.prems(2), of d "V2P v" "PTE_W OR PTE_U" s2] s3(1) by simp
      ultimately show ?thesis
        using True v(1,2) s'(1) by (simp add: alloc_loop.simps [of d a] s2_def [symmetric])
    qed
    ultimately show ?thesis using s'(2) pt_keep_trans [OF s2(2) pt_keep_trans [OF s3(3) s'(3)]] by blast
  qed
qed

lemma pipetab_extend [simp]:
  "held (pipetab.extend r m) = held r" "ncli (pipetab.extend r m) = ncli r"
  "use_lock (pipetab.extend r m) = use_lock r" "freelist (pipetab.extend r m) = freelist r"
  "kend (pipetab.extend r m) = kend r" "mem (pipetab.extend r m) = mem r" "procs (pipetab.extend r m) = procs r"
  "cur (pipetab.extend r m) = cur r" "nextpid (pipetab.extend r m) = nextpid r"
  "initproc (pipetab.extend r m) = initproc r" "kpgdir (pipetab.extend r m) = kpgdir r"
  "cr3 (pipetab.extend r m) = cr3 r" "ts_esp0 (pipetab.extend r m) = ts_esp0 r" "queue (pipetab.extend r m) = queue r"
  "containers (pipetab.extend r m) = containers r" "sleeplocks (pipetab.extend r m) = sleeplocks r"
  "mutexes (pipetab.extend r m) = mutexes r" "pipes (pipetab.extend r m) = pipes r"
  "shm_infos (pipetab.extend r (shmtab.fields v0 v1)) = v0" "kdata (pipetab.extend r (shmtab.fields v0 v1)) = v1"
  by (simp_all add: pipetab.defs shmtab.defs)

subsection \<open>Properties\<close>

text \<open>
  C12: \<open>mappages\<close> over a range that is not mapped yet returns. Either it returns 0 and exactly the pages from
  that of \<open>va\<close> to that of \<open>va + size - 1\<close> are mapped, to consecutive physical pages from \<open>pa\<close> with the
  permissions and the present bit, every other translation being as before; or it returns -1, and then
  no page is left in the allocator.
\<close>

theorem mappages_exact:
  assumes "pt_ok d s"
    and "\<forall>b. PGROUNDDOWN b - PGROUNDDOWN va \<le> PGROUNDDOWN (va + n - 1) - PGROUNDDOWN va \<longrightarrow> \<not> present (pte (mem s) d b)"
  shows "\<exists>r s'. mappages d va n pa perm s = Ok (r, s') \<and> pt_ok d s' \<and>
    (r = 0 \<and> (\<forall>b. pte (mem s') d b =
        (if PGROUNDDOWN b - PGROUNDDOWN va \<le> PGROUNDDOWN (va + n - 1) - PGROUNDDOWN va
         then (pa + (PGROUNDDOWN b - PGROUNDDOWN va)) OR perm OR PTE_P else pte (mem s) d b)) \<or>
     r = -1 \<and> stock s' = {})"
proof -
  let ?a = "PGROUNDDOWN va" and ?w = "PGROUNDDOWN (va + n - 1) - PGROUNDDOWN va"
  define k where "k = unat ?w div 4096"
  have w: "unat ?w = 4096 * k" using page_dist [OF aligned_down(2), of "va + n - 1" va] by (auto simp: k_def)
  have k: "k < 2 ^ 20" using w unsigned_less [of ?w, where ?'a = nat] by simp
  have r: "unat (PGROUNDDOWN b - ?a) < 4096 * Suc k \<longleftrightarrow> PGROUNDDOWN b - ?a \<le> ?w" for b
  proof -
    obtain l where "unat (PGROUNDDOWN b - ?a) = 4096 * l" using page_dist [OF aligned_down(2), of b va] by auto
    with w show ?thesis by (auto simp: word_le_nat_alt)
  qed
  from mappages_loop_ok [OF assms(1) aligned_down(2) k, of va pa perm] assms(2) r obtain j s' where
    j: "mappages_loop d ?a pa perm k s = Ok (if j = Suc k then 0 else -1, s')" "j \<le> Suc k" "pt_ok d s'"
      "j \<le> k \<longrightarrow> stock s' = {}"
      "\<forall>b. pte (mem s') d b = (if unat (PGROUNDDOWN b - ?a) < 4096 * j then (pa + (PGROUNDDOWN b - ?a)) OR perm OR PTE_P
         else pte (mem s) d b)" by blast
  have "mappages d va n pa perm s = mappages_loop d ?a pa perm k s" by (simp add: mappages_def k_def Let_def)
  with j r show ?thesis by (cases "j = Suc k") auto
qed

text \<open>
  C13: \<open>allocuvm\<close> grows a process as promised when there is memory: with two free pages for each page to
  add (one may be needed for a page table) it returns the new size, every added page translates to a page of
  its own, taken from the free list, filled with zeros and accessible to the user, and every other translation and all
  memory outside the page table and the free list is as before.
\<close>

theorem allocuvm_fresh:
  assumes "pt_ok d s" "oldsz \<le> newsz" "newsz < KERNBASE"
    and "\<forall>b. PGROUNDDOWN b \<in> page_list (PGROUNDUP oldsz) newsz \<longrightarrow> \<not> present (pte (mem s) d b)"
    and "2 * k \<le> card (stock s)" "unat newsz \<le> unat oldsz + 4096 * k"
  shows "\<exists>g s'. allocuvm d oldsz newsz s = Ok (newsz, s') \<and> pt_ok d s' \<and> pt_keep d s s' \<and>
    fresh_map d g (page_list (PGROUNDUP oldsz) newsz) s s'"
proof -
  have "unat oldsz + 4095 < 2 ^ 32" using assms(2,3) by (simp add: KERNBASE_def word_less_nat_alt word_le_nat_alt)
  from PGROUNDUP_unat [OF this] have u: "aligned (PGROUNDUP oldsz)" "unat oldsz \<le> unat (PGROUNDUP oldsz)" by auto
  have "unat newsz \<le> unat (PGROUNDUP oldsz) + 4096 * k" using u assms(6) by simp
  from alloc_loop_ok [OF assms(1) u(1) assms(3) _ assms(5) this] assms(4) have
    "\<exists>g s'. alloc_loop d (PGROUNDUP oldsz) oldsz newsz s = Ok (newsz, s') \<and> pt_ok d s' \<and> pt_keep d s s' \<and>
      fresh_map d g (page_list (PGROUNDUP oldsz) newsz) s s'" by blast
  moreover have "\<not> KERNBASE \<le> newsz" "\<not> newsz < oldsz" using assms(2,3) by auto
  ultimately show ?thesis by (simp add: allocuvm_def)
qed

text \<open>An empty page directory and two free pages.\<close>

definition demo_vm :: shmtab where
  "demo_vm = (pipetab.extend demo_pipes (shmtab.fields (replicate SHM_MAXNUM \<lparr>sh_page_addr = 0, sh_name = [], sh_ref_count = 0\<rparr>) 0x80108000))
     \<lparr>mem := st32 (\<lambda>_. 0) 0x80401000 0x80402000, freelist := 0x80401000\<rparr>"

lemma demo_vm_mem [simp]: "mem demo_vm = st32 (\<lambda>_. 0) 0x80401000 0x80402000" "freelist demo_vm = 0x80401000" "kend demo_vm = 0x80115000"
  "held demo_vm = []"
  by (simp_all add: demo_vm_def demo_pipes_def demo_mux_def demo_conts_def demo_pq_def)

lemma demo_vm_free: "free_pages demo_vm [0x80401000, 0x80402000]"
proof -
  have "ld32 (mem demo_vm) 0x80402000 = ld32 (\<lambda>_. 0) 0x80402000"
    by (rule ld32_frame [of "0x80401000"]) (simp_all add: aligned_def st32_page)
  then show ?thesis
    by (simp add: free_pages_def chain_node ld32_def [of "\<lambda>_. 0"] kpage_def aligned_def V2P_def KERNBASE_def PHYSTOP_def)
qed

lemma demo_vm_pte: "tab (mem demo_vm) 0x80200000 (PDX b) = None" "pte (mem demo_vm) 0x80200000 b = 0"
proof -
  have "ent (mem demo_vm) 0x80200000 (PDX b) = ent (\<lambda>_. 0) 0x80200000 (PDX b)"
    by (rule ent_frame [of _ "0x80401000"]) (simp_all add: aligned_def st32_page)
  also have "\<dots> = 0" by (simp add: ent_def ld32_def)
  finally show "tab (mem demo_vm) 0x80200000 (PDX b) = None" by (simp add: tab_def)
  then show "pte (mem demo_vm) 0x80200000 b = 0" by (simp add: pte_def)
qed

lemma demo_vm_ok: "pt_ok 0x80200000 demo_vm" "card (stock demo_vm) = 2"
proof -
  have st: "stock demo_vm = {0x80401000, 0x80402000}" using stock_eq [OF demo_vm_free] by simp
  have t: "tab (mem demo_vm) 0x80200000 i = None" if "i < 1024" for i
  proof -
    have "PDX (push_bit 22 i) = i"
      using that by (simp add: word_unat_eq_iff idx_unat push_bit_eq_mult unat_word_ariths word_less_nat_alt)
    then show ?thesis using demo_vm_pte(1) [of "push_bit 22 i"] by simp
  qed
  show "pt_ok 0x80200000 demo_vm"
    using t demo_vm_free st by (intro pt_okI) (auto simp: kmem_ok_def kpage_def aligned_def V2P_def KERNBASE_def PHYSTOP_def)
  show "card (stock demo_vm) = 2" by (simp add: st)
qed

theorem mappages_exact_witness:
  "pt_ok 0x80200000 demo_vm \<and> (\<exists>r s'. mappages 0x80200000 0x5000 0x1000 0xA000 PTE_W demo_vm = Ok (r, s') \<and> pt_ok 0x80200000 s' \<and> (r = 0 \<or> r = -1))"
  using mappages_exact [OF demo_vm_ok(1), of "0x5000" "0x1000" "0xA000" PTE_W] demo_vm_ok(1) demo_vm_pte(2) by auto

theorem allocuvm_fresh_witness:
  "\<exists>g s'. allocuvm 0x80200000 0 0x1000 demo_vm = Ok (0x1000, s') \<and> fresh_map 0x80200000 g (page_list (PGROUNDUP 0) 0x1000) demo_vm s'"
  using allocuvm_fresh [OF demo_vm_ok(1), of 0 "0x1000" 1] demo_vm_ok(2) demo_vm_pte(2) by (auto simp: KERNBASE_def)

end
