(* ===== verification/Shm.thy ===== *)
theory Shm
  imports Vm
begin

text \<open>
  Shared memory segments (\<^verbatim>\<open>shm_get\<close>, \<^verbatim>\<open>shm_rem\<close>, \<^verbatim>\<open>shm_allocuvm\<close> of \<^verbatim>\<open>vm.c\<close>), the container's segment
  (\<^verbatim>\<open>container.c\<close>) and \<^verbatim>\<open>growproc\<close>. A segment is one page; its slot in the global table is also its slot
  in the table of every process attached to it.

  A name is the text of a 150-byte array; all bytes after the text are zero, since names are only
  written over zeros or by \<open>memset\<close>. \<open>strncpy\<close> with the length of the text writes no terminator: \<open>put_name\<close>.
  A null name is \<open>None\<close>.

  Shown: attaching by name shares the page (with the size of the process page aligned); detaching a segment
  that another process still uses leaves it mapped above the end of memory, and then the next \<open>growproc\<close> panics.
\<close>

definition put_name :: "string \<Rightarrow> string \<Rightarrow> string res" where
  "put_name nm old = put_text 150 (nm @ drop (length nm) old)"

definition upd_shm :: "int \<Rightarrow> (shm_info \<Rightarrow> shm_info) \<Rightarrow> 'a shmtab_scheme \<Rightarrow> 'a shmtab_scheme res" where
  "upd_shm i f s =
     bnd (aget (shm_infos s) i) (\<lambda>x.
     bnd (aset (shm_infos s) i (f x)) (\<lambda>xs.
     Ok (s\<lparr>shm_infos := xs\<rparr>)))"

definition upd_att :: "nat \<Rightarrow> int \<Rightarrow> (shm_proc_info \<Rightarrow> shm_proc_info) \<Rightarrow> 'a shmtab_scheme \<Rightarrow> 'a shmtab_scheme res" where
  "upd_att p i f s =
     bnd (aget (p_shms (procs s ! p)) i) (\<lambda>x.
     bnd (aset (p_shms (procs s ! p)) i (f x)) (\<lambda>xs.
     Ok (upd_proc p (\<lambda>q. q\<lparr>p_shms := xs\<rparr>) s)))"

definition shm_allocuvm :: "u32 \<Rightarrow> u32 \<Rightarrow> u32 \<Rightarrow> string option \<Rightarrow> 'a shmtab_scheme \<Rightarrow> (int \<times> 'a shmtab_scheme) res" where
  "shm_allocuvm pgdir oldsz newsz name s =
     (case name of None \<Rightarrow> Ok (-1, s) | Some nm \<Rightarrow>
      if nm = [] then Ok (-1, s)
      else if KERNBASE \<le> newsz then Ok (0, s)
      else if newsz < oldsz then Ok (sint oldsz, s)
      else
        let a = PGROUNDUP oldsz in
        case first_idx (\<lambda>x. sh_name x = nm) (shm_infos s) of
          Some i \<Rightarrow>
            bnd (upd_shm (int i) (\<lambda>x. x\<lparr>sh_ref_count := sh_ref_count x + 1\<rparr>) s) (\<lambda>s.
            bnd (mappages pgdir a PGSIZE (V2P (sh_page_addr (shm_infos s ! i))) (PTE_W OR PTE_U) s) (\<lambda>(r, s).
            Ok (if r < 0 then -1 else int i, s)))
        | None \<Rightarrow>
            bnd (kalloc s) (\<lambda>(v, s).
            if v = 0 then bnd (deallocuvm pgdir newsz oldsz s) (\<lambda>(_, s). Ok (-1, s))
            else
              bnd (mappages pgdir a PGSIZE (V2P v) (PTE_W OR PTE_U) (s\<lparr>mem := memset (mem s) v 0 PGSIZE\<rparr>)) (\<lambda>(r, s).
              if r < 0 then
                bnd (deallocuvm pgdir newsz oldsz s) (\<lambda>(_, s).
                bnd (kfree v s) (\<lambda>s. Ok (-1, s)))
              else
                case first_idx (\<lambda>x. sh_name x = []) (shm_infos s) of
                  Some i \<Rightarrow>
                    bnd (put_name nm []) (\<lambda>nm.
                    bnd (upd_shm (int i) (\<lambda>x. x\<lparr>sh_name := nm, sh_ref_count := sh_ref_count x + 1, sh_page_addr := v\<rparr>) s) (\<lambda>s.
                    Ok (int i, s)))
                | None \<Rightarrow> Ok (-1, s))))"

definition shm_get :: "string option \<Rightarrow> 'a shmtab_scheme \<Rightarrow> (u32 \<times> 'a shmtab_scheme) res" where
  "shm_get name s =
     bnd (myproc s) (\<lambda>p.
     case name of None \<Rightarrow> Ok (0, s) | Some nm \<Rightarrow>
     case first_idx (\<lambda>x. shp_name x = nm) (p_shms (procs s ! p)) of
       Some j \<Rightarrow> Ok (shp_addr (p_shms (procs s ! p) ! j), s)
     | None \<Rightarrow>
         let sz = p_sz (procs s ! p); newsize = sz + PGSIZE in
         bnd (shm_allocuvm (p_pgdir (procs s ! p)) sz newsize (Some nm) s) (\<lambda>(ret, s).
         if ret = -1 then Ok (0, s)
         else
           bnd (aget (p_shms (procs s ! p)) ret) (\<lambda>x.
           bnd (put_name nm (shp_name x)) (\<lambda>nm.
           bnd (upd_att p ret (\<lambda>x. x\<lparr>shp_name := nm, shp_addr := sz\<rparr>) s) (\<lambda>s.
           bnd (switchuvm p (upd_proc p (\<lambda>q. q\<lparr>p_sz := newsize\<rparr>) s)) (\<lambda>s.
           Ok (sz, s)))))))"

definition free_segment :: "nat \<Rightarrow> u32 \<Rightarrow> 'a shmtab_scheme \<Rightarrow> 'a shmtab_scheme res" where
  "free_segment p va s =
     bnd (walkpgdir (p_pgdir (procs s ! p)) va False s) (\<lambda>(pte, s).
     if pte = 0 then fault ''shm_rem''
     else if present (ld32 (mem s) pte) then
       let pa = PTE_ADDR (ld32 (mem s) pte) in
       if pa = 0 then panic ''kfree''
       else bnd (kfree (P2V pa) s) (\<lambda>s. Ok (s\<lparr>mem := st32 (mem s) pte 0\<rparr>))
     else Ok s)"

definition shm_rem :: "string option \<Rightarrow> 'a shmtab_scheme \<Rightarrow> (int \<times> 'a shmtab_scheme) res" where
  "shm_rem name s =
     (case name of None \<Rightarrow> Ok (-1, s) | Some nm \<Rightarrow>
     bnd (myproc s) (\<lambda>p.
     case first_idx (\<lambda>x. shp_name x = nm) (p_shms (procs s ! p)) of
       None \<Rightarrow> Ok (-1, s)
     | Some i \<Rightarrow>
         bnd (upd_att p (int i) (\<lambda>x. x\<lparr>shp_name := []\<rparr>) s) (\<lambda>s.
         bnd (upd_shm (int i) (\<lambda>x. x\<lparr>sh_ref_count := sh_ref_count x - 1\<rparr>) s) (\<lambda>s.
         let s = upd_proc p (\<lambda>q. q\<lparr>p_sz := p_sz q - PGSIZE\<rparr>) s in
         bnd (if sh_ref_count (shm_infos s ! i) = 0 then
                bnd (free_segment p (shp_addr (p_shms (procs s ! p) ! i)) s)
                  (upd_shm (int i) (\<lambda>x. x\<lparr>sh_page_addr := 0, sh_name := []\<rparr>))
              else Ok s) (\<lambda>s.
         bnd (upd_att p (int i) (\<lambda>x. x\<lparr>shp_addr := 0\<rparr>) s) (\<lambda>s.
         bnd (switchuvm p s) (\<lambda>s. Ok (0, s))))))))"

definition growproc :: "int \<Rightarrow> 'a shmtab_scheme \<Rightarrow> (int \<times> 'a shmtab_scheme) res" where
  "growproc n s =
     bnd (myproc s) (\<lambda>p.
     let sz = p_sz (procs s ! p); d = p_pgdir (procs s ! p) in
     bnd (if n > 0 then allocuvm d sz (sz + word_of_int n) s
          else if n < 0 then deallocuvm d sz (sz + word_of_int n) s
          else Ok (sz, s)) (\<lambda>(sz, s).
     if n \<noteq> 0 \<and> sz = 0 then Ok (-1, s)
     else bnd (switchuvm p (upd_proc p (\<lambda>q. q\<lparr>p_sz := sz\<rparr>) s)) (\<lambda>s. Ok (0, s))))"

subsection \<open>The container's segment\<close>

text \<open>\<open>fd0\<close> and \<open>fd1\<close> are the two words of the caller's array.\<close>

definition setvc :: "int \<Rightarrow> string option \<Rightarrow> int \<Rightarrow> int \<Rightarrow> 'a shmtab_scheme \<Rightarrow> (int \<times> 'a shmtab_scheme) res" where
  "setvc index vc fd0 fd1 s =
     bnd (shm_get vc s) (\<lambda>(a, s).
     bnd (upd_con index (\<lambda>c. c\<lparr>c_shm := a, c_pipein := fd0, c_pipeout := fd1\<rparr>) s) (\<lambda>s.
     bnd (set_proc_pipe fd0 fd1 s) (\<lambda>(_, s). Ok (0, s))))"

subsection \<open>Attaching and detaching\<close>

lemma upd_shm_in [simp]: "i < length (shm_infos s) \<Longrightarrow> upd_shm (int i) f s = Ok (s\<lparr>shm_infos := (shm_infos s)[i := f (shm_infos s ! i)]\<rparr>)"
  by (simp add: upd_shm_def)

lemma upd_att_in [simp]: "i < length (p_shms (procs s ! p)) \<Longrightarrow>
    upd_att p (int i) f s = Ok (upd_proc p (\<lambda>q. q\<lparr>p_shms := (p_shms (procs s ! p))[i := f (p_shms (procs s ! p) ! i)]\<rparr>) s)"
  by (simp add: upd_att_def)

lemma pt_ok_cong:
  assumes "pt_ok d s" "held s' = held s" "freelist s' = freelist s" "kend s' = kend s" "mem s' = mem s"
  shows "pt_ok d s'" "stock s' = stock s"
proof -
  have "kpage s' = kpage s" by (auto simp: kpage_def assms)
  then have "free_pages s' = free_pages s" by (auto simp: free_pages_def assms)
  then show "stock s' = stock s" "pt_ok d s'"
    using assms by (auto simp: stock_def kmem_ok_def pt_ok_def \<open>kpage s' = kpage s\<close>)
qed

lemma alloc_loop_remap:
  assumes "pt_ok d s" "aligned a" "a < newsz" "stock s \<noteq> {}" "present (pte (mem s) d a)"
  shows "alloc_loop d a oldsz newsz s = panic ''remap''"
proof -
  from take_page [OF assms(1,4)] obtain v s1 where v: "kalloc s = Ok (v, s1)" "v \<noteq> 0"
    "pt_ok d (s1\<lparr>mem := memset (mem s1) v 0 PGSIZE\<rparr>)"
    "pte (memset (mem s1) v 0 PGSIZE) d a = pte (mem s) d a" by (auto simp: Let_def)
  then have "map_one d a (V2P v) (PTE_W OR PTE_U) (s1\<lparr>mem := memset (mem s1) v 0 PGSIZE\<rparr>) = panic ''remap''"
    using assms(5) by (intro map_one_remap) simp_all
  with v(1,2) assms(3) show ?thesis
    by (simp add: alloc_loop.simps [of d a] mappages_page [OF assms(2)])
qed

lemma PGROUNDUP_aligned:
  assumes "aligned a" "a < KERNBASE"
  shows "PGROUNDUP a = a"
proof -
  obtain k where k: "unat a = 4096 * k" using assms(1) by (auto simp: aligned_mod)
  have "unat a + 4095 < 2 ^ 32" using assms(2) by (simp add: KERNBASE_def word_less_nat_alt)
  from PGROUNDUP_unat [OF this] obtain l where "unat (PGROUNDUP a) = 4096 * l" "unat a \<le> unat (PGROUNDUP a)" "unat (PGROUNDUP a) < unat a + 4096"
    by (auto simp: aligned_mod)
  with k have "unat (PGROUNDUP a) = unat a" by simp
  then show ?thesis by (simp add: word_unat_eq_iff)
qed

subsection \<open>Properties\<close>

text \<open>
  C39: A process that detaches from a segment another process still uses keeps the page mapped just
  above its new end of memory: when the segment is its last page, \<open>shm_rem\<close> succeeds, and the process's next
  request for memory stops the whole kernel with the panic of \<open>mappages\<close>.
\<close>

theorem detach_then_grow_panics:
  assumes "cur s = Some p" "p < length (procs s)" "first_idx (\<lambda>x. shp_name x = nm) (p_shms (procs s ! p)) = Some i"
    and "i < length (shm_infos s)" "sh_ref_count (shm_infos s ! i) \<noteq> 1"
    and "p_kstack (procs s ! p) \<noteq> 0" "pt_ok (p_pgdir (procs s ! p)) s" "stock s \<noteq> {}"
    and "aligned (p_sz (procs s ! p))" "PGSIZE \<le> p_sz (procs s ! p)" "p_sz (procs s ! p) < KERNBASE"
    and "present (pte (mem s) (p_pgdir (procs s ! p)) (p_sz (procs s ! p) - PGSIZE))"
    and "0 < n" "n \<le> 4096"
  shows "\<exists>s'. shm_rem (Some nm) s = Ok (0, s') \<and> growproc n s' = panic ''remap''"
proof -
  let ?d = "p_pgdir (procs s ! p)" and ?a = "p_sz (procs s ! p) - PGSIZE"
  have il: "i < length (p_shms (procs s ! p))" using assms(3) by (rule first_idx_len)
  have dn: "?d \<noteq> 0" using pt_okD(2) [OF assms(7)] kpage_nonnull by blast
  define s1 where "s1 = upd_proc p (\<lambda>q. q\<lparr>p_sz := ?a, p_shms := (p_shms (procs s ! p))[i := (p_shms (procs s ! p) ! i)\<lparr>shp_name := [], shp_addr := 0\<rparr>]\<rparr>)
      (s\<lparr>shm_infos := (shm_infos s)[i := (shm_infos s ! i)\<lparr>sh_ref_count := sh_ref_count (shm_infos s ! i) - 1\<rparr>]\<rparr>)"
  define s2 where "s2 = s1\<lparr>ts_esp0 := p_kstack (procs s ! p) + KSTACKSIZE, cr3 := V2P ?d\<rparr>"
  have rem: "shm_rem (Some nm) s = Ok (0, s2)"
    using assms il dn
    by (simp add: shm_rem_def myproc_def Let_def switchuvm_def s2_def s1_def upd_proc_def)
  have f: "cur s2 = Some p" "p_sz (procs s2 ! p) = ?a" "p_pgdir (procs s2 ! p) = ?d" "mem s2 = mem s" "held s2 = held s"
    "freelist s2 = freelist s" "kend s2 = kend s"
    using assms(1,2) by (simp_all add: s2_def s1_def upd_proc_def)
  note ok = pt_ok_cong [OF assms(7) f(5-7,4)]
  have u: "unat ?a = unat (p_sz (procs s ! p)) - 4096"
    using assms(10) by (simp add: unat_diff_mod PGSIZE_def word_le_nat_alt)
  obtain k where k: "unat (p_sz (procs s ! p)) = 4096 * k" using assms(9) by (auto simp: aligned_mod)
  then have al: "aligned ?a" by (simp add: aligned_mod u mod_eq_0_iff_dvd)
  have "unat (?a + word_of_int n) = unat ?a + nat n"
    using u assms(10,11,13,14) by (simp add: unat_word_ariths KERNBASE_def PGSIZE_def word_less_nat_alt word_le_nat_alt unsigned_of_int take_bit_eq_mod)
  then have lt: "?a < ?a + word_of_int n" "\<not> KERNBASE \<le> ?a + word_of_int n" "\<not> ?a + word_of_int n < ?a" "?a < KERNBASE"
    using assms(10,11,13,14) u k by (auto simp: word_less_nat_alt word_le_nat_alt KERNBASE_def PGSIZE_def)
  have "alloc_loop ?d ?a ?a (?a + word_of_int n) s2 = panic ''remap''"
    using alloc_loop_remap [OF ok(1) al lt(1)] ok(2) assms(8,12) f(4) by simp
  then have "growproc n s2 = panic ''remap''"
    using f(1-3) assms(13) lt PGROUNDUP_aligned [OF al lt(4)] by (simp add: growproc_def myproc_def Let_def allocuvm_def)
  with rem show ?thesis by blast
qed


text \<open>A process with a page table, attached to the segment \<open>box\<close>, and one about to attach.\<close>

definition demo_shms :: "shm_info list" where
  "demo_shms = \<lparr>sh_page_addr = 0x80300000, sh_name = ''box'', sh_ref_count = 2\<rparr> #
     replicate 15 \<lparr>sh_page_addr = 0, sh_name = [], sh_ref_count = 0\<rparr>"

definition demo_new :: shmtab where
  "demo_new = upd_proc 2 (\<lambda>q. q\<lparr>p_sz := 0x2000\<rparr>) (demo_vm\<lparr>shm_infos := demo_shms\<rparr>)"

definition demo_att :: shmtab where
  "demo_att = upd_proc 2 (\<lambda>q. q\<lparr>p_sz := 0x3000, p_shms := (p_shms q)[0 := \<lparr>shp_name = ''box'', shp_addr = 0x2000\<rparr>]\<rparr>)
     (demo_vm\<lparr>shm_infos := demo_shms, freelist := 0x80402000,
        mem := st32 (hook (mem demo_vm) 0x80200000 (PDX 0x2000) 0x80401000) (0x80401000 + 4 * PTX 0x2000)
          (V2P 0x80300000 OR PTE_W OR PTE_U OR PTE_P)\<rparr>)"

lemma demo_vm_proc: "cur demo_vm = Some 2" "length (procs demo_vm) = 3"
  "p_pgdir (procs demo_vm ! 2) = 0x80200000" "p_kstack (procs demo_vm ! 2) = 0x80201000" "shm_infos (demo_vm\<lparr>shm_infos := x\<rparr>) = x"
  "p_shms (procs demo_vm ! 2) = replicate SHM_MAXNUM \<lparr>shp_name = [], shp_addr = 0\<rparr>"
  by (simp_all add: demo_vm_def demo_pipes_procs mkproc_def)


theorem detach_then_grow_panics_witness:
  "\<exists>s'. shm_rem (Some ''box'') demo_att = Ok (0, s') \<and> growproc 1 s' = panic ''remap''"
proof -
  define s1 where "s1 = demo_vm\<lparr>freelist := 0x80402000\<rparr>"
  have k: "kalloc demo_vm = Ok (0x80401000, s1)"
    using kalloc_free_pages [OF _ demo_vm_free] by (simp add: s1_def)
  have fr: "free_pages s1 [0x80402000]"
    using kalloc_free_pages [OF _ demo_vm_free] by (simp add: s1_def)
  have stock: "stock demo_vm = {0x80401000, 0x80402000}" "stock s1 = {0x80402000}"
    using stock_eq [OF demo_vm_free] stock_eq [OF fr] by simp_all
  have s1: "kmem_ok s1" "stock s1 = stock demo_vm - {0x80401000}" "mem s1 = mem demo_vm" "kpage s1 = kpage demo_vm" "0x80401000 \<in> stock demo_vm"
    using fr stock by (auto simp: kmem_ok_def s1_def)
  note h = hook_ok [OF demo_vm_ok(1) s1(5) idx_bound(1) demo_vm_pte(1) s1(1-4), of "0x2000"]
  have t: "tab (hook (mem demo_vm) 0x80200000 (PDX 0x2000) 0x80401000) 0x80200000 (PDX 0x2000) = Some 0x80401000"
    using hook_tab [OF demo_vm_ok(1) s1(5) idx_bound(1) idx_bound(1), of "0x2000" "0x2000"] by simp
  define v where "v = V2P 0x80300000 OR PTE_W OR PTE_U OR PTE_P"
  have e: "pt_ok 0x80200000 (s1\<lparr>mem := st32 (hook (mem demo_vm) 0x80200000 (PDX 0x2000) 0x80401000) (0x80401000 + 4 * PTX 0x2000) v\<rparr>)"
    "stock (s1\<lparr>mem := st32 (hook (mem demo_vm) 0x80200000 (PDX 0x2000) 0x80401000) (0x80401000 + 4 * PTX 0x2000) v\<rparr>) = {0x80402000}"
    "pte (st32 (hook (mem demo_vm) 0x80200000 (PDX 0x2000) 0x80401000) (0x80401000 + 4 * PTX 0x2000) v) 0x80200000 0x2000 = v"
    using set_entry [OF h(1), of "0x2000" "0x80401000" v] t h(2) stock by auto
  have ok: "pt_ok 0x80200000 demo_att" "stock demo_att = {0x80402000}"
    using pt_ok_cong [OF e(1), of demo_att] e(2) by (simp_all add: demo_att_def upd_proc_def s1_def v_def)
  have pr: "procs demo_att ! 2 = (procs demo_vm ! 2)\<lparr>p_sz := 0x3000, p_shms := (p_shms (procs demo_vm ! 2))[0 := \<lparr>shp_name = ''box'', shp_addr = 0x2000\<rparr>]\<rparr>"
    "cur demo_att = Some 2" "length (procs demo_att) = 3" "shm_infos demo_att = demo_shms"
    "pte (mem demo_att) 0x80200000 0x2000 = v"
    using e(3) by (simp_all add: demo_att_def upd_proc_def demo_vm_proc v_def)
  have "present v" by (simp add: v_def PTE_P_def bit.conj_disj_distrib2)
  moreover have "first_idx (\<lambda>x. shp_name x = ''box'') ((replicate 16 x)[0 := \<lparr>shp_name = ''box'', shp_addr = a\<rparr>]) = Some 0" for x a
    by (simp add: first_idx_Some)
  ultimately show ?thesis
    using detach_then_grow_panics [of demo_att 2 "''box''" 0 1] pr ok
    by (simp add: demo_vm_proc demo_shms_def SHM_MAXNUM_def aligned_def KERNBASE_def PGSIZE_def)
qed

end
