(* ===== verification/Bio.thy ===== *)
theory Bio
  imports Shm
begin

text \<open>
  The buffer cache (\<^verbatim>\<open>bio.c\<close>) over the memory disk (\<^verbatim>\<open>memide.c\<close>). A buffer pointer is an index into
  \<open>bufs\<close>; the last entry is \<open>bcache.head\<close>, the sentinel of the doubly linked list in order of use. \<open>flags\<close> are two
  booleans. The disk is a function from block numbers to blocks of \<open>BSIZE\<close> bytes; \<open>dwrites\<close> records, in order, the blocks
  written to it, so that the states a crash can leave behind are the prefixes of that history.

  A walk along the links that does not come back to the head within \<open>NBUF + 1\<close> steps visits a buffer twice and never
  ends. Waiting for the lock of a buffer is \<open>Asleep\<close>: the operations are modelled as one process runs them.

  Shown: the links always form one list of all buffers, most recently used first; a block is read as the
  last contents written, whether cached or not; the buffer recycled is the least recently used one that is
  neither in use nor dirty.
\<close>

definition NBUF :: nat where "NBUF = 30"
definition BSIZE :: nat where "BSIZE = 512"

record buf =
  b_valid :: bool
  b_dirty :: bool
  b_dev :: u32
  b_blockno :: u32
  b_refcnt :: u32
  b_prev :: nat
  b_next :: nat
  b_data :: "byte list"

record bcache = shmtab +
  bufs :: "buf list"
  memdisk :: "u32 \<Rightarrow> byte list"
  disksize :: u32
  dwrites :: "(u32 \<times> byte list) list"

definition HEAD :: nat where
  "HEAD = NBUF"

abbreviation bf :: "'a bcache_scheme \<Rightarrow> nat \<Rightarrow> buf" where
  "bf s i \<equiv> bufs s ! i"

definition upd_buf :: "nat \<Rightarrow> (buf \<Rightarrow> buf) \<Rightarrow> 'a bcache_scheme \<Rightarrow> 'a bcache_scheme" where
  "upd_buf i f s = s\<lparr>bufs := (bufs s)[i := f (bufs s ! i)]\<rparr>"

subsection \<open>The list of buffers\<close>

definition push_front :: "nat \<Rightarrow> 'a bcache_scheme \<Rightarrow> 'a bcache_scheme" where
  "push_front b s =
     (let s = upd_buf b (\<lambda>x. x\<lparr>b_next := b_next (bf s HEAD), b_prev := HEAD\<rparr>) s;
          s = upd_buf (b_next (bf s HEAD)) (\<lambda>x. x\<lparr>b_prev := b\<rparr>) s
      in upd_buf HEAD (\<lambda>x. x\<lparr>b_next := b\<rparr>) s)"

definition unlink_buf :: "nat \<Rightarrow> 'a bcache_scheme \<Rightarrow> 'a bcache_scheme" where
  "unlink_buf b s =
     (let s = upd_buf (b_next (bf s b)) (\<lambda>x. x\<lparr>b_prev := b_prev (bf s b)\<rparr>) s
      in upd_buf (b_prev (bf s b)) (\<lambda>x. x\<lparr>b_next := b_next (bf s b)\<rparr>) s)"

primrec binit_loop :: "nat \<Rightarrow> 'a bcache_scheme \<Rightarrow> 'a bcache_scheme" where
  "binit_loop 0 s = s"
| "binit_loop (Suc i) s = push_front i (initsleeplock (L_buf i) ''buffer'' (binit_loop i s))"

definition binit :: "'a bcache_scheme \<Rightarrow> 'a bcache_scheme" where
  "binit s = binit_loop NBUF (upd_buf HEAD (\<lambda>x. x\<lparr>b_prev := HEAD, b_next := HEAD\<rparr>) s)"

primrec walk_bufs :: "(buf \<Rightarrow> nat) \<Rightarrow> (buf \<Rightarrow> bool) \<Rightarrow> nat \<Rightarrow> buf list \<Rightarrow> nat \<Rightarrow> nat option res" where
  "walk_bufs dir P 0 bs b = Inl Diverge"
| "walk_bufs dir P (Suc n) bs b =
     (if b = HEAD then Ok None else if P (bs ! b) then Ok (Some b) else walk_bufs dir P n bs (dir (bs ! b)))"

subsection \<open>Reading, writing and releasing\<close>

definition bget :: "u32 \<Rightarrow> u32 \<Rightarrow> 'a bcache_scheme \<Rightarrow> (nat \<times> 'a bcache_scheme) res" where
  "bget dev blockno s =
     bnd (lock L_bcache s) (\<lambda>s.
     bnd (walk_bufs b_next (\<lambda>x. b_dev x = dev \<and> b_blockno x = blockno) (Suc NBUF) (bufs s) (b_next (bf s HEAD))) (\<lambda>hit.
     case hit of
       Some b \<Rightarrow>
         bnd (unlock L_bcache (upd_buf b (\<lambda>x. x\<lparr>b_refcnt := b_refcnt x + 1\<rparr>) s)) (\<lambda>s.
         bnd (getsleep (L_buf b) s) (\<lambda>s. Ok (b, s)))
     | None \<Rightarrow>
         bnd (walk_bufs b_prev (\<lambda>x. b_refcnt x = 0 \<and> \<not> b_dirty x) (Suc NBUF) (bufs s) (b_prev (bf s HEAD))) (\<lambda>free.
         case free of
           Some b \<Rightarrow>
             bnd (unlock L_bcache (upd_buf b (\<lambda>x. x\<lparr>b_dev := dev, b_blockno := blockno, b_valid := False, b_dirty := False,
                 b_refcnt := 1\<rparr>) s)) (\<lambda>s.
             bnd (getsleep (L_buf b) s) (\<lambda>s. Ok (b, s)))
         | None \<Rightarrow> panic ''bget: no buffers'')))"

definition iderw :: "nat \<Rightarrow> 'a bcache_scheme \<Rightarrow> 'a bcache_scheme res" where
  "iderw b s =
     bnd (holdingsleep (L_buf b) s) (\<lambda>(h, s).
     if \<not> h then panic ''iderw: buf not locked''
     else if b_valid (bf s b) \<and> \<not> b_dirty (bf s b) then panic ''iderw: nothing to do''
     else if b_dev (bf s b) \<noteq> 1 then panic ''iderw: request not for disk 1''
     else if disksize s \<le> b_blockno (bf s b) then panic ''iderw: block out of range''
     else
       let n = b_blockno (bf s b) in
       if b_dirty (bf s b) then
         Ok ((upd_buf b (\<lambda>x. x\<lparr>b_dirty := False, b_valid := True\<rparr>) s)
             \<lparr>memdisk := (memdisk s)(n := b_data (bf s b)), dwrites := dwrites s @ [(n, b_data (bf s b))]\<rparr>)
       else Ok (upd_buf b (\<lambda>x. x\<lparr>b_data := memdisk s n, b_valid := True\<rparr>) s))"

definition bread :: "u32 \<Rightarrow> u32 \<Rightarrow> 'a bcache_scheme \<Rightarrow> (nat \<times> 'a bcache_scheme) res" where
  "bread dev blockno s =
     bnd (bget dev blockno s) (\<lambda>(b, s).
     if \<not> b_valid (bf s b) then bnd (iderw b s) (\<lambda>s. Ok (b, s)) else Ok (b, s))"

definition bwrite :: "nat \<Rightarrow> 'a bcache_scheme \<Rightarrow> 'a bcache_scheme res" where
  "bwrite b s =
     bnd (holdingsleep (L_buf b) s) (\<lambda>(h, s).
     if \<not> h then panic ''bwrite'' else iderw b (upd_buf b (\<lambda>x. x\<lparr>b_dirty := True\<rparr>) s))"

definition brelse :: "nat \<Rightarrow> 'a bcache_scheme \<Rightarrow> 'a bcache_scheme res" where
  "brelse b s =
     bnd (holdingsleep (L_buf b) s) (\<lambda>(h, s).
     if \<not> h then panic ''brelse''
     else
       bnd (releasesleep (L_buf b) s) (\<lambda>s.
       bnd (lock L_bcache s) (\<lambda>s.
       let s = upd_buf b (\<lambda>x. x\<lparr>b_refcnt := b_refcnt x - 1\<rparr>) s in
       unlock L_bcache (if b_refcnt (bf s b) = 0 then push_front b (unlink_buf b s) else s))))"

subsection \<open>Doubly linked segments\<close>

primrec dseg :: "(nat \<Rightarrow> nat) \<Rightarrow> (nat \<Rightarrow> nat) \<Rightarrow> nat \<Rightarrow> nat list \<Rightarrow> nat \<Rightarrow> bool" where
  "dseg nx pv a [] z \<longleftrightarrow> nx a = z \<and> pv z = a"
| "dseg nx pv a (x # xs) z \<longleftrightarrow> nx a = x \<and> pv x = a \<and> dseg nx pv x xs z"

lemma dseg_append: "dseg nx pv a (xs @ y # ys) z \<longleftrightarrow> dseg nx pv a xs y \<and> dseg nx pv y ys z"
  by (induction xs arbitrary: a) auto

lemma dseg_snoc: "dseg nx pv a (xs @ [y]) z \<longleftrightarrow> dseg nx pv a xs y \<and> nx y = z \<and> pv z = y"
  by (simp add: dseg_append)

lemma dseg_cong:
  assumes "\<And>x. x \<in> insert a (set xs) \<Longrightarrow> nx' x = nx x" "\<And>x. x \<in> insert z (set xs) \<Longrightarrow> pv' x = pv x"
  shows "dseg nx' pv' a xs z = dseg nx pv a xs z"
  using assms by (induction xs arbitrary: a) auto

lemma dseg_ends:
  assumes "dseg nx pv a xs z"
  shows "nx a = hd (xs @ [z])" "pv z = last (a # xs)"
  using assms by (induction xs arbitrary: a) auto

text \<open>\<open>order s xs\<close>: the links of the buffers form the list \<open>xs\<close>, most recently used first.\<close>

definition order :: "buf list \<Rightarrow> nat list \<Rightarrow> bool" where
  "order bs xs \<longleftrightarrow> length bs = Suc NBUF \<and> distinct xs \<and> set xs \<subseteq> {..<NBUF} \<and>
     dseg (\<lambda>i. b_next (bs ! i)) (\<lambda>i. b_prev (bs ! i)) HEAD xs HEAD"

lemma upd_buf_simps [simp]:
  "held (upd_buf i f s) = held s" "ncli (upd_buf i f s) = ncli s" "sleeplocks (upd_buf i f s) = sleeplocks s" "cur (upd_buf i f s) = cur s"
  "procs (upd_buf i f s) = procs s" "memdisk (upd_buf i f s) = memdisk s" "disksize (upd_buf i f s) = disksize s"
  "dwrites (upd_buf i f s) = dwrites s" "length (bufs (upd_buf i f s)) = length (bufs s)"
  "bufs (upd_buf i f s) = (bufs s)[i := f (bf s i)]"
  by (simp_all add: upd_buf_def)

lemma order_keep:
  assumes "order bs xs" "b_next (f (bs ! i)) = b_next (bs ! i)" "b_prev (f (bs ! i)) = b_prev (bs ! i)"
  shows "order (bs[i := f (bs ! i)]) xs"
proof -
  have "(\<lambda>j. b_next (bs[i := f (bs ! i)] ! j)) = (\<lambda>j. b_next (bs ! j))"
    by (rule ext) (rule nth_upd_keep [of b_next, OF assms(2)])
  moreover have "(\<lambda>j. b_prev (bs[i := f (bs ! i)] ! j)) = (\<lambda>j. b_prev (bs ! j))"
    by (rule ext) (rule nth_upd_keep [of b_prev, OF assms(3)])
  ultimately show ?thesis using assms(1) by (simp add: order_def)
qed

lemma order_bounds: "order bs xs \<Longrightarrow> x \<in> set xs \<Longrightarrow> x < NBUF \<and> x \<noteq> HEAD"
  by (auto simp: order_def HEAD_def)

lemma dseg_push:
  assumes "dseg nx pv h xs h" "b \<notin> set xs" "b \<noteq> h" "distinct xs" "h \<notin> set xs"
  shows "dseg (nx(b := nx h, h := b)) (pv(b := h, nx h := b)) h (b # xs) h"
proof (cases xs)
  case (Cons x ys)
  then have "dseg (nx(b := nx h, h := b)) (pv(b := h, nx h := b)) x ys h = dseg nx pv x ys h"
    using assms by (intro dseg_cong) auto
  with assms Cons show ?thesis by auto
qed (use assms in auto)

lemma dseg_unlink:
  assumes "dseg nx pv a xs b" "dseg nx pv b ys z" "distinct (xs @ b # ys)" "a \<notin> set (xs @ b # ys)" "z \<notin> set (xs @ b # ys)"
  shows "dseg (nx(pv b := nx b)) (pv(nx b := pv b)) a (xs @ ys) z"
  using assms
proof (induction xs arbitrary: a)
  case Nil
  show ?case
  proof (cases ys)
    case (Cons y zs)
    with Nil have e: "pv b = a" "nx b = y" "dseg nx pv y zs z" by simp_all
    have "dseg (nx(a := y)) (pv(y := a)) y zs z = dseg nx pv y zs z"
      using Nil Cons by (intro dseg_cong) auto
    with e show ?thesis by (simp only: Cons append_Nil dseg.simps fun_upd_same)
  qed (use Nil in simp)
next
  case (Cons x xs)
  have "pv b = last (x # xs)" "nx b = hd (ys @ [z])"
    using dseg_ends [of nx pv x xs b] dseg_ends [of nx pv b ys z] Cons.prems by auto
  moreover have "last (x # xs) \<in> set (x # xs)" by (rule last_in_set) simp
  moreover have "hd (ys @ [z]) \<in> insert z (set ys)" by (cases ys) auto
  ultimately have "a \<noteq> pv b" "x \<noteq> nx b" using Cons.prems by auto
  moreover have "dseg (nx(pv b := nx b)) (pv(nx b := pv b)) x (xs @ ys) z" using Cons by (intro Cons.IH) auto
  ultimately show ?case using Cons.prems(1) by (simp del: fun_upd_apply add: fun_upd_other)
qed

lemma push_front_order:
  assumes "order (bufs s) xs" "b < NBUF" "b \<notin> set xs"
  shows "order (bufs (push_front b s)) (b # xs)"
proof -
  let ?nx = "\<lambda>i. b_next (bufs s ! i)" and ?pv = "\<lambda>i. b_prev (bufs s ! i)"
  have len: "length (bufs s) = Suc NBUF" and d: "dseg ?nx ?pv HEAD xs HEAD" using assms(1) by (simp_all add: order_def)
  have "?nx HEAD \<in> insert HEAD (set xs)" using dseg_ends(1) [OF d] by (cases xs) auto
  then have y: "?nx HEAD < length (bufs s)" "?nx HEAD \<noteq> b" "b \<noteq> HEAD" "b < length (bufs s)" "HEAD < length (bufs s)"
    using assms order_bounds [OF assms(1)] len by (auto simp: HEAD_def less_Suc_eq)
  let ?s' = "push_front b s"
  have "(\<lambda>i. b_next (bf ?s' i)) = ?nx(b := ?nx HEAD, HEAD := b)" "(\<lambda>i. b_prev (bf ?s' i)) = ?pv(b := HEAD, ?nx HEAD := b)"
    using y by (auto simp: push_front_def Let_def nth_list_update fun_eq_iff)
  moreover have "HEAD \<notin> set xs" "distinct xs" using order_bounds [OF assms(1)] assms(1) by (auto simp: order_def)
  ultimately have "dseg (\<lambda>i. b_next (bf ?s' i)) (\<lambda>i. b_prev (bf ?s' i)) HEAD (b # xs) HEAD"
    using dseg_push [OF d assms(3) y(3)] by simp
  then show ?thesis using assms len by (auto simp: order_def push_front_def Let_def)
qed

lemma unlink_order:
  assumes "order (bufs s) (xs @ b # ys)"
  shows "order (bufs (unlink_buf b s)) (xs @ ys)"
proof -
  let ?nx = "\<lambda>i. b_next (bufs s ! i)" and ?pv = "\<lambda>i. b_prev (bufs s ! i)"
  have len: "length (bufs s) = Suc NBUF" and d: "dseg ?nx ?pv HEAD xs b" "dseg ?nx ?pv b ys HEAD"
    and dist: "distinct (xs @ b # ys)" using assms by (simp_all add: order_def dseg_append)
  have bn: "HEAD \<notin> set (xs @ b # ys)" "\<And>x. x \<in> set (xs @ b # ys) \<Longrightarrow> x < Suc NBUF"
    using order_bounds [OF assms] by fastforce+
  have "?nx b \<in> insert HEAD (set ys)" using dseg_ends(1) [OF d(2)] by (cases ys) auto
  moreover have "?pv b \<in> insert HEAD (set xs)" using dseg_ends(2) [OF d(1)] last_in_set [of "HEAD # xs"] by simp
  ultimately have y: "?nx b \<noteq> b" "?nx b < length (bufs s)" "?pv b \<noteq> b" "?pv b < length (bufs s)"
    using bn dist len by (auto simp: HEAD_def)
  let ?s' = "unlink_buf b s"
  have "(\<lambda>i. b_next (bf ?s' i)) = ?nx(?pv b := ?nx b)" "(\<lambda>i. b_prev (bf ?s' i)) = ?pv(?nx b := ?pv b)"
    using y by (auto simp: unlink_buf_def Let_def nth_list_update fun_eq_iff)
  then have "dseg (\<lambda>i. b_next (bf ?s' i)) (\<lambda>i. b_prev (bf ?s' i)) HEAD (xs @ ys) HEAD"
    using dseg_unlink [OF d dist bn(1) bn(1)] by simp
  with assms len show ?thesis by (auto simp: order_def unlink_buf_def Let_def)
qed

lemma walk_bufs_find:
  assumes "dseg (\<lambda>i. dir (bs ! i)) pv a xs HEAD" "HEAD \<notin> set xs" "length xs < n"
  shows "walk_bufs dir P n bs (dir (bs ! a)) = Ok (List.find (\<lambda>i. P (bs ! i)) xs)"
  using assms
proof (induction xs arbitrary: a n)
  case Nil
  then show ?case by (cases n) auto
next
  case (Cons x xs)
  then show ?case by (cases n) auto
qed

lemma dseg_rev: "dseg nx pv a xs z \<longleftrightarrow> dseg pv nx z (rev xs) a"
  by (induction xs arbitrary: a) (auto simp: dseg_snoc)

lemma walks:
  assumes "order bs xs"
  shows "walk_bufs b_next P (Suc NBUF) bs (b_next (bs ! HEAD)) = Ok (List.find (\<lambda>i. P (bs ! i)) xs)"
    "walk_bufs b_prev P (Suc NBUF) bs (b_prev (bs ! HEAD)) = Ok (List.find (\<lambda>i. P (bs ! i)) (rev xs))"
proof -
  have d: "dseg (\<lambda>i. b_next (bs ! i)) (\<lambda>i. b_prev (bs ! i)) HEAD xs HEAD" "HEAD \<notin> set xs"
    using assms order_bounds [OF assms] by (auto simp: order_def)
  have "card (set xs) \<le> NBUF" using assms card_mono [of "{..<NBUF}" "set xs"] by (simp add: order_def)
  then have l: "length xs < Suc NBUF" using assms by (simp add: order_def distinct_card)
  show "walk_bufs b_next P (Suc NBUF) bs (b_next (bs ! HEAD)) = Ok (List.find (\<lambda>i. P (bs ! i)) xs)"
    by (rule walk_bufs_find [OF d l])
  show "walk_bufs b_prev P (Suc NBUF) bs (b_prev (bs ! HEAD)) = Ok (List.find (\<lambda>i. P (bs ! i)) (rev xs))"
    using d l dseg_rev by (intro walk_bufs_find [of _ _ "\<lambda>i. b_next (bs ! i)"]) auto
qed

lemma binit_order: "length (bufs s) = Suc NBUF \<Longrightarrow> order (bufs (binit s)) (rev [0..<NBUF])"
proof -
  assume l: "length (bufs s) = Suc NBUF"
  let ?s = "upd_buf HEAD (\<lambda>x. x\<lparr>b_prev := HEAD, b_next := HEAD\<rparr>) s"
  have "order (bufs (binit_loop n ?s)) (rev [0..<n])" if "n \<le> NBUF" for n
    using that
  proof (induction n)
    case 0
    then show ?case using l by (simp add: order_def HEAD_def)
  next
    case (Suc n)
    then have "order (bufs (initsleeplock (L_buf n) ''buffer'' (binit_loop n ?s))) (rev [0..<n])"
      by (simp add: initsleeplock_def)
    from push_front_order [OF this] Suc.prems show ?case by simp
  qed
  then show ?thesis by (simp add: binit_def)
qed

subsection \<open>The cache as a view of the disk\<close>

text \<open>
  \<open>hit s n i\<close>: buffer \<open>i\<close> caches block \<open>n\<close> of the disk. \<open>view s n\<close> is the content the kernel sees for block \<open>n\<close>. In \<open>bc_inv s H\<close>
  the set \<open>H\<close> are the buffers the running process holds; no other buffer is in use, and the clean ones agree with the disk.
\<close>

definition hit :: "'a bcache_scheme \<Rightarrow> u32 \<Rightarrow> nat \<Rightarrow> bool" where
  "hit s n i \<longleftrightarrow> i < NBUF \<and> b_dev (bf s i) = 1 \<and> b_blockno (bf s i) = n"

definition view :: "'a bcache_scheme \<Rightarrow> u32 \<Rightarrow> byte list" where
  "view s n = (case first_idx (\<lambda>x. b_dev x = 1 \<and> b_blockno x = n) (take NBUF (bufs s)) of
     Some i \<Rightarrow> b_data (bf s i) | None \<Rightarrow> memdisk s n)"

definition bc_inv :: "'a bcache_scheme \<Rightarrow> nat set \<Rightarrow> bool" where
  "bc_inv s H \<longleftrightarrow> (\<exists>xs. order (bufs s) xs \<and> set xs = {..<NBUF}) \<and> held s = [] \<and> cur s \<noteq> None \<and> H \<subseteq> {..<NBUF} \<and>
     (\<forall>n. length (memdisk s n) = BSIZE) \<and>
     (\<forall>i < NBUF. length (b_data (bf s i)) = BSIZE \<and>
        (b_dev (bf s i) = 1 \<longrightarrow> b_valid (bf s i) \<and> b_blockno (bf s i) < disksize s) \<and>
        (b_dirty (bf s i) \<longrightarrow> b_dev (bf s i) = 1) \<and>
        (if i \<in> H then b_refcnt (bf s i) = 1 \<and> sl_locked (sleeplocks s (L_buf i)) \<and> b_dev (bf s i) = 1
         else b_refcnt (bf s i) = 0 \<and> \<not> sl_locked (sleeplocks s (L_buf i)) \<and>
           (b_dev (bf s i) = 1 \<and> \<not> b_dirty (bf s i) \<longrightarrow> b_data (bf s i) = memdisk s (b_blockno (bf s i))))) \<and>
     (\<forall>n i. hit s n i \<longrightarrow> (\<forall>j. hit s n j \<longrightarrow> i = j))"

lemma bc_invD:
  assumes "bc_inv s H"
  shows "held s = []" "cur s \<noteq> None" "H \<subseteq> {..<NBUF}" "length (memdisk s n) = BSIZE" "length (bufs s) = Suc NBUF"
    "i < NBUF \<Longrightarrow> length (b_data (bf s i)) = BSIZE"
    "i < NBUF \<Longrightarrow> b_dev (bf s i) = 1 \<Longrightarrow> b_valid (bf s i) \<and> b_blockno (bf s i) < disksize s"
    "i < NBUF \<Longrightarrow> b_dirty (bf s i) \<Longrightarrow> b_dev (bf s i) = 1"
    "i \<in> H \<Longrightarrow> i < NBUF \<and> b_refcnt (bf s i) = 1 \<and> sl_locked (sleeplocks s (L_buf i)) \<and> b_dev (bf s i) = 1 \<and> b_valid (bf s i)"
    "i < NBUF \<Longrightarrow> i \<notin> H \<Longrightarrow> b_refcnt (bf s i) = 0 \<and> \<not> sl_locked (sleeplocks s (L_buf i)) \<and>
       (b_dev (bf s i) = 1 \<longrightarrow> \<not> b_dirty (bf s i) \<longrightarrow> b_data (bf s i) = memdisk s (b_blockno (bf s i)))"
    "hit s n i \<Longrightarrow> hit s n j \<Longrightarrow> i = j"
proof -
  show "hit s n i \<Longrightarrow> hit s n j \<Longrightarrow> i = j" using assms unfolding bc_inv_def by blast
qed (use assms in \<open>auto simp: bc_inv_def order_def\<close>)

lemma hit_view: "bc_inv s H \<Longrightarrow> hit s n i \<Longrightarrow> view s n = b_data (bf s i)"
proof -
  assume b: "bc_inv s H" and h: "hit s n i"
  have l: "length (bufs s) = Suc NBUF" using bc_invD(5) [OF b] .
  have "first_idx (\<lambda>x. b_dev x = 1 \<and> b_blockno x = n) (take NBUF (bufs s)) = Some i"
  proof (unfold first_idx_Some, intro conjI allI impI)
    fix j assume j: "j < i"
    show "\<not> (b_dev (take NBUF (bufs s) ! j) = 1 \<and> b_blockno (take NBUF (bufs s) ! j) = n)"
    proof
      assume "b_dev (take NBUF (bufs s) ! j) = 1 \<and> b_blockno (take NBUF (bufs s) ! j) = n"
      with j h have "hit s n j" by (simp add: hit_def)
      with bc_invD(11) [OF b h] j show False by blast
    qed
  qed (use h l in \<open>simp_all add: hit_def\<close>)
  then show ?thesis by (simp add: view_def)
qed

lemma miss_view: "length (bufs s) = Suc NBUF \<Longrightarrow> (\<And>i. \<not> hit s n i) \<Longrightarrow> view s n = memdisk s n"
proof -
  assume l: "length (bufs s) = Suc NBUF" and h: "\<And>i. \<not> hit s n i"
  have "first_idx (\<lambda>x. b_dev x = 1 \<and> b_blockno x = n) (take NBUF (bufs s)) = None"
    unfolding first_idx_None using h l unfolding hit_def by (auto simp: in_set_conv_nth) blast
  then show ?thesis by (simp add: view_def)
qed

text \<open>What the operations on buffers leave alone: all but the buffers, the sleep locks and who is runnable.\<close>

definition stateless :: "proc \<Rightarrow> proc" where
  "stateless p = p\<lparr>p_state := UNUSED\<rparr>"

definition woken :: "proc list \<Rightarrow> proc list \<Rightarrow> bool" where
  "woken ps qs \<longleftrightarrow> map stateless ps = map stateless qs"

definition bkeep :: "'a bcache_scheme \<Rightarrow> 'a bcache_scheme \<Rightarrow> bool" where
  "bkeep s s' \<longleftrightarrow> (\<exists>bs sl pr. s' = s\<lparr>bufs := bs, sleeplocks := sl, procs := pr\<rparr> \<and> woken (procs s) pr)"

lemma woken_refl [simp]: "woken ps ps"
  by (simp add: woken_def)

lemma woken_trans: "woken ps qs \<Longrightarrow> woken qs rs \<Longrightarrow> woken ps rs"
  by (simp add: woken_def)

lemma woken_wakeup1 [simp]: "woken (procs s) (procs (wakeup1 c s))"
  by (simp add: woken_def wakeup1_def stateless_def)

lemma bkeep_refl [simp]: "bkeep s s"
  unfolding bkeep_def by (intro exI [of _ "bufs s"] exI [of _ "sleeplocks s"] exI [of _ "procs s"]) simp

lemma bkeep_trans: "bkeep s s1 \<Longrightarrow> bkeep s1 s2 \<Longrightarrow> bkeep s s2"
  unfolding bkeep_def by (elim exE conjE) (auto dest: woken_trans)

lemma bkeepD:
  assumes "bkeep s s'"
  shows "memdisk s' = memdisk s" "disksize s' = disksize s" "dwrites s' = dwrites s" "cur s' = cur s" "held s' = held s"
    "bcache.more s' = bcache.more s" "woken (procs s) (procs s')"
  using assms by (auto simp: bkeep_def)

subsection \<open>Reading a block\<close>

lemma bget_eval:
  assumes "held s = []" "order (bufs s) xs"
  shows "bget dev n s =
    (case List.find (\<lambda>i. b_dev (bf s i) = dev \<and> b_blockno (bf s i) = n) xs of
       Some b \<Rightarrow> bnd (getsleep (L_buf b) (upd_buf b (\<lambda>x. x\<lparr>b_refcnt := b_refcnt x + 1\<rparr>) s)) (\<lambda>s. Ok (b, s))
     | None \<Rightarrow> case List.find (\<lambda>i. b_refcnt (bf s i) = 0 \<and> \<not> b_dirty (bf s i)) (rev xs) of
         Some b \<Rightarrow> bnd (getsleep (L_buf b) (upd_buf b (\<lambda>x. x\<lparr>b_dev := dev, b_blockno := n, b_valid := False, b_dirty := False,
             b_refcnt := 1\<rparr>) s)) (\<lambda>s. Ok (b, s))
       | None \<Rightarrow> panic ''bget: no buffers'')"
proof -
  have l: "lock L_bcache s = Ok (s\<lparr>held := [L_bcache], ncli := ncli s + 1\<rparr>)" using assms(1) by (simp add: lock_def)
  have u: "(upd_buf b f (s\<lparr>held := [L_bcache], ncli := ncli s + 1\<rparr>))\<lparr>held := [], ncli := ncli s\<rparr> = upd_buf b f s" for b f
    using assms(1) by (simp add: upd_buf_def)
  show ?thesis
    unfolding bget_def l by (simp del: walk_bufs.simps add: walks [OF assms(2)] u [simplified] split: option.split)
qed

lemma find_in: "List.find P xs = Some i \<Longrightarrow> i \<in> set xs \<and> P i"
  by (auto simp: find_Some_iff in_set_conv_nth)

lemma find_ex: "x \<in> set xs \<Longrightarrow> P x \<Longrightarrow> \<exists>i. List.find P xs = Some i"
  by (cases "List.find P xs") (auto simp: find_None_iff)

text \<open>The state in which the running process has taken buffer \<open>i\<close>, its fields changed by \<open>f\<close>.\<close>

definition taken :: "nat \<Rightarrow> (buf \<Rightarrow> buf) \<Rightarrow> 'a bcache_scheme \<Rightarrow> 'a bcache_scheme" where
  "taken i f s = put_sl (L_buf i) ((sleeplocks s (L_buf i))\<lparr>sl_locked := True, sl_pid := p_pid (procs s ! the (cur s))\<rparr>) (upd_buf i f s)"

lemma taken_simps [simp]:
  "bufs (taken i f s) = (bufs s)[i := f (bf s i)]" "held (taken i f s) = held s" "cur (taken i f s) = cur s"
  "memdisk (taken i f s) = memdisk s" "disksize (taken i f s) = disksize s" "dwrites (taken i f s) = dwrites s"
  "sl_locked (sleeplocks (taken i f s) (L_buf j)) \<longleftrightarrow> j = i \<or> sl_locked (sleeplocks s (L_buf j))" "procs (taken i f s) = procs s"
  by (simp_all add: taken_def)

lemma getsleep_buf:
  assumes "held s = []" "cur s \<noteq> None" "\<not> sl_locked (sleeplocks s (L_buf i))"
  shows "getsleep (L_buf i) (upd_buf i f s) = Ok (taken i f s)"
  using assms getsleep_free [of "L_buf i" "upd_buf i f s"] by (auto simp: taken_def)

lemma bkeep_taken [simp]: "bkeep s (taken i f s)"
  unfolding bkeep_def taken_def upd_buf_def
  by (intro exI [of _ "(bufs s)[i := f (bf s i)]"] exI [of _ "(sleeplocks s)(L_buf i := (sleeplocks s (L_buf i))\<lparr>sl_locked := True, sl_pid := p_pid (procs s ! the (cur s))\<rparr>)"]
    exI [of _ "procs s"]) simp

lemma iderw_read:
  assumes "held s = []" "sl_locked (sleeplocks s (L_buf i))" "\<not> b_valid (bf s i)" "\<not> b_dirty (bf s i)" "b_dev (bf s i) = 1"
    "b_blockno (bf s i) < disksize s"
  shows "iderw i s = Ok (upd_buf i (\<lambda>x. x\<lparr>b_data := memdisk s (b_blockno (bf s i)), b_valid := True\<rparr>) s)"
  using assms by (simp add: iderw_def holdingsleep_eval Let_def not_le)

text \<open>Where the buffer comes from: the one that has the block, else the least recently used free one.\<close>

definition source :: "'a bcache_scheme \<Rightarrow> u32 \<Rightarrow> nat list \<Rightarrow> nat option" where
  "source s n xs =
     (case List.find (\<lambda>i. b_dev (bf s i) = 1 \<and> b_blockno (bf s i) = n) xs of
        Some i \<Rightarrow> Some i
      | None \<Rightarrow> List.find (\<lambda>i. b_refcnt (bf s i) = 0 \<and> \<not> b_dirty (bf s i)) (rev xs))"

definition loaded :: "'a bcache_scheme \<Rightarrow> u32 \<Rightarrow> buf \<Rightarrow> buf" where
  "loaded s n x = (if b_dev x = 1 \<and> b_blockno x = n then x\<lparr>b_refcnt := 1\<rparr>
     else x\<lparr>b_dev := 1, b_blockno := n, b_valid := True, b_dirty := False, b_refcnt := 1, b_data := memdisk s n\<rparr>)"

lemma loaded_simps [simp]:
  "b_dev (loaded s n x) = 1" "b_blockno (loaded s n x) = n" "b_refcnt (loaded s n x) = 1" "b_next (loaded s n x) = b_next x"
  "b_prev (loaded s n x) = b_prev x"
  by (simp_all add: loaded_def)

lemma bread_eval:
  assumes "bc_inv s H" "order (bufs s) xs" "set xs = {..<NBUF}" "n < disksize s" "source s n xs = Some i" "i \<notin> H"
  shows "bread 1 n s = Ok (i, taken i (loaded s n) s)"
proof -
  note d = bc_invD [OF assms(1)]
  let ?P = "\<lambda>i. b_dev (bf s i) = 1 \<and> b_blockno (bf s i) = n"
  show ?thesis
  proof (cases "List.find ?P xs")
    case (Some j)
    then have "j = i" using assms(5) by (simp add: source_def)
    then have i: "i < NBUF" "?P i" using find_in [OF Some] assms(3) by auto
    have n: "\<not> sl_locked (sleeplocks s (L_buf i))" "b_refcnt (bf s i) = 0" using d(10) [OF i(1) assms(6)] by auto
    have lt: "i < length (bufs s)" using d(5) i(1) by simp
    have "bget 1 n s = Ok (i, taken i (\<lambda>x. x\<lparr>b_refcnt := b_refcnt x + 1\<rparr>) s)"
      using Some \<open>j = i\<close> getsleep_buf [OF d(1,2) n(1)] by (simp add: bget_eval [OF d(1) assms(2)])
    moreover have "taken i (\<lambda>x. x\<lparr>b_refcnt := b_refcnt x + 1\<rparr>) s = taken i (loaded s n) s"
      using i n(2) by (simp add: taken_def upd_buf_def loaded_def)
    ultimately show ?thesis
      using d(7) [OF i(1)] i(2) lt by (simp add: bread_def loaded_def)
  next
    case None
    then have f: "List.find (\<lambda>i. b_refcnt (bf s i) = 0 \<and> \<not> b_dirty (bf s i)) (rev xs) = Some i" using assms(5) by (simp add: source_def)
    then have i: "i < NBUF" "b_refcnt (bf s i) = 0" "\<not> b_dirty (bf s i)" using find_in [OF f] assms(3) by auto
    have np: "\<not> ?P i" using None i(1) assms(3) unfolding find_None_iff by auto
    have n: "\<not> sl_locked (sleeplocks s (L_buf i))" using d(10) [OF i(1) assms(6)] by auto
    have lt: "i < length (bufs s)" using d(5) i(1) by simp
    let ?f = "\<lambda>x. x\<lparr>b_dev := 1, b_blockno := n, b_valid := False, b_dirty := False, b_refcnt := 1\<rparr>"
    have g: "bget 1 n s = Ok (i, taken i ?f s)"
      using None f getsleep_buf [OF d(1,2) n] by (simp add: bget_eval [OF d(1) assms(2)])
    have "iderw i (taken i ?f s) = Ok (upd_buf i (\<lambda>x. x\<lparr>b_data := memdisk s n, b_valid := True\<rparr>) (taken i ?f s))"
      using iderw_read [of "taken i ?f s" i] d(1) lt assms(4) by simp
    moreover have "upd_buf i (\<lambda>x. x\<lparr>b_data := memdisk s n, b_valid := True\<rparr>) (taken i ?f s) = taken i (loaded s n) s"
    proof -
      have "loaded s n (bf s i) = (bf s i)\<lparr>b_dev := 1, b_blockno := n, b_valid := True, b_dirty := False, b_refcnt := 1, b_data := memdisk s n\<rparr>"
        unfolding loaded_def by (rule if_not_P [OF np])
      with lt show ?thesis by (auto simp: taken_def upd_buf_def intro!: bcache.equality arg_cong [of _ _ "list_update (bufs s) i"] buf.equality)
    qed
    ultimately show ?thesis using g lt by (simp add: bread_def)
  qed
qed

lemma view_eqI:
  assumes "bc_inv s H" "bc_inv s' H'"
    and "\<And>i. hit s n i \<Longrightarrow> hit s' n i \<and> b_data (bf s' i) = b_data (bf s i) \<or> (\<forall>j. \<not> hit s' n j) \<and> b_data (bf s i) = memdisk s' n"
    and "\<And>i. hit s' n i \<Longrightarrow> (\<forall>j. \<not> hit s n j) \<Longrightarrow> b_data (bf s' i) = memdisk s n" "memdisk s' n = memdisk s n"
  shows "view s' n = view s n"
proof (cases "\<exists>i. hit s n i")
  case True
  then obtain i where i: "hit s n i" ..
  note v = hit_view [OF assms(1) i]
  from assms(3) [OF i] show ?thesis
  proof
    assume "hit s' n i \<and> b_data (bf s' i) = b_data (bf s i)"
    then show ?thesis using hit_view [OF assms(2), of n i] v by simp
  next
    assume "(\<forall>j. \<not> hit s' n j) \<and> b_data (bf s i) = memdisk s' n"
    then show ?thesis using miss_view [OF bc_invD(5) [OF assms(2)]] v by simp
  qed
next
  case False
  then have v: "view s n = memdisk s n" using miss_view bc_invD(5) [OF assms(1)] by blast
  show ?thesis
  proof (cases "\<exists>i. hit s' n i")
    case True
    then obtain i where i: "hit s' n i" ..
    then show ?thesis using assms(4) False v hit_view [OF assms(2) i] by auto
  next
    case f: False
    then show ?thesis using v assms(5) miss_view [OF bc_invD(5) [OF assms(2)]] by simp
  qed
qed

text \<open>One step changes one buffer, apart from the links.\<close>

definition core :: "buf \<Rightarrow> buf" where
  "core x = x\<lparr>b_prev := 0, b_next := 0\<rparr>"

lemma coreD:
  assumes "core x = core y"
  shows "b_dev x = b_dev y" "b_blockno x = b_blockno y" "b_valid x = b_valid y" "b_dirty x = b_dirty y" "b_refcnt x = b_refcnt y"
    "b_data x = b_data y"
  using assms by (cases x; cases y; simp add: core_def)+

lemma bc_inv_step:
  assumes "bc_inv s H" "i < NBUF" "\<And>j. j < NBUF \<Longrightarrow> core (bf s' j) = core (if j = i then x else bf s j)"
    and "\<exists>xs. order (bufs s') xs \<and> set xs = {..<NBUF}" "held s' = []" "cur s' \<noteq> None" "disksize s' = disksize s"
    and H: "H' \<subseteq> {..<NBUF}" "\<And>j. j \<noteq> i \<Longrightarrow> j \<in> H' \<longleftrightarrow> j \<in> H"
    and "\<And>j. j \<noteq> i \<Longrightarrow> sl_locked (sleeplocks s' (L_buf j)) = sl_locked (sleeplocks s (L_buf j))"
    and m: "\<And>n. n \<noteq> b_blockno x \<Longrightarrow> memdisk s' n = memdisk s n" "length (memdisk s' (b_blockno x)) = BSIZE"
    and x: "length (b_data x) = BSIZE" "b_dev x = 1" "b_valid x" "b_blockno x < disksize s"
    and u: "\<And>j. hit s (b_blockno x) j \<Longrightarrow> j = i"
    and r: "if i \<in> H' then b_refcnt x = 1 \<and> sl_locked (sleeplocks s' (L_buf i))
       else b_refcnt x = 0 \<and> \<not> sl_locked (sleeplocks s' (L_buf i)) \<and> (b_dirty x \<or> b_data x = memdisk s' (b_blockno x))"
  shows "bc_inv s' H'"
proof -
  note d = bc_invD [OF assms(1)]
  have c: "b_dev (bf s' j) = b_dev (if j = i then x else bf s j)" "b_blockno (bf s' j) = b_blockno (if j = i then x else bf s j)"
    "b_valid (bf s' j) = b_valid (if j = i then x else bf s j)" "b_dirty (bf s' j) = b_dirty (if j = i then x else bf s j)"
    "b_refcnt (bf s' j) = b_refcnt (if j = i then x else bf s j)" "b_data (bf s' j) = b_data (if j = i then x else bf s j)"
    if "j < NBUF" for j
    using coreD [OF assms(3) [OF that]] by simp_all
  have ml: "length (memdisk s' n) = BSIZE" for n using m d(4) by (cases "n = b_blockno x") auto
  have h: "hit s' n j \<longleftrightarrow> (if j = i then n = b_blockno x else hit s n j)" for n j
    using c [of j] assms(2) x(2) by (auto simp: hit_def)
  have un: "\<forall>n k. hit s' n k \<longrightarrow> (\<forall>j. hit s' n j \<longrightarrow> k = j)"
    unfolding h using u d(11) by metis
  have f: "length (b_data (bf s' j)) = BSIZE \<and>
        (b_dev (bf s' j) = 1 \<longrightarrow> b_valid (bf s' j) \<and> b_blockno (bf s' j) < disksize s') \<and>
        (b_dirty (bf s' j) \<longrightarrow> b_dev (bf s' j) = 1) \<and>
        (if j \<in> H' then b_refcnt (bf s' j) = 1 \<and> sl_locked (sleeplocks s' (L_buf j)) \<and> b_dev (bf s' j) = 1
         else b_refcnt (bf s' j) = 0 \<and> \<not> sl_locked (sleeplocks s' (L_buf j)) \<and>
           (b_dev (bf s' j) = 1 \<and> \<not> b_dirty (bf s' j) \<longrightarrow> b_data (bf s' j) = memdisk s' (b_blockno (bf s' j))))" if j: "j < NBUF" for j
  proof (cases "j = i")
    case True
    then show ?thesis using c [OF j] x r assms(7) by auto
  next
    case False
    have "b_blockno (bf s j) \<noteq> b_blockno x" if "b_dev (bf s j) = 1"
      using u [of j] False j that by (auto simp: hit_def)
    then show ?thesis
      using c [OF j] False j d(6-10) [of j] H(2) [OF False] assms(7) assms(10) [OF False] m(1) by auto
  qed
  show ?thesis unfolding bc_inv_def using assms(4-6) H(1) ml f un by blast
qed

lemma source_cases:
  assumes "set xs = {..<NBUF}" "source s n xs = Some i"
  shows "i < NBUF" "hit s n i \<or> (\<forall>j. \<not> hit s n j) \<and> \<not> b_dirty (bf s i)"
proof -
  have "i < NBUF \<and> (hit s n i \<or> (\<forall>j. \<not> hit s n j) \<and> \<not> b_dirty (bf s i))"
  proof (cases "List.find (\<lambda>i. b_dev (bf s i) = 1 \<and> b_blockno (bf s i) = n) xs")
    case (Some j)
    then show ?thesis using assms find_in [OF Some] by (auto simp: source_def hit_def)
  next
    case None
    then have "List.find (\<lambda>i. b_refcnt (bf s i) = 0 \<and> \<not> b_dirty (bf s i)) (rev xs) = Some i" using assms(2) by (simp add: source_def)
    from find_in [OF this] None assms(1) show ?thesis unfolding find_None_iff hit_def by auto
  qed
  then show "i < NBUF" "hit s n i \<or> (\<forall>j. \<not> hit s n j) \<and> \<not> b_dirty (bf s i)" by auto
qed

lemma taken_inv:
  assumes "bc_inv s H" "order (bufs s) xs" "set xs = {..<NBUF}" "n < disksize s" "source s n xs = Some i" "i \<notin> H"
  shows "bc_inv (taken i (loaded s n) s) (insert i H)" "view (taken i (loaded s n) s) = view s"
proof -
  note d = bc_invD [OF assms(1)]
  note src = source_cases [OF assms(3,5)]
  let ?s = "taken i (loaded s n) s"
  have lt: "i < length (bufs s)" using d(5) src(1) by simp
  have b: "bf ?s j = (if j = i then loaded s n (bf s i) else bf s j)" for j using lt by (simp add: nth_list_update)
  have o: "order (bufs ?s) xs" using order_keep [OF assms(2), of "loaded s n" i] by simp
  have l: "length (b_data (loaded s n (bf s i))) = BSIZE" "b_valid (loaded s n (bf s i))"
    using src d(4,6,7) by (auto simp: loaded_def)
  show inv: "bc_inv ?s (insert i H)"
  proof (rule bc_inv_step [OF assms(1) src(1), of ?s "loaded s n (bf s i)"])
    show "\<And>j. j < NBUF \<Longrightarrow> core (bf ?s j) = core (if j = i then loaded s n (bf s i) else bf s j)" by (simp only: b)
    show "\<And>j. hit s (b_blockno (loaded s n (bf s i))) j \<Longrightarrow> j = i" using src(2) d(11) by simp blast
  qed (use o assms(3,4) d src(1) l in auto)
  show "view ?s = view s"
  proof
    fix m
    show "view ?s m = view s m"
    proof (rule view_eqI [OF assms(1) inv])
      fix j assume j: "hit s m j"
      show "hit ?s m j \<and> b_data (bf ?s j) = b_data (bf s j) \<or> (\<forall>k. \<not> hit ?s m k) \<and> b_data (bf s j) = memdisk ?s m"
      proof (cases "j = i \<and> m \<noteq> n")
        case True
        then have "\<not> hit s n i" using j by (auto simp: hit_def)
        then have "\<not> b_dirty (bf s i)" using src(2) by blast
        then have "b_data (bf s i) = memdisk s m" using d(10) [OF src(1) assms(6)] True j by (simp add: hit_def)
        moreover have "\<not> hit ?s m k" for k
          using d(11) [OF j, of k] True by (cases "k = i") (auto simp: hit_def b simp del: taken_simps)
        ultimately show ?thesis using True by simp
      next
        case False
        then show ?thesis using j src(1) unfolding hit_def b by (auto simp: loaded_def)
      qed
    next
      fix j assume "hit ?s m j" "\<forall>k. \<not> hit s m k"
      then show "b_data (bf ?s j) = memdisk s m" using src(1) unfolding hit_def b by (auto simp: loaded_def split: if_splits)
    qed simp
  qed
qed

text \<open>The blocks that wait to be written, and whether some buffer can be recycled.\<close>

definition pending :: "'a bcache_scheme \<Rightarrow> u32 set" where
  "pending s = {n. \<exists>i. hit s n i \<and> b_dirty (bf s i)}"

definition room :: "'a bcache_scheme \<Rightarrow> nat set \<Rightarrow> bool" where
  "room s H \<longleftrightarrow> (\<exists>i < NBUF. i \<notin> H \<and> \<not> b_dirty (bf s i))"

lemma bread_ok:
  assumes "bc_inv s H" "n < disksize s" "room s H" "\<And>i. i \<in> H \<Longrightarrow> b_blockno (bf s i) \<noteq> n"
  shows "\<exists>i s'. bread 1 n s = Ok (i, s') \<and> i < NBUF \<and> i \<notin> H \<and> bc_inv s' (insert i H) \<and> bkeep s s' \<and> view s' = view s \<and>
    b_blockno (bf s' i) = n \<and> b_data (bf s' i) = view s n \<and> (\<forall>j. j \<noteq> i \<longrightarrow> bf s' j = bf s j) \<and>
    pending s' = pending s \<and> (b_dirty (bf s' i) \<or> view s n = memdisk s n)"
proof -
  note d = bc_invD [OF assms(1)]
  obtain xs where xs: "order (bufs s) xs" "set xs = {..<NBUF}" using assms(1) by (auto simp: bc_inv_def)
  have "\<exists>i. source s n xs = Some i \<and> i \<notin> H"
  proof (cases "List.find (\<lambda>i. b_dev (bf s i) = 1 \<and> b_blockno (bf s i) = n) xs")
    case (Some i)
    then show ?thesis using find_in [OF Some] assms(4) by (auto simp: source_def)
  next
    case None
    from assms(3) obtain k where k: "k < NBUF" "k \<notin> H" "\<not> b_dirty (bf s k)" by (auto simp: room_def)
    then have "b_refcnt (bf s k) = 0 \<and> \<not> b_dirty (bf s k)" using d(10) by blast
    then obtain i where i: "List.find (\<lambda>i. b_refcnt (bf s i) = 0 \<and> \<not> b_dirty (bf s i)) (rev xs) = Some i"
      using find_ex [of k "rev xs" "\<lambda>i. b_refcnt (bf s i) = 0 \<and> \<not> b_dirty (bf s i)"] k(1) xs(2) by auto
    then have "i \<notin> H" using find_in [OF i] d(9) [of i] by auto
    with None i show ?thesis by (auto simp: source_def)
  qed
  then obtain i where i: "source s n xs = Some i" "i \<notin> H" by blast
  note src = source_cases [OF xs(2) i(1)]
  note t = taken_inv [OF assms(1) xs assms(2) i]
  have lt: "i < length (bufs s)" using d(5) src(1) by simp
  have h: "hit (taken i (loaded s n) s) n i" using src(1) lt by (simp add: hit_def)
  have b: "bf (taken i (loaded s n) s) j = (if j = i then loaded s n (bf s i) else bf s j)" for j using lt by (simp add: nth_list_update)
  have ld: "b_dirty (loaded s n (bf s i)) \<longleftrightarrow> hit s n i \<and> b_dirty (bf s i)" using src(1) by (auto simp: loaded_def hit_def)
  have "b_dirty (bf s i) \<Longrightarrow> hit s m i \<longleftrightarrow> m = n" for m using src by (auto simp: hit_def)
  then have "hit (taken i (loaded s n) s) m j \<and> b_dirty (bf (taken i (loaded s n) s) j) \<longleftrightarrow> hit s m j \<and> b_dirty (bf s j)" for m j
    using src(1) ld unfolding hit_def b by (cases "j = i") auto
  then have p: "pending (taken i (loaded s n) s) = pending s" unfolding pending_def by blast
  have "b_dirty (loaded s n (bf s i)) \<or> view s n = memdisk s n"
  proof (cases "hit s n i")
    case True
    then show ?thesis using ld hit_view [OF assms(1) True] d(10) [OF src(1) i(2)] by (auto simp: hit_def)
  next
    case False
    then show ?thesis using src(2) miss_view [OF d(5)] by blast
  qed
  then show ?thesis
    using bread_eval [OF assms(1) xs assms(2) i] t src(1) i(2) lt p hit_view [OF t(1) h] t(2)
    by (intro exI [of _ i] exI [of _ "taken i (loaded s n) s"]) simp
qed

subsection \<open>Changing, writing and releasing a block\<close>

text \<open>A change to a buffer that is held, and perhaps to its block on the disk.\<close>

lemma held_upd:
  assumes "bc_inv s H" "i \<in> H" "bufs s' = (bufs s)[i := x]" "length (b_data x) = BSIZE"
    and "b_dev x = b_dev (bf s i)" "b_blockno x = b_blockno (bf s i)" "b_valid x = b_valid (bf s i)" "b_refcnt x = b_refcnt (bf s i)"
    and "b_next x = b_next (bf s i)" "b_prev x = b_prev (bf s i)"
    and "held s' = held s" "cur s' = cur s" "disksize s' = disksize s" "sleeplocks s' = sleeplocks s"
    and "\<And>n. n \<noteq> b_blockno (bf s i) \<Longrightarrow> memdisk s' n = memdisk s n" "length (memdisk s' (b_blockno (bf s i))) = BSIZE"
  shows "bc_inv s' H" "view s' = (view s)(b_blockno (bf s i) := b_data x)"
proof -
  note iv = bc_invD [OF assms(1)]
  note i = iv(9) [OF assms(2)]
  have lt: "i < length (bufs s)" using iv(5) i by simp
  obtain xs where xs: "order (bufs s) xs" "set xs = {..<NBUF}" using assms(1) by (auto simp: bc_inv_def)
  have o: "order (bufs s') xs" using order_keep [OF xs(1), of "\<lambda>_. x" i] assms(3,9,10) by simp
  have b: "bf s' j = (if j = i then x else bf s j)" for j using lt assms(3) by (simp add: nth_list_update)
  have hi: "hit s (b_blockno (bf s i)) i" using i by (simp add: hit_def)
  show inv: "bc_inv s' H"
  proof (rule bc_inv_step [OF assms(1), of i s' x])
    show "\<And>j. j < NBUF \<Longrightarrow> core (bf s' j) = core (if j = i then x else bf s j)" by (simp only: b)
    show "\<And>j. hit s (b_blockno x) j \<Longrightarrow> j = i" using iv(11) [OF hi] assms(6) by auto
  qed (use o xs(2) i iv(1-3) assms iv(7) [of i] in auto)
  have h: "hit s' n j \<longleftrightarrow> hit s n j" for n j unfolding hit_def b using assms(5,6) by simp
  show "view s' = (view s)(b_blockno (bf s i) := b_data x)"
  proof
    fix n
    show "view s' n = ((view s)(b_blockno (bf s i) := b_data x)) n"
    proof (cases "n = b_blockno (bf s i)")
      case True
      then have "view s' n = b_data (bf s' i)" using hit_view [OF inv] h hi by blast
      then show ?thesis using True b by simp
    next
      case False
      have "view s' n = view s n"
        by (rule view_eqI [OF assms(1) inv]) (use False h b assms(15) in \<open>auto simp: hit_def\<close>)
      then show ?thesis using False by simp
    qed
  qed
qed

lemma held_view: "bc_inv s H \<Longrightarrow> i \<in> H \<Longrightarrow> view s (b_blockno (bf s i)) = b_data (bf s i)"
  using bc_invD(9) [of s H i] hit_view [of s H "b_blockno (bf s i)" i] by (simp add: hit_def)

lemma upd_data:
  assumes "bc_inv s H" "i \<in> H" "length d = BSIZE"
  shows "bc_inv (upd_buf i (\<lambda>x. x\<lparr>b_data := d\<rparr>) s) H"
    "view (upd_buf i (\<lambda>x. x\<lparr>b_data := d\<rparr>) s) = (view s)(b_blockno (bf s i) := d)"
  using held_upd [OF assms(1,2), of "upd_buf i (\<lambda>x. x\<lparr>b_data := d\<rparr>) s" "(bf s i)\<lparr>b_data := d\<rparr>"] assms(3)
    bc_invD(4) [OF assms(1)] by simp_all

lemma set_dirty:
  assumes "bc_inv s H" "i \<in> H"
  shows "bc_inv (upd_buf i (\<lambda>x. x\<lparr>b_dirty := d\<rparr>) s) H" "view (upd_buf i (\<lambda>x. x\<lparr>b_dirty := d\<rparr>) s) = view s"
  using held_upd [OF assms(1,2), of "upd_buf i (\<lambda>x. x\<lparr>b_dirty := d\<rparr>) s" "(bf s i)\<lparr>b_dirty := d\<rparr>"]
    bc_invD(4) [OF assms(1)] bc_invD(6) [OF assms(1), of i] bc_invD(9) [OF assms] held_view [OF assms] by (auto simp: fun_eq_iff)

lemma bwrite_ok:
  assumes "bc_inv s H" "i \<in> H"
  shows "\<exists>s'. bwrite i s = Ok s' \<and> bc_inv s' H \<and> view s' = view s \<and> bufs s' = (bufs s)[i := (bf s i)\<lparr>b_dirty := False\<rparr>] \<and>
    s' = s\<lparr>bufs := bufs s', memdisk := (memdisk s)(b_blockno (bf s i) := b_data (bf s i)),
      dwrites := dwrites s @ [(b_blockno (bf s i), b_data (bf s i))]\<rparr>"
proof -
  note iv = bc_invD [OF assms(1)]
  note i = iv(9) [OF assms(2)]
  have lt: "i < length (bufs s)" using iv(5) i by simp
  let ?s = "s\<lparr>bufs := (bufs s)[i := (bf s i)\<lparr>b_dirty := False\<rparr>], memdisk := (memdisk s)(b_blockno (bf s i) := b_data (bf s i)),
      dwrites := dwrites s @ [(b_blockno (bf s i), b_data (bf s i))]\<rparr>"
  have v: "(bf s i)\<lparr>b_dirty := False, b_valid := True\<rparr> = (bf s i)\<lparr>b_dirty := False\<rparr>"
    using i by (cases "bf s i") simp
  have e: "bwrite i s = Ok ?s"
    using iv(1) i iv(7) [of i] lt
    by (simp add: bwrite_def iderw_def holdingsleep_eval Let_def upd_buf_def not_le v)
  have "bc_inv ?s H" "view ?s = (view s)(b_blockno (bf s i) := b_data (bf s i))"
    using held_upd [OF assms(1,2), of ?s "(bf s i)\<lparr>b_dirty := False\<rparr>"] iv(6) [of i] i by simp_all
  moreover have "(view s)(b_blockno (bf s i) := b_data (bf s i)) = view s" using held_view [OF assms] by auto
  ultimately show ?thesis using e by (intro exI [of _ ?s]) simp
qed

lemma core_links [simp]: "core (x\<lparr>b_next := a\<rparr>) = core x" "core (x\<lparr>b_prev := a\<rparr>) = core x"
  by (simp_all add: core_def)

lemma core_upd: "core (f (bf s i)) = core (bf s i) \<Longrightarrow> core (bf (upd_buf i f s) j) = core (bf s j)"
  by (simp add: nth_upd_keep [of core])

lemma core_move [simp]: "core (bf (push_front b s) j) = core (bf s j)" "core (bf (unlink_buf b s) j) = core (bf s j)"
  unfolding push_front_def unlink_buf_def Let_def by (simp_all add: core_upd del: upd_buf_simps)

lemma move_frame:
  "push_front b s = s\<lparr>bufs := bufs (push_front b s)\<rparr>" "unlink_buf b s = s\<lparr>bufs := bufs (unlink_buf b s)\<rparr>"
  by (simp_all add: push_front_def unlink_buf_def Let_def upd_buf_def)

text \<open>Releasing moves the buffer to the front.\<close>

lemma release_order:
  assumes "order (bufs s) xs" "i \<in> set xs"
  shows "order (bufs (push_front i (unlink_buf i s))) (i # remove1 i xs)"
proof -
  obtain ys zs where xs: "xs = ys @ i # zs" "i \<notin> set ys" using split_list_first [OF assms(2)] by blast
  have "distinct xs" "i < NBUF" using assms order_bounds [OF assms] by (auto simp: order_def)
  then show ?thesis
    using push_front_order [OF unlink_order [of s ys i zs], of i] assms(1) xs by (simp add: remove1_append)
qed

lemma brelse_ok:
  assumes "bc_inv s H" "i \<in> H" "b_dirty (bf s i) \<or> b_data (bf s i) = memdisk s (b_blockno (bf s i))"
  shows "\<exists>s'. brelse i s = Ok s' \<and> bc_inv s' (H - {i}) \<and> bkeep s s' \<and> view s' = view s \<and>
    (\<forall>j. core (bf s' j) = core (if j = i then (bf s i)\<lparr>b_refcnt := 0\<rparr> else bf s j)) \<and>
    (\<forall>xs. order (bufs s) xs \<and> set xs = {..<NBUF} \<longrightarrow> order (bufs s') (i # remove1 i xs))"
proof -
  note iv = bc_invD [OF assms(1)]
  note i = iv(9) [OF assms(2)]
  have lt: "i < length (bufs s)" using iv(5) i by simp
  define s1 where "s1 = wakeup1 (Some (Ch_sleeplock (L_buf i))) (put_sl (L_buf i) ((sleeplocks s (L_buf i))\<lparr>sl_locked := False, sl_pid := 0\<rparr>) s)"
  define s2 where "s2 = upd_buf i (\<lambda>x. x\<lparr>b_refcnt := 0\<rparr>) s1"
  define s3 where "s3 = push_front i (unlink_buf i s2)"
  have f1: "bufs s1 = bufs s" "held s1 = []" "cur s1 = cur s" "memdisk s1 = memdisk s" "disksize s1 = disksize s" "dwrites s1 = dwrites s"
    using iv(1) by (simp_all add: s1_def wakeup1_def)
  have b2: "bf s2 j = (if j = i then (bf s i)\<lparr>b_refcnt := 0\<rparr> else bf s j)" for j using lt by (simp add: s2_def f1 nth_list_update)
  have c3: "core (bf s3 j) = core (if j = i then (bf s i)\<lparr>b_refcnt := 0\<rparr> else bf s j)" for j
    unfolding s3_def by (simp add: b2)
  have e: "brelse i s = Ok s3"
  proof -
    have r: "releasesleep (L_buf i) s = Ok s1" using releasesleep_eval [of "L_buf i" s] iv(1) by (simp add: s1_def)
    have l: "lock L_bcache s1 = Ok (s1\<lparr>held := [L_bcache], ncli := ncli s1 + 1\<rparr>)" using f1 by (simp add: lock_def)
    have m: "upd_buf i (\<lambda>x. x\<lparr>b_refcnt := b_refcnt x - 1\<rparr>) (s1\<lparr>held := [L_bcache], ncli := ncli s1 + 1\<rparr>) =
        s2\<lparr>held := [L_bcache], ncli := ncli s1 + 1\<rparr>" using i by (simp add: s2_def upd_buf_def f1)
    have p: "push_front i (unlink_buf i (s2\<lparr>held := [L_bcache], ncli := ncli s1 + 1\<rparr>)) = s3\<lparr>held := [L_bcache], ncli := ncli s1 + 1\<rparr>"
      by (simp add: s3_def push_front_def unlink_buf_def Let_def upd_buf_def)
    have n: "held s3 = []" "ncli s3 = ncli s1"
      unfolding s3_def by (subst move_frame, simp, subst move_frame, simp add: s2_def f1)+
    have u: "s3\<lparr>held := [], ncli := ncli s1\<rparr> = s3" unfolding n(2) [symmetric] n(1) [symmetric] by simp
    have z: "b_refcnt ((bufs s1)[i := (bf s1 i)\<lparr>b_refcnt := b_refcnt (bf s1 i) - 1\<rparr>] ! i) = 0" using lt i by (simp add: f1)
    show ?thesis
      using i iv(1) by (simp add: brelse_def holdingsleep_eval r l m p u z Let_def del: One_nat_def)
  qed
  have ord: "order (bufs s3) (i # remove1 i xs)" if "order (bufs s) xs" "set xs = {..<NBUF}" for xs
  proof -
    have "order (bufs s2) xs" using order_keep [OF that(1), of "\<lambda>x. x\<lparr>b_refcnt := 0\<rparr>" i] by (simp add: s2_def f1)
    from release_order [OF this] that(2) i show ?thesis by (simp add: s3_def)
  qed
  obtain xs where xs: "order (bufs s) xs" "set xs = {..<NBUF}" using assms(1) by (auto simp: bc_inv_def)
  have fr: "s3 = s1\<lparr>bufs := bufs s3\<rparr>"
    unfolding s3_def by (subst move_frame, subst (2) move_frame) (simp add: s2_def upd_buf_def)
  have f3: "held s3 = []" "cur s3 = cur s" "memdisk s3 = memdisk s" "disksize s3 = disksize s" "sleeplocks s3 = sleeplocks s1"
    by (subst fr, simp add: f1)+
  have k: "bkeep s s3"
    unfolding bkeep_def
    by (intro exI [of _ "bufs s3"] exI [of _ "sleeplocks s1"] exI [of _ "procs s1"], subst fr)
      (auto simp: s1_def wakeup1_def woken_def stateless_def intro!: bcache.equality)
  have hi: "hit s (b_blockno (bf s i)) i" using i by (simp add: hit_def)
  have inv: "bc_inv s3 (H - {i})"
  proof (rule bc_inv_step [OF assms(1), of i s3 "(bf s i)\<lparr>b_refcnt := 0\<rparr>"])
    show "\<exists>ys. order (bufs s3) ys \<and> set ys = {..<NBUF}"
      using ord [OF xs] xs i by (intro exI [of _ "i # remove1 i xs"]) (auto simp: order_def)
    show "\<And>j. hit s (b_blockno ((bf s i)\<lparr>b_refcnt := 0\<rparr>)) j \<Longrightarrow> j = i" using iv(11) [OF hi] by auto
    show "\<And>j. j \<noteq> i \<Longrightarrow> sl_locked (sleeplocks s3 (L_buf j)) = sl_locked (sleeplocks s (L_buf j))"
      by (simp add: f3 s1_def)
    show "if i \<in> H - {i} then b_refcnt ((bf s i)\<lparr>b_refcnt := 0\<rparr>) = 1 \<and> sl_locked (sleeplocks s3 (L_buf i))
      else b_refcnt ((bf s i)\<lparr>b_refcnt := 0\<rparr>) = 0 \<and> \<not> sl_locked (sleeplocks s3 (L_buf i)) \<and>
        (b_dirty ((bf s i)\<lparr>b_refcnt := 0\<rparr>) \<or> b_data ((bf s i)\<lparr>b_refcnt := 0\<rparr>) = memdisk s3 (b_blockno ((bf s i)\<lparr>b_refcnt := 0\<rparr>)))"
      using assms(3) by (simp add: f3 s1_def)
  qed (use c3 f3 i iv(2-4) iv(6,7) [of i] in auto)
  have "view s3 = view s"
  proof
    fix n
    have "hit s3 n j \<longleftrightarrow> hit s n j" "b_data (bf s3 j) = b_data (bf s j)" for j
      using coreD [OF c3 [of j]] by (auto simp: hit_def)
    then show "view s3 n = view s n" by (intro view_eqI [OF assms(1) inv]) (auto simp: f3)
  qed
  with e inv k c3 ord show ?thesis by blast
qed

subsection \<open>Blocks that wait to be written\<close>

lemma pending_iff: "bc_inv s H \<Longrightarrow> i < NBUF \<Longrightarrow> b_dev (bf s i) = 1 \<Longrightarrow> b_blockno (bf s i) \<in> pending s \<longleftrightarrow> b_dirty (bf s i)"
  using bc_invD(11) [of s H] by (fastforce simp: pending_def hit_def)

lemma pending_room:
  assumes "bc_inv s H" "card (pending s) + card H < NBUF"
  shows "room s H"
proof (rule ccontr)
  assume "\<not> room s H"
  then have a: "\<And>i. i < NBUF \<Longrightarrow> i \<in> H \<or> b_dirty (bf s i)" by (auto simp: room_def)
  let ?B = "{i. i < NBUF \<and> b_dirty (bf s i)}"
  note d = bc_invD [OF assms(1)]
  have inj: "inj_on (\<lambda>i. b_blockno (bf s i)) ?B"
  proof (rule inj_onI)
    fix i j assume ij: "i \<in> ?B" "j \<in> ?B" "b_blockno (bf s i) = b_blockno (bf s j)"
    then have "hit s (b_blockno (bf s i)) i" "hit s (b_blockno (bf s i)) j" using d(8) by (auto simp: hit_def)
    then show "i = j" by (rule d(11))
  qed
  have "(\<lambda>i. b_blockno (bf s i)) ` ?B = pending s"
    using d(8) by (auto simp: pending_def hit_def image_iff)
  then have c: "card (pending s) = card ?B" using card_image [OF inj] by simp
  have fin: "finite H" using d(3) finite_subset by blast
  have "{..<NBUF} \<subseteq> ?B \<union> H" using a by auto
  then have "NBUF \<le> card (?B \<union> H)" using card_mono [of "?B \<union> H" "{..<NBUF}"] fin by simp
  also have "\<dots> \<le> card ?B + card H" by (rule card_Un_le)
  finally show False using c assms(2) by simp
qed

lemma bread_full:
  assumes "bc_inv s H" "n < disksize s" "card (pending s) + card H < NBUF" "\<And>i. i \<in> H \<Longrightarrow> b_blockno (bf s i) \<noteq> n"
  shows "\<exists>i s'. bread 1 n s = Ok (i, s') \<and> i \<notin> H \<and> bc_inv s' (insert i H) \<and> bkeep s s' \<and> view s' = view s \<and>
    b_blockno (bf s' i) = n \<and> b_data (bf s' i) = view s n \<and> (\<forall>j. j \<noteq> i \<longrightarrow> bf s' j = bf s j) \<and> pending s' = pending s \<and>
    (b_dirty (bf s' i) \<or> view s n = memdisk s n)"
  using bread_ok [OF assms(1,2) pending_room [OF assms(1,3)] assms(4)] by blast

lemma pending_upd:
  assumes "bc_inv s H" "i \<in> H" "bufs s' = (bufs s)[i := x]" "b_dev x = b_dev (bf s i)" "b_blockno x = b_blockno (bf s i)"
  shows "pending s' = (if b_dirty x then insert (b_blockno (bf s i)) (pending s) else pending s - {b_blockno (bf s i)})"
proof -
  note d = bc_invD [OF assms(1)] and i = bc_invD(9) [OF assms(1,2)]
  have lt: "i < length (bufs s)" using d(5) i by simp
  have b: "bf s' j = (if j = i then x else bf s j)" for j using lt assms(3) by (simp add: nth_list_update)
  have h: "hit s' m j \<longleftrightarrow> hit s m j" for m j unfolding hit_def b using assms(4,5) by simp
  have hi: "hit s m i \<longleftrightarrow> m = b_blockno (bf s i)" for m using i by (auto simp: hit_def)
  have e: "m \<in> pending s' \<longleftrightarrow> (if m = b_blockno (bf s i) then b_dirty x else m \<in> pending s)" for m
  proof (cases "m = b_blockno (bf s i)")
    case True
    then have "hit s m j \<longleftrightarrow> j = i" for j using hi d(11) [of m i j] by auto
    then show ?thesis using True by (simp add: pending_def h b)
  next
    case False
    then have "hit s m j \<Longrightarrow> j \<noteq> i" for j using hi by auto
    then show ?thesis using False by (auto simp: pending_def h b)
  qed
  show ?thesis by (rule set_eqI, cases "b_dirty x") (simp_all add: e)
qed

lemma pending_core: "(\<And>j. core (bf s' j) = core (if j = i then (bf s i)\<lparr>b_refcnt := r\<rparr> else bf s j)) \<Longrightarrow> pending s' = pending s"
proof -
  assume c: "\<And>j. core (bf s' j) = core (if j = i then (bf s i)\<lparr>b_refcnt := r\<rparr> else bf s j)"
  have f: "b_dev (bf s' j) = b_dev (bf s j)" "b_blockno (bf s' j) = b_blockno (bf s j)" "b_dirty (bf s' j) = b_dirty (bf s j)" for j
    using coreD(1,2,4) [OF c [of j]] by (cases "j = i"; simp)+
  show ?thesis by (simp add: pending_def hit_def f)
qed

lemma brelse_full:
  assumes "bc_inv s H" "i \<in> H" "b_dirty (bf s i) \<or> b_data (bf s i) = memdisk s (b_blockno (bf s i))"
  shows "\<exists>s'. brelse i s = Ok s' \<and> bc_inv s' (H - {i}) \<and> bkeep s s' \<and> view s' = view s \<and> pending s' = pending s \<and>
    (\<forall>j. j \<noteq> i \<longrightarrow> core (bf s' j) = core (bf s j))"
proof -
  from brelse_ok [OF assms] obtain s' where s': "brelse i s = Ok s'" "bc_inv s' (H - {i})" "bkeep s s'" "view s' = view s"
    "\<And>j. core (bf s' j) = core (if j = i then (bf s i)\<lparr>b_refcnt := 0\<rparr> else bf s j)" by blast
  from pending_core [OF s'(5)] s' show ?thesis by auto
qed

subsection \<open>Starting the cache\<close>

lemma binit_loop_core: "core (bf (binit_loop n s) j) = core (bf s j)"
  by (induction n) (simp_all add: initsleeplock_def)

lemma binit_loop_frame:
  "\<exists>bs sl. binit_loop n s = s\<lparr>bufs := bs, sleeplocks := sl\<rparr> \<and> (\<forall>i < n. \<not> sl_locked (sl (L_buf i)))"
proof (induction n)
  case (Suc n)
  then obtain bs sl where e: "binit_loop n s = s\<lparr>bufs := bs, sleeplocks := sl\<rparr>" "\<forall>i < n. \<not> sl_locked (sl (L_buf i))" by blast
  define t where "t = initsleeplock (L_buf n) ''buffer'' (s\<lparr>bufs := bs, sleeplocks := sl\<rparr>)"
  have "push_front n t = s\<lparr>bufs := bufs (push_front n t), sleeplocks := sl(L_buf n := \<lparr>sl_locked = False, sl_name = ''buffer'', sl_pid = 0\<rparr>)\<rparr>"
    by (subst move_frame) (simp add: t_def initsleeplock_def)
  moreover have "binit_loop (Suc n) s = push_front n t" by (simp add: e(1) t_def)
  moreover have "\<forall>i < Suc n. \<not> sl_locked ((sl(L_buf n := \<lparr>sl_locked = False, sl_name = ''buffer'', sl_pid = 0\<rparr>)) (L_buf i))"
    using e(2) by (auto simp: less_Suc_eq)
  ultimately show ?case by (intro exI conjI) (rule trans, assumption+)
next
  case 0
  show ?case by (rule exI [of _ "bufs s"], rule exI [of _ "sleeplocks s"]) simp
qed

lemma binit_inv:
  assumes "length (bufs s) = Suc NBUF" "held s = []" "cur s \<noteq> None" "\<And>n. length (memdisk s n) = BSIZE"
    and "\<And>i. i < NBUF \<Longrightarrow> length (b_data (bf s i)) = BSIZE \<and> b_dev (bf s i) = 0 \<and> \<not> b_dirty (bf s i) \<and> b_refcnt (bf s i) = 0"
  shows "bc_inv (binit s) {}" "view (binit s) = memdisk s" "pending (binit s) = {}" "\<exists>bs sl. binit s = s\<lparr>bufs := bs, sleeplocks := sl\<rparr>"
proof -
  define t where "t = upd_buf HEAD (\<lambda>x. x\<lparr>b_prev := HEAD, b_next := HEAD\<rparr>) s"
  have ct: "core (bf t j) = core (bf s j)" for j unfolding t_def by (rule core_upd) (simp add: core_def)
  have e: "binit s = binit_loop NBUF t" by (simp add: binit_def t_def)
  from binit_loop_frame [of NBUF t] obtain bs sl where f: "binit s = t\<lparr>bufs := bs, sleeplocks := sl\<rparr>" "\<forall>i < NBUF. \<not> sl_locked (sl (L_buf i))"
    unfolding e by blast
  then show "\<exists>bs sl. binit s = s\<lparr>bufs := bs, sleeplocks := sl\<rparr>" by (auto simp: t_def upd_buf_def)
  have c: "core (bf (binit s) j) = core (bf s j)" for j unfolding e by (simp add: binit_loop_core ct)
  note cd = coreD [OF c]
  have no: "\<not> hit (binit s) n i" for n i using assms(5) [of i] cd [of i] by (auto simp: hit_def)
  have o: "order (bufs (binit s)) (rev [0..<NBUF])" by (rule binit_order [OF assms(1)])
  have fr: "held (binit s) = []" "cur (binit s) \<noteq> None" "memdisk (binit s) = memdisk s" "sleeplocks (binit s) = sl"
    using assms(2,3) by (simp_all add: f(1) t_def)
  show "bc_inv (binit s) {}"
    unfolding bc_inv_def fr(3,4) using o fr(1,2) assms(4,5) cd f(2) no
    by (intro conjI exI [of _ "rev [0..<NBUF]"]) (auto simp: atLeast_upt)
  show "view (binit s) = memdisk s"
    using miss_view [OF _ no] o fr(3) by (auto simp: order_def)
  show "pending (binit s) = {}" using no by (simp add: pending_def)
qed

subsection \<open>Properties\<close>

text \<open>
  C14: \<open>bread\<close> returns the block as the kernel last saw it. If no buffer has the block, the buffer that is given up is the least
  recently used of those that are neither in use nor waiting to be written; no cached change is lost and the
  disk is not written.
\<close>

theorem bread_lru:
  assumes "bc_inv s H" "order (bufs s) xs" "set xs = {..<NBUF}" "n < disksize s"
    and "\<exists>i < NBUF. i \<notin> H \<and> \<not> b_dirty (bf s i)" "\<forall>i \<in> H. b_blockno (bf s i) \<noteq> n"
  shows "\<exists>i s'. bread 1 n s = Ok (i, s') \<and> b_data (bf s' i) = view s n \<and> b_blockno (bf s' i) = n \<and> view s' = view s \<and>
    memdisk s' = memdisk s \<and> dwrites s' = dwrites s \<and>
    (hit s n i \<or> (\<forall>j. \<not> hit s n j) \<and> (\<exists>ys zs. xs = ys @ i # zs \<and> (\<forall>j \<in> set zs. b_refcnt (bf s j) \<noteq> 0 \<or> b_dirty (bf s j))))"
proof -
  have rm: "room s H" using assms(5) by (simp add: room_def)
  have nh: "\<And>i. i \<in> H \<Longrightarrow> b_blockno (bf s i) \<noteq> n" using assms(6) by blast
  from bread_ok [OF assms(1,4) rm nh] obtain i s' where
    i: "bread 1 n s = Ok (i, s')" "i \<notin> H" "bkeep s s'" "view s' = view s" "b_blockno (bf s' i) = n" "b_data (bf s' i) = view s n" by blast
  have "source s n xs = Some i"
  proof -
    note d = bc_invD [OF assms(1)]
    have "bread 1 n s = Ok (i, s') \<Longrightarrow> \<exists>s1. bget 1 n s = Ok (i, s1)"
      by (auto simp: bread_def bnd_eq_Inr split: prod.splits if_splits)
    with i(1) show ?thesis
      by (auto simp: bget_eval [OF d(1) assms(2)] source_def bnd_eq_Inr split: option.splits)
  qed
  note src = source_cases [OF assms(3) this]
  have "\<exists>ys zs. xs = ys @ i # zs \<and> (\<forall>j \<in> set zs. b_refcnt (bf s j) \<noteq> 0 \<or> b_dirty (bf s j))" if "\<forall>j. \<not> hit s n j"
  proof -
    have "List.find (\<lambda>i. b_dev (bf s i) = 1 \<and> b_blockno (bf s i) = n) xs = None"
      unfolding find_None_iff using that assms(3) by (auto simp: hit_def)
    then have "List.find (\<lambda>i. b_refcnt (bf s i) = 0 \<and> \<not> b_dirty (bf s i)) (rev xs) = Some i"
      using \<open>source s n xs = Some i\<close> by (simp add: source_def)
    then obtain k where k: "k < length xs" "i = rev xs ! k" "\<forall>j < k. \<not> (b_refcnt (bf s (rev xs ! j)) = 0 \<and> \<not> b_dirty (bf s (rev xs ! j)))"
      unfolding find_Some_iff by auto
    have "rev xs = take k (rev xs) @ i # drop (Suc k) (rev xs)" using k id_take_nth_drop [of k "rev xs"] by simp
    then have "xs = rev (drop (Suc k) (rev xs)) @ i # rev (take k (rev xs))"
      by (metis append.assoc append_Cons append_Nil rev.simps(2) rev_append rev_rev_ident)
    moreover have "\<forall>j \<in> set (rev (take k (rev xs))). b_refcnt (bf s j) \<noteq> 0 \<or> b_dirty (bf s j)"
      using k(1,3) by (auto simp: in_set_conv_nth)
    ultimately show ?thesis by blast
  qed
  with i src(2) bkeepD(1,3) [OF i(3)] show ?thesis by blast
qed

lemma shmtab_extend [simp]:
  "held (shmtab.extend r m) = held r" "ncli (shmtab.extend r m) = ncli r" "use_lock (shmtab.extend r m) = use_lock r"
  "freelist (shmtab.extend r m) = freelist r" "kend (shmtab.extend r m) = kend r" "mem (shmtab.extend r m) = mem r"
  "procs (shmtab.extend r m) = procs r" "cur (shmtab.extend r m) = cur r" "nextpid (shmtab.extend r m) = nextpid r"
  "initproc (shmtab.extend r m) = initproc r" "kpgdir (shmtab.extend r m) = kpgdir r"
  "cr3 (shmtab.extend r m) = cr3 r" "ts_esp0 (shmtab.extend r m) = ts_esp0 r" "queue (shmtab.extend r m) = queue r"
  "containers (shmtab.extend r m) = containers r" "sleeplocks (shmtab.extend r m) = sleeplocks r"
  "mutexes (shmtab.extend r m) = mutexes r" "pipes (shmtab.extend r m) = pipes r"
  "shm_infos (shmtab.extend r m) = shm_infos r" "kdata (shmtab.extend r m) = kdata r"
  "bufs (shmtab.extend r (bcache.fields v0 v1 v2 v3)) = v0"
  "memdisk (shmtab.extend r (bcache.fields v0 v1 v2 v3)) = v1"
  "disksize (shmtab.extend r (bcache.fields v0 v1 v2 v3)) = v2"
  "dwrites (shmtab.extend r (bcache.fields v0 v1 v2 v3)) = v3"
  by (simp_all add: shmtab.defs bcache.defs)

definition empty_buf :: buf where
  "empty_buf = \<lparr>b_valid = False, b_dirty = False, b_dev = 0, b_blockno = 0, b_refcnt = 0, b_prev = 0, b_next = 0, b_data = replicate BSIZE 0\<rparr>"

definition demo_raw :: bcache where
  "demo_raw = shmtab.extend demo_vm (bcache.fields (replicate (Suc NBUF) empty_buf) (\<lambda>n. replicate BSIZE (ucast n)) 4000 [])"

lemma demo_raw_inv: "bc_inv (binit demo_raw) {}" "order (bufs (binit demo_raw)) (rev [0..<NBUF])" "disksize (binit demo_raw) = 4000"
  "pending (binit demo_raw) = {}" "view (binit demo_raw) = (\<lambda>n. replicate BSIZE (ucast n))"
proof -
  have f: "length (bufs demo_raw) = Suc NBUF" "held demo_raw = []" "cur demo_raw \<noteq> None" "\<And>n. length (memdisk demo_raw n) = BSIZE"
    "\<And>i. i < NBUF \<Longrightarrow> length (b_data (bf demo_raw i)) = BSIZE \<and> b_dev (bf demo_raw i) = 0 \<and> \<not> b_dirty (bf demo_raw i) \<and> b_refcnt (bf demo_raw i) = 0"
    "memdisk demo_raw = (\<lambda>n. replicate BSIZE (ucast n))"
    by (simp_all add: demo_raw_def demo_vm_proc empty_buf_def del: replicate_Suc)
  note b = binit_inv [OF f(1-5)]
  show "bc_inv (binit demo_raw) {}" "pending (binit demo_raw) = {}" "view (binit demo_raw) = (\<lambda>n. replicate BSIZE (ucast n))"
    using b f(6) by simp_all
  show "order (bufs (binit demo_raw)) (rev [0..<NBUF])" by (rule binit_order [OF f(1)])
  obtain bs sl where "binit demo_raw = demo_raw\<lparr>bufs := bs, sleeplocks := sl\<rparr>" using b(4) by blast
  then show "disksize (binit demo_raw) = 4000" by (simp add: demo_raw_def)
qed

theorem bread_lru_witness:
  "\<exists>i s'. bread 1 7 (binit demo_raw) = Ok (i, s') \<and> b_data (bf s' i) = replicate BSIZE 7 \<and> memdisk s' = memdisk (binit demo_raw)"
proof -
  have "\<exists>i < NBUF. i \<notin> {} \<and> \<not> b_dirty (bf (binit demo_raw) i)"
    using pending_room [OF demo_raw_inv(1)] demo_raw_inv(4) by (simp add: room_def NBUF_def)
  then show ?thesis
    using bread_lru [OF demo_raw_inv(1,2), of 7] demo_raw_inv(3,5) by (auto simp: atLeast_upt)
qed

end
