(* ===== verification/Log.thy ===== *)
theory Log
  imports Bio
begin

text \<open>
  The write-ahead log (\<^verbatim>\<open>log.c\<close>) and the super block. A block on disk is a list of bytes; \<open>rd32\<close> and \<open>wr32\<close>
  read and write its 32-bit words. The header block holds the number of logged blocks and their home
  addresses. An index outside the header is a fault. \<open>begin_op\<close> is cut where it sleeps.

  Shown: whatever prefix of its disk writes a commit has made when the machine stops, recovery
  brings the disk to a state in which either all blocks of the transaction are written or none; and recovery may itself be
  interrupted and run again.
\<close>

definition LOGSIZE :: nat where "LOGSIZE = 30"
definition MAXOPBLOCKS :: int where "MAXOPBLOCKS = 10"
definition ROOTDEV :: u32 where "ROOTDEV = 1"

definition rd32 :: "byte list \<Rightarrow> nat \<Rightarrow> u32" where
  "rd32 d k = ucast (d ! k) OR push_bit 8 (ucast (d ! (k + 1))) OR push_bit 16 (ucast (d ! (k + 2)))
     OR push_bit 24 (ucast (d ! (k + 3)))"

definition wr32 :: "byte list \<Rightarrow> nat \<Rightarrow> u32 \<Rightarrow> byte list" where
  "wr32 d k v = d[k := ucast v, k + 1 := ucast (drop_bit 8 v), k + 2 := ucast (drop_bit 16 v), k + 3 := ucast (drop_bit 24 v)]"

record superblock =
  sb_size :: u32
  sb_nblocks :: u32
  sb_ninodes :: u32
  sb_nlog :: u32
  sb_logstart :: u32
  sb_inodestart :: u32
  sb_bmapstart :: u32

record logheader =
  lh_n :: int
  lh_block :: "int list"

record logst = bcache +
  lg_start :: int
  lg_size :: int
  lg_outstanding :: int
  lg_committing :: bool
  lg_dev :: u32
  lg_lh :: logheader

definition get_sb :: "byte list \<Rightarrow> superblock" where
  "get_sb d = \<lparr>sb_size = rd32 d 0, sb_nblocks = rd32 d 4, sb_ninodes = rd32 d 8, sb_nlog = rd32 d 12, sb_logstart = rd32 d 16,
     sb_inodestart = rd32 d 20, sb_bmapstart = rd32 d 24\<rparr>"

definition readsb :: "u32 \<Rightarrow> 'a bcache_scheme \<Rightarrow> (superblock \<times> 'a bcache_scheme) res" where
  "readsb dev s =
     bnd (bread dev 1 s) (\<lambda>(b, s).
     let sb = get_sb (b_data (bf s b)) in
     bnd (brelse b s) (\<lambda>s. Ok (sb, s)))"

subsection \<open>Installing and recovering\<close>

definition set_data :: "nat \<Rightarrow> byte list \<Rightarrow> 'a bcache_scheme \<Rightarrow> 'a bcache_scheme" where
  "set_data i d s = upd_buf i (\<lambda>x. x\<lparr>b_data := d\<rparr>) s"

definition log_block :: "nat \<Rightarrow> 'a logst_scheme \<Rightarrow> u32" where
  "log_block tail s = word_of_int (lg_start s + int tail + 1)"

definition install_one :: "nat \<Rightarrow> 'a logst_scheme \<Rightarrow> 'a logst_scheme res" where
  "install_one tail s =
     bnd (bread (lg_dev s) (log_block tail s) s) (\<lambda>(lbuf, s).
     bnd (aget (lh_block (lg_lh s)) (int tail)) (\<lambda>home.
     bnd (bread (lg_dev s) (word_of_int home) s) (\<lambda>(dbuf, s).
     bnd (bwrite dbuf (set_data dbuf (b_data (bf s lbuf)) s)) (\<lambda>s.
     bnd (brelse lbuf s) (brelse dbuf)))))"

definition install_trans :: "'a logst_scheme \<Rightarrow> 'a logst_scheme res" where
  "install_trans s = foldM install_one [0..<nat (lh_n (lg_lh s))] s"

definition copy_in :: "byte list \<Rightarrow> nat \<Rightarrow> int list \<Rightarrow> int list res" where
  "copy_in d i bl = (if 4 * i + 8 \<le> BSIZE then aset bl (int i) (sint (rd32 d (4 * i + 4))) else fault ''lh->block'')"

definition read_head :: "'a logst_scheme \<Rightarrow> 'a logst_scheme res" where
  "read_head s =
     bnd (bread (lg_dev s) (word_of_int (lg_start s)) s) (\<lambda>(b, s).
     let d = b_data (bf s b); n = sint (rd32 d 0) in
     bnd (foldM (copy_in d) [0..<nat n] (lh_block (lg_lh s))) (\<lambda>bl.
     brelse b (s\<lparr>lg_lh := \<lparr>lh_n = n, lh_block = bl\<rparr>\<rparr>)))"

definition copy_out :: "int list \<Rightarrow> nat \<Rightarrow> byte list \<Rightarrow> byte list res" where
  "copy_out bl i d = (if 4 * i + 8 \<le> BSIZE then bnd (aget bl (int i)) (\<lambda>b. Ok (wr32 d (4 * i + 4) (word_of_int b))) else fault ''hb->block'')"

definition write_head :: "'a logst_scheme \<Rightarrow> 'a logst_scheme res" where
  "write_head s =
     bnd (bread (lg_dev s) (word_of_int (lg_start s)) s) (\<lambda>(b, s).
     let n = lh_n (lg_lh s) in
     bnd (foldM (copy_out (lh_block (lg_lh s))) [0..<nat n] (wr32 (b_data (bf s b)) 0 (word_of_int n))) (\<lambda>d.
     bnd (bwrite b (set_data b d s)) (brelse b)))"

definition clear_lh :: "'a logst_scheme \<Rightarrow> 'a logst_scheme" where
  "clear_lh s = s\<lparr>lg_lh := (lg_lh s)\<lparr>lh_n := 0\<rparr>\<rparr>"

definition recover_from_log :: "'a logst_scheme \<Rightarrow> 'a logst_scheme res" where
  "recover_from_log s =
     bnd (read_head s) (\<lambda>s.
     bnd (install_trans s) (\<lambda>s.
     write_head (clear_lh s)))"

text \<open>\<open>sizeof(struct logheader)\<close> is \<open>4 + 4 * LOGSIZE\<close>.\<close>

definition initlog :: "u32 \<Rightarrow> 'a logst_scheme \<Rightarrow> 'a logst_scheme res" where
  "initlog dev s =
     (if BSIZE \<le> 4 + 4 * LOGSIZE then panic ''initlog: too big logheader''
      else
        bnd (readsb dev s) (\<lambda>(sb, s).
        recover_from_log (s\<lparr>lg_start := sint (sb_logstart sb), lg_size := sint (sb_nlog sb), lg_dev := dev\<rparr>)))"

subsection \<open>Transactions\<close>

definition begin_op_loop :: "'a logst_scheme \<Rightarrow> (bool \<times> 'a logst_scheme) res" where
  "begin_op_loop s =
     (if lg_committing s \<or> lh_n (lg_lh s) + (lg_outstanding s + 1) * MAXOPBLOCKS > int LOGSIZE
      then bnd (sleep_out (Some Ch_log) L_log s) (\<lambda>s. Ok (False, s))
      else bnd (unlock L_log (s\<lparr>lg_outstanding := lg_outstanding s + 1\<rparr>)) (\<lambda>s. Ok (True, s)))"

definition begin_op_resume :: "'a logst_scheme \<Rightarrow> (bool \<times> 'a logst_scheme) res" where
  "begin_op_resume s = bnd (sleep_in L_log s) begin_op_loop"

definition begin_op :: "'a logst_scheme \<Rightarrow> 'a logst_scheme res" where
  "begin_op s = bnd (bnd (lock L_log s) begin_op_loop) (\<lambda>(b, s). if b then Ok s else Inl Asleep)"

definition write_log_one :: "nat \<Rightarrow> 'a logst_scheme \<Rightarrow> 'a logst_scheme res" where
  "write_log_one tail s =
     bnd (bread (lg_dev s) (log_block tail s) s) (\<lambda>(dst, s).
     bnd (aget (lh_block (lg_lh s)) (int tail)) (\<lambda>home.
     bnd (bread (lg_dev s) (word_of_int home) s) (\<lambda>(src, s).
     bnd (bwrite dst (set_data dst (b_data (bf s src)) s)) (\<lambda>s.
     bnd (brelse src s) (brelse dst)))))"

definition write_log :: "'a logst_scheme \<Rightarrow> 'a logst_scheme res" where
  "write_log s = foldM write_log_one [0..<nat (lh_n (lg_lh s))] s"

definition commit :: "'a logst_scheme \<Rightarrow> 'a logst_scheme res" where
  "commit s =
     (if lh_n (lg_lh s) > 0 then
        bnd (write_log s) (\<lambda>s.
        bnd (write_head s) (\<lambda>s.
        bnd (install_trans s) (\<lambda>s.
        write_head (clear_lh s))))
      else Ok s)"

definition end_op :: "'a logst_scheme \<Rightarrow> 'a logst_scheme res" where
  "end_op s =
     bnd (lock L_log s) (\<lambda>s.
     let s = s\<lparr>lg_outstanding := lg_outstanding s - 1\<rparr> in
     if lg_committing s then panic ''log.committing''
     else if lg_outstanding s = 0 then
       bnd (unlock L_log (s\<lparr>lg_committing := True\<rparr>)) (\<lambda>s.
       bnd (commit s) (\<lambda>s.
       bnd (lock L_log s) (\<lambda>s.
       bnd (wakeup (Some Ch_log) (s\<lparr>lg_committing := False\<rparr>)) (unlock L_log))))
     else bnd (wakeup (Some Ch_log) s) (unlock L_log))"

definition log_write :: "nat \<Rightarrow> 'a logst_scheme \<Rightarrow> 'a logst_scheme res" where
  "log_write b s =
     (let n = lh_n (lg_lh s) in
      if n \<ge> int LOGSIZE \<or> n \<ge> lg_size s - 1 then panic ''too big a transaction''
      else if lg_outstanding s < 1 then panic ''log_write outside of trans''
      else
        bnd (lock L_log s) (\<lambda>s.
        let home = sint (b_blockno (bf s b));
            i = (case first_idx (\<lambda>x. x = home) (take (nat n) (lh_block (lg_lh s))) of Some i \<Rightarrow> int i | None \<Rightarrow> n) in
        bnd (aset (lh_block (lg_lh s)) i home) (\<lambda>bl.
        unlock L_log (upd_buf b (\<lambda>x. x\<lparr>b_dirty := True\<rparr>)
          (s\<lparr>lg_lh := \<lparr>lh_n = (if i = n then n + 1 else n), lh_block = bl\<rparr>\<rparr>)))))"

subsection \<open>Copying a block\<close>

text \<open>What the log operations leave alone: all but the buffers, the sleep locks, who is runnable and the disk.\<close>

definition dkeep :: "'a bcache_scheme \<Rightarrow> 'a bcache_scheme \<Rightarrow> bool" where
  "dkeep s s' \<longleftrightarrow> (\<exists>bs sl pr md dw. s' = s\<lparr>bufs := bs, sleeplocks := sl, procs := pr, memdisk := md, dwrites := dw\<rparr> \<and> woken (procs s) pr)"

lemma dkeep_refl [simp]: "dkeep s s"
  unfolding dkeep_def
  by (intro exI [of _ "bufs s"] exI [of _ "sleeplocks s"] exI [of _ "procs s"] exI [of _ "memdisk s"] exI [of _ "dwrites s"]) simp

lemma dkeep_trans: "dkeep s s1 \<Longrightarrow> dkeep s1 s2 \<Longrightarrow> dkeep s s2"
proof -
  assume "dkeep s s1" "dkeep s1 s2"
  then obtain bs sl pr md dw bs' sl' pr' md' dw' where
    "s1 = s\<lparr>bufs := bs, sleeplocks := sl, procs := pr, memdisk := md, dwrites := dw\<rparr>" "woken (procs s) pr"
    "s2 = s1\<lparr>bufs := bs', sleeplocks := sl', procs := pr', memdisk := md', dwrites := dw'\<rparr>" "woken (procs s1) pr'"
    unfolding dkeep_def by blast
  then show ?thesis
    unfolding dkeep_def
    by (intro exI [of _ bs'] exI [of _ sl'] exI [of _ pr'] exI [of _ md'] exI [of _ dw']) (simp add: woken_trans [of "procs s" pr])
qed

lemma bkeep_dkeep: "bkeep s s' \<Longrightarrow> dkeep s s'"
  unfolding bkeep_def dkeep_def
  by (elim exE conjE, intro exI conjI) (rule trans, assumption, rule bcache.equality, simp_all)

lemma dkeep_upd: "dkeep s (s\<lparr>bufs := bs, memdisk := md, dwrites := dw\<rparr>)" "dkeep s (upd_buf i f s)"
proof -
  show "dkeep s (s\<lparr>bufs := bs, memdisk := md, dwrites := dw\<rparr>)"
    unfolding dkeep_def
    by (intro exI [of _ bs] exI [of _ "sleeplocks s"] exI [of _ "procs s"] exI [of _ md] exI [of _ dw]) simp
  show "dkeep s (upd_buf i f s)"
    unfolding dkeep_def upd_buf_def
    by (intro exI [of _ "(bufs s)[i := f (bf s i)]"] exI [of _ "sleeplocks s"] exI [of _ "procs s"] exI [of _ "memdisk s"] exI [of _ "dwrites s"]) simp
qed

lemma dkeepD:
  assumes "dkeep s s'"
  shows "disksize s' = disksize s" "bcache.more s' = bcache.more s" "cur s' = cur s" "woken (procs s) (procs s')"
  using assms by (auto simp: dkeep_def)

lemma dkeep_log:
  fixes s s' :: "'a logst_scheme"
  assumes "dkeep s s'"
  shows "lg_dev s' = lg_dev s" "lg_start s' = lg_start s" "lg_lh s' = lg_lh s" "lg_size s' = lg_size s"
    "lg_outstanding s' = lg_outstanding s" "lg_committing s' = lg_committing s" "log_block t s' = log_block t s"
  using assms by (auto simp: dkeep_def log_block_def)

text \<open>Both buffers are held: the one of the destination is filled and written, and both are released, in either order.\<close>

lemma copy_held:
  assumes "bc_inv s {i, j}" "i \<noteq> j" "b_blockno (bf s i) \<noteq> b_blockno (bf s j)"
    "b_dirty (bf s j) \<or> b_data (bf s j) = memdisk s (b_blockno (bf s j))" "{x, y} = {i, j}"
  shows "\<exists>s'. bnd (bwrite i (set_data i (b_data (bf s j)) s)) (\<lambda>s. bnd (brelse x s) (brelse y)) = Ok s' \<and> bc_inv s' {} \<and> dkeep s s' \<and>
    view s' = (view s)(b_blockno (bf s i) := b_data (bf s j)) \<and> memdisk s' = (memdisk s)(b_blockno (bf s i) := b_data (bf s j)) \<and>
    dwrites s' = dwrites s @ [(b_blockno (bf s i), b_data (bf s j))] \<and> pending s' = pending s - {b_blockno (bf s i)}"
proof -
  let ?d = "b_data (bf s j)" and ?a = "b_blockno (bf s i)" and ?b = "b_blockno (bf s j)"
  note iv = bc_invD [OF assms(1)]
  have ij: "i < NBUF" "j < NBUF" "i < length (bufs s)" using iv(3,5) by auto
  define s1 where "s1 = set_data i ?d s"
  have s1: "bc_inv s1 {i, j}" "view s1 = (view s)(?a := ?d)" "bf s1 i = (bf s i)\<lparr>b_data := ?d\<rparr>" "bf s1 j = bf s j" "dkeep s s1"
    "memdisk s1 = memdisk s" "dwrites s1 = dwrites s" "bufs s1 = (bufs s)[i := (bf s i)\<lparr>b_data := ?d\<rparr>]"
    using upd_data [OF assms(1), of i ?d] iv(6) ij assms(2) dkeep_upd(2) by (simp_all add: s1_def set_data_def)
  from bwrite_ok [OF s1(1), of i] obtain s2 where s2: "bwrite i s1 = Ok s2" "bc_inv s2 {i, j}" "view s2 = view s1"
    "bufs s2 = (bufs s1)[i := (bf s1 i)\<lparr>b_dirty := False\<rparr>]"
    "s2 = s1\<lparr>bufs := bufs s2, memdisk := (memdisk s1)(?a := ?d), dwrites := dwrites s1 @ [(?a, ?d)]\<rparr>" using s1(3) by auto
  have k2: "dkeep s1 s2" by (subst s2(5)) (rule dkeep_upd)
  have m2: "memdisk s2 = (memdisk s)(?a := ?d)" "dwrites s2 = dwrites s @ [(?a, ?d)]"
    by (subst s2(5), simp add: s1)+
  have b2: "bf s2 i = (bf s i)\<lparr>b_data := ?d, b_dirty := False\<rparr>" "bf s2 j = bf s j" using s2(4) s1(3,8) ij assms(2) by simp_all
  have p1: "pending s1 = pending s"
    using pending_upd [OF assms(1), of i s1 "(bf s i)\<lparr>b_data := ?d\<rparr>"] s1(8) pending_iff [OF assms(1) ij(1)] iv(9) [of i]
    by (auto simp: insert_absorb)
  have p2: "pending s2 = pending s - {?a}"
    using pending_upd [OF s1(1), of i s2 "(bf s1 i)\<lparr>b_dirty := False\<rparr>"] s2(4) p1 s1(3) by simp
  have xy: "x \<in> {i, j}" "y \<in> {i, j}" "x \<noteq> y" using assms(2,5) by (auto simp: doubleton_eq_iff)
  have cl: "b_dirty (bf s2 z) \<or> b_data (bf s2 z) = memdisk s2 (b_blockno (bf s2 z))" if "z \<in> {i, j}" for z
    using that b2 m2 assms(3,4) by auto
  from brelse_full [OF s2(2) xy(1) cl [OF xy(1)]] obtain s3 where s3: "brelse x s2 = Ok s3" "bc_inv s3 ({i, j} - {x})" "bkeep s2 s3"
    "view s3 = view s2" "pending s3 = pending s2" "\<And>z. z \<noteq> x \<Longrightarrow> core (bf s3 z) = core (bf s2 z)" by blast
  have y3: "y \<in> {i, j} - {x}" "{i, j} - {x} - {y} = {}" using xy assms(2) by auto
  have cl3: "b_dirty (bf s3 y) \<or> b_data (bf s3 y) = memdisk s3 (b_blockno (bf s3 y))"
    using cl [OF xy(2)] coreD [OF s3(6) [of y]] xy(3) bkeepD(1) [OF s3(3)] by auto
  from brelse_full [OF s3(2) y3(1) cl3] obtain s4 where s4: "brelse y s3 = Ok s4" "bc_inv s4 ({i, j} - {x} - {y})" "bkeep s3 s4"
    "view s4 = view s3" "pending s4 = pending s3" by blast
  have "dkeep s s4" using dkeep_trans [OF s1(5) dkeep_trans [OF k2 dkeep_trans [OF bkeep_dkeep [OF s3(3)] bkeep_dkeep [OF s4(3)]]]] .
  moreover have "bnd (bwrite i s1) (\<lambda>s. bnd (brelse x s) (brelse y)) = Ok s4" by (simp add: s2(1) s3(1) s4(1))
  ultimately show ?thesis
    using s4 s3 s2(3) s1(2) m2 p2 y3 bkeepD(1,3) [OF s3(3)] bkeepD(1,3) [OF s4(3)]
    unfolding s1_def [symmetric] by (intro exI [of _ s4]) simp
qed

lemma two_breads:
  assumes "bc_inv s {}" "a \<noteq> b" "a < disksize s" "b < disksize s" "card (pending s) + 1 < NBUF"
  shows "\<exists>i s1 j s2. bread 1 a s = Ok (i, s1) \<and> bread 1 b s1 = Ok (j, s2) \<and> bc_inv s2 {i, j} \<and> i \<noteq> j \<and> bkeep s s1 \<and> bkeep s s2 \<and>
    view s2 = view s \<and> pending s2 = pending s \<and> b_blockno (bf s2 i) = a \<and> b_blockno (bf s2 j) = b \<and>
    b_data (bf s2 i) = view s a \<and> b_data (bf s2 j) = view s b \<and>
    (b_dirty (bf s2 i) \<or> view s a = memdisk s a) \<and> (b_dirty (bf s2 j) \<or> view s b = memdisk s b)"
proof -
  from bread_full [OF assms(1,3)] assms(5) obtain i s1 where i: "bread 1 a s = Ok (i, s1)" "bc_inv s1 {i}" "bkeep s s1" "view s1 = view s"
    "b_blockno (bf s1 i) = a" "b_data (bf s1 i) = view s a" "pending s1 = pending s" "b_dirty (bf s1 i) \<or> view s a = memdisk s a" by auto
  have k: "memdisk s1 = memdisk s" "disksize s1 = disksize s" using bkeepD [OF i(3)] by simp_all
  from bread_full [OF i(2), of b] assms k i(5,7) obtain j s2 where j: "bread 1 b s1 = Ok (j, s2)" "j \<noteq> i" "bc_inv s2 {j, i}" "bkeep s1 s2"
    "view s2 = view s1" "b_blockno (bf s2 j) = b" "b_data (bf s2 j) = view s1 b" "bf s2 i = bf s1 i" "pending s2 = pending s1"
    "b_dirty (bf s2 j) \<or> view s1 b = memdisk s1 b" by auto
  show ?thesis
    using i j k bkeep_trans [OF i(3) j(4)] by (intro exI conjI) (auto simp: insert_commute)
qed

lemma write_log_one_ok:
  assumes "bc_inv s {}" "lg_dev s = 1" "t < length (lh_block (lg_lh s))" "b = word_of_int (lh_block (lg_lh s) ! t)" "a = log_block t s"
    "a \<noteq> b" "a < disksize s" "b < disksize s" "card (pending s) + 1 < NBUF"
  shows "\<exists>s'. write_log_one t s = Ok s' \<and> bc_inv s' {} \<and> dkeep s s' \<and> view s' = (view s)(a := view s b) \<and>
    memdisk s' = (memdisk s)(a := view s b) \<and> dwrites s' = dwrites s @ [(a, view s b)] \<and> pending s' = pending s - {a}"
proof -
  from two_breads [OF assms(1,6-9)] obtain i s1 j s2 where r: "bread 1 a s = Ok (i, s1)" "bread 1 b s1 = Ok (j, s2)" "bc_inv s2 {i, j}"
    "i \<noteq> j" "bkeep s s1" "bkeep s s2" "view s2 = view s" "pending s2 = pending s" "b_blockno (bf s2 i) = a" "b_blockno (bf s2 j) = b"
    "b_data (bf s2 j) = view s b" "b_dirty (bf s2 j) \<or> view s b = memdisk s b" by blast
  have k: "memdisk s2 = memdisk s" "dwrites s2 = dwrites s" "lg_lh s1 = lg_lh s" "lg_dev s1 = 1"
    using bkeepD [OF r(6)] dkeep_log [OF bkeep_dkeep [OF r(5)]] assms(2) by simp_all
  from copy_held [OF r(3,4), of j i] r k assms(6) obtain s' where
    "bnd (bwrite i (set_data i (b_data (bf s2 j)) s2)) (\<lambda>s. bnd (brelse j s) (brelse i)) = Ok s'" "bc_inv s' {}" "dkeep s2 s'"
    "view s' = (view s)(a := view s b)" "memdisk s' = (memdisk s)(a := view s b)" "dwrites s' = dwrites s @ [(a, view s b)]"
    "pending s' = pending s - {a}" by (auto simp: insert_commute)
  then show ?thesis
    using r(1,2) k(3,4) assms(2-5) dkeep_trans [OF bkeep_dkeep [OF r(6)]]
    by (intro exI [of _ s']) (simp add: write_log_one_def)
qed

lemma install_one_ok:
  assumes "bc_inv s {}" "lg_dev s = 1" "t < length (lh_block (lg_lh s))" "b = word_of_int (lh_block (lg_lh s) ! t)" "a = log_block t s"
    "a \<noteq> b" "a < disksize s" "b < disksize s" "card (pending s) + 1 < NBUF"
  shows "\<exists>s'. install_one t s = Ok s' \<and> bc_inv s' {} \<and> dkeep s s' \<and> view s' = (view s)(b := view s a) \<and>
    memdisk s' = (memdisk s)(b := view s a) \<and> dwrites s' = dwrites s @ [(b, view s a)] \<and> pending s' = pending s - {b}"
proof -
  from two_breads [OF assms(1,6-9)] obtain i s1 j s2 where r: "bread 1 a s = Ok (i, s1)" "bread 1 b s1 = Ok (j, s2)" "bc_inv s2 {i, j}"
    "i \<noteq> j" "bkeep s s1" "bkeep s s2" "view s2 = view s" "pending s2 = pending s" "b_blockno (bf s2 i) = a" "b_blockno (bf s2 j) = b"
    "b_data (bf s2 i) = view s a" "b_dirty (bf s2 i) \<or> view s a = memdisk s a" by blast
  have k: "memdisk s2 = memdisk s" "dwrites s2 = dwrites s" "lg_lh s1 = lg_lh s" "lg_dev s1 = 1"
    using bkeepD [OF r(6)] dkeep_log [OF bkeep_dkeep [OF r(5)]] assms(2) by simp_all
  have "bc_inv s2 {j, i}" using r(3) by (simp add: insert_commute)
  from copy_held [OF this r(4) [symmetric], of i j] r k assms(6) obtain s' where
    "bnd (bwrite j (set_data j (b_data (bf s2 i)) s2)) (\<lambda>s. bnd (brelse i s) (brelse j)) = Ok s'" "bc_inv s' {}" "dkeep s2 s'"
    "view s' = (view s)(b := view s a)" "memdisk s' = (memdisk s)(b := view s a)" "dwrites s' = dwrites s @ [(b, view s a)]"
    "pending s' = pending s - {b}" by (auto simp: insert_commute)
  then show ?thesis
    using r(1,2) k(3,4) assms(2-5) dkeep_trans [OF bkeep_dkeep [OF r(6)]]
    by (intro exI [of _ s']) (simp add: install_one_def)
qed

subsection \<open>Sequences of writes\<close>

definition upds :: "('k \<Rightarrow> 'v) \<Rightarrow> ('k \<times> 'v) list \<Rightarrow> 'k \<Rightarrow> 'v" where
  "upds m W = fold (\<lambda>(a, v) m. m(a := v)) W m"

lemma upds_simps [simp]: "upds m [] = m" "upds m ((a, v) # W) = upds (m(a := v)) W" "upds m (W @ V) = upds (upds m W) V"
  by (simp_all add: upds_def)

lemma upds_other: "b \<notin> fst ` set W \<Longrightarrow> upds m W b = m b"
  by (induction W rule: rev_induct) auto

lemma upds_at: "distinct (map fst W) \<Longrightarrow> (b, v) \<in> set W \<Longrightarrow> upds m W b = v"
proof (induction W rule: rev_induct)
  case (snoc x W)
  then show ?case by (cases x) (auto simp: image_iff)
qed simp

text \<open>The effect of a sequence of block writes on the cache and the disk.\<close>

definition wrote :: "(u32 \<times> byte list) list \<Rightarrow> 'a bcache_scheme \<Rightarrow> 'a bcache_scheme \<Rightarrow> bool" where
  "wrote W s s' \<longleftrightarrow> bc_inv s' {} \<and> dkeep s s' \<and> view s' = upds (view s) W \<and> memdisk s' = upds (memdisk s) W \<and>
     dwrites s' = dwrites s @ W \<and> pending s' = pending s - fst ` set W"

lemma wrote_nil: "bc_inv s {} \<Longrightarrow> wrote [] s s"
  by (simp add: wrote_def)

lemma wrote_trans: "wrote W s s1 \<Longrightarrow> wrote V s1 s2 \<Longrightarrow> wrote (W @ V) s s2"
  by (auto simp: wrote_def dest: dkeep_trans)

lemma wrote_frame:
  assumes "wrote W s s'"
  shows "card (pending s) + 1 < NBUF \<Longrightarrow> card (pending s') + 1 < NBUF"
proof -
  have "finite (pending s)"
  proof -
    have "pending s \<subseteq> (\<lambda>i. b_blockno (bf s i)) ` {..<NBUF}" by (auto simp: pending_def hit_def)
    then show ?thesis using finite_subset by blast
  qed
  then have "card (pending s') \<le> card (pending s)" using assms by (simp add: wrote_def card_mono)
  then show "card (pending s) + 1 < NBUF \<Longrightarrow> card (pending s') + 1 < NBUF" by simp
qed

lemma wrote_log:
  fixes s s' :: "'a logst_scheme"
  assumes "wrote W s s'"
  shows "lg_dev s' = lg_dev s" "lg_start s' = lg_start s" "lg_lh s' = lg_lh s" "log_block t s' = log_block t s" "disksize s' = disksize s" "bc_inv s' {}"
  using assms dkeep_log dkeepD(1) by (auto simp: wrote_def)

lemma view_clean: "bc_inv s {} \<Longrightarrow> n \<notin> pending s \<Longrightarrow> view s n = memdisk s n"
proof -
  assume a: "bc_inv s {}" "n \<notin> pending s"
  show ?thesis
  proof (cases "first_idx (\<lambda>x. b_dev x = 1 \<and> b_blockno x = n) (take NBUF (bufs s))")
    case (Some i)
    then have i: "i < NBUF" "b_dev (bf s i) = 1" "b_blockno (bf s i) = n" by (auto simp: first_idx_Some)
    then have "\<not> b_dirty (bf s i)" using a(2) by (auto simp: pending_def hit_def)
    then show ?thesis using i Some bc_invD(10) [OF a(1) i(1)] by (simp add: view_def)
  qed (simp add: view_def)
qed

lemma fill_held:
  assumes "bc_inv s {i}" "length d = BSIZE"
  shows "\<exists>s'. bnd (bwrite i (set_data i d s)) (brelse i) = Ok s' \<and> wrote [(b_blockno (bf s i), d)] s s'"
proof -
  let ?a = "b_blockno (bf s i)"
  note iv = bc_invD [OF assms(1)]
  have i: "i < NBUF" "i < length (bufs s)" using iv(3,5) by auto
  define s1 where "s1 = set_data i d s"
  have s1: "bc_inv s1 {i}" "view s1 = (view s)(?a := d)" "bf s1 i = (bf s i)\<lparr>b_data := d\<rparr>" "dkeep s s1"
    "memdisk s1 = memdisk s" "dwrites s1 = dwrites s" "bufs s1 = (bufs s)[i := (bf s i)\<lparr>b_data := d\<rparr>]"
    using upd_data [OF assms(1), of i d] i assms(2) dkeep_upd(2) by (simp_all add: s1_def set_data_def)
  from bwrite_ok [OF s1(1), of i] obtain s2 where s2: "bwrite i s1 = Ok s2" "bc_inv s2 {i}" "view s2 = view s1"
    "bufs s2 = (bufs s1)[i := (bf s1 i)\<lparr>b_dirty := False\<rparr>]"
    "s2 = s1\<lparr>bufs := bufs s2, memdisk := (memdisk s1)(?a := d), dwrites := dwrites s1 @ [(?a, d)]\<rparr>" using s1(3) by auto
  have k2: "dkeep s1 s2" by (subst s2(5)) (rule dkeep_upd)
  have m2: "memdisk s2 = (memdisk s)(?a := d)" "dwrites s2 = dwrites s @ [(?a, d)]"
    by (subst s2(5), simp add: s1)+
  have b2: "bf s2 i = (bf s i)\<lparr>b_data := d, b_dirty := False\<rparr>" using s2(4) s1(3,7) i by simp
  have p1: "pending s1 = pending s"
    using pending_upd [OF assms(1), of i s1 "(bf s i)\<lparr>b_data := d\<rparr>"] s1(7) pending_iff [OF assms(1) i(1)] iv(9) [of i]
    by (auto simp: insert_absorb)
  have p2: "pending s2 = pending s - {?a}"
    using pending_upd [OF s1(1), of i s2 "(bf s1 i)\<lparr>b_dirty := False\<rparr>"] s2(4) p1 s1(3) by simp
  have cl: "b_dirty (bf s2 i) \<or> b_data (bf s2 i) = memdisk s2 (b_blockno (bf s2 i))" using b2 m2 by simp
  from brelse_full [OF s2(2) _ cl] obtain s3 where s3: "brelse i s2 = Ok s3" "bc_inv s3 ({i} - {i})" "bkeep s2 s3"
    "view s3 = view s2" "pending s3 = pending s2" by blast
  have "dkeep s s3" using dkeep_trans [OF s1(4) dkeep_trans [OF k2 bkeep_dkeep [OF s3(3)]]] .
  moreover have "bnd (bwrite i s1) (brelse i) = Ok s3" by (simp add: s2(1) s3(1))
  ultimately show ?thesis
    using s3 bkeepD [OF s3(3)] m2 s2(3) s1(2) p2 by (auto simp: wrote_def s1_def [symmetric])
qed

lemma wrote_write_one:
  assumes "bc_inv s {}" "lg_dev s = 1" "t < length (lh_block (lg_lh s))"
    "log_block t s \<noteq> word_of_int (lh_block (lg_lh s) ! t)" "log_block t s < disksize s" "word_of_int (lh_block (lg_lh s) ! t) < disksize s"
    "card (pending s) + 1 < NBUF"
  shows "\<exists>s'. write_log_one t s = Ok s' \<and> wrote [(log_block t s, view s (word_of_int (lh_block (lg_lh s) ! t)))] s s'"
    "\<exists>s'. install_one t s = Ok s' \<and> wrote [(word_of_int (lh_block (lg_lh s) ! t), view s (log_block t s))] s s'"
  using write_log_one_ok [OF assms(1-3) refl refl assms(4-7)] install_one_ok [OF assms(1-3) refl refl assms(4-7)]
  by (simp_all add: wrote_def)

definition home :: "'a logst_scheme \<Rightarrow> nat \<Rightarrow> u32" where
  "home s t = word_of_int (lh_block (lg_lh s) ! t)"

definition apart :: "nat \<Rightarrow> 'a logst_scheme \<Rightarrow> bool" where
  "apart n s \<longleftrightarrow> n \<le> length (lh_block (lg_lh s)) \<and> lg_dev s = 1 \<and>
     (\<forall>t < n. log_block t s < disksize s \<and> home s t < disksize s \<and> (\<forall>u < n. log_block t s \<noteq> home s u))"

lemma apart_wrote: "wrote W s s' \<Longrightarrow> apart n s' \<longleftrightarrow> apart n s" "wrote W s s' \<Longrightarrow> home s' t = home s t"
  by (simp_all add: apart_def home_def wrote_log)

lemma apart_mono: "apart n s \<Longrightarrow> m \<le> n \<Longrightarrow> apart m s"
  by (auto simp: apart_def)

lemma write_log_ok:
  assumes "bc_inv s {}" "card (pending s) + 1 < NBUF" "apart n s"
  shows "\<exists>s'. foldM write_log_one [0..<n] s = Ok s' \<and> wrote (map (\<lambda>t. (log_block t s, view s (home s t))) [0..<n]) s s'"
  using assms
proof (induction n)
  case (Suc n)
  from Suc(1) [OF Suc(2,3) apart_mono [OF Suc(4)]] obtain s' where s': "foldM write_log_one [0..<n] s = Ok s'"
    "wrote (map (\<lambda>t. (log_block t s, view s (home s t))) [0..<n]) s s'" by auto
  note k = wrote_log [OF s'(2)]
  have a: "apart (Suc n) s'" using apart_wrote(1) [OF s'(2)] Suc(4) by blast
  have ne: "home s n \<noteq> log_block t s" if "t < n" for t using Suc(4) that by (metis apart_def lessI less_SucI)
  have "view s' (home s n) = view s (home s n)"
    using s'(2) by (simp add: wrote_def upds_other image_image image_iff ne)
  with wrote_write_one(1) [of s' n] a k wrote_frame [OF s'(2) Suc(3)] obtain s'' where
    "write_log_one n s' = Ok s''" "wrote [(log_block n s, view s (home s n))] s' s''"
    by (auto simp: apart_def home_def)
  then show ?case using s'(1) wrote_trans [OF s'(2)] by (simp add: foldM_append)
qed (simp add: wrote_nil)

lemma install_ok:
  assumes "bc_inv s {}" "card (pending s) + 1 < NBUF" "apart n s"
  shows "\<exists>s'. foldM install_one [0..<n] s = Ok s' \<and> wrote (map (\<lambda>t. (home s t, view s (log_block t s))) [0..<n]) s s'"
  using assms
proof (induction n)
  case (Suc n)
  from Suc(1) [OF Suc(2,3) apart_mono [OF Suc(4)]] obtain s' where s': "foldM install_one [0..<n] s = Ok s'"
    "wrote (map (\<lambda>t. (home s t, view s (log_block t s))) [0..<n]) s s'" by auto
  note k = wrote_log [OF s'(2)]
  have a: "apart (Suc n) s'" using apart_wrote(1) [OF s'(2)] Suc(4) by blast
  have "view s' (log_block n s) = view s (log_block n s)"
    using s'(2) Suc(4) by (auto simp: wrote_def apart_def intro!: upds_other)
  with wrote_write_one(2) [of s' n] a k wrote_frame [OF s'(2) Suc(3)] obtain s'' where
    "install_one n s' = Ok s''" "wrote [(home s n, view s (log_block n s))] s' s''"
    by (auto simp: apart_def home_def)
  then show ?case using s'(1) wrote_trans [OF s'(2)] by (simp add: foldM_append)
qed (simp add: wrote_nil)

subsection \<open>The header block\<close>

lemma wr32_length [simp]: "length (wr32 d k v) = length d"
  by (simp add: wr32_def)

lemma rd32_wr32: "k + 4 \<le> length d \<Longrightarrow> rd32 (wr32 d k v) k = v"
proof (rule bit_word_eqI)
  fix n assume a: "k + 4 \<le> length d" "n < LENGTH(32)"
  then consider "n < 8" | "8 \<le> n" "n < 16" | "16 \<le> n" "n < 24" | "24 \<le> n" "n < 32" by fastforce
  then show "bit (rd32 (wr32 d k v) k) n = bit v n"
    by cases (use a in \<open>auto simp: rd32_def wr32_def nth_list_update bit_or_iff bit_push_bit_iff bit_ucast_iff bit_drop_bit_eq\<close>)
qed

lemma rd32_wr32_other: "j + 4 \<le> k \<or> k + 4 \<le> j \<Longrightarrow> rd32 (wr32 d k v) j = rd32 d j"
  by (auto simp: rd32_def wr32_def)

definition hdr :: "byte list \<Rightarrow> nat \<Rightarrow> int list \<Rightarrow> byte list" where
  "hdr d n bl = fold (\<lambda>i d. wr32 d (4 * i + 4) (word_of_int (bl ! i))) [0..<n] (wr32 d 0 (word_of_int (int n)))"

lemma hdr_loop:
  "n \<le> length bl \<Longrightarrow> 4 * n + 4 \<le> BSIZE \<Longrightarrow> foldM (copy_out bl) [0..<n] d = Ok (fold (\<lambda>i d. wr32 d (4 * i + 4) (word_of_int (bl ! i))) [0..<n] d)"
  by (induction n) (simp_all add: foldM_append copy_out_def aget_def)

lemma hdr_fold:
  assumes "4 * n + 4 \<le> length d"
  shows "length (fold (\<lambda>i d. wr32 d (4 * i + 4) (f i)) [0..<n] d) = length d \<and>
    rd32 (fold (\<lambda>i d. wr32 d (4 * i + 4) (f i)) [0..<n] d) 0 = rd32 d 0 \<and>
    (\<forall>t < n. rd32 (fold (\<lambda>i d. wr32 d (4 * i + 4) (f i)) [0..<n] d) (4 * t + 4) = f t)"
  using assms
proof (induction n)
  case (Suc n)
  then show ?case by (auto simp: less_Suc_eq rd32_wr32 rd32_wr32_other)
qed simp

lemma hdr_facts:
  assumes "4 * n + 4 \<le> length d"
  shows "length (hdr d n bl) = length d" "rd32 (hdr d n bl) 0 = word_of_int (int n)" "t < n \<Longrightarrow> rd32 (hdr d n bl) (4 * t + 4) = word_of_int (bl ! t)"
  using hdr_fold [of n "wr32 d 0 (word_of_int (int n))" "\<lambda>i. word_of_int (bl ! i)"] assms
  by (simp_all add: hdr_def rd32_wr32)

definition start :: "'a logst_scheme \<Rightarrow> u32" where
  "start s = word_of_int (lg_start s)"

lemma write_head_ok:
  assumes "bc_inv s {}" "card (pending s) + 1 < NBUF" "lg_dev s = 1" "start s < disksize s"
    and "lh_n (lg_lh s) = int n" "n \<le> length (lh_block (lg_lh s))" "n \<le> LOGSIZE"
  shows "\<exists>s'. write_head s = Ok s' \<and> wrote [(start s, hdr (view s (start s)) n (lh_block (lg_lh s)))] s s'"
proof -
  from bread_full [OF assms(1,4)] assms(2) obtain i s1 where i: "bread 1 (start s) s = Ok (i, s1)" "bc_inv s1 {i}" "bkeep s s1" "view s1 = view s"
    "b_blockno (bf s1 i) = start s" "b_data (bf s1 i) = view s (start s)" "pending s1 = pending s" by auto
  have k: "lg_lh s1 = lg_lh s" using dkeep_log [OF bkeep_dkeep [OF i(3)]] by simp
  have "length (view s (start s)) = BSIZE" using bc_invD(6) [OF i(2), of i] bc_invD(3) [OF i(2)] i(6) by simp
  then have l: "length (hdr (view s (start s)) n (lh_block (lg_lh s))) = BSIZE"
    using hdr_facts(1) assms(7) by (simp add: BSIZE_def LOGSIZE_def)
  have c: "foldM (copy_out (lh_block (lg_lh s))) [0..<n] (wr32 (view s (start s)) 0 (word_of_int (int n))) = Ok (hdr (view s (start s)) n (lh_block (lg_lh s)))"
    using hdr_loop assms(6,7) by (simp add: hdr_def BSIZE_def LOGSIZE_def)
  from fill_held [OF i(2) l] obtain s' where s': "bnd (bwrite i (set_data i (hdr (view s (start s)) n (lh_block (lg_lh s))) s1)) (brelse i) = Ok s'"
    "wrote [(start s, hdr (view s (start s)) n (lh_block (lg_lh s)))] s1 s'" using i(5) by auto
  have "wrote [(start s, hdr (view s (start s)) n (lh_block (lg_lh s)))] s s'"
    using s'(2) i(4,7) bkeepD [OF i(3)] dkeep_trans [OF bkeep_dkeep [OF i(3)]] by (simp add: wrote_def)
  moreover have "write_head s = Ok s'" using i(1,6) k assms(3,5) c s'(1) by (simp add: write_head_def start_def Let_def)
  ultimately show ?thesis by blast
qed

lemma copy_in_loop:
  "n \<le> length bl \<Longrightarrow> 4 * n + 4 \<le> BSIZE \<Longrightarrow> \<exists>bl'. foldM (copy_in d) [0..<n] bl = Ok bl' \<and> length bl' = length bl \<and>
    (\<forall>t < n. bl' ! t = sint (rd32 d (4 * t + 4)))"
proof (induction n)
  case (Suc n)
  then obtain bl' where "foldM (copy_in d) [0..<n] bl = Ok bl'" "length bl' = length bl" "\<forall>t < n. bl' ! t = sint (rd32 d (4 * t + 4))" by auto
  moreover have "copy_in d n bl' = Ok (bl'[n := sint (rd32 d (4 * n + 4))])" using Suc(2,3) calculation by (simp add: copy_in_def aset_def)
  ultimately show ?case using Suc(2) by (auto simp: foldM_append nth_list_update less_Suc_eq)
qed simp

lemma log_fields [simp]:
  "bc_inv (s\<lparr>lg_lh := h\<rparr>) H = bc_inv s H" "view (s\<lparr>lg_lh := h\<rparr>) = view s" "pending (s\<lparr>lg_lh := h\<rparr>) = pending s" "start (s\<lparr>lg_lh := h\<rparr>) = start s"
  "log_block t (s\<lparr>lg_lh := h\<rparr>) = log_block t s"
  "bc_inv (s\<lparr>lg_start := a, lg_size := b, lg_dev := c\<rparr>) H = bc_inv s H" "view (s\<lparr>lg_start := a, lg_size := b, lg_dev := c\<rparr>) = view s"
  "pending (s\<lparr>lg_start := a, lg_size := b, lg_dev := c\<rparr>) = pending s"
  by (simp_all add: bc_inv_def hit_def view_def pending_def fun_eq_iff start_def log_block_def split: option.split)

lemma bkeep_lh: "bkeep s s' \<Longrightarrow> bkeep (s\<lparr>lg_lh := h\<rparr>) (s'\<lparr>lg_lh := h\<rparr>)"
  unfolding bkeep_def by (elim exE conjE, intro exI conjI, rule logst.equality) auto

lemma dkeep_lh: "dkeep s s' \<Longrightarrow> dkeep (s\<lparr>lg_lh := h\<rparr>) (s'\<lparr>lg_lh := h\<rparr>)"
  unfolding dkeep_def by (elim exE conjE, intro exI conjI, rule logst.equality) auto

lemma wrote_lh: "wrote W s s' \<Longrightarrow> wrote W (s\<lparr>lg_lh := h\<rparr>) (s'\<lparr>lg_lh := h\<rparr>)"
  by (simp add: wrote_def dkeep_lh)

lemma wrote_bkeep: "bkeep s s' \<Longrightarrow> bc_inv s' {} \<Longrightarrow> view s' = view s \<Longrightarrow> pending s' = pending s \<Longrightarrow> wrote [] s s'"
  using bkeepD [of s s'] bkeep_dkeep [of s s'] by (simp add: wrote_def)

text \<open>Reading a block and giving it back.\<close>

lemma read_release:
  assumes "bc_inv s {}" "pending s = {}" "n < disksize s"
  shows "\<exists>i s1 s2. bread 1 n s = Ok (i, s1) \<and> b_data (bf s1 i) = view s n \<and> brelse i s1 = Ok s2 \<and> wrote [] s s2 \<and>
    dkeep s s1 \<and> bc_inv s1 {i} \<and> view s1 = view s \<and> pending s1 = {} \<and> bkeep s s1 \<and> b_data (bf s1 i) = memdisk s1 (b_blockno (bf s1 i))"
proof -
  from bread_full [OF assms(1,3)] assms(2) obtain i s1 where i: "bread 1 n s = Ok (i, s1)" "bc_inv s1 {i}" "bkeep s s1" "view s1 = view s"
    "b_blockno (bf s1 i) = n" "b_data (bf s1 i) = view s n" "pending s1 = {}" by (auto simp: NBUF_def)
  have m: "view s n = memdisk s1 n" using view_clean [OF assms(1)] assms(2) bkeepD(1) [OF i(3)] by simp
  from brelse_full [OF i(2), of i] i(5,6) m obtain s2 where "brelse i s1 = Ok s2" "bc_inv s2 ({i} - {i})" "bkeep s1 s2" "view s2 = view s1"
    "pending s2 = pending s1" by auto
  with i show ?thesis using wrote_bkeep [OF bkeep_trans [OF i(3), of s2]] assms(2) bkeep_dkeep [OF i(3)] m
    by (intro exI [of _ i] exI [of _ s1] exI [of _ s2]) simp
qed

lemma read_head_ok:
  assumes "bc_inv s {}" "pending s = {}" "lg_dev s = 1" "start s < disksize s" "d = view s (start s)"
    and "sint (rd32 d 0) = int n" "n \<le> LOGSIZE" "length (lh_block (lg_lh s)) = LOGSIZE"
  shows "\<exists>s' h. read_head s = Ok s' \<and> wrote [] (s\<lparr>lg_lh := h\<rparr>) s' \<and> lh_n h = int n \<and> length (lh_block h) = LOGSIZE \<and>
    (\<forall>t < n. lh_block h ! t = sint (rd32 d (4 * t + 4)))"
proof -
  from read_release [OF assms(1,2,4)] obtain i s1 where i: "bread 1 (start s) s = Ok (i, s1)" "b_data (bf s1 i) = d" "dkeep s s1" "bc_inv s1 {i}"
    "view s1 = view s" "pending s1 = {}" "bkeep s s1" "b_data (bf s1 i) = memdisk s1 (b_blockno (bf s1 i))" using assms(5) by blast
  have k: "lg_lh s1 = lg_lh s" using dkeep_log [OF i(3)] by simp
  from copy_in_loop [of n "lh_block (lg_lh s)" d] assms(7,8) obtain bl where bl: "foldM (copy_in d) [0..<n] (lh_block (lg_lh s)) = Ok bl"
    "length bl = LOGSIZE" "\<forall>t < n. bl ! t = sint (rd32 d (4 * t + 4))" by (auto simp: BSIZE_def LOGSIZE_def)
  define h where "h = \<lparr>lh_n = int n, lh_block = bl\<rparr>"
  from brelse_full [of "s1\<lparr>lg_lh := h\<rparr>" "{i}" i] i(4,8) obtain s2 where s2: "brelse i (s1\<lparr>lg_lh := h\<rparr>) = Ok s2" "bc_inv s2 ({i} - {i})"
    "bkeep (s1\<lparr>lg_lh := h\<rparr>) s2" "view s2 = view s1" "pending s2 = pending s1" by auto
  have "wrote [] (s\<lparr>lg_lh := h\<rparr>) s2"
    by (rule wrote_bkeep [OF bkeep_trans [OF bkeep_lh [OF i(7)] s2(3)]]) (use s2 i assms(2) in simp_all)
  moreover have "read_head s = Ok s2" using i(1,2) k assms(3,6) bl(1) s2(1) by (simp add: read_head_def start_def [symmetric] Let_def h_def)
  ultimately show ?thesis using bl by (intro exI [of _ s2] exI [of _ h]) (simp add: h_def)
qed

subsection \<open>Recovery\<close>

definition recW :: "u32 \<Rightarrow> (u32 \<Rightarrow> byte list) \<Rightarrow> nat \<Rightarrow> (u32 \<times> byte list) list" where
  "recW st d n = map (\<lambda>t. (rd32 (d st) (4 * t + 4), d (st + of_nat (Suc t)))) [0..<n] @ [(st, wr32 (d st) 0 0)]"

definition head_ok :: "u32 \<Rightarrow> (u32 \<Rightarrow> byte list) \<Rightarrow> nat \<Rightarrow> u32 \<Rightarrow> bool" where
  "head_ok st d n dz \<longleftrightarrow> rd32 (d st) 0 = word_of_int (int n) \<and> n \<le> LOGSIZE \<and> st < dz \<and>
     (\<forall>t < n. st + of_nat (Suc t) < dz \<and> rd32 (d st) (4 * t + 4) < dz \<and> st \<noteq> rd32 (d st) (4 * t + 4) \<and>
       (\<forall>u < n. st + of_nat (Suc u) \<noteq> rd32 (d st) (4 * t + 4)))"

lemma log_block_start: "log_block t s = start s + of_nat (Suc t)"
  by (simp add: log_block_def start_def)

lemma hdr0: "hdr d 0 bl = wr32 d 0 0"
  by (simp add: hdr_def)

lemma recover_ok:
  assumes "bc_inv s {}" "pending s = {}" "lg_dev s = 1" "head_ok (start s) (memdisk s) n (disksize s)" "length (lh_block (lg_lh s)) = LOGSIZE"
  shows "\<exists>s' h. recover_from_log s = Ok s' \<and> wrote (recW (start s) (memdisk s) n) (s\<lparr>lg_lh := h\<rparr>) s'"
proof -
  let ?d = "memdisk s" and ?st = "start s"
  have v: "view s = memdisk s" using view_clean [OF assms(1)] assms(2) by auto
  have hd: "rd32 (?d ?st) 0 = word_of_int (int n)" "n \<le> LOGSIZE" "?st < disksize s"
    "\<And>t. t < n \<Longrightarrow> ?st + of_nat (Suc t) < disksize s \<and> rd32 (?d ?st) (4 * t + 4) < disksize s \<and> ?st \<noteq> rd32 (?d ?st) (4 * t + 4) \<and>
       (\<forall>u < n. ?st + of_nat (Suc u) \<noteq> rd32 (?d ?st) (4 * t + 4))"
    using assms(4) by (auto simp: head_ok_def)
  have n: "sint (rd32 (?d ?st) 0) = int n" using hd(1,2) by (simp add: LOGSIZE_def signed_of_nat signed_take_bit_int_eq_self)
  from read_head_ok [OF assms(1-3) hd(3) refl _ hd(2) assms(5)] v n obtain s1 h where s1: "read_head s = Ok s1" "wrote [] (s\<lparr>lg_lh := h\<rparr>) s1"
    "lh_n h = int n" "length (lh_block h) = LOGSIZE" "\<And>t. t < n \<Longrightarrow> lh_block h ! t = sint (rd32 (?d ?st) (4 * t + 4))" by auto
  note k1 = wrote_log [OF s1(2)]
  have e1: "start s1 = ?st" "view s1 = ?d" "pending s1 = {}" using k1 s1(2) v assms(2) by (simp_all add: start_def wrote_def)
  have ho: "home s1 t = rd32 (?d ?st) (4 * t + 4)" if "t < n" for t using s1(5) [OF that] k1 by (simp add: home_def)
  have ap: "apart n s1" unfolding apart_def using hd(2,4) ho k1 e1 s1(4) assms(3) by (auto simp: log_block_start)
  from install_ok [OF k1(6) _ ap] e1 k1 s1(3) obtain s2 where s2: "install_trans s1 = Ok s2" "wrote (map (\<lambda>t. (home s1 t, ?d (log_block t s1))) [0..<n]) s1 s2"
    by (auto simp: install_trans_def NBUF_def)
  have m2: "map (\<lambda>t. (home s1 t, ?d (log_block t s1))) [0..<n] = map (\<lambda>t. (rd32 (?d ?st) (4 * t + 4), ?d (?st + of_nat (Suc t)))) [0..<n]"
    using ho e1 by (simp add: log_block_start)
  note k2 = wrote_log [OF s2(2)]
  have e2: "start s2 = ?st" "pending s2 = {}" "view s2 ?st = ?d ?st"
    using k2 e1 s2(2) hd(4) by (auto simp: start_def wrote_def m2 intro!: upds_other)
  let ?c = "clear_lh s2"
  from write_head_ok [of ?c 0] k1 k2 e2 hd(3) assms(3) obtain s3 where s3: "write_head ?c = Ok s3" "wrote [(?st, wr32 (?d ?st) 0 0)] ?c s3"
    by (auto simp: clear_lh_def NBUF_def hdr0)
  have "wrote (recW ?st ?d n) (s\<lparr>lg_lh := h\<lparr>lh_n := 0\<rparr>\<rparr>) s3"
    using wrote_trans [OF wrote_lh [OF wrote_trans [OF s1(2) s2(2) [unfolded m2], simplified], of "h\<lparr>lh_n := 0\<rparr>"]] s3(2) k1(3) k2(3)
    by (simp add: recW_def clear_lh_def)
  then show ?thesis using s1(1) s2(1) s3(1) by (auto simp: recover_from_log_def)
qed

text \<open>A cache after \<^verbatim>\<open>binit\<close>, on the disk \<open>d\<close>.\<close>

definition booted :: "(u32 \<Rightarrow> byte list) \<Rightarrow> u32 \<Rightarrow> 'a logst_scheme \<Rightarrow> bool" where
  "booted d dz r \<longleftrightarrow> bc_inv r {} \<and> pending r = {} \<and> length (lh_block (lg_lh r)) = LOGSIZE \<and> memdisk r = d \<and> disksize r = dz"

lemma initlog_ok:
  assumes "booted d dz r" "1 < dz" "sb_logstart (get_sb (d 1)) = st" "head_ok st d n dz"
  shows "\<exists>r'. initlog 1 r = Ok r' \<and> dwrites r' = dwrites r @ recW st d n \<and> memdisk r' = upds d (recW st d n)"
proof -
  have b: "bc_inv r {}" "pending r = {}" "length (lh_block (lg_lh r)) = LOGSIZE" "memdisk r = d" "disksize r = dz" using assms(1) by (auto simp: booted_def)
  have v: "view r 1 = d 1" using view_clean [OF b(1), of 1] b(2,4) by simp
  from read_release [OF b(1,2), of 1] b(5) assms(2) v obtain i s1 s2 where r: "bread 1 1 r = Ok (i, s1)" "b_data (bf s1 i) = d 1" "brelse i s1 = Ok s2" "wrote [] r s2"
    by auto
  note k = wrote_log [OF r(4)]
  let ?s = "s2\<lparr>lg_start := sint st, lg_size := sint (sb_nlog (get_sb (d 1))), lg_dev := 1\<rparr>"
  have m: "memdisk s2 = d" "dwrites s2 = dwrites r" "pending s2 = {}" using r(4) b by (simp_all add: wrote_def)
  have st: "start ?s = st" by (simp add: start_def)
  from recover_ok [of ?s n] k b m st assms(4) obtain s3 h where s3: "recover_from_log ?s = Ok s3" "wrote (recW st d n) (?s\<lparr>lg_lh := h\<rparr>) s3" by auto
  have "initlog 1 r = Ok s3" using r s3(1) assms(3) by (simp add: initlog_def readsb_def BSIZE_def LOGSIZE_def Let_def)
  then show ?thesis using s3(2) m by (simp add: wrote_def)
qed

subsection \<open>A commit, and what a crash leaves\<close>

definition log_area :: "'a logst_scheme \<Rightarrow> u32 set" where
  "log_area s = insert (start s) ((\<lambda>t. log_block t s) ` {..<LOGSIZE})"

text \<open>The state in which a transaction of \<open>n\<close> blocks is committed: its blocks are the ones that wait in the cache.\<close>

definition log_ok :: "nat \<Rightarrow> 'a logst_scheme \<Rightarrow> bool" where
  "log_ok n s \<longleftrightarrow> bc_inv s {} \<and> lg_dev s = 1 \<and> 1 < lg_start s \<and> lg_start s + int LOGSIZE < uint (disksize s) \<and>
     length (lh_block (lg_lh s)) = LOGSIZE \<and> lh_n (lg_lh s) = int n \<and> pending s = home s ` {..<n} \<and> 0 < n \<and> n + 1 < NBUF \<and>
     (\<forall>t < n. home s t < disksize s \<and> home s t \<noteq> 1 \<and> home s t \<notin> log_area s) \<and>
     rd32 (memdisk s (start s)) 0 = 0 \<and> sb_logstart (get_sb (memdisk s 1)) = start s"

lemma log_okD:
  assumes "log_ok n s"
  shows "bc_inv s {}" "lg_dev s = 1" "length (lh_block (lg_lh s)) = LOGSIZE" "lh_n (lg_lh s) = int n" "pending s = home s ` {..<n}" "0 < n"
    "n < LOGSIZE" "card (pending s) + 1 < NBUF" "t < n \<Longrightarrow> home s t < disksize s \<and> home s t \<noteq> 1 \<and> home s t \<noteq> start s"
    "t < n \<Longrightarrow> u < n \<Longrightarrow> home s t \<noteq> log_block u s" "rd32 (memdisk s (start s)) 0 = 0" "sb_logstart (get_sb (memdisk s 1)) = start s" "1 < disksize s"
    "start s < disksize s" "start s \<noteq> 1" "t < LOGSIZE \<Longrightarrow> log_block t s < disksize s \<and> log_block t s \<noteq> 1 \<and> log_block t s \<noteq> start s"
    "t < LOGSIZE \<Longrightarrow> u < LOGSIZE \<Longrightarrow> log_block t s = log_block u s \<Longrightarrow> t = u" "apart n s"
proof -
  note a = assms [unfolded log_ok_def]
  show n: "n < LOGSIZE" using a by (simp add: LOGSIZE_def NBUF_def)
  show "bc_inv s {}" "lg_dev s = 1" "length (lh_block (lg_lh s)) = LOGSIZE" "lh_n (lg_lh s) = int n" "pending s = home s ` {..<n}" "0 < n"
    "rd32 (memdisk s (start s)) 0 = 0" "sb_logstart (get_sb (memdisk s 1)) = start s" using a by blast+
  show "card (pending s) + 1 < NBUF" using a card_image_le [of "{..<n}" "home s"] by simp
  show h: "t < n \<Longrightarrow> home s t < disksize s \<and> home s t \<noteq> 1 \<and> home s t \<noteq> start s" for t using a by (auto simp: log_area_def)
  show hl: "t < n \<Longrightarrow> u < n \<Longrightarrow> home s t \<noteq> log_block u s" for t u using a n by (auto simp: log_area_def)
  have dz: "uint (disksize s) < 2 ^ 32" using uint_lt2p [of "disksize s"] by simp
  have us: "uint (start s) = lg_start s" using a dz by (simp add: start_def uint_word_of_int)
  have ul: "t < LOGSIZE \<Longrightarrow> uint (log_block t s) = lg_start s + int t + 1" for t
    unfolding log_block_def uint_word_of_int using a dz by (subst mod_pos_pos_trivial) simp_all
  show "1 < disksize s" "start s < disksize s" "start s \<noteq> 1" using a us by (auto simp: word_less_def)
  show l: "t < LOGSIZE \<Longrightarrow> log_block t s < disksize s \<and> log_block t s \<noteq> 1 \<and> log_block t s \<noteq> start s" for t using a us ul [of t] by (auto simp: word_less_def)
  show "t < LOGSIZE \<Longrightarrow> u < LOGSIZE \<Longrightarrow> log_block t s = log_block u s \<Longrightarrow> t = u" using ul [of t] ul [of u] by (metis add_left_cancel add_right_cancel of_nat_eq_iff)
  have "log_block t s < disksize s" "log_block t s \<noteq> home s u" if "t < n" "u < n" for t u using l [of t] hl [of u t] that n by auto
  then show "apart n s" unfolding apart_def using a n h by simp
qed

definition logW :: "nat \<Rightarrow> 'a logst_scheme \<Rightarrow> (u32 \<times> byte list) list" where
  "logW n s = map (\<lambda>t. (log_block t s, view s (home s t))) [0..<n]"

definition new_head :: "nat \<Rightarrow> 'a logst_scheme \<Rightarrow> byte list" where
  "new_head n s = hdr (memdisk s (start s)) n (lh_block (lg_lh s))"

definition homeW :: "nat \<Rightarrow> 'a logst_scheme \<Rightarrow> (u32 \<times> byte list) list" where
  "homeW n s = map (\<lambda>t. (home s t, view s (home s t))) [0..<n]"

definition commitW :: "nat \<Rightarrow> 'a logst_scheme \<Rightarrow> (u32 \<times> byte list) list" where
  "commitW n s = logW n s @ [(start s, new_head n s)] @ homeW n s @ [(start s, wr32 (new_head n s) 0 0)]"

lemma logW_at:
  assumes "log_ok n s" "t < n"
  shows "upds m (logW n s) (log_block t s) = view s (home s t)"
proof (rule upds_at)
  note k = log_okD [OF assms(1)]
  have "inj_on (\<lambda>t. log_block t s) {0..<n}" using k(7,17) by (intro inj_onI) auto
  then show "distinct (map fst (logW n s))" by (simp add: logW_def distinct_map comp_def)
  show "(log_block t s, view s (home s t)) \<in> set (logW n s)" using assms(2) by (auto simp: logW_def)
qed

lemma logW_dom: "fst ` set (take k (logW n s)) \<subseteq> (\<lambda>t. log_block t s) ` {..<n}"
  by (auto simp: logW_def dest!: in_set_takeD)

lemma log_start_notin:
  assumes "log_ok n s"
  shows "start s \<notin> fst ` set (logW n s)" "start s \<notin> fst ` set (homeW n s)" "t < n \<Longrightarrow> log_block t s \<notin> fst ` set (homeW n s)"
proof -
  note k = log_okD [OF assms]
  have "start s \<noteq> log_block t s" if "t < n" for t using k(7) k(16) [of t] that by auto
  then show "start s \<notin> fst ` set (logW n s)" by (simp add: logW_def image_image image_iff)
  show "start s \<notin> fst ` set (homeW n s)" using k(9) by (fastforce simp: homeW_def)
  show "t < n \<Longrightarrow> log_block t s \<notin> fst ` set (homeW n s)" using k(10) by (fastforce simp: homeW_def)
qed

lemma commit_ok:
  assumes "log_ok n s"
  shows "\<exists>s' h. commit s = Ok s' \<and> wrote (commitW n s) (s\<lparr>lg_lh := h\<rparr>) s'"
proof -
  note k = log_okD [OF assms]
  from write_log_ok [OF k(1,8,18)] obtain s1 where s1: "write_log s = Ok s1" "wrote (logW n s) s s1" using k(4) by (auto simp: write_log_def logW_def)
  note k1 = wrote_log [OF s1(2)]
  have c1: "card (pending s1) + 1 < NBUF" by (rule wrote_frame [OF s1(2) k(8)])
  have vs: "view s (start s) = memdisk s (start s)" by (rule view_clean [OF k(1)]) (use k(5,9) in fastforce)
  have e1: "start s1 = start s" "view s1 (start s) = memdisk s (start s)"
    using k1(2) s1(2) upds_other [OF log_start_notin(1) [OF assms]] vs by (simp_all add: start_def wrote_def)
  from write_head_ok [OF k1(6) c1, of n] k k1 e1 obtain s2 where s2: "write_head s1 = Ok s2" "wrote [(start s, new_head n s)] s1 s2"
    by (auto simp: new_head_def)
  note w2 = wrote_trans [OF s1(2) s2(2)] and k2 = wrote_log [OF wrote_trans [OF s1(2) s2(2)]]
  have c2: "card (pending s2) + 1 < NBUF" by (rule wrote_frame [OF w2 k(8)])
  have "view s2 (log_block t s) = view s (home s t)" if "t < n" for t
    using w2 logW_at [OF assms that] k(16) [of t] k(7) that by (simp add: wrote_def)
  then have h2: "map (\<lambda>t. (home s2 t, view s2 (log_block t s2))) [0..<n] = homeW n s"
    using k2(4) apart_wrote(2) [OF w2] by (simp add: homeW_def)
  from install_ok [OF k2(6) c2, of n] apart_wrote(1) [OF w2] k(18) h2 obtain s3 where s3: "install_trans s2 = Ok s3" "wrote (homeW n s) s2 s3"
    using k2(3) k(4) by (auto simp: install_trans_def)
  note w3 = wrote_trans [OF w2 s3(2)] and k3 = wrote_log [OF wrote_trans [OF w2 s3(2)]]
  have e3: "start s3 = start s" "view s3 (start s) = new_head n s"
    using k3(2) w3 upds_other [OF log_start_notin(2) [OF assms]] by (simp_all add: start_def wrote_def)
  from write_head_ok [of "clear_lh s3" 0] k k3 e3 wrote_frame [OF w3 k(8)] obtain s4 where
    s4: "write_head (clear_lh s3) = Ok s4" "wrote [(start s, wr32 (new_head n s) 0 0)] (clear_lh s3) s4" by (auto simp: clear_lh_def hdr0)
  have "wrote (commitW n s) (s\<lparr>lg_lh := (lg_lh s)\<lparr>lh_n := 0\<rparr>\<rparr>) s4"
    using wrote_trans [OF wrote_lh [OF w3, of "(lg_lh s)\<lparr>lh_n := 0\<rparr>"]] s4(2) k3(3) by (simp add: commitW_def clear_lh_def)
  moreover have "commit s = Ok s4" using s1(1) s2(1) s3(1) s4(1) k(4,6) by (simp add: commit_def)
  ultimately show ?thesis by blast
qed

text \<open>
  \<open>crashed s c d\<close>: the machine stopped with the disk \<open>d\<close>, in the commit of the state \<open>s\<close> or in a recovery after it;
  \<open>c\<close> tells if the commit had written the header.
\<close>

inductive crashed :: "'a logst_scheme \<Rightarrow> bool \<Rightarrow> (u32 \<Rightarrow> byte list) \<Rightarrow> bool" for s :: "'a logst_scheme" where
  crash_commit: "commit s = Ok s' \<Longrightarrow> dwrites s' = dwrites s @ W \<Longrightarrow> k \<le> length W \<Longrightarrow>
    crashed s (lh_n (lg_lh s) < int k) (upds (memdisk s) (take k W))"
| crash_recovery: "crashed s c d \<Longrightarrow> booted d (disksize s) (r :: 'a logst_scheme) \<Longrightarrow> initlog 1 r = Ok r' \<Longrightarrow> dwrites r' = dwrites r @ W \<Longrightarrow>
    crashed s c (upds d (take k W))"

definition after :: "bool \<Rightarrow> 'a logst_scheme \<Rightarrow> u32 \<Rightarrow> byte list" where
  "after c s b = (if c then view s b else memdisk s b)"

definition logged :: "nat \<Rightarrow> 'a logst_scheme \<Rightarrow> (u32 \<Rightarrow> byte list) \<Rightarrow> bool" where
  "logged n s d \<longleftrightarrow> d (start s) = new_head n s \<and> (\<forall>t < n. d (log_block t s) = view s (home s t)) \<and>
     (\<forall>b. b \<notin> log_area s \<longrightarrow> b \<notin> home s ` {..<n} \<longrightarrow> d b = memdisk s b)"

text \<open>The disks a crash leaves: the header is empty and the blocks are all old or all new, or it is written and the log holds the new blocks.\<close>

definition crash_inv :: "nat \<Rightarrow> 'a logst_scheme \<Rightarrow> bool \<Rightarrow> (u32 \<Rightarrow> byte list) \<Rightarrow> bool" where
  "crash_inv n s c d \<longleftrightarrow>
     (rd32 (d (start s)) 0 = 0 \<and> (\<forall>b. b \<notin> log_area s \<longrightarrow> d b = after c s b)) \<or>
     (c \<and> logged n s d)"

definition lateW :: "nat \<Rightarrow> 'a logst_scheme \<Rightarrow> (u32 \<times> byte list) list" where
  "lateW n s = homeW n s @ [(start s, wr32 (new_head n s) 0 0)]"

lemma upds_home: "upds m (homeW n s) b = (if b \<in> home s ` {..<n} then view s b else m b)"
proof (induction n)
  case (Suc n)
  have "homeW (Suc n) s = homeW n s @ [(home s n, view s (home s n))]" by (simp add: homeW_def)
  with Suc show ?case by (auto simp: lessThan_Suc)
qed (simp add: homeW_def)

lemma homeW_take: "fst ` set (take k (homeW n s)) \<subseteq> home s ` {..<n}"
  by (auto simp: homeW_def dest!: in_set_takeD)

lemma view_old: "log_ok n s \<Longrightarrow> b \<notin> home s ` {..<n} \<Longrightarrow> view s b = memdisk s b"
  using log_okD [of n s] by (intro view_clean) auto

lemma new_head_facts:
  assumes "log_ok n s"
  shows "rd32 (new_head n s) 0 = word_of_int (int n)" "t < n \<Longrightarrow> rd32 (new_head n s) (4 * t + 4) = home s t" "4 \<le> length (new_head n s)"
  using hdr_facts [where n = n and d = "memdisk s (start s)" and bl = "lh_block (lg_lh s)"] log_okD(7) [OF assms] bc_invD(4) [OF log_okD(1) [OF assms], of "start s"]
  by (simp_all add: new_head_def home_def BSIZE_def LOGSIZE_def)

lemma late_inv:
  assumes "log_ok n s" "logged n s d"
  shows "crash_inv n s True (upds d (take k (lateW n s)))"
proof (cases "k \<le> length (homeW n s)")
  case True
  let ?d = "upds d (take k (homeW n s))"
  have o: "?d b = d b" if "b \<notin> home s ` {..<n}" for b by (rule upds_other) (use that homeW_take [of k n s] in blast)
  have "start s \<notin> home s ` {..<n}" "t < n \<Longrightarrow> log_block t s \<notin> home s ` {..<n}" for t
    using log_start_notin [OF assms(1)] by (simp_all add: homeW_def image_image atLeast0LessThan)
  then have "logged n s ?d" using o assms(2) unfolding logged_def by metis
  then show ?thesis using True by (simp add: lateW_def crash_inv_def)
next
  case False
  let ?d = "(upds d (homeW n s))(start s := wr32 (new_head n s) 0 0)"
  have "rd32 (?d (start s)) 0 = 0" using new_head_facts(3) [OF assms(1)] by (simp add: rd32_wr32)
  moreover have "?d b = view s b" if "b \<notin> log_area s" for b
    using that assms(2) view_old [OF assms(1), of b] upds_home [of d n s b] by (auto simp: logged_def log_area_def)
  ultimately have "crash_inv n s True ?d" by (simp add: crash_inv_def after_def)
  then show ?thesis using False by (simp add: lateW_def)
qed

lemma commit_prefix:
  assumes "log_ok n s" "k \<le> length (commitW n s)"
  shows "crash_inv n s (n < k) (upds (memdisk s) (take k (commitW n s)))"
proof (cases "k \<le> n")
  case True
  let ?d = "upds (memdisk s) (take k (logW n s))"
  have l: "take k (commitW n s) = take k (logW n s)" using True by (simp add: commitW_def logW_def)
  have "?d (start s) = memdisk s (start s)"
    by (rule upds_other) (use log_start_notin(1) [OF assms(1)] in \<open>auto dest!: in_set_takeD\<close>)
  moreover have "?d b = memdisk s b" if "b \<notin> log_area s" for b
    by (rule upds_other) (use that logW_dom [of k n s] log_okD(7) [OF assms(1)] in \<open>auto simp: log_area_def\<close>)
  ultimately show ?thesis using True l log_okD(11) [OF assms(1)] by (simp add: crash_inv_def after_def)
next
  case False
  let ?d = "(upds (memdisk s) (logW n s))(start s := new_head n s)"
  have "take k (commitW n s) = logW n s @ (start s, new_head n s) # take (k - n - 1) (lateW n s)"
    using False by (cases "k - n") (simp_all add: commitW_def lateW_def logW_def)
  moreover have "logged n s ?d"
  proof -
    have "?d b = memdisk s b" if "b \<notin> log_area s" for b
    proof -
      have "b \<notin> fst ` set (logW n s)" using that logW_dom [of "length (logW n s)" n s] log_okD(7) [OF assms(1)] by (auto simp: log_area_def)
      then show ?thesis using that by (auto simp: upds_other log_area_def)
    qed
    then show ?thesis using logW_at [OF assms(1)] log_okD(7,16) [OF assms(1)] by (auto simp: logged_def)
  qed
  ultimately show ?thesis using late_inv [OF assms(1), of ?d] False by simp
qed

lemma crash_head:
  assumes "log_ok n s" "crash_inv n s c d"
  shows "d 1 = memdisk s 1" "\<exists>m. head_ok (start s) d m (disksize s) \<and>
    (m = 0 \<and> rd32 (d (start s)) 0 = 0 \<and> (\<forall>b. b \<notin> log_area s \<longrightarrow> d b = after c s b) \<or> c \<and> m = n \<and> logged n s d)"
proof -
  note k = log_okD [OF assms(1)]
  have "1 \<notin> log_area s" "1 \<notin> home s ` {..<n}" using k(9,15,16) by (auto simp: log_area_def)
  then show "d 1 = memdisk s 1" using assms(2) view_old [OF assms(1), of 1] by (auto simp: crash_inv_def logged_def after_def)
  show "\<exists>m. head_ok (start s) d m (disksize s) \<and>
    (m = 0 \<and> rd32 (d (start s)) 0 = 0 \<and> (\<forall>b. b \<notin> log_area s \<longrightarrow> d b = after c s b) \<or> c \<and> m = n \<and> logged n s d)"
  proof (cases "c \<and> logged n s d")
    case True
    have h: "rd32 (d (start s)) (4 * t + 4) = home s t" if "t < n" for t using True new_head_facts(2) [OF assms(1) that] by (simp add: logged_def)
    have "start s \<noteq> home s t" "log_block u s \<noteq> home s t" "log_block t s < disksize s" if "t < n" "u < n" for t u
      using k(9) [of t] k(10) [of t u] k(16) [of t] k(7) that by auto
    then have "head_ok (start s) d n (disksize s)"
      using True new_head_facts(1) [OF assms(1)] k(7,9,14) h by (auto simp: head_ok_def logged_def log_block_start)
    with True show ?thesis by blast
  next
    case False
    with assms(2) show ?thesis using k(14) by (intro exI [of _ 0]) (auto simp: crash_inv_def head_ok_def)
  qed
qed

lemma recW_logged:
  assumes "log_ok n s" "logged n s d"
  shows "recW (start s) d n = lateW n s"
  using assms(2) new_head_facts(2) [OF assms(1)] by (auto simp: recW_def lateW_def homeW_def logged_def log_block_start)

lemma crash_recover:
  assumes "log_ok n s" "crash_inv n s c d" "booted d (disksize s) r"
  shows "\<exists>r' W. initlog 1 r = Ok r' \<and> dwrites r' = dwrites r @ W \<and> (\<forall>k. crash_inv n s c (upds d (take k W))) \<and>
    (\<forall>b. b \<notin> log_area s \<longrightarrow> memdisk r' b = after c s b)"
proof -
  note k = log_okD [OF assms(1)]
  from crash_head [OF assms(1,2)] obtain m where m: "d 1 = memdisk s 1" "head_ok (start s) d m (disksize s)"
    "m = 0 \<and> rd32 (d (start s)) 0 = 0 \<and> (\<forall>b. b \<notin> log_area s \<longrightarrow> d b = after c s b) \<or> c \<and> m = n \<and> logged n s d" by blast
  from initlog_ok [OF assms(3) k(13) _ m(2)] m(1) k(12) obtain r' where r': "initlog 1 r = Ok r'" "dwrites r' = dwrites r @ recW (start s) d m"
    "memdisk r' = upds d (recW (start s) d m)" by auto
  have "length (d (start s)) = BSIZE" using assms(3) bc_invD(4) [of r "{}" "start s"] by (simp add: booted_def)
  then have z: "rd32 (wr32 (d (start s)) 0 0) 0 = 0" by (simp add: rd32_wr32 BSIZE_def)
  have sa: "start s \<in> log_area s" by (simp add: log_area_def)
  from m(3) show ?thesis
  proof (elim disjE conjE)
    assume a: "m = 0" "rd32 (d (start s)) 0 = 0" "\<forall>b. b \<notin> log_area s \<longrightarrow> d b = after c s b"
    have W: "recW (start s) d m = [(start s, wr32 (d (start s)) 0 0)]" using a(1) by (simp add: recW_def)
    have "crash_inv n s c (upds d (take k [(start s, wr32 (d (start s)) 0 0)]))" for k
      by (cases k) (use a z sa in \<open>auto simp: crash_inv_def\<close>)
    then show ?thesis using r' a(3) sa unfolding W by (intro exI [of _ r'] exI conjI) auto
  next
    assume a: "c" "m = n" "logged n s d"
    have W: "recW (start s) d m = lateW n s" using recW_logged [OF assms(1) a(3)] a(2) by simp
    have "upds d (lateW n s) b = view s b" if "b \<notin> log_area s" for b
      using that sa a(3) view_old [OF assms(1), of b] upds_home [of d n s b] by (auto simp: logged_def lateW_def)
    then show ?thesis using r' late_inv [OF assms(1) a(3)] a(1) unfolding W
      by (intro exI [of _ r'] exI [of _ "lateW n s"]) (simp add: after_def)
  qed
qed

lemma crashed_inv: "crashed s c d \<Longrightarrow> log_ok n s \<Longrightarrow> crash_inv n s c d"
proof (induction rule: crashed.induct)
  case (crash_commit s' W k)
  from commit_ok [OF crash_commit(4)] crash_commit(1,2) have "W = commitW n s" by (auto simp: wrote_def)
  then show ?case using commit_prefix [OF crash_commit(4)] crash_commit(3) log_okD(4) [OF crash_commit(4)] by simp
next
  case (crash_recovery c d r r' W k)
  from crash_recover [OF crash_recovery(6) crash_recovery(5) [OF crash_recovery(6)] crash_recovery(2)] crash_recovery(3,4)
  show ?case by auto
qed

subsection \<open>Adding a block to the transaction\<close>

definition add_home :: "int \<Rightarrow> logheader \<Rightarrow> logheader" where
  "add_home b lh = (if b \<in> set (take (nat (lh_n lh)) (lh_block lh)) then lh
     else lh\<lparr>lh_n := lh_n lh + 1, lh_block := (lh_block lh)[nat (lh_n lh) := b]\<rparr>)"

text \<open>A block that is in the transaction already is not added again (absorption).\<close>

lemma log_write_eq:
  assumes "held s = []" "lh_n (lg_lh s) = int n" "n < LOGSIZE" "int n < lg_size s - 1" "1 \<le> lg_outstanding s" "length (lh_block (lg_lh s)) = LOGSIZE"
  shows "log_write i s = Ok (upd_buf i (\<lambda>x. x\<lparr>b_dirty := True\<rparr>) (s\<lparr>lg_lh := add_home (sint (b_blockno (bf s i))) (lg_lh s)\<rparr>))"
proof (cases "first_idx (\<lambda>x. x = sint (b_blockno (bf s i))) (take n (lh_block (lg_lh s)))")
  case None
  then have "sint (b_blockno (bf s i)) \<notin> set (take n (lh_block (lg_lh s)))" unfolding first_idx_None by blast
  moreover have "aset (lh_block (lg_lh s)) (int n) (sint (b_blockno (bf s i))) = Ok ((lh_block (lg_lh s))[n := sint (b_blockno (bf s i))])"
    using assms(3,6) by (simp add: aset_def)
  ultimately show ?thesis using assms(1-5) None by (simp add: log_write_def add_home_def upd_buf_def)
next
  case (Some j)
  then have j: "j < n" "lh_block (lg_lh s) ! j = sint (b_blockno (bf s i))" "sint (b_blockno (bf s i)) \<in> set (take n (lh_block (lg_lh s)))"
    using assms(3,6) by (auto simp: first_idx_Some in_set_conv_nth)
  then have "(lh_block (lg_lh s))[j := sint (b_blockno (bf s i))] = lh_block (lg_lh s)" using list_update_id [of "lh_block (lg_lh s)" j] by simp
  then have "aset (lh_block (lg_lh s)) (int j) (sint (b_blockno (bf s i))) = Ok (lh_block (lg_lh s))"
    using j(1) assms(3,6) by (simp add: aset_def)
  then show ?thesis using assms(1-5) Some j(1,3) by (simp add: log_write_def add_home_def upd_buf_def)
qed

lemma write_block:
  assumes "bc_inv s {}" "card (pending s) < NBUF" "b < disksize s" "length d = BSIZE" "lh_n (lg_lh s) = int n" "n < LOGSIZE" "int n < lg_size s - 1"
    "1 \<le> lg_outstanding s" "length (lh_block (lg_lh s)) = LOGSIZE"
  shows "\<exists>s'. bnd (bread 1 b s) (\<lambda>(i, s). bnd (log_write i (set_data i d s)) (brelse i)) = Ok s' \<and> bc_inv s' {} \<and>
    dkeep (s\<lparr>lg_lh := add_home (sint b) (lg_lh s)\<rparr>) s' \<and> view s' = (view s)(b := d) \<and> memdisk s' = memdisk s \<and> pending s' = insert b (pending s)"
proof -
  from bread_full [OF assms(1,3)] assms(2) obtain i s1 where i: "bread 1 b s = Ok (i, s1)" "bc_inv s1 {i}" "bkeep s s1" "view s1 = view s"
    "b_blockno (bf s1 i) = b" "pending s1 = pending s" by auto
  note k1 = dkeep_log [OF bkeep_dkeep [OF i(3)]] and iv = bc_invD [OF i(2)]
  have lt: "i < NBUF" "i < length (bufs s1)" using iv(3,5) by auto
  define s2 where "s2 = set_data i d s1"
  have s2: "bc_inv s2 {i}" "view s2 = (view s)(b := d)" "bf s2 i = (bf s1 i)\<lparr>b_data := d\<rparr>" "dkeep s1 s2" "held s2 = []"
    "bufs s2 = (bufs s1)[i := (bf s1 i)\<lparr>b_data := d\<rparr>]" "memdisk s2 = memdisk s1"
    using upd_data [OF i(2), of i d] lt assms(4) dkeep_upd(2) i(4,5) iv(1) by (simp_all add: s2_def set_data_def)
  have p2: "pending s2 = pending s"
    using pending_upd [OF i(2), of i s2 "(bf s1 i)\<lparr>b_data := d\<rparr>"] s2(6) pending_iff [OF i(2) lt(1)] iv(9) [of i] i(6) by (auto simp: insert_absorb)
  note k2 = dkeep_log [OF s2(4)]
  define s3 where "s3 = s2\<lparr>lg_lh := add_home (sint b) (lg_lh s)\<rparr>"
  let ?t = "upd_buf i (\<lambda>x. x\<lparr>b_dirty := True\<rparr>) s3"
  have w: "log_write i s2 = Ok ?t"
    using log_write_eq [of s2 n i] s2(3,5) k1 k2 assms(5-9) i(5) by (simp add: s3_def)
  have i3: "bc_inv s3 {i}" using s2(1) by (simp add: s3_def)
  have t: "bc_inv ?t {i}" "view ?t = view s3" using set_dirty [OF i3] by auto
  have pt: "pending ?t = insert b (pending s)"
    using pending_upd [OF i3, of i ?t "(bf s3 i)\<lparr>b_dirty := True\<rparr>"] s2(3) p2 i(5) by (simp add: s3_def)
  have dt: "b_dirty (bf ?t i)" using lt s2(6) by (simp add: s3_def upd_buf_def)
  from brelse_full [OF t(1)] dt obtain s4 where s4: "brelse i ?t = Ok s4" "bc_inv s4 ({i} - {i})" "bkeep ?t s4" "view s4 = view ?t" "pending s4 = pending ?t"
    by blast
  have "dkeep (s\<lparr>lg_lh := add_home (sint b) (lg_lh s)\<rparr>) s3"
    unfolding s3_def by (rule dkeep_lh [OF dkeep_trans [OF bkeep_dkeep [OF i(3)] s2(4)]])
  from dkeep_trans [OF this dkeep_trans [OF dkeep_upd(2) bkeep_dkeep [OF s4(3)]]]
  show ?thesis using i(1) w s4 t(2) s2(2,7) pt bkeepD(1) [OF s4(3)] bkeepD(1) [OF i(3)] by (simp add: s2_def [symmetric] s3_def)
qed

text \<open>
  C1: Atomicity of a commit. A transaction of \<open>n\<close> blocks that wait in the buffer cache is committed; its blocks
  reach the disk. If the machine stops after any number of the commit's disk writes, and then any number of times during the
  recovery, the next recovery succeeds and leaves every block outside the log as it was before the commit when the header
  had not been written, and as the transaction wrote it when it had.
\<close>

theorem commit_atomic:
  fixes s :: "'a logst_scheme"
  assumes "log_ok n s"
  shows "(\<exists>s'. commit s = Ok s' \<and> (\<forall>b. b \<notin> log_area s \<longrightarrow> memdisk s' b = view s b)) \<and>
    (\<forall>c d (r :: 'a logst_scheme). crashed s c d \<longrightarrow> booted d (disksize s) r \<longrightarrow>
      (\<exists>r'. initlog 1 r = Ok r' \<and> (\<forall>b. b \<notin> log_area s \<longrightarrow> memdisk r' b = (if c then view s b else memdisk s b))))"
proof
  from commit_ok [OF assms] obtain s' h where s': "commit s = Ok s'" "wrote (commitW n s) (s\<lparr>lg_lh := h\<rparr>) s'" by blast
  have "crash_inv n s True (memdisk s')"
    using s'(2) commit_prefix [OF assms order_refl] log_okD(6) [OF assms] by (simp add: wrote_def commitW_def logW_def)
  moreover have "rd32 (memdisk s' (start s)) 0 = 0"
    using s'(2) new_head_facts(3) [OF assms] by (simp add: wrote_def commitW_def rd32_wr32)
  moreover have "rd32 (new_head n s) 0 \<noteq> 0"
    using new_head_facts(1) [OF assms] log_okD(6,7) [OF assms] by (auto simp: LOGSIZE_def word_of_nat_eq_0_iff dest: dvd_imp_le)
  ultimately show "\<exists>s'. commit s = Ok s' \<and> (\<forall>b. b \<notin> log_area s \<longrightarrow> memdisk s' b = view s b)"
    using s'(1) by (auto simp: crash_inv_def logged_def after_def)
next
  show "\<forall>c d (r :: 'a logst_scheme). crashed s c d \<longrightarrow> booted d (disksize s) r \<longrightarrow>
      (\<exists>r'. initlog 1 r = Ok r' \<and> (\<forall>b. b \<notin> log_area s \<longrightarrow> memdisk r' b = (if c then view s b else memdisk s b)))"
    using crash_recover [OF assms crashed_inv [OF _ assms]] unfolding after_def by blast
qed

lemma bcache_extend [simp]:
  "held (bcache.extend r m) = held r" "ncli (bcache.extend r m) = ncli r" "use_lock (bcache.extend r m) = use_lock r"
  "freelist (bcache.extend r m) = freelist r" "kend (bcache.extend r m) = kend r" "mem (bcache.extend r m) = mem r"
  "procs (bcache.extend r m) = procs r" "cur (bcache.extend r m) = cur r" "nextpid (bcache.extend r m) = nextpid r"
  "initproc (bcache.extend r m) = initproc r" "kpgdir (bcache.extend r m) = kpgdir r"
  "cr3 (bcache.extend r m) = cr3 r" "ts_esp0 (bcache.extend r m) = ts_esp0 r" "queue (bcache.extend r m) = queue r"
  "containers (bcache.extend r m) = containers r" "sleeplocks (bcache.extend r m) = sleeplocks r"
  "mutexes (bcache.extend r m) = mutexes r" "pipes (bcache.extend r m) = pipes r"
  "shm_infos (bcache.extend r m) = shm_infos r" "kdata (bcache.extend r m) = kdata r"
  "bufs (bcache.extend r m) = bufs r" "memdisk (bcache.extend r m) = memdisk r"
  "disksize (bcache.extend r m) = disksize r" "dwrites (bcache.extend r m) = dwrites r"
  "lg_start (bcache.extend r (logst.fields v0 v1 v2 v3 v4 v5)) = v0"
  "lg_size (bcache.extend r (logst.fields v0 v1 v2 v3 v4 v5)) = v1"
  "lg_outstanding (bcache.extend r (logst.fields v0 v1 v2 v3 v4 v5)) = v2"
  "lg_committing (bcache.extend r (logst.fields v0 v1 v2 v3 v4 v5)) = v3"
  "lg_dev (bcache.extend r (logst.fields v0 v1 v2 v3 v4 v5)) = v4"
  "lg_lh (bcache.extend r (logst.fields v0 v1 v2 v3 v4 v5)) = v5"
  by (simp_all add: bcache.defs logst.defs)


definition demo_disk :: "u32 \<Rightarrow> byte list" where
  "demo_disk n = (if n = 1 then wr32 (replicate BSIZE 0) 16 2 else if n = 2 then replicate BSIZE 0 else replicate BSIZE (ucast n))"

definition demo_fresh :: logst where
  "demo_fresh = binit (bcache.extend (demo_raw\<lparr>memdisk := demo_disk\<rparr>) (logst.fields 2 31 1 False 1 \<lparr>lh_n = 0, lh_block = replicate LOGSIZE 0\<rparr>))"

definition demo_tx :: "logst res" where
  "demo_tx = bnd (bread 1 50 demo_fresh) (\<lambda>(i, s). bnd (log_write i (set_data i (replicate BSIZE 7) s)) (brelse i))"

lemma demo_fresh_facts:
  "bc_inv demo_fresh {}" "view demo_fresh = demo_disk" "pending demo_fresh = {}" "memdisk demo_fresh = demo_disk" "disksize demo_fresh = 4000" "lg_start demo_fresh = 2"
  "lg_size demo_fresh = 31" "lg_outstanding demo_fresh = 1" "lg_dev demo_fresh = 1" "lg_lh demo_fresh = \<lparr>lh_n = 0, lh_block = replicate LOGSIZE 0\<rparr>"
proof -
  let ?s = "bcache.extend (demo_raw\<lparr>memdisk := demo_disk\<rparr>) (logst.fields 2 31 1 False 1 \<lparr>lh_n = 0, lh_block = replicate LOGSIZE 0\<rparr>) :: logst"
  have f: "length (bufs ?s) = Suc NBUF" "held ?s = []" "cur ?s \<noteq> None" "\<And>n. length (memdisk ?s n) = BSIZE"
    "\<And>i. i < NBUF \<Longrightarrow> length (b_data (bf ?s i)) = BSIZE \<and> b_dev (bf ?s i) = 0 \<and> \<not> b_dirty (bf ?s i) \<and> b_refcnt (bf ?s i) = 0"
    "memdisk ?s = demo_disk"
    by (simp_all add: demo_raw_def demo_vm_proc empty_buf_def demo_disk_def del: replicate_Suc)
  note b = binit_inv [OF f(1-5)]
  show "bc_inv demo_fresh {}" "view demo_fresh = demo_disk" "pending demo_fresh = {}" using b(1-3) f(6) by (simp_all add: demo_fresh_def)
  obtain bs sl where e: "demo_fresh = ?s\<lparr>bufs := bs, sleeplocks := sl\<rparr>" using b(4) unfolding demo_fresh_def by blast
  show "memdisk demo_fresh = demo_disk" "disksize demo_fresh = 4000" "lg_start demo_fresh = 2"
    "lg_size demo_fresh = 31" "lg_outstanding demo_fresh = 1" "lg_dev demo_fresh = 1" "lg_lh demo_fresh = \<lparr>lh_n = 0, lh_block = replicate LOGSIZE 0\<rparr>"
    unfolding e by (simp_all add: demo_raw_def)
qed

lemma demo_tx_ok: "\<exists>s. demo_tx = Ok s \<and> log_ok 1 s \<and> view s 50 = replicate BSIZE 7 \<and> 50 \<notin> log_area s \<and> memdisk s = demo_disk \<and> disksize s = 4000"
proof -
  note f = demo_fresh_facts
  have "card (pending demo_fresh) < NBUF" "(50 :: u32) < disksize demo_fresh" using f by (simp_all add: NBUF_def)
  from write_block [OF f(1) this, of "replicate BSIZE 7" 0] f obtain s where s: "demo_tx = Ok s" "bc_inv s {}"
    "dkeep (demo_fresh\<lparr>lg_lh := add_home 50 (lg_lh demo_fresh)\<rparr>) s" "view s = demo_disk(50 := replicate BSIZE 7)" "memdisk s = demo_disk" "pending s = {50}"
    by (auto simp: demo_tx_def LOGSIZE_def)
  have k: "lg_dev s = 1" "lg_start s = 2" "lg_lh s = \<lparr>lh_n = 1, lh_block = (replicate LOGSIZE 0)[0 := 50]\<rparr>" "disksize s = 4000"
    using dkeep_log [OF s(3)] dkeepD(1) [OF s(3)] f by (simp_all add: add_home_def)
  have h: "home s 0 = 50" using k by (simp add: home_def LOGSIZE_def)
  have "uint (log_block t s) = int t + 3" if "t < LOGSIZE" for t
    unfolding log_block_def uint_word_of_int using k(2) that by (subst mod_pos_pos_trivial) (simp_all add: LOGSIZE_def)
  then have "log_block t s \<noteq> 50" if "t < LOGSIZE" for t using that by (force simp: LOGSIZE_def)
  then have a: "50 \<notin> log_area s" using k(2) by (auto simp: log_area_def start_def)
  have "sb_logstart (get_sb (demo_disk 1)) = 2" "rd32 (demo_disk 2) 0 = 0"
    by (simp_all add: get_sb_def demo_disk_def rd32_wr32 BSIZE_def) (simp add: rd32_def)
  then have "log_ok 1 s"
    unfolding log_ok_def using s(2,5,6) k a h by (simp add: start_def LOGSIZE_def NBUF_def lessThan_Suc)
  with s(1,4,5) a k(4) show ?thesis by auto
qed

theorem commit_atomic_witness:
  "\<exists>s. demo_tx = Ok s \<and> (\<exists>s'. commit s = Ok s' \<and> memdisk s' 50 = replicate BSIZE 7) \<and>
    (\<exists>c d (r :: logst). crashed s c d \<and> booted d (disksize s) r \<and> (\<exists>r'. initlog 1 r = Ok r' \<and> memdisk r' 50 = (if c then replicate BSIZE 7 else replicate BSIZE 50)))"
proof -
  from demo_tx_ok obtain s where s: "demo_tx = Ok s" "log_ok 1 s" "view s 50 = replicate BSIZE 7" "50 \<notin> log_area s" "memdisk s = demo_disk" "disksize s = 4000" by blast
  note c = commit_atomic [OF s(2)]
  obtain s' W where s': "commit s = Ok s'" "dwrites s' = dwrites s @ W" using commit_ok [OF s(2)] by (auto simp: wrote_def)
  have "crashed s False demo_disk" using crash_commit [OF s', of 0] log_okD(4) [OF s(2)] s(5) by simp
  moreover have "booted demo_disk (disksize s) demo_fresh" using demo_fresh_facts s(6) by (simp add: booted_def LOGSIZE_def)
  ultimately obtain r' where r': "crashed s False demo_disk" "booted demo_disk (disksize s) demo_fresh" "initlog 1 demo_fresh = Ok r'" "memdisk r' 50 = demo_disk 50"
    using c s(4,5) by fastforce
  then have "\<exists>r'. initlog 1 demo_fresh = Ok r' \<and> memdisk r' 50 = (if False then replicate BSIZE 7 else replicate BSIZE 50)" by (simp add: demo_disk_def)
  moreover have "\<exists>s'. commit s = Ok s' \<and> memdisk s' 50 = replicate BSIZE 7" using conjunct1 [OF c] s(3,4) by auto
  ultimately show ?thesis using s(1) r'(1,2) by blast
qed

end
