(* ===== verification/Fs.thy ===== *)
theory Fs
  imports Log
begin

text \<open>
  The file system (\<^verbatim>\<open>fs.c\<close>): blocks, inodes, directories and paths, over the log. An inode pointer is an index into
  the inode cache, a null pointer is \<open>None\<close>. What \<open>readi\<close> stores through its destination is the list of bytes it
  returns; what \<open>writei\<close> reads is its argument. A name is a buffer of characters. The device switch, a table of function pointers, is the
  argument \<open>dv\<close>. \<open>short\<close> fields are 16-bit words. A loop whose bound is the size of a file or of a table runs
  over the list of the values of its counter.

  Shown: what the block allocator, the block map, \<open>readi\<close> and \<open>writei\<close> compute on the blocks the kernel sees.
\<close>

definition NDIRECT :: nat where "NDIRECT = 12"
definition NINDIRECT :: nat where "NINDIRECT = BSIZE div 4"
definition MAXFILE :: nat where "MAXFILE = (NDIRECT + NINDIRECT) * 2"
definition IPB :: nat where "IPB = BSIZE div 64"
definition BPB :: nat where "BPB = BSIZE * 8"
definition DIRSIZ :: nat where "DIRSIZ = 14"
definition ROOTINO :: u32 where "ROOTINO = 1"
definition NINODE :: nat where "NINODE = 50"
definition NDEV :: int where "NDEV = 10"
definition T_DIR :: u16 where "T_DIR = 1"
definition T_FILE :: u16 where "T_FILE = 2"
definition T_DEV :: u16 where "T_DEV = 3"

record dinode =
  d_type :: u16
  d_major :: u16
  d_minor :: u16
  d_nlink :: u16
  d_size :: u32
  d_addrs :: "u32 list"

record dirent =
  de_inum :: u16
  de_name :: string

record inode =
  i_dev :: u32
  i_inum :: u32
  i_ref :: int
  i_valid :: bool
  i_type :: u16
  i_major :: u16
  i_minor :: u16
  i_nlink :: u16
  i_size :: u32
  i_addrs :: "u32 list"

record stat =
  st_type :: u16
  st_dev :: u32
  st_ino :: u32
  st_nlink :: u16
  st_size :: u32

record fsst = logst +
  fs_sb :: superblock
  inodes :: "inode list"

text \<open>An entry of the device switch: the functions take the inode and the count or the bytes.\<close>

record 's devsw =
  dv_read :: "(nat \<Rightarrow> nat \<Rightarrow> 's \<Rightarrow> ((int \<times> byte list) \<times> 's) res) option"
  dv_write :: "(nat \<Rightarrow> byte list \<Rightarrow> 's \<Rightarrow> (int \<times> 's) res) option"

subsection \<open>Bytes of a block\<close>

definition rd16 :: "byte list \<Rightarrow> nat \<Rightarrow> u16" where
  "rd16 d k = ucast (d ! k) OR push_bit 8 (ucast (d ! (k + 1)))"

definition wr16 :: "byte list \<Rightarrow> nat \<Rightarrow> u16 \<Rightarrow> byte list" where
  "wr16 d k v = d[k := ucast v, k + 1 := ucast (drop_bit 8 v)]"

definition splice :: "byte list \<Rightarrow> nat \<Rightarrow> byte list \<Rightarrow> byte list" where
  "splice d k xs = take k d @ xs @ drop (k + length xs) d"

definition get_dinode :: "byte list \<Rightarrow> nat \<Rightarrow> dinode" where
  "get_dinode d k = \<lparr>d_type = rd16 d k, d_major = rd16 d (k + 2), d_minor = rd16 d (k + 4), d_nlink = rd16 d (k + 6),
     d_size = rd32 d (k + 8), d_addrs = map (\<lambda>i. rd32 d (k + 12 + 4 * i)) [0..<Suc NDIRECT]\<rparr>"

definition put_dinode :: "byte list \<Rightarrow> nat \<Rightarrow> dinode \<Rightarrow> byte list" where
  "put_dinode d k x = fold (\<lambda>i d. wr32 d (k + 12 + 4 * i) (d_addrs x ! i)) [0..<Suc NDIRECT]
     (wr32 (wr16 (wr16 (wr16 (wr16 d k (d_type x)) (k + 2) (d_major x)) (k + 4) (d_minor x)) (k + 6) (d_nlink x)) (k + 8) (d_size x))"

abbreviation inod :: "'a fsst_scheme \<Rightarrow> nat \<Rightarrow> inode" where
  "inod s i \<equiv> inodes s ! i"

definition upd_inode :: "nat \<Rightarrow> (inode \<Rightarrow> inode) \<Rightarrow> 'a fsst_scheme \<Rightarrow> 'a fsst_scheme" where
  "upd_inode i f s = s\<lparr>inodes := (inodes s)[i := f (inod s i)]\<rparr>"

definition IBLOCK :: "u32 \<Rightarrow> superblock \<Rightarrow> u32" where
  "IBLOCK i b = i div of_nat IPB + sb_inodestart b"

definition BBLOCK :: "u32 \<Rightarrow> superblock \<Rightarrow> u32" where
  "BBLOCK n b = n div of_nat BPB + sb_bmapstart b"

definition ioff :: "u32 \<Rightarrow> nat" where
  "ioff i = unat (i mod of_nat IPB) * 64"

subsection \<open>Blocks\<close>

definition bzero :: "u32 \<Rightarrow> u32 \<Rightarrow> 'a fsst_scheme \<Rightarrow> 'a fsst_scheme res" where
  "bzero dev bno s =
     bnd (bread dev bno s) (\<lambda>(bp, s).
     bnd (log_write bp (set_data bp (replicate BSIZE 0) s)) (brelse bp))"

definition bit_used :: "byte list \<Rightarrow> nat \<Rightarrow> bool" where
  "bit_used d bi \<longleftrightarrow> d ! (bi div 8) AND push_bit (bi mod 8) 1 \<noteq> 0"

definition mark_used :: "byte list \<Rightarrow> nat \<Rightarrow> byte list" where
  "mark_used d bi = d[bi div 8 := d ! (bi div 8) OR push_bit (bi mod 8) 1]"

definition mark_free :: "byte list \<Rightarrow> nat \<Rightarrow> byte list" where
  "mark_free d bi = d[bi div 8 := d ! (bi div 8) AND NOT (push_bit (bi mod 8) 1)]"

primrec balloc_loop :: "u32 \<Rightarrow> nat list \<Rightarrow> 'a fsst_scheme \<Rightarrow> (u32 \<times> 'a fsst_scheme) res" where
  "balloc_loop dev [] s = panic ''balloc: out of blocks''"
| "balloc_loop dev (b # bs) s =
     bnd (bread dev (BBLOCK (of_nat b) (fs_sb s)) s) (\<lambda>(bp, s).
     case first_idx (\<lambda>bi. \<not> bit_used (b_data (bf s bp)) bi) [0..<min BPB (unat (sb_size (fs_sb s)) - b)] of
       Some bi \<Rightarrow>
         bnd (log_write bp (set_data bp (mark_used (b_data (bf s bp)) bi) s)) (\<lambda>s.
         bnd (brelse bp s) (\<lambda>s.
         bnd (bzero dev (of_nat (b + bi)) s) (\<lambda>s. Ok (of_nat (b + bi), s))))
     | None \<Rightarrow> bnd (brelse bp s) (balloc_loop dev bs))"

definition steps :: "nat \<Rightarrow> nat \<Rightarrow> nat list" where
  "steps k n = map (\<lambda>i. i * k) [0..<(n + k - 1) div k]"

definition balloc :: "u32 \<Rightarrow> 'a fsst_scheme \<Rightarrow> (u32 \<times> 'a fsst_scheme) res" where
  "balloc dev s = balloc_loop dev (steps BPB (unat (sb_size (fs_sb s)))) s"

definition bfree :: "u32 \<Rightarrow> u32 \<Rightarrow> 'a fsst_scheme \<Rightarrow> 'a fsst_scheme res" where
  "bfree dev b s =
     bnd (readsb dev s) (\<lambda>(v, s).
     let s = s\<lparr>fs_sb := v\<rparr> in
     bnd (bread dev (BBLOCK b v) s) (\<lambda>(bp, s).
     let bi = unat (b mod of_nat BPB) in
     if \<not> bit_used (b_data (bf s bp)) bi then panic ''freeing free block''
     else bnd (log_write bp (set_data bp (mark_free (b_data (bf s bp)) bi) s)) (brelse bp)))"

subsection \<open>Inodes\<close>

primrec init_ilocks :: "nat \<Rightarrow> 'a fsst_scheme \<Rightarrow> 'a fsst_scheme" where
  "init_ilocks 0 s = s"
| "init_ilocks (Suc i) s = initsleeplock (L_inode i) ''inode'' (init_ilocks i s)"

definition iinit :: "u32 \<Rightarrow> 'a fsst_scheme \<Rightarrow> 'a fsst_scheme res" where
  "iinit dev s = bnd (readsb dev (init_ilocks NINODE s)) (\<lambda>(v, s). Ok (s\<lparr>fs_sb := v\<rparr>))"

definition iget :: "u32 \<Rightarrow> u32 \<Rightarrow> 'a fsst_scheme \<Rightarrow> (nat \<times> 'a fsst_scheme) res" where
  "iget dev inum s =
     bnd (lock L_icache s) (\<lambda>s.
     case first_idx (\<lambda>x. i_ref x > 0 \<and> i_dev x = dev \<and> i_inum x = inum) (inodes s) of
       Some ip \<Rightarrow> bnd (unlock L_icache (upd_inode ip (\<lambda>x. x\<lparr>i_ref := i_ref x + 1\<rparr>) s)) (\<lambda>s. Ok (ip, s))
     | None \<Rightarrow>
         (case first_idx (\<lambda>x. i_ref x = 0) (inodes s) of
            None \<Rightarrow> panic ''iget: no inodes''
          | Some ip \<Rightarrow>
              bnd (unlock L_icache (upd_inode ip (\<lambda>x. x\<lparr>i_dev := dev, i_inum := inum, i_ref := 1, i_valid := False\<rparr>) s)) (\<lambda>s. Ok (ip, s))))"

primrec ialloc_loop :: "u32 \<Rightarrow> u16 \<Rightarrow> u32 list \<Rightarrow> 'a fsst_scheme \<Rightarrow> (nat \<times> 'a fsst_scheme) res" where
  "ialloc_loop dev ty [] s = panic ''ialloc: no inodes''"
| "ialloc_loop dev ty (inum # is) s =
     bnd (bread dev (IBLOCK inum (fs_sb s)) s) (\<lambda>(bp, s).
     let d = b_data (bf s bp); k = ioff inum in
     if rd16 d k = 0 then
       bnd (log_write bp (set_data bp (wr16 (splice d k (replicate 64 0)) k ty) s)) (\<lambda>s.
       bnd (brelse bp s) (iget dev inum))
     else bnd (brelse bp s) (ialloc_loop dev ty is))"

definition ialloc :: "u32 \<Rightarrow> u16 \<Rightarrow> 'a fsst_scheme \<Rightarrow> (nat \<times> 'a fsst_scheme) res" where
  "ialloc dev ty s = ialloc_loop dev ty (map of_nat [1..<unat (sb_ninodes (fs_sb s))]) s"

definition iupdate :: "nat \<Rightarrow> 'a fsst_scheme \<Rightarrow> 'a fsst_scheme res" where
  "iupdate ip s =
     bnd (bread (i_dev (inod s ip)) (IBLOCK (i_inum (inod s ip)) (fs_sb s)) s) (\<lambda>(bp, s).
     let x = inod s ip;
         y = \<lparr>d_type = i_type x, d_major = i_major x, d_minor = i_minor x, d_nlink = i_nlink x, d_size = i_size x, d_addrs = i_addrs x\<rparr> in
     bnd (log_write bp (set_data bp (put_dinode (b_data (bf s bp)) (ioff (i_inum x)) y) s)) (brelse bp))"

definition idup :: "nat \<Rightarrow> 'a fsst_scheme \<Rightarrow> (nat \<times> 'a fsst_scheme) res" where
  "idup ip s =
     bnd (lock L_icache s) (\<lambda>s.
     bnd (unlock L_icache (upd_inode ip (\<lambda>x. x\<lparr>i_ref := i_ref x + 1\<rparr>) s)) (\<lambda>s. Ok (ip, s)))"

definition load_inode :: "nat \<Rightarrow> 'a fsst_scheme \<Rightarrow> 'a fsst_scheme res" where
  "load_inode ip s =
     bnd (bread (i_dev (inod s ip)) (IBLOCK (i_inum (inod s ip)) (fs_sb s)) s) (\<lambda>(bp, s).
     let y = get_dinode (b_data (bf s bp)) (ioff (i_inum (inod s ip))) in
     bnd (brelse bp (upd_inode ip (\<lambda>x. x\<lparr>i_type := d_type y, i_major := d_major y, i_minor := d_minor y, i_nlink := d_nlink y,
       i_size := d_size y, i_addrs := d_addrs y\<rparr>) s)) (\<lambda>s.
     let s = upd_inode ip (\<lambda>x. x\<lparr>i_valid := True\<rparr>) s in
     if i_type (inod s ip) = 0 then panic ''ilock: no type'' else Ok s))"

definition ilock :: "nat \<Rightarrow> 'a fsst_scheme \<Rightarrow> 'a fsst_scheme res" where
  "ilock ip s =
     (if i_ref (inod s ip) < 1 then panic ''ilock''
      else bnd (getsleep (L_inode ip) s) (\<lambda>s. if i_valid (inod s ip) then Ok s else load_inode ip s))"

definition iunlock :: "nat \<Rightarrow> 'a fsst_scheme \<Rightarrow> 'a fsst_scheme res" where
  "iunlock ip s =
     bnd (holdingsleep (L_inode ip) s) (\<lambda>(h, s).
     if \<not> h \<or> i_ref (inod s ip) < 1 then panic ''iunlock'' else releasesleep (L_inode ip) s)"

subsection \<open>The contents of an inode\<close>

definition set_addr :: "nat \<Rightarrow> nat \<Rightarrow> u32 \<Rightarrow> 'a fsst_scheme \<Rightarrow> 'a fsst_scheme" where
  "set_addr ip k a s = upd_inode ip (\<lambda>x. x\<lparr>i_addrs := (i_addrs x)[k := a]\<rparr>) s"

definition addr_of :: "nat \<Rightarrow> nat \<Rightarrow> 'a fsst_scheme \<Rightarrow> (u32 \<times> 'a fsst_scheme) res" where
  "addr_of ip k s =
     (if i_addrs (inod s ip) ! k = 0
      then bnd (balloc (i_dev (inod s ip)) s) (\<lambda>(a, s). Ok (a, set_addr ip k a s))
      else Ok (i_addrs (inod s ip) ! k, s))"

definition bmap :: "nat \<Rightarrow> nat \<Rightarrow> 'a fsst_scheme \<Rightarrow> (u32 \<times> 'a fsst_scheme) res" where
  "bmap ip bn s =
     (if bn < NDIRECT then addr_of ip bn s
      else if bn - NDIRECT < NINDIRECT then
        bnd (addr_of ip NDIRECT s) (\<lambda>(a, s).
        bnd (bread (i_dev (inod s ip)) a s) (\<lambda>(bp, s).
        let k = 4 * (bn - NDIRECT); addr = rd32 (b_data (bf s bp)) k in
        if addr = 0 then
          bnd (balloc (i_dev (inod s ip)) s) (\<lambda>(addr, s).
          bnd (log_write bp (set_data bp (wr32 (b_data (bf s bp)) k addr) s)) (\<lambda>s.
          bnd (brelse bp s) (\<lambda>s. Ok (addr, s))))
        else bnd (brelse bp s) (\<lambda>s. Ok (addr, s))))
      else panic ''bmap: out of range'')"

definition itrunc_direct :: "nat \<Rightarrow> nat \<Rightarrow> 'a fsst_scheme \<Rightarrow> 'a fsst_scheme res" where
  "itrunc_direct ip i s =
     (if i_addrs (inod s ip) ! i \<noteq> 0
      then bnd (bfree (i_dev (inod s ip)) (i_addrs (inod s ip) ! i) s) (\<lambda>s. Ok (set_addr ip i 0 s))
      else Ok s)"

definition itrunc_entry :: "nat \<Rightarrow> nat \<Rightarrow> nat \<Rightarrow> 'a fsst_scheme \<Rightarrow> 'a fsst_scheme res" where
  "itrunc_entry ip bp j s =
     (let a = rd32 (b_data (bf s bp)) (4 * j) in
      if a \<noteq> 0 then bfree (i_dev (inod s ip)) a s else Ok s)"

definition itrunc :: "nat \<Rightarrow> 'a fsst_scheme \<Rightarrow> 'a fsst_scheme res" where
  "itrunc ip s =
     bnd (foldM (itrunc_direct ip) [0..<NDIRECT] s) (\<lambda>s.
     bnd (if i_addrs (inod s ip) ! NDIRECT \<noteq> 0 then
            bnd (bread (i_dev (inod s ip)) (i_addrs (inod s ip) ! NDIRECT) s) (\<lambda>(bp, s).
            bnd (foldM (itrunc_entry ip bp) [0..<NINDIRECT] s) (\<lambda>s.
            bnd (brelse bp s) (\<lambda>s.
            bnd (bfree (i_dev (inod s ip)) (i_addrs (inod s ip) ! NDIRECT) s) (\<lambda>s. Ok (set_addr ip NDIRECT 0 s)))))
          else Ok s) (\<lambda>s.
     iupdate ip (upd_inode ip (\<lambda>x. x\<lparr>i_size := 0\<rparr>) s)))"

definition iput :: "nat \<Rightarrow> 'a fsst_scheme \<Rightarrow> 'a fsst_scheme res" where
  "iput ip s =
     bnd (getsleep (L_inode ip) s) (\<lambda>s.
     bnd (if i_valid (inod s ip) \<and> i_nlink (inod s ip) = 0 then
            bnd (lock L_icache s) (\<lambda>s.
            let r = i_ref (inod s ip) in
            bnd (unlock L_icache s) (\<lambda>s.
            if r = 1 then
              bnd (itrunc ip s) (\<lambda>s.
              bnd (iupdate ip (upd_inode ip (\<lambda>x. x\<lparr>i_type := 0\<rparr>) s)) (\<lambda>s.
              Ok (upd_inode ip (\<lambda>x. x\<lparr>i_valid := False\<rparr>) s)))
            else Ok s))
          else Ok s) (\<lambda>s.
     bnd (releasesleep (L_inode ip) s) (\<lambda>s.
     bnd (lock L_icache s) (\<lambda>s.
     unlock L_icache (upd_inode ip (\<lambda>x. x\<lparr>i_ref := i_ref x - 1\<rparr>) s)))))"

definition iunlockput :: "nat \<Rightarrow> 'a fsst_scheme \<Rightarrow> 'a fsst_scheme res" where
  "iunlockput ip s = bnd (iunlock ip s) (iput ip)"

definition stati :: "nat \<Rightarrow> 'a fsst_scheme \<Rightarrow> stat" where
  "stati ip s = \<lparr>st_type = i_type (inod s ip), st_dev = i_dev (inod s ip), st_ino = i_inum (inod s ip), st_nlink = i_nlink (inod s ip),
     st_size = i_size (inod s ip)\<rparr>"

function readi_loop :: "nat \<Rightarrow> nat \<Rightarrow> nat \<Rightarrow> 'a fsst_scheme \<Rightarrow> (byte list \<times> 'a fsst_scheme) res" where
  "readi_loop ip off n s =
     (if n = 0 then Ok ([], s)
      else
        bnd (bmap ip (off div BSIZE) s) (\<lambda>(a, s).
        bnd (bread (i_dev (inod s ip)) a s) (\<lambda>(bp, s).
        let m = min n (BSIZE - off mod BSIZE);
            xs = take m (drop (off mod BSIZE) (b_data (bf s bp))) in
        bnd (brelse bp s) (\<lambda>s.
        bnd (readi_loop ip (off + m) (n - m) s) (\<lambda>(ys, s). Ok (xs @ ys, s))))))"
  by pat_completeness auto
termination
  by (relation "measure (\<lambda>(ip, off, n, s). n)") (auto simp: BSIZE_def)

definition readi :: "(nat \<Rightarrow> 'a fsst_scheme devsw) \<Rightarrow> nat \<Rightarrow> u32 \<Rightarrow> u32 \<Rightarrow> 'a fsst_scheme \<Rightarrow> ((int \<times> byte list) \<times> 'a fsst_scheme) res" where
  "readi dv ip off n s =
     (let x = inod s ip; mj = sint (i_major x) in
      if i_type x = T_DEV then
        (if mj < 0 \<or> mj \<ge> NDEV then Ok ((-1, []), s)
         else case dv_read (dv (nat mj)) of None \<Rightarrow> Ok ((-1, []), s) | Some f \<Rightarrow> f ip (unat n) s)
      else if off > i_size x \<or> off + n < off then Ok ((-1, []), s)
      else
        let n = (if off + n > i_size x then i_size x - off else n) in
        bnd (readi_loop ip (unat off) (unat n) s) (\<lambda>(xs, s). Ok ((sint n, xs), s)))"

function writei_loop :: "nat \<Rightarrow> nat \<Rightarrow> byte list \<Rightarrow> 'a fsst_scheme \<Rightarrow> 'a fsst_scheme res" where
  "writei_loop ip off src s =
     (if src = [] then Ok s
      else
        bnd (bmap ip (off div BSIZE) s) (\<lambda>(a, s).
        bnd (bread (i_dev (inod s ip)) a s) (\<lambda>(bp, s).
        let m = min (length src) (BSIZE - off mod BSIZE) in
        bnd (log_write bp (set_data bp (splice (b_data (bf s bp)) (off mod BSIZE) (take m src)) s)) (\<lambda>s.
        bnd (brelse bp s) (writei_loop ip (off + m) (drop m src))))))"
  by pat_completeness auto
termination
  by (relation "measure (\<lambda>(ip, off, src, s). length src)") (auto simp: BSIZE_def)

definition writei :: "(nat \<Rightarrow> 'a fsst_scheme devsw) \<Rightarrow> nat \<Rightarrow> byte list \<Rightarrow> u32 \<Rightarrow> u32 \<Rightarrow> 'a fsst_scheme \<Rightarrow> (int \<times> 'a fsst_scheme) res" where
  "writei dv ip src off n s =
     (let x = inod s ip; mj = sint (i_major x) in
      if i_type x = T_DEV then
        (if mj < 0 \<or> mj \<ge> NDEV then Ok (-1, s)
         else case dv_write (dv (nat mj)) of None \<Rightarrow> Ok (-1, s) | Some f \<Rightarrow> f ip (take (unat n) src) s)
      else if off > i_size x \<or> off + n < off then Ok (-1, s)
      else if off + n > of_nat (MAXFILE * BSIZE) then Ok (-1, s)
      else
        bnd (writei_loop ip (unat off) (take (unat n) src) s) (\<lambda>s.
        if n > 0 \<and> off + n > i_size (inod s ip)
        then bnd (iupdate ip (upd_inode ip (\<lambda>x. x\<lparr>i_size := off + n\<rparr>) s)) (\<lambda>s. Ok (sint n, s))
        else Ok (sint n, s)))"

subsection \<open>Directories\<close>

definition chars :: "byte list \<Rightarrow> string" where
  "chars bs = map (\<lambda>b. char_of (unat b)) bs"

definition bytes :: "string \<Rightarrow> byte list" where
  "bytes cs = map (\<lambda>c. word_of_nat (of_char c)) cs"

definition get_dirent :: "byte list \<Rightarrow> dirent" where
  "get_dirent d = \<lparr>de_inum = rd16 d 0, de_name = chars (take DIRSIZ (drop 2 d))\<rparr>"

definition put_dirent :: "dirent \<Rightarrow> byte list" where
  "put_dirent e = wr16 [0, 0] 0 (de_inum e) @ bytes (de_name e)"

definition namecmp :: "string \<Rightarrow> string \<Rightarrow> int res" where
  "namecmp s t = strncmp s t DIRSIZ"

definition read_dirent :: "(nat \<Rightarrow> 'a fsst_scheme devsw) \<Rightarrow> string \<Rightarrow> nat \<Rightarrow> nat \<Rightarrow> 'a fsst_scheme \<Rightarrow> (dirent \<times> 'a fsst_scheme) res" where
  "read_dirent dv msg dp off s =
     bnd (readi dv dp (of_nat off) 16 s) (\<lambda>((r, bs), s).
     if r \<noteq> 16 then panic msg else Ok (get_dirent bs, s))"

primrec dirlookup_loop :: "(nat \<Rightarrow> 'a fsst_scheme devsw) \<Rightarrow> nat \<Rightarrow> string \<Rightarrow> nat list \<Rightarrow> 'a fsst_scheme \<Rightarrow> ((nat \<times> nat) option \<times> 'a fsst_scheme) res" where
  "dirlookup_loop dv dp name [] s = Ok (None, s)"
| "dirlookup_loop dv dp name (off # offs) s =
     bnd (read_dirent dv ''dirlookup read'' dp off s) (\<lambda>(de, s).
     if de_inum de = 0 then dirlookup_loop dv dp name offs s
     else
       bnd (namecmp name (de_name de)) (\<lambda>c.
       if c = 0 then bnd (iget (i_dev (inod s dp)) (ucast (de_inum de)) s) (\<lambda>(ip, s). Ok (Some (ip, off), s))
       else dirlookup_loop dv dp name offs s))"

definition dirlookup :: "(nat \<Rightarrow> 'a fsst_scheme devsw) \<Rightarrow> nat \<Rightarrow> string \<Rightarrow> 'a fsst_scheme \<Rightarrow> ((nat \<times> nat) option \<times> 'a fsst_scheme) res" where
  "dirlookup dv dp name s =
     (if i_type (inod s dp) \<noteq> T_DIR then panic ''dirlookup not DIR''
      else dirlookup_loop dv dp name (steps 16 (unat (i_size (inod s dp)))) s)"

primrec free_dirent :: "(nat \<Rightarrow> 'a fsst_scheme devsw) \<Rightarrow> nat \<Rightarrow> nat \<Rightarrow> nat list \<Rightarrow> 'a fsst_scheme \<Rightarrow> (nat \<times> 'a fsst_scheme) res" where
  "free_dirent dv dp last_off [] s = Ok (last_off, s)"
| "free_dirent dv dp last_off (off # offs) s =
     bnd (read_dirent dv ''dirlink read'' dp off s) (\<lambda>(de, s).
     if de_inum de = 0 then Ok (off, s) else free_dirent dv dp (off + 16) offs s)"

definition dirlink :: "(nat \<Rightarrow> 'a fsst_scheme devsw) \<Rightarrow> nat \<Rightarrow> string \<Rightarrow> u32 \<Rightarrow> 'a fsst_scheme \<Rightarrow> (int \<times> 'a fsst_scheme) res" where
  "dirlink dv dp name inum s =
     bnd (dirlookup dv dp name s) (\<lambda>(r, s).
     case r of
       Some (ip, _) \<Rightarrow> bnd (iput ip s) (\<lambda>s. Ok (-1, s))
     | None \<Rightarrow>
         bnd (free_dirent dv dp 0 (steps 16 (unat (i_size (inod s dp)))) s) (\<lambda>(off, s).
         bnd (strncpy (replicate DIRSIZ NUL) name DIRSIZ) (\<lambda>nm.
         bnd (writei dv dp (put_dirent \<lparr>de_inum = ucast inum, de_name = nm\<rparr>) (of_nat off) 16 s) (\<lambda>(w, s).
         if w \<noteq> 16 then panic ''dirlink'' else Ok (0, s)))))"

subsection \<open>Paths\<close>

fun skip_slashes :: "string \<Rightarrow> string res" where
  "skip_slashes [] = fault ''path''"
| "skip_slashes (c # p) = (if c = CHR ''/'' then skip_slashes p else Ok (c # p))"

fun path_elem :: "string \<Rightarrow> (string \<times> string) res" where
  "path_elem [] = fault ''path''"
| "path_elem (c # p) =
     (if c \<noteq> CHR ''/'' \<and> c \<noteq> NUL then bnd (path_elem p) (\<lambda>(e, r). Ok (c # e, r)) else Ok ([], c # p))"

text \<open>The first argument is the rest of the path, the second the buffer the element is copied to.\<close>

definition skipelem :: "string \<Rightarrow> string \<Rightarrow> (string \<times> string) option res" where
  "skipelem path name =
     bnd (skip_slashes path) (\<lambda>p.
     if hd p = NUL then Ok None
     else
       bnd (path_elem p) (\<lambda>(e, r).
       bnd (skip_slashes r) (\<lambda>r.
       Ok (Some (r, if length e \<ge> DIRSIZ then take DIRSIZ e else e @ NUL # drop (length e + 1) name)))))"

lemma skip_slashes_length: "skip_slashes p = Ok q \<Longrightarrow> length q \<le> length p"
  by (induction p) (auto split: if_splits)

lemma skip_slashes_hd: "skip_slashes p = Ok q \<Longrightarrow> q \<noteq> [] \<and> hd q \<noteq> CHR ''/''"
  by (induction p) (auto split: if_splits)

lemma path_elem_split: "path_elem p = Ok (e, r) \<Longrightarrow> p = e @ r"
  by (induction p arbitrary: e) (auto split: if_splits elim!: bndE)

lemma skipelem_length: "skipelem path name = Ok (Some (p, e)) \<Longrightarrow> length p < length path"
proof -
  assume "skipelem path name = Ok (Some (p, e))"
  then obtain q e' r where q: "skip_slashes path = Ok q" "hd q \<noteq> NUL" "path_elem q = Ok (e', r)" "skip_slashes r = Ok p"
    by (auto simp: skipelem_def bnd_eq_Inr split: if_splits)
  then have "e' \<noteq> []" using skip_slashes_hd [OF q(1)] by (cases q) (auto split: if_splits elim!: bndE)
  then show ?thesis using path_elem_split [OF q(3)] skip_slashes_length [OF q(1)] skip_slashes_length [OF q(4)] by (cases e') auto
qed

function namex_loop :: "(nat \<Rightarrow> 'a fsst_scheme devsw) \<Rightarrow> bool \<Rightarrow> nat \<Rightarrow> string \<Rightarrow> string \<Rightarrow> 'a fsst_scheme \<Rightarrow> ((nat option \<times> string) \<times> 'a fsst_scheme) res" where
  "namex_loop dv parent ip path name s =
     (case skipelem path name of
        Inl e \<Rightarrow> Inl e
      | Inr None \<Rightarrow> if parent then bnd (iput ip s) (\<lambda>s. Ok ((None, name), s)) else Ok ((Some ip, name), s)
      | Inr (Some (path, name)) \<Rightarrow>
          bnd (ilock ip s) (\<lambda>s.
          if i_type (inod s ip) \<noteq> T_DIR then bnd (iunlockput ip s) (\<lambda>s. Ok ((None, name), s))
          else if parent \<and> hd path = NUL then bnd (iunlock ip s) (\<lambda>s. Ok ((Some ip, name), s))
          else
            bnd (dirlookup dv ip name s) (\<lambda>(r, s).
            case r of
              None \<Rightarrow> bnd (iunlockput ip s) (\<lambda>s. Ok ((None, name), s))
            | Some (nx, _) \<Rightarrow> bnd (iunlockput ip s) (namex_loop dv parent nx path name))))"
  by pat_completeness auto
termination
  by (relation "measure (\<lambda>(dv, parent, ip, path, name, s). length path)") (auto dest: skipelem_length)

definition namex :: "(nat \<Rightarrow> 'a fsst_scheme devsw) \<Rightarrow> string \<Rightarrow> bool \<Rightarrow> string \<Rightarrow> 'a fsst_scheme \<Rightarrow> ((nat option \<times> string) \<times> 'a fsst_scheme) res" where
  "namex dv path parent name s =
     (case path of
        [] \<Rightarrow> fault ''path''
      | c # _ \<Rightarrow>
          bnd (if c = CHR ''/'' then iget ROOTDEV ROOTINO s
               else bnd (myproc s) (\<lambda>p. case p_cwd (procs s ! p) of None \<Rightarrow> fault ''cwd'' | Some d \<Rightarrow> idup d s)) (\<lambda>(ip, s).
          namex_loop dv parent ip path name s))"

definition namei :: "(nat \<Rightarrow> 'a fsst_scheme devsw) \<Rightarrow> string \<Rightarrow> 'a fsst_scheme \<Rightarrow> (nat option \<times> 'a fsst_scheme) res" where
  "namei dv path s = bnd (namex dv path False (replicate DIRSIZ NUL) s) (\<lambda>((r, _), s). Ok (r, s))"

definition nameiparent :: "(nat \<Rightarrow> 'a fsst_scheme devsw) \<Rightarrow> string \<Rightarrow> string \<Rightarrow> 'a fsst_scheme \<Rightarrow> ((nat option \<times> string) \<times> 'a fsst_scheme) res" where
  "nameiparent dv path name s = namex dv path True name s"

end
