(* ===== verification/Filedata.thy ===== *)
theory Filedata
  imports Fs
begin

text \<open>
  What the block and inode layers of \<^verbatim>\<open>fs.c\<close> compute, stated on the blocks as the kernel sees them (\<open>view\<close>). A
  transaction has a budget of log writes, which is what keeps \<open>log_write\<close> from its panic and the buffer cache from running out
  of buffers.
\<close>

section \<open>The block store a transaction works on\<close>

definition fkeep :: "'a logst_scheme \<Rightarrow> 'a logst_scheme \<Rightarrow> bool" where
  "fkeep s s' \<longleftrightarrow> (\<exists>bs sl pr lh. s' = s\<lparr>bufs := bs, sleeplocks := sl, procs := pr, lg_lh := lh\<rparr> \<and> woken (procs s) pr)"

lemma fkeep_refl [simp]: "fkeep s s"
  unfolding fkeep_def
  by (intro exI [of _ "bufs s"] exI [of _ "sleeplocks s"] exI [of _ "procs s"] exI [of _ "lg_lh s"]) simp

lemma fkeep_trans: "fkeep s s1 \<Longrightarrow> fkeep s1 s2 \<Longrightarrow> fkeep s s2"
proof -
  assume "fkeep s s1" "fkeep s1 s2"
  then obtain bs sl pr lh bs' sl' pr' lh' where "s1 = s\<lparr>bufs := bs, sleeplocks := sl, procs := pr, lg_lh := lh\<rparr>" "woken (procs s) pr"
    "s2 = s1\<lparr>bufs := bs', sleeplocks := sl', procs := pr', lg_lh := lh'\<rparr>" "woken (procs s1) pr'" unfolding fkeep_def by blast
  then show ?thesis
    unfolding fkeep_def by (intro exI [of _ bs'] exI [of _ sl'] exI [of _ pr'] exI [of _ lh']) (simp add: woken_trans [of "procs s" pr])
qed

lemma bkeep_fkeep:
  fixes s s' :: "'a logst_scheme"
  shows "bkeep s s' \<Longrightarrow> fkeep s s'"
  unfolding bkeep_def fkeep_def
  by (elim exE conjE, intro exI conjI) (rule trans, assumption, rule logst.equality, simp_all)

lemma fkeep_upd: "fkeep s (upd_buf i f (s\<lparr>lg_lh := h\<rparr>))" "fkeep s (set_data i d s)"
proof -
  show "fkeep s (upd_buf i f (s\<lparr>lg_lh := h\<rparr>))"
    unfolding fkeep_def upd_buf_def
    by (intro exI [of _ "(bufs s)[i := f (bf s i)]"] exI [of _ "sleeplocks s"] exI [of _ "procs s"] exI [of _ h] conjI)
      (rule logst.equality, simp_all)
  show "fkeep s (set_data i d s)"
    unfolding fkeep_def set_data_def upd_buf_def
    by (intro exI [of _ "(bufs s)[i := (bf s i)\<lparr>b_data := d\<rparr>]"] exI [of _ "sleeplocks s"] exI [of _ "procs s"] exI [of _ "lg_lh s"]) simp
qed

lemma fkeepD:
  assumes "fkeep s s'"
  shows "memdisk s' = memdisk s" "disksize s' = disksize s" "dwrites s' = dwrites s" "cur s' = cur s" "lg_size s' = lg_size s" "lg_start s' = lg_start s"
    "lg_outstanding s' = lg_outstanding s" "lg_dev s' = lg_dev s" "logst.more s' = logst.more s" "held s' = held s"
  using assms by (auto simp: fkeep_def)

text \<open>A transaction that holds the buffers \<open>H\<close> and may still add \<open>k\<close> blocks.\<close>

definition txn :: "'a logst_scheme \<Rightarrow> nat set \<Rightarrow> nat \<Rightarrow> bool" where
  "txn s H k \<longleftrightarrow> bc_inv s H \<and> card H \<le> 2 \<and> length (lh_block (lg_lh s)) = LOGSIZE \<and> 1 \<le> lg_outstanding s \<and>
     (\<forall>i \<in> H. b_dirty (bf s i) \<or> b_data (bf s i) = memdisk s (b_blockno (bf s i))) \<and>
     (\<exists>n. lh_n (lg_lh s) = int n \<and> pending s = word_of_int ` set (take n (lh_block (lg_lh s))) \<and> n + k + 4 \<le> NBUF \<and> int (n + k) < lg_size s)"

lemma txnD:
  assumes "txn s H k"
  shows "bc_inv s H" "card H \<le> 2" "length (lh_block (lg_lh s)) = LOGSIZE" "1 \<le> lg_outstanding s"
    "i \<in> H \<Longrightarrow> b_dirty (bf s i) \<or> b_data (bf s i) = memdisk s (b_blockno (bf s i))"
    "\<exists>n. lh_n (lg_lh s) = int n \<and> pending s = word_of_int ` set (take n (lh_block (lg_lh s))) \<and> n + k + 4 \<le> NBUF \<and> int (n + k) < lg_size s"
    "card (pending s) + 4 \<le> NBUF"
proof -
  show "bc_inv s H" "card H \<le> 2" "length (lh_block (lg_lh s)) = LOGSIZE" "1 \<le> lg_outstanding s"
    "i \<in> H \<Longrightarrow> b_dirty (bf s i) \<or> b_data (bf s i) = memdisk s (b_blockno (bf s i))"
    "\<exists>n. lh_n (lg_lh s) = int n \<and> pending s = word_of_int ` set (take n (lh_block (lg_lh s))) \<and> n + k + 4 \<le> NBUF \<and> int (n + k) < lg_size s"
    using assms by (auto simp: txn_def)
  then obtain n where n: "pending s = word_of_int ` set (take n (lh_block (lg_lh s)))" "n + k + 4 \<le> NBUF" by blast
  have "card (pending s) \<le> card (set (take n (lh_block (lg_lh s))))" unfolding n(1) by (rule card_image_le) simp
  also have "\<dots> \<le> n" using card_length [of "take n (lh_block (lg_lh s))"] by simp
  finally show "card (pending s) + 4 \<le> NBUF" using n(2) by simp
qed

lemma txnI:
  assumes "bc_inv s H" "card H \<le> 2" "length (lh_block (lg_lh s)) = LOGSIZE" "1 \<le> lg_outstanding s"
    and "\<And>i. i \<in> H \<Longrightarrow> b_dirty (bf s i) \<or> b_data (bf s i) = memdisk s (b_blockno (bf s i))"
    and "lh_n (lg_lh s) = int n" "pending s = word_of_int ` set (take n (lh_block (lg_lh s)))" "n + k + 4 \<le> NBUF" "int (n + k) < lg_size s"
  shows "txn s H k"
  unfolding txn_def using assms by blast

lemma txn_read:
  assumes "txn s H k" "card H \<le> 1" "b < disksize s" "\<And>i. i \<in> H \<Longrightarrow> b_blockno (bf s i) \<noteq> b"
  shows "\<exists>i s'. bread 1 b s = Ok (i, s') \<and> i \<notin> H \<and> txn s' (insert i H) k \<and> fkeep s s' \<and> view s' = view s \<and> b_blockno (bf s' i) = b \<and>
    b_data (bf s' i) = view s b \<and> (\<forall>j. j \<noteq> i \<longrightarrow> bf s' j = bf s j)"
proof -
  note t = txnD [OF assms(1)]
  from bread_full [OF t(1) assms(3) _ assms(4)] t(7) assms(2) obtain i s' where r: "bread 1 b s = Ok (i, s')" "i \<notin> H" "bc_inv s' (insert i H)" "bkeep s s'"
    "view s' = view s" "b_blockno (bf s' i) = b" "b_data (bf s' i) = view s b" "\<And>j. j \<noteq> i \<Longrightarrow> bf s' j = bf s j" "pending s' = pending s"
    "b_dirty (bf s' i) \<or> view s b = memdisk s b" by fastforce
  have k: "memdisk s' = memdisk s" "lg_lh s' = lg_lh s" "lg_size s' = lg_size s" "lg_outstanding s' = lg_outstanding s"
    using bkeepD [OF r(4)] dkeep_log [OF bkeep_dkeep [OF r(4)]] by simp_all
  have f: "finite H" using bc_invD(3) [OF t(1)] finite_subset by blast
  from t(6) obtain n where n: "lh_n (lg_lh s) = int n" "pending s = word_of_int ` set (take n (lh_block (lg_lh s)))" "n + k + 4 \<le> NBUF"
    "int (n + k) < lg_size s" by blast
  have "b_dirty (bf s' j) \<or> b_data (bf s' j) = memdisk s' (b_blockno (bf s' j))" if "j \<in> insert i H" for j
    using that r(6,7,10) k(1) t(5) [of j] r(8) [of j] by (cases "j = i") auto
  then have "txn s' (insert i H) k"
    using r k n f assms(2) t(3,4) by (intro txnI [where n = n]) (simp_all add: card_insert_if)
  with r bkeep_fkeep [OF r(4)] show ?thesis by blast
qed

lemma take_add_home:
  assumes "length bl = LOGSIZE" "n < LOGSIZE"
  shows "set (take (nat (lh_n (add_home b \<lparr>lh_n = int n, lh_block = bl\<rparr>))) (lh_block (add_home b \<lparr>lh_n = int n, lh_block = bl\<rparr>))) = insert b (set (take n bl))"
  using assms by (auto simp: add_home_def take_Suc_conv_app_nth insert_absorb nat_add_distrib)

lemma txn_write:
  assumes "txn s H (Suc k)" "i \<in> H" "length d = BSIZE"
  shows "\<exists>s'. log_write i (set_data i d s) = Ok s' \<and> txn s' H k \<and> fkeep s s' \<and> view s' = (view s)(b_blockno (bf s i) := d) \<and>
    bf s' i = (bf s i)\<lparr>b_data := d, b_dirty := True\<rparr> \<and> (\<forall>j. j \<noteq> i \<longrightarrow> bf s' j = bf s j)"
proof -
  note t = txnD [OF assms(1)] and iv = bc_invD [OF txnD(1) [OF assms(1)]]
  let ?b = "b_blockno (bf s i)"
  have lt: "i < NBUF" "i < length (bufs s)" using iv(5) iv(9) [OF assms(2)] by auto
  from t(6) obtain n where n: "lh_n (lg_lh s) = int n" "pending s = word_of_int ` set (take n (lh_block (lg_lh s)))" "n + Suc k + 4 \<le> NBUF"
    "int (n + Suc k) < lg_size s" by blast
  have nl: "n < LOGSIZE" using n(3) by (simp add: NBUF_def LOGSIZE_def)
  define s2 where "s2 = set_data i d s"
  have s2: "bc_inv s2 H" "view s2 = (view s)(?b := d)" "bf s2 i = (bf s i)\<lparr>b_data := d\<rparr>" "held s2 = []"
    "bufs s2 = (bufs s)[i := (bf s i)\<lparr>b_data := d\<rparr>]" "lg_lh s2 = lg_lh s" "lg_size s2 = lg_size s" "lg_outstanding s2 = lg_outstanding s"
    using upd_data [OF t(1) assms(2,3)] lt iv(1) by (simp_all add: s2_def set_data_def upd_buf_def)
  have p2: "pending s2 = pending s"
    using pending_upd [OF t(1) assms(2), of s2 "(bf s i)\<lparr>b_data := d\<rparr>"] s2(5) pending_iff [OF t(1) lt(1)] iv(9) [OF assms(2)] by (auto simp: insert_absorb)
  define s3 where "s3 = s2\<lparr>lg_lh := add_home (sint ?b) (lg_lh s)\<rparr>"
  let ?t = "upd_buf i (\<lambda>x. x\<lparr>b_dirty := True\<rparr>) s3"
  have w: "log_write i s2 = Ok ?t"
    using log_write_eq [of s2 n i] s2(3,4,6-8) t(3,4) n nl by (simp add: s3_def)
  have i3: "bc_inv s3 H" "bf s3 i = (bf s i)\<lparr>b_data := d\<rparr>" "bufs s3 = bufs s2" using s2(1,3) by (simp_all add: s3_def)
  have iv3: "bc_inv ?t H" "view ?t = view s3" using set_dirty [OF i3(1) assms(2)] by auto
  have pt: "pending ?t = insert ?b (pending s)"
    using pending_upd [OF i3(1) assms(2), of ?t "(bf s3 i)\<lparr>b_dirty := True\<rparr>"] p2 i3(2) by (simp add: s3_def)
  have b: "bf ?t i = (bf s i)\<lparr>b_data := d, b_dirty := True\<rparr>" "\<And>j. j \<noteq> i \<Longrightarrow> bf ?t j = bf s j" using lt s2(5) i3(2,3) by (simp_all add: upd_buf_def)
  have k: "fkeep s ?t" unfolding s3_def s2_def by (rule fkeep_trans [OF fkeep_upd(2) fkeep_upd(1)])
  have l: "lg_lh ?t = add_home (sint ?b) \<lparr>lh_n = int n, lh_block = lh_block (lg_lh s)\<rparr>" 
    using n(1) by (cases "lg_lh s") (simp add: s3_def upd_buf_def)
  have "\<exists>m. lh_n (lg_lh ?t) = int m \<and> m \<le> Suc n" unfolding l add_home_def by (auto intro: exI [of _ n] exI [of _ "Suc n"])
  then obtain m where m: "lh_n (lg_lh ?t) = int m" "m \<le> Suc n" by blast
  have "pending ?t = word_of_int ` set (take m (lh_block (lg_lh ?t)))"
    using take_add_home [OF t(3) nl, of "sint ?b"] m(1) pt n(2) unfolding l by simp
  moreover have "length (lh_block (lg_lh ?t)) = LOGSIZE" unfolding l using t(3) by (simp add: add_home_def)
  moreover have "b_dirty (bf ?t j) \<or> b_data (bf ?t j) = memdisk ?t (b_blockno (bf ?t j))" if "j \<in> H" for j
    using t(5) [OF that] b(1) b(2) [of j] fkeepD(1) [OF k] by (cases "j = i") auto
  ultimately have "txn ?t H k"
    using iv3(1) t(2,4) fkeepD(5,7) [OF k] n(3,4) m by (intro txnI [where n = m]) simp_all
  then show ?thesis using w k b iv3(2) s2(2) by (intro exI [of _ ?t]) (simp add: s2_def [symmetric] s3_def)
qed

lemma txn_release:
  assumes "txn s H k" "i \<in> H"
  shows "\<exists>s'. brelse i s = Ok s' \<and> txn s' (H - {i}) k \<and> fkeep s s' \<and> view s' = view s \<and> (\<forall>j. j \<noteq> i \<longrightarrow> core (bf s' j) = core (bf s j))"
proof -
  note t = txnD [OF assms(1)]
  from brelse_full [OF t(1) assms(2) t(5) [OF assms(2)]] obtain s' where r: "brelse i s = Ok s'" "bc_inv s' (H - {i})" "bkeep s s'" "view s' = view s"
    "pending s' = pending s" "\<forall>j. j \<noteq> i \<longrightarrow> core (bf s' j) = core (bf s j)" by blast
  have k: "memdisk s' = memdisk s" "lg_lh s' = lg_lh s" "lg_size s' = lg_size s" "lg_outstanding s' = lg_outstanding s"
    using bkeepD [OF r(3)] dkeep_log [OF bkeep_dkeep [OF r(3)]] by simp_all
  have "finite H" using bc_invD(3) [OF t(1)] finite_subset by blast
  then have c: "card (H - {i}) \<le> 2" using t(2) card_mono [of H "H - {i}"] by auto
  have "b_dirty (bf s' j) \<or> b_data (bf s' j) = memdisk s' (b_blockno (bf s' j))" if "j \<in> H - {i}" for j
    using that t(5) [of j] coreD [of "bf s' j" "bf s j"] r(6) k(1) by auto
  then have "txn s' (H - {i}) k" unfolding txn_def using r(2,5) k t c by auto
  with r bkeep_fkeep [OF r(3)] show ?thesis by blast
qed

text \<open>
  What the file system relies on: blocks are read into buffers, changed and released, and the
  buffers held meanwhile keep their contents.
\<close>

locale tx_store =
  fixes rd :: "u32 \<Rightarrow> 's \<Rightarrow> (nat \<times> 's) res" and wr :: "nat \<Rightarrow> byte list \<Rightarrow> 's \<Rightarrow> 's res" and rel :: "nat \<Rightarrow> 's \<Rightarrow> 's res"
    and dat :: "nat \<Rightarrow> 's \<Rightarrow> byte list" and blk :: "nat \<Rightarrow> 's \<Rightarrow> u32" and ok :: "'s \<Rightarrow> nat set \<Rightarrow> nat \<Rightarrow> bool" and vw :: "'s \<Rightarrow> u32 \<Rightarrow> byte list"
    and keep :: "'s \<Rightarrow> 's \<Rightarrow> bool" and lim :: "'s \<Rightarrow> u32"
  assumes rd_ok: "ok s H k \<Longrightarrow> card H \<le> 1 \<Longrightarrow> b < lim s \<Longrightarrow> (\<And>i. i \<in> H \<Longrightarrow> blk i s \<noteq> b) \<Longrightarrow>
      \<exists>i s'. rd b s = Ok (i, s') \<and> i \<notin> H \<and> ok s' (insert i H) k \<and> keep s s' \<and> vw s' = vw s \<and> blk i s' = b \<and> dat i s' = vw s b \<and>
        (\<forall>j \<in> H. blk j s' = blk j s \<and> dat j s' = dat j s)"
    and wr_ok: "ok s H (Suc k) \<Longrightarrow> i \<in> H \<Longrightarrow> length d = BSIZE \<Longrightarrow>
      \<exists>s'. wr i d s = Ok s' \<and> ok s' H k \<and> keep s s' \<and> vw s' = (vw s)(blk i s := d) \<and> blk i s' = blk i s \<and>
        (\<forall>j \<in> H - {i}. blk j s' = blk j s \<and> dat j s' = dat j s)"
    and rel_ok: "ok s H k \<Longrightarrow> i \<in> H \<Longrightarrow>
      \<exists>s'. rel i s = Ok s' \<and> ok s' (H - {i}) k \<and> keep s s' \<and> vw s' = vw s \<and> (\<forall>j \<in> H - {i}. blk j s' = blk j s \<and> dat j s' = dat j s)"
    and keep_trans: "keep s s1 \<Longrightarrow> keep s1 s2 \<Longrightarrow> keep s s2"
begin

lemma peek:
  assumes "ok s H k" "card H \<le> 1" "b < lim s" "\<And>i. i \<in> H \<Longrightarrow> blk i s \<noteq> b"
  shows "\<exists>i s1 s2. rd b s = Ok (i, s1) \<and> dat i s1 = vw s b \<and> keep s s1 \<and> vw s1 = vw s \<and> rel i s1 = Ok s2 \<and> ok s2 H k \<and> keep s s2 \<and> vw s2 = vw s \<and>
    (\<forall>j \<in> H. blk j s2 = blk j s \<and> dat j s2 = dat j s)"
proof -
  from rd_ok [OF assms] obtain i s1 where r: "rd b s = Ok (i, s1)" "i \<notin> H" "ok s1 (insert i H) k" "keep s s1" "vw s1 = vw s" "dat i s1 = vw s b"
    "\<forall>j \<in> H. blk j s1 = blk j s \<and> dat j s1 = dat j s" by blast
  from rel_ok [OF r(3), of i] obtain s2 where "rel i s1 = Ok s2" "ok s2 (insert i H - {i}) k" "keep s1 s2" "vw s2 = vw s1"
    "\<forall>j \<in> insert i H - {i}. blk j s2 = blk j s1 \<and> dat j s2 = dat j s1" by blast
  moreover have "insert i H - {i} = H" using r(2) by simp
  ultimately show ?thesis using r keep_trans [OF r(4)] by (intro exI [of _ i] exI [of _ s1] exI [of _ s2]) simp
qed

lemma wr_rel:
  assumes "ok s H (Suc k)" "i \<in> H" "length d = BSIZE"
  shows "\<exists>s2 s3. wr i d s = Ok s2 \<and> rel i s2 = Ok s3 \<and> ok s3 (H - {i}) k \<and> keep s s3 \<and> vw s3 = (vw s)(blk i s := d) \<and>
    (\<forall>j \<in> H - {i}. blk j s3 = blk j s \<and> dat j s3 = dat j s)"
proof -
  from wr_ok [OF assms] obtain s2 where w: "wr i d s = Ok s2" "ok s2 H k" "keep s s2" "vw s2 = (vw s)(blk i s := d)"
    "\<forall>j \<in> H - {i}. blk j s2 = blk j s \<and> dat j s2 = dat j s" by blast
  from rel_ok [OF w(2) assms(2)] obtain s3 where "rel i s2 = Ok s3" "ok s3 (H - {i}) k" "keep s2 s3" "vw s3 = vw s2"
    "\<forall>j \<in> H - {i}. blk j s3 = blk j s2 \<and> dat j s3 = dat j s2" by blast
  then show ?thesis using w keep_trans [OF w(3)] by (intro exI [of _ s2] exI [of _ s3]) simp
qed

lemma poke:
  assumes "ok s H (Suc k)" "card H \<le> 1" "b < lim s" "\<And>i. i \<in> H \<Longrightarrow> blk i s \<noteq> b"
  shows "\<exists>i s1. rd b s = Ok (i, s1) \<and> dat i s1 = vw s b \<and> keep s s1 \<and> vw s1 = vw s \<and>
    (\<forall>d. length d = BSIZE \<longrightarrow> (\<exists>s2 s3. wr i d s1 = Ok s2 \<and> rel i s2 = Ok s3 \<and> ok s3 H k \<and> keep s s3 \<and> vw s3 = (vw s)(b := d) \<and>
      (\<forall>j \<in> H. blk j s3 = blk j s \<and> dat j s3 = dat j s)))"
proof -
  from rd_ok [OF assms] obtain i s1 where r: "rd b s = Ok (i, s1)" "i \<notin> H" "ok s1 (insert i H) (Suc k)" "keep s s1" "vw s1 = vw s" "blk i s1 = b"
    "dat i s1 = vw s b" "\<forall>j \<in> H. blk j s1 = blk j s \<and> dat j s1 = dat j s" by blast
  have e: "insert i H - {i} = H" using r(2) by simp
  have "\<exists>s2 s3. wr i d s1 = Ok s2 \<and> rel i s2 = Ok s3 \<and> ok s3 H k \<and> keep s s3 \<and> vw s3 = (vw s)(b := d) \<and>
      (\<forall>j \<in> H. blk j s3 = blk j s \<and> dat j s3 = dat j s)" if "length d = BSIZE" for d
  proof -
    from wr_rel [OF r(3) _ that, of i] obtain s2 s3 where w: "wr i d s1 = Ok s2" "rel i s2 = Ok s3" "ok s3 H k" "keep s1 s3"
      "vw s3 = (vw s1)(blk i s1 := d)" "\<forall>j \<in> H. blk j s3 = blk j s1 \<and> dat j s3 = dat j s1" unfolding e by blast
    show ?thesis
      using w r keep_trans [OF r(4) w(4)] by (intro exI [of _ s2] exI [of _ s3]) simp
  qed
  with r show ?thesis by blast
qed

end

interpretation tx: tx_store "bread 1" "\<lambda>i d s. log_write i (set_data i d s)" brelse "\<lambda>i s. b_data (bf s i)" "\<lambda>i s. b_blockno (bf s i)"
  txn view fkeep disksize
proof
  fix s :: "'a logst_scheme" and H k b
  assume a: "txn s H k" "card H \<le> 1" "b < disksize s" "\<And>i. i \<in> H \<Longrightarrow> b_blockno (bf s i) \<noteq> b"
  from txn_read [OF a] obtain i s' where "bread 1 b s = Ok (i, s')" "i \<notin> H" "txn s' (insert i H) k" "fkeep s s'" "view s' = view s" "b_blockno (bf s' i) = b"
    "b_data (bf s' i) = view s b" "\<forall>j. j \<noteq> i \<longrightarrow> bf s' j = bf s j" by blast
  then show "\<exists>i s'. bread 1 b s = Ok (i, s') \<and> i \<notin> H \<and> txn s' (insert i H) k \<and> fkeep s s' \<and> view s' = view s \<and> b_blockno (bf s' i) = b \<and>
    b_data (bf s' i) = view s b \<and> (\<forall>j \<in> H. b_blockno (bf s' j) = b_blockno (bf s j) \<and> b_data (bf s' j) = b_data (bf s j))"
    by (intro exI [of _ i] exI [of _ s']) auto
next
  fix s :: "'a logst_scheme" and H k i and d :: "byte list"
  assume a: "txn s H (Suc k)" "i \<in> H" "length d = BSIZE"
  from txn_write [OF a] show "\<exists>s'. log_write i (set_data i d s) = Ok s' \<and> txn s' H k \<and> fkeep s s' \<and> view s' = (view s)(b_blockno (bf s i) := d) \<and>
    b_blockno (bf s' i) = b_blockno (bf s i) \<and> (\<forall>j \<in> H - {i}. b_blockno (bf s' j) = b_blockno (bf s j) \<and> b_data (bf s' j) = b_data (bf s j))" by auto
next
  fix s :: "'a logst_scheme" and H k i
  assume a: "txn s H k" "i \<in> H"
  from txn_release [OF a] obtain s' where "brelse i s = Ok s'" "txn s' (H - {i}) k" "fkeep s s'" "view s' = view s"
    "\<And>j. j \<noteq> i \<Longrightarrow> core (bf s' j) = core (bf s j)" by blast
  then show "\<exists>s'. brelse i s = Ok s' \<and> txn s' (H - {i}) k \<and> fkeep s s' \<and> view s' = view s \<and>
    (\<forall>j \<in> H - {i}. b_blockno (bf s' j) = b_blockno (bf s j) \<and> b_data (bf s' j) = b_data (bf s j))"
    using coreD(2,6) by (intro exI [of _ s']) blast
qed (rule fkeep_trans)

section \<open>The block allocator\<close>

lemma BPB_eq: "BPB = 4096"
  by (simp add: BPB_def BSIZE_def)

lemma bit_used_alt: "bit_used d bi \<longleftrightarrow> bit (d ! (bi div 8)) (bi mod 8)"
  by (simp add: bit_used_def push_bit_of_1 and_exp_eq_0_iff_not_bit)

lemma mark_used_length [simp]: "length (mark_used d bi) = length d"
  by (simp add: mark_used_def)

lemma bit_used_mark:
  assumes "length d = BSIZE" "bi < BPB" "bj < BPB"
  shows "bit_used (mark_used d bi) bj \<longleftrightarrow> bit_used d bj \<or> bi = bj"
proof (cases "bi div 8 = bj div 8")
  case True
  have "bi mod 8 < 8" "bj mod 8 < 8" by simp_all
  moreover have "bi mod 8 = bj mod 8 \<longleftrightarrow> bi = bj" using True by (metis div_mult_mod_eq)
  ultimately show ?thesis
    using True assms by (auto simp: bit_used_alt mark_used_def bit_or_iff push_bit_of_1 bit_exp_iff BPB_eq BSIZE_def)
next
  case False
  then show ?thesis by (auto simp: bit_used_alt mark_used_def)
qed

text \<open>The bit of block \<open>b\<close> in the free map.\<close>

definition used :: "(u32 \<Rightarrow> byte list) \<Rightarrow> superblock \<Rightarrow> u32 \<Rightarrow> bool" where
  "used V b n \<longleftrightarrow> bit_used (V (BBLOCK n b)) (unat n mod BPB)"

lemma BBLOCK_eq: "n < 2 ^ 32 \<Longrightarrow> BBLOCK (of_nat n) b = of_nat (n div BPB) + sb_bmapstart b"
proof -
  assume n: "n < 2 ^ 32"
  have "(of_nat n :: u32) div of_nat BPB = of_nat (n div BPB)"
    unfolding word_unat_eq_iff unat_div_distrib using n by (simp add: unat_of_nat take_bit_nat_eq_self BPB_eq)
  then show ?thesis by (simp add: BBLOCK_def)
qed

lemma BBLOCK_unat: "BBLOCK n b = of_nat (unat n div BPB) + sb_bmapstart b"
  using BBLOCK_eq [of "unat n" b] unsigned_less [of n, where ?'a = nat] by simp

text \<open>What an allocation does to the blocks.\<close>

definition allocated :: "superblock \<Rightarrow> u32 \<Rightarrow> (u32 \<Rightarrow> byte list) \<Rightarrow> u32 \<Rightarrow> byte list" where
  "allocated b a V = V(BBLOCK a b := mark_used (V (BBLOCK a b)) (unat a mod BPB), a := replicate BSIZE 0)"

text \<open>
  The layout: \<open>M\<close> is the set of blocks that hold the free map and the inodes; they and block 0
  are marked as used.
\<close>

definition fs_ok :: "u32 set \<Rightarrow> (u32 \<Rightarrow> byte list) \<Rightarrow> superblock \<Rightarrow> u32 \<Rightarrow> bool" where
  "fs_ok M V b dz \<longleftrightarrow> sb_size b \<le> dz \<and> used V b 0 \<and> 0 \<notin> M \<and> (\<forall>n < sb_size b. BBLOCK n b \<in> M) \<and> (\<forall>n \<in> M. n < sb_size b \<and> used V b n) \<and>
     (\<forall>n. length (V n) = BSIZE)"

lemma fs_okD:
  assumes "fs_ok M V b dz"
  shows "sb_size b \<le> dz" "used V b 0" "0 \<notin> M" "n < sb_size b \<Longrightarrow> BBLOCK n b \<in> M" "n \<in> M \<Longrightarrow> n < sb_size b" "n \<in> M \<Longrightarrow> used V b n"
    "length (V n) = BSIZE" "n < sb_size b \<Longrightarrow> n < dz"
  using assms unfolding fs_ok_def by (blast, blast, blast, blast, blast, blast, blast, meson order_less_le_trans)

definition free_blocks :: "(u32 \<Rightarrow> byte list) \<Rightarrow> superblock \<Rightarrow> u32 set" where
  "free_blocks V b = {n. n < sb_size b \<and> \<not> used V b n}"

lemma used_allocated:
  assumes "fs_ok M V b dz" "a < sb_size b" "\<not> used V b a" "n < sb_size b"
  shows "used (allocated b a V) b n \<longleftrightarrow> used V b n \<or> n = a"
proof -
  have l: "length (V (BBLOCK a b)) = BSIZE" and m: "BBLOCK n b \<noteq> a" "BBLOCK a b \<noteq> a" using assms by (auto simp: fs_ok_def)
  have u: "unat n mod BPB < BPB" "unat a mod BPB < BPB" by (simp_all add: BPB_eq)
  show ?thesis
  proof (cases "BBLOCK n b = BBLOCK a b")
    case True
    then have "(of_nat (unat n div BPB) :: u32) = of_nat (unat a div BPB)" by (simp add: BBLOCK_unat)
    moreover have "unat x div BPB < 2 ^ 32" for x :: u32
      using le_less_trans [OF div_le_dividend unsigned_less [of x, where ?'a = nat]] by simp
    ultimately have "unat n div BPB = unat a div BPB" by (simp add: word_unat_eq_iff unat_of_nat take_bit_nat_eq_self)
    then have "unat n mod BPB = unat a mod BPB \<longleftrightarrow> n = a" by (metis div_mult_mod_eq word_unat_eq_iff)
    then show ?thesis using True m bit_used_mark [OF l u(2,1)] by (auto simp: used_def allocated_def)
  next
    case False
    then show ?thesis using m by (auto simp: used_def allocated_def)
  qed
qed

lemma fs_ok_allocated:
  assumes "fs_ok M V b dz" "a < sb_size b" "\<not> used V b a"
  shows "fs_ok M (allocated b a V) b dz" "a \<notin> M" "a \<noteq> 0" "used (allocated b a V) b a" "free_blocks (allocated b a V) b = free_blocks V b - {a}"
    "n \<notin> M \<Longrightarrow> n \<noteq> a \<Longrightarrow> allocated b a V n = V n" "allocated b a V a = replicate BSIZE 0"
proof -
  have p: "0 < sb_size b" using assms(2) by (metis word_not_simps(1) word_neq_0_conv)
  show "a \<notin> M" "a \<noteq> 0" using assms by (auto simp: fs_ok_def)
  show "used (allocated b a V) b a" using used_allocated [OF assms assms(2)] by simp
  show "free_blocks (allocated b a V) b = free_blocks V b - {a}" using used_allocated [OF assms] by (auto simp: free_blocks_def)
  show "fs_ok M (allocated b a V) b dz"
    unfolding fs_ok_def using assms(1) used_allocated [OF assms] p by (auto simp: fs_ok_def allocated_def)
  show "n \<notin> M \<Longrightarrow> n \<noteq> a \<Longrightarrow> allocated b a V n = V n" using assms(1,2) by (auto simp: allocated_def fs_ok_def)
  show "allocated b a V a = replicate BSIZE 0" by (simp add: allocated_def)
qed

lemma fs_fields [simp]:
  fixes s :: "'a fsst_scheme"
  shows "txn (s\<lparr>inodes := x\<rparr>) H k = txn s H k" "view (s\<lparr>inodes := x\<rparr>) = view s" "bc_inv (s\<lparr>inodes := x\<rparr>) H = bc_inv s H"
    "pending (s\<lparr>inodes := x\<rparr>) = pending s"
proof -
  show "view (s\<lparr>inodes := x\<rparr>) = view s" by (simp add: view_def fun_eq_iff split: option.split)
  show p: "pending (s\<lparr>inodes := x\<rparr>) = pending s" by (simp add: pending_def hit_def)
  show b: "bc_inv (s\<lparr>inodes := x\<rparr>) H = bc_inv s H" by (simp add: bc_inv_def hit_def)
  show "txn (s\<lparr>inodes := x\<rparr>) H k = txn s H k" by (simp add: txn_def p b)
qed

lemma fkeep_fs:
  fixes s s' :: "'a fsst_scheme"
  assumes "fkeep s s'"
  shows "fs_sb s' = fs_sb s" "inodes s' = inodes s" "disksize s' = disksize s" "fkeep (s\<lparr>inodes := x\<rparr>) (s'\<lparr>inodes := x\<rparr>)"
proof -
  from assms obtain bs sl pr lh where e: "s' = s\<lparr>bufs := bs, sleeplocks := sl, procs := pr, lg_lh := lh\<rparr>" "woken (procs s) pr" unfolding fkeep_def by blast
  show "fs_sb s' = fs_sb s" "inodes s' = inodes s" "disksize s' = disksize s" unfolding e(1) by simp_all
  show "fkeep (s\<lparr>inodes := x\<rparr>) (s'\<lparr>inodes := x\<rparr>)"
    unfolding fkeep_def e(1) using e(2)
    by (intro exI [of _ bs] exI [of _ sl] exI [of _ pr] exI [of _ lh] conjI) (rule fsst.equality, simp_all)
qed

lemma bzero_ok:
  assumes "txn s H (Suc k)" "card H \<le> 1" "b < disksize s" "\<And>i. i \<in> H \<Longrightarrow> b_blockno (bf s i) \<noteq> b"
  shows "\<exists>s'. bzero 1 b s = Ok s' \<and> txn s' H k \<and> fkeep s s' \<and> view s' = (view s)(b := replicate BSIZE 0) \<and>
    (\<forall>j \<in> H. b_blockno (bf s' j) = b_blockno (bf s j) \<and> b_data (bf s' j) = b_data (bf s j))"
proof -
  from tx.poke [OF assms] obtain i s1 where r: "bread 1 b s = Ok (i, s1)" and
    w: "\<forall>d. length d = BSIZE \<longrightarrow> (\<exists>s2 s3. log_write i (set_data i d s1) = Ok s2 \<and> brelse i s2 = Ok s3 \<and> txn s3 H k \<and> fkeep s s3 \<and>
      view s3 = (view s)(b := d) \<and> (\<forall>j \<in> H. b_blockno (bf s3 j) = b_blockno (bf s j) \<and> b_data (bf s3 j) = b_data (bf s j)))" by blast
  from w [rule_format, of "replicate BSIZE 0"] r show ?thesis by (auto simp: bzero_def)
qed

text \<open>Which block the scan of the free map finds.\<close>

fun scan :: "(u32 \<Rightarrow> byte list) \<Rightarrow> superblock \<Rightarrow> nat list \<Rightarrow> nat option" where
  "scan V v [] = None"
| "scan V v (b # bs) =
     (case first_idx (\<lambda>bi. \<not> bit_used (V (BBLOCK (of_nat b) v)) bi) [0..<min BPB (unat (sb_size v) - b)] of
        Some bi \<Rightarrow> Some (b + bi) | None \<Rightarrow> scan V v bs)"

lemma scan_None:
  assumes "scan V v bs = None" "b \<in> set bs" "bi < BPB" "b + bi < unat (sb_size v)"
  shows "bit_used (V (BBLOCK (of_nat b) v)) bi"
  using assms by (induction bs) (auto simp: first_idx_None split: option.splits)

lemma steps_set: "0 < k \<Longrightarrow> b \<in> set (steps k n) \<longleftrightarrow> k dvd b \<and> b < n"
proof -
  assume k: "0 < k"
  have e: "i < (n + k - 1) div k \<longleftrightarrow> i * k < n" for i
  proof -
    have "i < (n + k - 1) div k \<longleftrightarrow> Suc i * k \<le> n + k - 1" using k by (metis Suc_le_eq less_eq_div_iff_mult_less_eq)
    also have "\<dots> \<longleftrightarrow> i * k < n" using k by auto
    finally show ?thesis by simp
  qed
  have "b \<in> set (steps k n) \<longleftrightarrow> (\<exists>i. i < (n + k - 1) div k \<and> b = i * k)" unfolding steps_def by auto
  also have "\<dots> \<longleftrightarrow> (\<exists>i. i * k < n \<and> b = i * k)" unfolding e ..
  also have "\<dots> \<longleftrightarrow> k dvd b \<and> b < n" by (metis dvd_def mult.commute)
  finally show ?thesis .
qed

lemma block_split:
  assumes "BPB dvd b" "bi < BPB" "b + bi < unat (sb_size v)"
  shows "BBLOCK (of_nat (b + bi)) v = BBLOCK (of_nat b) v" "unat (of_nat (b + bi) :: u32) mod BPB = bi" "(of_nat (b + bi) :: u32) < sb_size v"
    "unat (of_nat (b + bi) :: u32) = b + bi"
proof -
  have l: "b + bi < 2 ^ 32" using assms(3) unsigned_less [of "sb_size v", where ?'a = nat] by simp
  then show u: "unat (of_nat (b + bi) :: u32) = b + bi" by (simp add: unat_of_nat take_bit_nat_eq_self del: of_nat_add)
  have "(b + bi) div BPB = b div BPB" using assms(1,2) by (auto simp: dvd_def)
  then show "BBLOCK (of_nat (b + bi)) v = BBLOCK (of_nat b) v" using BBLOCK_eq [OF l] BBLOCK_eq [of b v] l by simp
  show "unat (of_nat (b + bi) :: u32) mod BPB = bi" unfolding u using assms(1,2) by (auto simp: dvd_def)
  show "(of_nat (b + bi) :: u32) < sb_size v" unfolding word_less_nat_alt u by (rule assms(3))
qed

lemma scan_Some:
  assumes "scan V v bs = Some a" "\<And>b. b \<in> set bs \<Longrightarrow> BPB dvd b"
  shows "(of_nat a :: u32) < sb_size v \<and> \<not> used V v (of_nat a)"
  using assms
proof (induction bs)
  case (Cons b bs)
  show ?case
  proof (cases "first_idx (\<lambda>bi. \<not> bit_used (V (BBLOCK (of_nat b) v)) bi) [0..<min BPB (unat (sb_size v) - b)]")
    case None
    then show ?thesis using Cons by simp
  next
    case (Some bi)
    then have "bi < BPB" "b + bi < unat (sb_size v)" "\<not> bit_used (V (BBLOCK (of_nat b) v)) bi" by (auto simp: first_idx_Some)
    moreover have "a = b + bi" "BPB dvd b" using Cons(2,3) Some by auto
    ultimately show ?thesis using block_split [of b bi v] by (simp add: used_def del: of_nat_add)
  qed
qed simp

lemma scan_finds:
  assumes "a \<in> free_blocks V v"
  shows "scan V v (steps BPB (unat (sb_size v))) \<noteq> None"
proof
  assume n: "scan V v (steps BPB (unat (sb_size v))) = None"
  let ?b = "unat a div BPB * BPB" and ?i = "unat a mod BPB"
  have l: "unat a < unat (sb_size v)" and f: "\<not> used V v a" using assms by (auto simp: free_blocks_def word_less_nat_alt)
  have e: "?b + ?i = unat a" "?i < BPB" by (simp_all add: BPB_eq)
  have "?b \<in> set (steps BPB (unat (sb_size v)))" using l e by (subst steps_set) (auto simp: BPB_eq)
  from scan_None [OF n this e(2)] l e(1) have "bit_used (V (BBLOCK (of_nat ?b) v)) ?i" by simp
  then show False using f block_split(1) [of ?b ?i v] e l by (simp add: used_def)
qed

lemma balloc_loop_ok:
  fixes s :: "'a fsst_scheme"
  assumes "txn s H (k + 2)" "card H \<le> 1" "fs_ok M (view s) (fs_sb s) (disksize s)" "\<And>i. i \<in> H \<Longrightarrow> b_blockno (bf s i) \<notin> M \<and> used (view s) (fs_sb s) (b_blockno (bf s i))"
    and "scan (view s) (fs_sb s) bs = Some a" "\<And>b. b \<in> set bs \<Longrightarrow> BPB dvd b \<and> b < unat (sb_size (fs_sb s))"
  shows "\<exists>s'. balloc_loop 1 bs s = Ok (of_nat a, s') \<and> txn s' H k \<and> fkeep s s' \<and> view s' = allocated (fs_sb s) (of_nat a) (view s) \<and>
    (\<forall>j \<in> H. b_blockno (bf s' j) = b_blockno (bf s j) \<and> b_data (bf s' j) = b_data (bf s j))"
  using assms
proof (induction bs arbitrary: s)
  case (Cons b bs)
  let ?V = "view s" and ?v = "fs_sb s"
  have a: "(of_nat a :: u32) < sb_size ?v" "\<not> used ?V ?v (of_nat a)" using scan_Some [OF Cons(6)] Cons(7) by auto
  have bb: "BPB dvd b" "b < unat (sb_size ?v)" using Cons(7) by auto
  have "(of_nat b :: u32) < sb_size ?v" using block_split(3) [of b 0 ?v] bb by (simp add: BPB_eq)
  then have B: "BBLOCK (of_nat b) ?v \<in> M" "BBLOCK (of_nat b) ?v < disksize s" using fs_okD(4,5,8) [OF Cons(4)] by blast+
  have ne: "b_blockno (bf s i) \<noteq> BBLOCK (of_nat b) ?v" if "i \<in> H" for i using Cons(5) [OF that] B(1) by auto
  show ?case
  proof (cases "first_idx (\<lambda>bi. \<not> bit_used (?V (BBLOCK (of_nat b) ?v)) bi) [0..<min BPB (unat (sb_size ?v) - b)]")
    case (Some bi)
    then have "a = b + bi" "bi < BPB" "b + bi < unat (sb_size ?v)" using Cons(6) by (simp, auto simp: first_idx_Some)
    then have bi: "bi < BPB" "b + bi < unat (sb_size ?v)" "a = b + bi" by simp_all
    note sp = block_split [OF bb(1) bi(1,2), folded bi(3)]
    from tx.poke [OF _ Cons(3) B(2) ne, of "Suc k"] Cons(2) obtain i s1 where r: "bread 1 (BBLOCK (of_nat b) ?v) s = Ok (i, s1)"
      "b_data (bf s1 i) = ?V (BBLOCK (of_nat b) ?v)" "fkeep s s1" and
      w: "\<forall>d. length d = BSIZE \<longrightarrow> (\<exists>s2 s3. log_write i (set_data i d s1) = Ok s2 \<and> brelse i s2 = Ok s3 \<and> txn s3 H (Suc k) \<and> fkeep s s3 \<and>
        view s3 = ?V(BBLOCK (of_nat b) ?v := d) \<and> (\<forall>j \<in> H. b_blockno (bf s3 j) = b_blockno (bf s j) \<and> b_data (bf s3 j) = b_data (bf s j)))" by auto
    have l: "length (mark_used (?V (BBLOCK (of_nat b) ?v)) bi) = BSIZE" using Cons(4) by (simp add: fs_ok_def)
    from w [rule_format, OF l] obtain s2 s3 where w': "log_write i (set_data i (mark_used (?V (BBLOCK (of_nat b) ?v)) bi) s1) = Ok s2" "brelse i s2 = Ok s3"
      "txn s3 H (Suc k)" "fkeep s s3" "view s3 = ?V(BBLOCK (of_nat b) ?v := mark_used (?V (BBLOCK (of_nat b) ?v)) bi)"
      "\<forall>j \<in> H. b_blockno (bf s3 j) = b_blockno (bf s j) \<and> b_data (bf s3 j) = b_data (bf s j)" by blast
    have "(of_nat a :: u32) < disksize s3" using fs_okD(8) [OF Cons(4) a(1)] fkeep_fs(3) [OF w'(4)] by simp
    moreover have "b_blockno (bf s3 i) \<noteq> of_nat a" if "i \<in> H" for i using w'(6) that Cons(5) [OF that] a(2) by auto
    ultimately obtain s4 where z: "bzero 1 (of_nat a) s3 = Ok s4" "txn s4 H k" "fkeep s3 s4" "view s4 = (view s3)(of_nat a := replicate BSIZE 0)"
      "\<forall>j \<in> H. b_blockno (bf s4 j) = b_blockno (bf s3 j) \<and> b_data (bf s4 j) = b_data (bf s3 j)" using bzero_ok [OF w'(3) Cons(3)] by blast
    have "balloc_loop 1 (b # bs) s = Ok (of_nat a, s4)"
      using r fkeep_fs(1) [OF r(3)] Some w'(1,2) z(1) bi(3) by (simp del: of_nat_add)
    moreover have "view s4 = allocated ?v (of_nat a) ?V" using z(4) w'(5) sp(1,2) by (simp add: allocated_def)
    ultimately show ?thesis using z w'(6) fkeep_trans [OF w'(4) z(3)] by auto
  next
    case None
    from tx.peek [OF Cons(2,3) B(2) ne] obtain i s1 s2 where r: "bread 1 (BBLOCK (of_nat b) ?v) s = Ok (i, s1)" "b_data (bf s1 i) = ?V (BBLOCK (of_nat b) ?v)" "fkeep s s1"
      "brelse i s1 = Ok s2" "txn s2 H (k + 2)" "fkeep s s2" "view s2 = ?V"
      "\<forall>j \<in> H. b_blockno (bf s2 j) = b_blockno (bf s j) \<and> b_data (bf s2 j) = b_data (bf s j)" by blast
    note f = fkeep_fs [OF r(6)]
    have sc: "scan ?V ?v bs = Some a" using Cons(6) None by simp
    have "\<exists>s'. balloc_loop 1 bs s2 = Ok (of_nat a, s') \<and> txn s' H k \<and> fkeep s2 s' \<and> view s' = allocated (fs_sb s2) (of_nat a) (view s2) \<and>
      (\<forall>j \<in> H. b_blockno (bf s' j) = b_blockno (bf s2 j) \<and> b_data (bf s' j) = b_data (bf s2 j))"
      by (rule Cons.IH [OF r(5) Cons(3)]) (use f r(7,8) Cons(4,5,7) sc in auto)
    then obtain s' where s': "balloc_loop 1 bs s2 = Ok (of_nat a, s')" "txn s' H k" "fkeep s2 s'" "view s' = allocated ?v (of_nat a) ?V"
      "\<forall>j \<in> H. b_blockno (bf s' j) = b_blockno (bf s2 j) \<and> b_data (bf s' j) = b_data (bf s2 j)" using f r(7) by auto
    have "balloc_loop 1 (b # bs) s = Ok (of_nat a, s')" using r fkeep_fs(1) [OF r(3)] None s'(1) by simp
    then show ?thesis using s' r(8) fkeep_trans [OF r(6) s'(3)] by auto
  qed
qed simp

lemma balloc_ok:
  fixes s :: "'a fsst_scheme"
  assumes "txn s H (k + 2)" "card H \<le> 1" "fs_ok M (view s) (fs_sb s) (disksize s)" "\<And>i. i \<in> H \<Longrightarrow> b_blockno (bf s i) \<notin> M \<and> used (view s) (fs_sb s) (b_blockno (bf s i))"
    and "free_blocks (view s) (fs_sb s) \<noteq> {}"
  shows "\<exists>a s'. balloc 1 s = Ok (a, s') \<and> a \<in> free_blocks (view s) (fs_sb s) \<and> txn s' H k \<and> fkeep s s' \<and> view s' = allocated (fs_sb s) a (view s) \<and>
    (\<forall>j \<in> H. b_blockno (bf s' j) = b_blockno (bf s j) \<and> b_data (bf s' j) = b_data (bf s j))"
proof -
  let ?bs = "steps BPB (unat (sb_size (fs_sb s)))"
  have bs: "b \<in> set ?bs \<Longrightarrow> BPB dvd b \<and> b < unat (sb_size (fs_sb s))" for b using steps_set by (simp add: BPB_eq)
  from assms(5) obtain a where a: "scan (view s) (fs_sb s) ?bs = Some a" using scan_finds by (metis ex_in_conv not_None_eq)
  then have "(of_nat a :: u32) \<in> free_blocks (view s) (fs_sb s)" using scan_Some [OF a] bs by (auto simp: free_blocks_def)
  then show ?thesis
    using balloc_loop_ok [OF assms(1-4) a bs] by (intro exI [of _ "of_nat a"]) (auto simp: balloc_def)
qed

section \<open>The block map of an inode\<close>

definition NBLOCKS :: nat where
  "NBLOCKS = NDIRECT + NINDIRECT"

definition ind :: "inode \<Rightarrow> u32" where
  "ind x = i_addrs x ! NDIRECT"

text \<open>The block that holds block \<open>bn\<close> of the file, or 0.\<close>

definition fblk :: "(u32 \<Rightarrow> byte list) \<Rightarrow> inode \<Rightarrow> nat \<Rightarrow> u32" where
  "fblk V x bn = (if bn < NDIRECT then i_addrs x ! bn else if ind x = 0 then 0 else rd32 (V (ind x)) (4 * (bn - NDIRECT)))"

definition data_block :: "u32 set \<Rightarrow> (u32 \<Rightarrow> byte list) \<Rightarrow> superblock \<Rightarrow> u32 \<Rightarrow> bool" where
  "data_block M V v a \<longleftrightarrow> a \<noteq> 0 \<and> a < sb_size v \<and> used V v a \<and> a \<notin> M"

definition file_ok :: "u32 set \<Rightarrow> (u32 \<Rightarrow> byte list) \<Rightarrow> superblock \<Rightarrow> inode \<Rightarrow> bool" where
  "file_ok M V v x \<longleftrightarrow> i_dev x = 1 \<and> length (i_addrs x) = Suc NDIRECT \<and> (ind x \<noteq> 0 \<longrightarrow> data_block M V v (ind x)) \<and>
     (\<forall>bn < NBLOCKS. fblk V x bn \<noteq> 0 \<longrightarrow> data_block M V v (fblk V x bn) \<and> fblk V x bn \<noteq> ind x \<and>
       (\<forall>cn < NBLOCKS. fblk V x cn = fblk V x bn \<longrightarrow> cn = bn))"

lemma file_okD:
  assumes "file_ok M V v x"
  shows "i_dev x = 1" "length (i_addrs x) = Suc NDIRECT" "ind x \<noteq> 0 \<Longrightarrow> data_block M V v (ind x)"
    "bn < NBLOCKS \<Longrightarrow> fblk V x bn \<noteq> 0 \<Longrightarrow> data_block M V v (fblk V x bn)" "bn < NBLOCKS \<Longrightarrow> fblk V x bn \<noteq> 0 \<Longrightarrow> fblk V x bn \<noteq> ind x"
    "bn < NBLOCKS \<Longrightarrow> cn < NBLOCKS \<Longrightarrow> fblk V x bn \<noteq> 0 \<Longrightarrow> fblk V x cn = fblk V x bn \<Longrightarrow> cn = bn"
  using assms unfolding file_ok_def by (blast, blast, blast, blast, blast, blast)

lemma dims: "NDIRECT = 12" "NINDIRECT = 128" "NBLOCKS = 140"
  by (simp_all add: NDIRECT_def NINDIRECT_def NBLOCKS_def BSIZE_def)

text \<open>Blocks are added to a file: its old blocks stay, its new ones are zero, and no other data block changes.\<close>

definition extends :: "u32 set \<Rightarrow> superblock \<Rightarrow> u32 \<Rightarrow> nat \<Rightarrow> (u32 \<Rightarrow> byte list) \<Rightarrow> inode \<Rightarrow> (u32 \<Rightarrow> byte list) \<Rightarrow> inode \<Rightarrow> bool" where
  "extends M v dz d V x V' x' \<longleftrightarrow> fs_ok M V' v dz \<and> file_ok M V' v x' \<and> (\<exists>ad. x' = x\<lparr>i_addrs := ad\<rparr>) \<and>
     (\<forall>bn < NBLOCKS. fblk V x bn \<noteq> 0 \<longrightarrow> fblk V' x' bn = fblk V x bn) \<and>
     (\<forall>bn < NBLOCKS. fblk V x bn = 0 \<longrightarrow> fblk V' x' bn \<noteq> 0 \<longrightarrow> fblk V' x' bn \<in> free_blocks V v \<and> V' (fblk V' x' bn) = replicate BSIZE 0) \<and>
     (\<forall>b. data_block M V v b \<longrightarrow> data_block M V' v b \<and> (b \<noteq> ind x \<longrightarrow> V' b = V b)) \<and>
     (ind x' = ind x \<or> ind x = 0 \<and> ind x' \<in> free_blocks V v) \<and>
     free_blocks V' v \<subseteq> free_blocks V v \<and> card (free_blocks V v) \<le> card (free_blocks V' v) + d"

lemma extendsD:
  assumes "extends M v dz d V x V' x'"
  shows "fs_ok M V' v dz" "file_ok M V' v x'" "\<exists>ad. x' = x\<lparr>i_addrs := ad\<rparr>" "bn < NBLOCKS \<Longrightarrow> fblk V x bn \<noteq> 0 \<Longrightarrow> fblk V' x' bn = fblk V x bn"
    "bn < NBLOCKS \<Longrightarrow> fblk V x bn = 0 \<Longrightarrow> fblk V' x' bn \<noteq> 0 \<Longrightarrow> fblk V' x' bn \<in> free_blocks V v"
    "bn < NBLOCKS \<Longrightarrow> fblk V x bn = 0 \<Longrightarrow> fblk V' x' bn \<noteq> 0 \<Longrightarrow> V' (fblk V' x' bn) = replicate BSIZE 0"
    "data_block M V v b \<Longrightarrow> data_block M V' v b" "data_block M V v b \<Longrightarrow> b \<noteq> ind x \<Longrightarrow> V' b = V b"
    "ind x' = ind x \<or> ind x = 0 \<and> ind x' \<in> free_blocks V v" "free_blocks V' v \<subseteq> free_blocks V v"
    "card (free_blocks V v) \<le> card (free_blocks V' v) + d"
  using assms unfolding extends_def by (blast, blast, blast, blast, blast, blast, blast, blast, blast, blast, blast)

lemma free_not_data: "a \<in> free_blocks V v \<Longrightarrow> \<not> data_block M V v a"
  by (auto simp: free_blocks_def data_block_def)

lemma extends_refl: "fs_ok M V v dz \<Longrightarrow> file_ok M V v x \<Longrightarrow> extends M v dz d V x V x"
  unfolding extends_def by (auto intro: exI [of _ "i_addrs x"])

lemma extends_trans:
  assumes "file_ok M V v x" "extends M v dz d V x V1 x1" "extends M v dz e V1 x1 V2 x2"
  shows "extends M v dz (d + e) V x V2 x2"
proof -
  note a = extendsD [OF assms(2)] and b = extendsD [OF assms(3)] and f = file_okD [OF assms(1)] and f1 = file_okD [OF a(2)]
  have "\<exists>ad. x2 = x\<lparr>i_addrs := ad\<rparr>" using a(3) b(3) by auto
  moreover have "fblk V2 x2 bn = fblk V x bn" if "bn < NBLOCKS" "fblk V x bn \<noteq> 0" for bn using a(4) [OF that] b(4) [of bn] that by simp
  moreover have "fblk V2 x2 bn \<in> free_blocks V v \<and> V2 (fblk V2 x2 bn) = replicate BSIZE 0" if n: "bn < NBLOCKS" "fblk V x bn = 0" "fblk V2 x2 bn \<noteq> 0" for bn
  proof (cases "fblk V1 x1 bn = 0")
    case True
    then show ?thesis using b(5,6) [OF n(1) True n(3)] a(10) by blast
  next
    case False
    then have "fblk V2 x2 bn = fblk V1 x1 bn" "data_block M V1 v (fblk V1 x1 bn)" "fblk V1 x1 bn \<noteq> ind x1" using b(4) f1(4,5) n(1) by blast+
    then show ?thesis using a(5,6) [OF n(1,2) False] b(8) by simp
  qed
  moreover have "data_block M V2 v b \<and> (b \<noteq> ind x \<longrightarrow> V2 b = V b)" if d: "data_block M V v b" for b
  proof -
    have "b \<noteq> ind x \<Longrightarrow> b \<noteq> ind x1" using a(9) free_not_data [of "ind x1" V v M] d by auto
    then show ?thesis using a(7,8) [OF d] b(7,8) [of b] by auto
  qed
  moreover have "ind x2 = ind x \<or> ind x = 0 \<and> ind x2 \<in> free_blocks V v" using a(9,10) b(9) by (metis subsetD)
  ultimately show ?thesis
    unfolding extends_def using a(10,11) b(1,2,10,11) by (intro conjI allI impI) (blast | linarith)+
qed

text \<open>Giving the file a new block, directly or through its indirect block.\<close>

lemma extends_add:
  assumes f: "file_ok M V v x" and a: "a \<in> free_blocks V v" and V': "fs_ok M V' v dz" "data_block M V' v a" "V' a = replicate BSIZE 0"
      "free_blocks V' v = free_blocks V v - {a}" "\<And>b. data_block M V v b \<Longrightarrow> data_block M V' v b \<and> (b \<noteq> ind x \<longrightarrow> V' b = V b)"
    and x': "x' = x\<lparr>i_addrs := ad\<rparr>" "length ad = Suc NDIRECT"
    and fb: "\<And>bn. bn < NBLOCKS \<Longrightarrow> fblk V' x' bn = (if bn = k \<and> p then a else fblk V x bn)" and k: "p \<Longrightarrow> k < NBLOCKS \<and> fblk V x k = 0"
    and i: "ind x' = ind x \<and> p \<or> ind x = 0 \<and> ind x' = a \<and> \<not> p"
  shows "extends M v dz 1 V x V' x'"
proof -
  note fd = file_okD [OF f]
  have na: "\<not> data_block M V v a" by (rule free_not_data [OF a])
  have a0: "a \<noteq> 0" using V'(2) by (simp add: data_block_def)
  have oa: "fblk V x bn \<noteq> a" if "bn < NBLOCKS" for bn using fd(4) [OF that] na a0 by auto
  have ia: "ind x \<noteq> a" using fd(3) na a0 by auto
  have "data_block M V' v (fblk V' x' bn) \<and> fblk V' x' bn \<noteq> ind x' \<and> (\<forall>cn < NBLOCKS. fblk V' x' cn = fblk V' x' bn \<longrightarrow> cn = bn)"
    if n: "bn < NBLOCKS" "fblk V' x' bn \<noteq> 0" for bn
  proof (cases "bn = k \<and> p")
    case True
    then have e: "fblk V' x' bn = a" using fb [OF n(1)] by simp
    have "cn = bn" if "cn < NBLOCKS" "fblk V' x' cn = a" for cn using that fb [OF that(1)] oa [OF that(1)] True by (auto split: if_splits)
    then show ?thesis using e V'(2) i ia True by auto
  next
    case False
    have e1: "fblk V' x' bn = fblk V x bn" unfolding fb [OF n(1)] by (rule if_not_P [OF False])
    then have e: "fblk V' x' bn = fblk V x bn" "fblk V x bn \<noteq> 0" using n(2) by simp_all
    have "cn = bn" if c: "cn < NBLOCKS" "fblk V' x' cn = fblk V x bn" for cn
      using c fb [OF c(1)] oa [OF n(1)] fd(6) [OF n(1) c(1) e(2)] by (auto split: if_splits)
    then show ?thesis using e V'(5) [OF fd(4) [OF n(1) e(2)]] fd(5) [OF n(1) e(2)] i oa [OF n(1)] by auto
  qed
  then have "file_ok M V' v x'"
    unfolding file_ok_def using fd(1,3) x' V'(2) V'(5) [of "ind x"] i by auto
  moreover have "fblk V' x' bn \<in> free_blocks V v \<and> V' (fblk V' x' bn) = replicate BSIZE 0" if "bn < NBLOCKS" "fblk V x bn = 0" "fblk V' x' bn \<noteq> 0" for bn
    using that fb [OF that(1)] a V'(3) by (auto split: if_splits)
  moreover have "fblk V' x' bn = fblk V x bn" if "bn < NBLOCKS" "fblk V x bn \<noteq> 0" for bn using that fb [OF that(1)] k by auto
  moreover have "ind x' = ind x \<or> ind x = 0 \<and> ind x' \<in> free_blocks V v" using i a by auto
  moreover have "free_blocks V' v \<subseteq> free_blocks V v" "card (free_blocks V v) \<le> card (free_blocks V' v) + 1" using V'(4) card_Suc_Diff1 [of "free_blocks V v" a] a by auto
  ultimately show ?thesis
    unfolding extends_def using V'(1,5) x'(1) by (intro conjI allI impI) blast+
qed

lemma alloc_facts:
  assumes "fs_ok M V v dz" "a \<in> free_blocks V v"
  shows "fs_ok M (allocated v a V) v dz" "data_block M (allocated v a V) v a" "allocated v a V a = replicate BSIZE 0"
    "free_blocks (allocated v a V) v = free_blocks V v - {a}" "data_block M V v b \<Longrightarrow> data_block M (allocated v a V) v b" "data_block M V v b \<Longrightarrow> allocated v a V b = V b"
proof -
  have f: "a < sb_size v" "\<not> used V v a" using assms(2) by (auto simp: free_blocks_def)
  note al = fs_ok_allocated [OF assms(1) f]
  show "fs_ok M (allocated v a V) v dz" "allocated v a V a = replicate BSIZE 0" "free_blocks (allocated v a V) v = free_blocks V v - {a}" using al by auto
  show "data_block M (allocated v a V) v a" using al f by (simp add: data_block_def)
  show "data_block M V v b \<Longrightarrow> data_block M (allocated v a V) v b" using used_allocated [OF assms(1) f] by (simp add: data_block_def)
  show "data_block M V v b \<Longrightarrow> allocated v a V b = V b" using al(6) [of b] f(2) by (auto simp: data_block_def)
qed

lemma rd32_zero: "k + 4 \<le> BSIZE \<Longrightarrow> rd32 (replicate BSIZE 0) k = 0"
  by (simp add: rd32_def)

lemma extends_direct:
  assumes "fs_ok M V v dz" "file_ok M V v x" "k \<le> NDIRECT" "i_addrs x ! k = 0" "a \<in> free_blocks V v"
  shows "extends M v dz 1 V x (allocated v a V) (x\<lparr>i_addrs := (i_addrs x)[k := a]\<rparr>)"
    "k < NDIRECT \<Longrightarrow> fblk (allocated v a V) (x\<lparr>i_addrs := (i_addrs x)[k := a]\<rparr>) k = a" "k = NDIRECT \<Longrightarrow> ind (x\<lparr>i_addrs := (i_addrs x)[k := a]\<rparr>) = a"
proof -
  let ?x = "x\<lparr>i_addrs := (i_addrs x)[k := a]\<rparr>"
  note al = alloc_facts [OF assms(1,5)] and fd = file_okD [OF assms(2)]
  have a0: "a \<noteq> 0" using al(2) by (simp add: data_block_def)
  have i: "ind ?x = (if k = NDIRECT then a else ind x)" using fd(2) assms(3) by (simp add: ind_def)
  have V: "ind x \<noteq> 0 \<Longrightarrow> allocated v a V (ind x) = V (ind x)" using al(6) fd(3) by blast
  have fb: "fblk (allocated v a V) ?x bn = (if bn = k \<and> k < NDIRECT then a else fblk V x bn)" if "bn < NBLOCKS" for bn
  proof (cases "k = NDIRECT")
    case True
    then have "ind x = 0" using assms(4) by (simp add: ind_def)
    moreover have "rd32 (replicate BSIZE 0) (4 * (bn - NDIRECT)) = 0" by (rule rd32_zero) (use that in \<open>simp add: dims BSIZE_def\<close>)
    ultimately show ?thesis using True that i a0 al(3) by (auto simp: fblk_def)
  next
    case False
    then show ?thesis using that i V assms(3) fd(2) by (auto simp: fblk_def nth_list_update)
  qed
  show "extends M v dz 1 V x (allocated v a V) ?x"
    by (rule extends_add [OF assms(2,5) al(1-4) _ refl _ fb]) (use al(5,6) fd(2) assms(3,4) i in \<open>auto simp: fblk_def dims ind_def\<close>)
  show "k < NDIRECT \<Longrightarrow> fblk (allocated v a V) ?x k = a" using fb [of k] by (simp add: dims)
  show "k = NDIRECT \<Longrightarrow> ind ?x = a" using i by simp
qed

lemma used_upd: "fs_ok M V v dz \<Longrightarrow> b \<notin> M \<Longrightarrow> n < sb_size v \<Longrightarrow> used (V(b := d)) v n = used V v n"
  using fs_okD(4) [of M V v dz n] by (auto simp: used_def)

lemma fs_ok_upd:
  assumes "fs_ok M V v dz" "b \<notin> M" "length d = BSIZE" "0 < sb_size v"
  shows "fs_ok M (V(b := d)) v dz" "free_blocks (V(b := d)) v = free_blocks V v" "data_block M (V(b := d)) v n = data_block M V v n"
proof -
  show "data_block M (V(b := d)) v n = data_block M V v n" "free_blocks (V(b := d)) v = free_blocks V v"
    using used_upd [OF assms(1,2)] by (auto simp: data_block_def free_blocks_def)
  have "used (V(b := d)) v n" if "n \<in> M" for n using used_upd [OF assms(1,2) fs_okD(5) [OF assms(1) that]] fs_okD(6) [OF assms(1) that] by simp
  then show "fs_ok M (V(b := d)) v dz"
    unfolding fs_ok_def using assms(3) used_upd [OF assms(1,2,4)] fs_okD [OF assms(1)] by auto
qed

lemma extends_indirect:
  assumes "fs_ok M V v dz" "file_ok M V v x" "NDIRECT \<le> bn" "bn < NBLOCKS" "ind x \<noteq> 0" "fblk V x bn = 0" "a \<in> free_blocks V v"
  shows "extends M v dz 1 V x ((allocated v a V)(ind x := wr32 (V (ind x)) (4 * (bn - NDIRECT)) a)) x"
    "fblk ((allocated v a V)(ind x := wr32 (V (ind x)) (4 * (bn - NDIRECT)) a)) x bn = a"
proof -
  let ?d = "wr32 (V (ind x)) (4 * (bn - NDIRECT)) a"
  let ?V = "(allocated v a V)(ind x := ?d)"
  note al = alloc_facts [OF assms(1,7)] and fd = file_okD [OF assms(2)]
  have di: "data_block M V v (ind x)" using fd(3) assms(5) by blast
  have ia: "a \<noteq> ind x" using free_not_data [OF assms(7)] di by blast
  have l: "length (V (ind x)) = BSIZE" using fs_okD(7) [OF assms(1)] .
  have z: "0 < sb_size v" using di by (auto simp: data_block_def word_neq_0_conv [symmetric])
  have u: "fs_ok M ?V v dz" "free_blocks ?V v = free_blocks (allocated v a V) v" "\<And>n. data_block M ?V v n = data_block M (allocated v a V) v n"
    using fs_ok_upd [OF al(1), of "ind x" ?d] di l z by (simp_all add: data_block_def)
  have fb: "fblk ?V x cn = (if cn = bn \<and> True then a else fblk V x cn)" if "cn < NBLOCKS" for cn
  proof (cases "cn < NDIRECT")
    case True
    then show ?thesis using assms(3) by (auto simp: fblk_def)
  next
    case False
    have "4 * (cn - NDIRECT) + 4 \<le> 4 * (bn - NDIRECT) \<or> 4 * (bn - NDIRECT) + 4 \<le> 4 * (cn - NDIRECT)" if "cn \<noteq> bn" using that False assms(3) by auto
    then have "rd32 ?d (4 * (cn - NDIRECT)) = (if cn = bn then a else rd32 (V (ind x)) (4 * (cn - NDIRECT)))"
      using assms(4) l by (auto simp: rd32_wr32 rd32_wr32_other dims BSIZE_def)
    then show ?thesis using False assms(3,5) by (simp add: fblk_def)
  qed
  have e: "x = x\<lparr>i_addrs := i_addrs x\<rparr>" by simp
  show "extends M v dz 1 V x ?V x"
    by (rule extends_add [OF assms(2,7) u(1) _ _ _ _ e fd(2) fb]) (use u al ia assms(4,6) in auto)
  show "fblk ?V x bn = a" using fb [OF assms(4)] by simp
qed

lemma txn_mono: "txn s H k \<Longrightarrow> m \<le> k \<Longrightarrow> txn s H m"
  unfolding txn_def by (elim conjE exE, intro conjI exI) auto

text \<open>What an operation on the inode \<open>ip\<close> may change besides blocks.\<close>

definition ikeep :: "nat \<Rightarrow> 'a fsst_scheme \<Rightarrow> 'a fsst_scheme \<Rightarrow> bool" where
  "ikeep ip s s' \<longleftrightarrow> fkeep (s\<lparr>inodes := inodes s'\<rparr>) s' \<and> (\<exists>ad sz. inodes s' = (inodes s)[ip := (inod s ip)\<lparr>i_addrs := ad, i_size := sz\<rparr>])"

lemma ikeepI: "fkeep s t \<Longrightarrow> s' = upd_inode ip (\<lambda>x. x\<lparr>i_addrs := ad, i_size := sz\<rparr>) t \<Longrightarrow> ikeep ip s s'"
  using fkeep_fs [of s t] by (auto simp: ikeep_def upd_inode_def)

lemma fkeep_ikeep:
  fixes s s' :: "'a fsst_scheme"
  assumes "fkeep s s'"
  shows "ikeep ip s s'"
proof -
  have "s\<lparr>inodes := inodes s'\<rparr> = s" using fkeep_fs(2) [OF assms] by simp
  then show ?thesis
    unfolding ikeep_def using assms fkeep_fs(2) [OF assms]
    by (intro conjI exI [of _ "i_addrs (inod s ip)"] exI [of _ "i_size (inod s ip)"]) simp_all
qed

lemma ikeepD:
  assumes "ikeep ip s s'"
  shows "fs_sb s' = fs_sb s" "disksize s' = disksize s" "length (inodes s') = length (inodes s)" "j \<noteq> ip \<Longrightarrow> inod s' j = inod s j"
    "\<exists>ad sz. inod s' ip = (inod s ip)\<lparr>i_addrs := ad, i_size := sz\<rparr>" "memdisk s' = memdisk s" "lg_outstanding s' = lg_outstanding s"
proof -
  from assms obtain ad sz where k: "fkeep (s\<lparr>inodes := inodes s'\<rparr>) s'" "inodes s' = (inodes s)[ip := (inod s ip)\<lparr>i_addrs := ad, i_size := sz\<rparr>]"
    unfolding ikeep_def by blast
  show "fs_sb s' = fs_sb s" "disksize s' = disksize s" "memdisk s' = memdisk s" "lg_outstanding s' = lg_outstanding s"
    using fkeep_fs(1) [OF k(1)] fkeepD [OF k(1)] by simp_all
  show "length (inodes s') = length (inodes s)" "j \<noteq> ip \<Longrightarrow> inod s' j = inod s j" using k(2) by simp_all
  show "\<exists>ad sz. inod s' ip = (inod s ip)\<lparr>i_addrs := ad, i_size := sz\<rparr>"
  proof (cases "ip < length (inodes s)")
    case False
    then have "inod s' ip = (inod s ip)\<lparr>i_addrs := i_addrs (inod s ip), i_size := i_size (inod s ip)\<rparr>" using k(2) by (simp add: list_update_beyond)
    then show ?thesis by blast
  qed (use k(2) in auto)
qed

lemma ikeep_trans: "ikeep ip s s1 \<Longrightarrow> ikeep ip s1 s2 \<Longrightarrow> ikeep ip s s2"
proof -
  assume "ikeep ip s s1" "ikeep ip s1 s2"
  then obtain ad sz ad' sz' where k: "fkeep (s\<lparr>inodes := inodes s1\<rparr>) s1" "inodes s1 = (inodes s)[ip := (inod s ip)\<lparr>i_addrs := ad, i_size := sz\<rparr>]"
    "fkeep (s1\<lparr>inodes := inodes s2\<rparr>) s2" "inodes s2 = (inodes s1)[ip := (inod s1 ip)\<lparr>i_addrs := ad', i_size := sz'\<rparr>]" unfolding ikeep_def by blast
  have "fkeep (s\<lparr>inodes := inodes s2\<rparr>) (s1\<lparr>inodes := inodes s2\<rparr>)" using fkeep_fs(4) [OF k(1), of "inodes s2"] by simp
  moreover have "inodes s2 = (inodes s)[ip := (inod s ip)\<lparr>i_addrs := ad', i_size := sz'\<rparr>]"
    using k(2,4) by (cases "ip < length (inodes s)") (simp_all add: list_update_beyond)
  ultimately show ?thesis unfolding ikeep_def using fkeep_trans [OF _ k(3)] by blast
qed

lemma addr_of_ok:
  assumes "txn s {} (k + 2)" "fs_ok M (view s) (fs_sb s) (disksize s)" "file_ok M (view s) (fs_sb s) (inod s ip)" "j \<le> NDIRECT" "ip < length (inodes s)"
    "free_blocks (view s) (fs_sb s) \<noteq> {}"
  shows "\<exists>a s'. addr_of ip j s = Ok (a, s') \<and> a \<noteq> 0 \<and> txn s' {} k \<and> ikeep ip s s' \<and> i_addrs (inod s' ip) ! j = a \<and>
    extends M (fs_sb s) (disksize s) 1 (view s) (inod s ip) (view s') (inod s' ip)"
proof (cases "i_addrs (inod s ip) ! j = 0")
  case False
  then show ?thesis
    using txn_mono [OF assms(1), of k] extends_refl [OF assms(2,3)] by (intro exI [of _ "i_addrs (inod s ip) ! j"] exI [of _ s]) (simp add: addr_of_def fkeep_ikeep)
next
  case True
  from balloc_ok [OF assms(1) _ assms(2) _ assms(6)] obtain a t where b: "balloc 1 s = Ok (a, t)" "a \<in> free_blocks (view s) (fs_sb s)" "txn t {} k" "fkeep s t"
    "view t = allocated (fs_sb s) a (view s)" by auto
  note f = fkeep_fs [OF b(4)] and e = extends_direct [OF assms(2,3,4) True b(2)]
  let ?s = "set_addr ip j a t"
  have i: "inod ?s ip = (inod s ip)\<lparr>i_addrs := (i_addrs (inod s ip))[j := a]\<rparr>" using f(2) assms(5) by (simp add: set_addr_def upd_inode_def)
  have "ikeep ip s ?s"
    by (rule ikeepI [OF b(4), where ad = "(i_addrs (inod s ip))[j := a]" and sz = "i_size (inod s ip)"]) (simp add: set_addr_def upd_inode_def f(2))
  moreover have "a \<noteq> 0" using alloc_facts(2) [OF assms(2) b(2)] by (simp add: data_block_def)
  moreover have "i_addrs (inod ?s ip) ! j = a" using i file_okD(2) [OF assms(3)] assms(4) by simp
  moreover have "addr_of ip j s = Ok (a, ?s)" using True b(1) file_okD(1) [OF assms(3)] by (simp add: addr_of_def)
  moreover have "txn ?s {} k" "view ?s = allocated (fs_sb s) a (view s)" using b(3,5) by (simp_all add: set_addr_def upd_inode_def)
  ultimately show ?thesis using e(1) i by (intro exI [of _ a] exI [of _ ?s]) simp
qed

lemma bmap_ok:
  assumes "txn s {} (k + 5)" "fs_ok M (view s) (fs_sb s) (disksize s)" "file_ok M (view s) (fs_sb s) (inod s ip)" "bn < NBLOCKS" "ip < length (inodes s)"
    "2 \<le> card (free_blocks (view s) (fs_sb s))"
  shows "\<exists>a s'. bmap ip bn s = Ok (a, s') \<and> a \<noteq> 0 \<and> fblk (view s') (inod s' ip) bn = a \<and> txn s' {} k \<and> ikeep ip s s' \<and>
    extends M (fs_sb s) (disksize s) 2 (view s) (inod s ip) (view s') (inod s' ip)"
proof (cases "bn < NDIRECT")
  case True
  have "free_blocks (view s) (fs_sb s) \<noteq> {}" using assms(6) by auto
  with addr_of_ok [of s "k + 3" M ip bn] assms(1-3,5) True obtain a s' where r: "addr_of ip bn s = Ok (a, s')" "a \<noteq> 0" "txn s' {} (k + 3)" "ikeep ip s s'"
    "i_addrs (inod s' ip) ! bn = a" "extends M (fs_sb s) (disksize s) 1 (view s) (inod s ip) (view s') (inod s' ip)" by (auto simp: algebra_simps)
  have "extends M (fs_sb s) (disksize s) 2 (view s) (inod s ip) (view s') (inod s' ip)" using r(6) by (auto simp: extends_def)
  then show ?thesis using r txn_mono [OF r(3), of k] True by (intro exI [of _ a] exI [of _ s']) (simp add: bmap_def fblk_def)
next
  case False
  let ?v = "fs_sb s" and ?dz = "disksize s" and ?k = "4 * (bn - NDIRECT)"
  have "free_blocks (view s) ?v \<noteq> {}" using assms(6) by auto
  with addr_of_ok [of s "k + 3" M ip NDIRECT] assms(1-3,5) obtain a1 s1 where r: "addr_of ip NDIRECT s = Ok (a1, s1)" "a1 \<noteq> 0" "txn s1 {} (k + 3)" "ikeep ip s s1"
    "ind (inod s1 ip) = a1" "extends M ?v ?dz 1 (view s) (inod s ip) (view s1) (inod s1 ip)" by (auto simp: algebra_simps ind_def)
  note e1 = extendsD [OF r(6)] and k1 = ikeepD [OF r(4)]
  have d1: "data_block M (view s1) ?v a1" using file_okD(3) [OF e1(2)] r(2,5) by simp
  then have "a1 < disksize s1" using fs_okD(8) [OF e1(1)] k1(2) by (simp add: data_block_def)
  from tx.rd_ok [OF r(3) _ this] obtain i s2 where b: "bread 1 a1 s1 = Ok (i, s2)" "txn s2 {i} (k + 3)" "fkeep s1 s2" "view s2 = view s1"
    "b_blockno (bf s2 i) = a1" "b_data (bf s2 i) = view s1 a1" by auto
  note k2 = fkeep_fs [OF b(3)]
  have dv: "i_dev (inod s1 ip) = 1" "i_dev (inod s2 ip) = 1" using file_okD(1) [OF e1(2)] k2(2) by simp_all
  have fb: "rd32 (view s1 a1) ?k = fblk (view s1) (inod s1 ip) bn" using False r(2,5) by (simp add: fblk_def)
  have ni: "\<not> bn < NDIRECT" "bn - NDIRECT < NINDIRECT" using False assms(4) by (auto simp: dims)
  show ?thesis
  proof (cases "fblk (view s1) (inod s1 ip) bn = 0")
    case False
    from tx.rel_ok [OF b(2), of i] obtain s3 where c: "brelse i s2 = Ok s3" "txn s3 {} (k + 3)" "fkeep s2 s3" "view s3 = view s2" by auto
    have i3: "inod s3 ip = inod s1 ip" using k2(2) fkeep_fs(2) [OF c(3)] by simp
    have "bmap ip bn s = Ok (fblk (view s1) (inod s1 ip) bn, s3)" using ni r(1) b(1,6) c(1) dv fb False by (simp add: bmap_def Let_def)
    moreover have "extends M ?v ?dz 2 (view s) (inod s ip) (view s3) (inod s3 ip)" using r(6) c(4) b(4) i3 by (auto simp: extends_def)
    moreover have "ikeep ip s s3" using ikeep_trans [OF r(4) fkeep_ikeep [OF fkeep_trans [OF b(3) c(3)]]] .
    ultimately show ?thesis using False c(4) b(4) i3 txn_mono [OF c(2), of k] by auto
  next
    case True
    have ne: "free_blocks (view s2) (fs_sb s2) \<noteq> {}" using e1(11) assms(6) b(4) k1(1) k2(1) by auto
    have "fs_ok M (view s2) (fs_sb s2) (disksize s2)" using e1(1) b(4) k1(1,2) k2 by simp
    from balloc_ok [of s2 "{i}" "Suc k", OF _ _ this _ ne] b(2,4,5) d1 k1(1) k2(1) obtain a s3 where
      c: "balloc 1 s2 = Ok (a, s3)" "a \<in> free_blocks (view s1) ?v" "txn s3 {i} (Suc k)" "fkeep s2 s3" "view s3 = allocated ?v a (view s1)"
      "b_blockno (bf s3 i) = a1" "b_data (bf s3 i) = view s1 a1" using b(6) by (auto simp: data_block_def numeral_3_eq_3)
    let ?d = "wr32 (view s1 a1) ?k a"
    have "length ?d = BSIZE" using fs_okD(7) [OF e1(1)] by simp
    from tx.wr_rel [OF c(3) _ this, of i] obtain s4 s5 where d: "log_write i (set_data i ?d s3) = Ok s4" "brelse i s4 = Ok s5" "txn s5 {} k" "fkeep s3 s5"
      "view s5 = (view s3)(a1 := ?d)" using c(6) by auto
    have i5: "inod s5 ip = inod s1 ip" using k2(2) fkeep_fs(2) [OF c(4)] fkeep_fs(2) [OF d(4)] by simp
    have v5: "view s5 = (allocated ?v a (view s1))(ind (inod s1 ip) := wr32 (view s1 (ind (inod s1 ip))) ?k a)" using d(5) c(5) r(5) by simp
    have "extends M ?v ?dz 1 (view s1) (inod s1 ip) (view s5) (inod s5 ip)" "fblk (view s5) (inod s5 ip) bn = a"
      using extends_indirect [OF e1(1,2) _ assms(4) _ True c(2)] ni(1) r(2,5) unfolding v5 i5 by auto
    note x = extends_trans [OF assms(3) r(6) this(1)] this(2)
    have "bmap ip bn s = Ok (a, s5)" using ni r(1) b(1,6) c(1,7) d(1,2) dv fb True by (simp add: bmap_def Let_def)
    moreover have "ikeep ip s s5" using ikeep_trans [OF r(4) fkeep_ikeep [OF fkeep_trans [OF b(3) fkeep_trans [OF c(4) d(4)]]]] .
    moreover have "a \<noteq> 0" using alloc_facts(2) [OF e1(1) c(2)] by (simp add: data_block_def)
    ultimately show ?thesis using x d(3) by (auto simp: numeral_2_eq_2)
  qed
qed

section \<open>The contents of a file\<close>

text \<open>Byte \<open>p\<close> of a file; a block it does not have reads as zeros.\<close>

definition content :: "(u32 \<Rightarrow> byte list) \<Rightarrow> inode \<Rightarrow> nat \<Rightarrow> byte" where
  "content V x p = (if fblk V x (p div BSIZE) = 0 then 0 else V (fblk V x (p div BSIZE)) ! (p mod BSIZE))"

definition owned :: "(u32 \<Rightarrow> byte list) \<Rightarrow> inode \<Rightarrow> u32 \<Rightarrow> bool" where
  "owned V x b \<longleftrightarrow> b = ind x \<or> (\<exists>bn < NBLOCKS. b = fblk V x bn)"

text \<open>A step on a file keeps its blocks, and every data block that is not its own.\<close>

definition fstep :: "u32 set \<Rightarrow> superblock \<Rightarrow> u32 \<Rightarrow> (u32 \<Rightarrow> byte list) \<Rightarrow> inode \<Rightarrow> (u32 \<Rightarrow> byte list) \<Rightarrow> inode \<Rightarrow> bool" where
  "fstep M v dz V x V' x' \<longleftrightarrow> fs_ok M V' v dz \<and> file_ok M V' v x' \<and> (\<exists>ad. x' = x\<lparr>i_addrs := ad\<rparr>) \<and>
     (\<forall>bn < NBLOCKS. fblk V x bn \<noteq> 0 \<longrightarrow> fblk V' x' bn = fblk V x bn) \<and>
     (\<forall>b. data_block M V v b \<longrightarrow> \<not> owned V x b \<longrightarrow> data_block M V' v b \<and> \<not> owned V' x' b \<and> V' b = V b)"

lemma fstepD:
  assumes "fstep M v dz V x V' x'"
  shows "fs_ok M V' v dz" "file_ok M V' v x'" "\<exists>ad. x' = x\<lparr>i_addrs := ad\<rparr>" "bn < NBLOCKS \<Longrightarrow> fblk V x bn \<noteq> 0 \<Longrightarrow> fblk V' x' bn = fblk V x bn"
    "data_block M V v b \<Longrightarrow> \<not> owned V x b \<Longrightarrow> data_block M V' v b \<and> \<not> owned V' x' b \<and> V' b = V b"
  using assms unfolding fstep_def by (blast, blast, blast, blast, blast)

lemma fstep_refl: "fs_ok M V v dz \<Longrightarrow> file_ok M V v x \<Longrightarrow> fstep M v dz V x V x"
  unfolding fstep_def by (auto intro: exI [of _ "i_addrs x"])

lemma fstep_trans:
  assumes "fstep M v dz V x V1 x1" "fstep M v dz V1 x1 V2 x2"
  shows "fstep M v dz V x V2 x2"
proof -
  note a = fstepD [OF assms(1)] and b = fstepD [OF assms(2)]
  have "fblk V2 x2 bn = fblk V x bn" if "bn < NBLOCKS" "fblk V x bn \<noteq> 0" for bn using a(4) [OF that] b(4) [of bn] that by simp
  moreover have "data_block M V2 v c \<and> \<not> owned V2 x2 c \<and> V2 c = V c" if "data_block M V v c" "\<not> owned V x c" for c using a(5) [OF that] b(5) [of c] by auto
  moreover have "\<exists>ad. x2 = x\<lparr>i_addrs := ad\<rparr>" using a(3) b(3) by auto
  ultimately show ?thesis unfolding fstep_def using b(1,2) by blast
qed

lemma extends_fstep:
  assumes "extends M v dz d V x V' x'"
  shows "fstep M v dz V x V' x'"
proof -
  note e = extendsD [OF assms]
  have "\<not> owned V' x' b" if d: "data_block M V v b" "\<not> owned V x b" for b
  proof
    assume o: "owned V' x' b"
    have nf: "b \<notin> free_blocks V v" "b \<noteq> 0" using free_not_data [of b V v M] d(1) by (auto simp: data_block_def)
    have "b \<noteq> ind x'" using e(9) d(2) nf by (auto simp: owned_def)
    then obtain bn where bn: "bn < NBLOCKS" "b = fblk V' x' bn" using o by (auto simp: owned_def)
    show False
    proof (cases "fblk V x bn = 0")
      case True
      then show False using e(5) [OF bn(1) True] bn(2) nf by simp
    next
      case False
      then show False using e(4) [OF bn(1) False] bn d(2) by (auto simp: owned_def)
    qed
  qed
  moreover have "V' b = V b" if "data_block M V v b" "\<not> owned V x b" for b using e(8) [of b] that by (auto simp: owned_def)
  ultimately show ?thesis unfolding fstep_def using e(1-4,7) by blast
qed

lemma extends_content:
  assumes "file_ok M V v x" "extends M v dz d V x V' x'" "p div BSIZE < NBLOCKS"
  shows "content V' x' p = content V x p"
proof (cases "fblk V x (p div BSIZE) = 0")
  case False
  note f = file_okD(4,5) [OF assms(1,3) False] and e = extendsD [OF assms(2)]
  show ?thesis using False e(4) [OF assms(3) False] e(8) [OF f] by (simp add: content_def)
next
  case True
  have "p mod BSIZE < BSIZE" by (simp add: BSIZE_def)
  then show ?thesis using True extendsD(6) [OF assms(2,3) True] by (auto simp: content_def)
qed

lemma splice_nth: "k + length xs \<le> length d \<Longrightarrow> i < length d \<Longrightarrow> splice d k xs ! i = (if k \<le> i \<and> i < k + length xs then xs ! (i - k) else d ! i)"
  by (auto simp: splice_def nth_append)

lemma splice_length: "k + length xs \<le> length d \<Longrightarrow> length (splice d k xs) = length d"
  by (simp add: splice_def)

text \<open>Writing into one block of the file.\<close>

lemma put_chunk:
  assumes "fs_ok M V v dz" "file_ok M V v x" "bn < NBLOCKS" "fblk V x bn \<noteq> 0" "k + length xs \<le> BSIZE" "V' = V(fblk V x bn := splice (V (fblk V x bn)) k xs)"
  shows "fstep M v dz V x V' x" "free_blocks V' v = free_blocks V v" "fblk V' x cn = fblk V x cn"
    "p div BSIZE < NBLOCKS \<Longrightarrow> content V' x p = (if bn * BSIZE + k \<le> p \<and> p < bn * BSIZE + k + length xs then xs ! (p - (bn * BSIZE + k)) else content V x p)"
proof -
  let ?a = "fblk V x bn"
  note f = file_okD [OF assms(2)]
  have d: "data_block M V v ?a" "?a \<noteq> ind x" using f(4,5) assms(3,4) by blast+
  have l: "length (V ?a) = BSIZE" using fs_okD(7) [OF assms(1)] .
  have z: "0 < sb_size v" using d(1) by (auto simp: data_block_def word_neq_0_conv [symmetric])
  have "length (splice (V ?a) k xs) = BSIZE" using splice_length [of k xs "V ?a"] l assms(5) by simp
  note u = fs_ok_upd [OF assms(1) _ this z, of ?a, folded assms(6)]
  have M: "?a \<notin> M" using d(1) by (simp add: data_block_def)
  have va: "V' ?a = splice (V ?a) k xs" and vo: "\<And>c. c \<noteq> ?a \<Longrightarrow> V' c = V c" unfolding assms(6) by simp_all
  show fb: "fblk V' x cn = fblk V x cn" for cn using vo [of "ind x"] d(2) by (simp add: fblk_def)
  show "free_blocks V' v = free_blocks V v" using u(2) M by blast
  have "file_ok M V' v x" using assms(2) u(3) M unfolding file_ok_def fb by simp
  moreover have "owned V' x b = owned V x b" "\<not> owned V x b \<Longrightarrow> V' b = V b" for b using assms(3) vo [of b] by (auto simp: owned_def fb)
  ultimately show "fstep M v dz V x V' x"
    unfolding fstep_def using u(1,3) M fb by (auto intro: exI [of _ "i_addrs x"])
  show "content V' x p = (if bn * BSIZE + k \<le> p \<and> p < bn * BSIZE + k + length xs then xs ! (p - (bn * BSIZE + k)) else content V x p)"
    if p: "p div BSIZE < NBLOCKS"
  proof (cases "p div BSIZE = bn")
    case True
    define q where "q = p mod BSIZE"
    have e: "p = bn * BSIZE + q" using True div_mult_mod_eq [of p BSIZE] by (simp add: q_def)
    have m: "p mod BSIZE < length (V ?a)" unfolding l by (simp add: BSIZE_def)
    have "(bn * BSIZE + k \<le> p \<and> p < bn * BSIZE + k + length xs) = (k \<le> q \<and> q < k + length xs)" "p - (bn * BSIZE + k) = q - k"
      using e by auto
    then show ?thesis using True assms(4,5) splice_nth [OF _ m, of k xs] l by (simp add: content_def fb va q_def)
  next
    case False
    have "\<not> (bn * BSIZE + k \<le> p \<and> p < bn * BSIZE + k + length xs)"
    proof
      assume "bn * BSIZE + k \<le> p \<and> p < bn * BSIZE + k + length xs"
      then have "bn * BSIZE \<le> p" "p < Suc bn * BSIZE" using assms(5) by auto
      then show False using False by (metis div_nat_eqI mult.commute)
    qed
    moreover have "fblk V x (p div BSIZE) \<noteq> ?a" using f(6) [OF assms(3) p assms(4)] False by auto
    ultimately show ?thesis using vo [of "fblk V x (p div BSIZE)"] if_not_P by (simp only: content_def fb) simp
  qed
qed

section \<open>Reading and writing files\<close>

declare readi_loop.simps [simp del] writei_loop.simps [simp del]

text \<open>The number of blocks that a range of bytes meets.\<close>

definition nch :: "nat \<Rightarrow> nat \<Rightarrow> nat" where
  "nch off n = (if n = 0 then 0 else (off + n - 1) div BSIZE - off div BSIZE + 1)"

definition chunk :: "nat \<Rightarrow> nat \<Rightarrow> nat" where
  "chunk off n = min n (BSIZE - off mod BSIZE)"

lemma chunk_facts:
  assumes "0 < n"
  shows "0 < chunk off n" "chunk off n \<le> n" "off mod BSIZE + chunk off n \<le> BSIZE"
  using assms mod_less_divisor [of BSIZE off] by (auto simp: chunk_def BSIZE_def)

lemma nch_step:
  assumes "0 < n"
  shows "nch off n = Suc (nch (off + chunk off n) (n - chunk off n))"
proof -
  define q r where "q = off div BSIZE" and "r = off mod BSIZE"
  have o: "off = q * BSIZE + r" "r < BSIZE" by (simp_all add: q_def r_def BSIZE_def)
  show ?thesis
  proof (cases "r + n \<le> BSIZE")
    case True
    then have "chunk off n = n" by (simp add: chunk_def r_def [symmetric])
    moreover have "(off + n - 1) div BSIZE = q"
      using True o assms by (intro div_nat_eqI) (auto simp: algebra_simps)
    ultimately show ?thesis using assms by (simp add: nch_def q_def)
  next
    case False
    then have c: "chunk off n = BSIZE - r" by (simp add: chunk_def r_def [symmetric])
    then have e: "off + chunk off n = Suc q * BSIZE" using o by simp
    have d: "(off + chunk off n) div BSIZE = Suc q" unfolding e by (simp add: BSIZE_def)
    have g: "Suc q \<le> (off + n - 1) div BSIZE"
      using False o by (subst less_eq_div_iff_mult_less_eq) (auto simp: BSIZE_def)
    have "off + chunk off n + (n - chunk off n) - 1 = off + n - 1" using False c o by simp
    then show ?thesis using assms False c d g o(2) by (simp add: nch_def q_def [symmetric])
  qed
qed

lemma writei_loop_ok:
  assumes "txn s {} (k + 6 * nch off (length src))" "fs_ok M (view s) (fs_sb s) (disksize s)" "file_ok M (view s) (fs_sb s) (inod s ip)" "ip < length (inodes s)"
    "off + length src \<le> NBLOCKS * BSIZE" "2 * nch off (length src) \<le> card (free_blocks (view s) (fs_sb s))"
  shows "\<exists>s'. writei_loop ip off src s = Ok s' \<and> txn s' {} k \<and> ikeep ip s s' \<and> fstep M (fs_sb s) (disksize s) (view s) (inod s ip) (view s') (inod s' ip) \<and>
    (\<forall>p. p div BSIZE < NBLOCKS \<longrightarrow> content (view s') (inod s' ip) p =
      (if off \<le> p \<and> p < off + length src then src ! (p - off) else content (view s) (inod s ip) p)) \<and>
    (\<forall>p. off \<le> p \<longrightarrow> p < off + length src \<longrightarrow> fblk (view s') (inod s' ip) (p div BSIZE) \<noteq> 0)"
  using assms
proof (induction "length src" arbitrary: off src s rule: less_induct)
  case less
  show ?case
  proof (cases "src = []")
    case True
    then show ?thesis using less(2) fstep_refl [OF less(3,4)] fkeep_ikeep [of s s] by (auto simp: writei_loop.simps nch_def)
  next
    case False
    define m bn v where "m = chunk off (length src)" and "bn = off div BSIZE" and "v = fs_sb s"
    have m: "0 < m" "m \<le> length src" "off mod BSIZE + m \<le> BSIZE" using chunk_facts [of "length src" off] False by (simp_all add: m_def)
    have n: "nch off (length src) = Suc (nch (off + m) (length (drop m src)))" using nch_step [of "length src" off] False by (simp add: m_def)
    have "0 < length src" using False by simp
    then have "off < NBLOCKS * BSIZE" using less(6) by linarith
    then have bn: "bn < NBLOCKS" unfolding bn_def by (rule less_mult_imp_div_less)
    obtain r0 where r0: "off = bn * BSIZE + r0" "off mod BSIZE = r0" using div_mult_mod_eq [of off BSIZE] unfolding bn_def by metis
    from bmap_ok [of s "k + 6 * nch (off + m) (length (drop m src)) + 1" M ip bn] less(2-5,7) bn n obtain a s1 where
      b: "bmap ip bn s = Ok (a, s1)" "a \<noteq> 0" "fblk (view s1) (inod s1 ip) bn = a" "txn s1 {} (Suc (k + 6 * nch (off + m) (length (drop m src))))" "ikeep ip s s1"
      "extends M v (disksize s) 2 (view s) (inod s ip) (view s1) (inod s1 ip)" by (auto simp: algebra_simps v_def)
    note e1 = extendsD [OF b(6)] and k1 = ikeepD [OF b(5)]
    have f0: "file_ok M (view s) v (inod s ip)" using less(4) by (simp add: v_def)
    have "data_block M (view s1) v a" using file_okD(4) [OF e1(2) bn] b(2,3) by simp
    then have "a < disksize s1" using fs_okD(8) [OF e1(1)] k1(2) by (simp add: data_block_def)
    from tx.poke [OF b(4) _ this] obtain i s2 where
      r: "bread 1 a s1 = Ok (i, s2)" "b_data (bf s2 i) = view s1 a" and
      w: "\<forall>d. length d = BSIZE \<longrightarrow> (\<exists>s3 s4. log_write i (set_data i d s2) = Ok s3 \<and> brelse i s3 = Ok s4 \<and> txn s4 {} (k + 6 * nch (off + m) (length (drop m src))) \<and>
        fkeep s1 s4 \<and> view s4 = (view s1)(a := d))" by auto
    let ?d = "splice (view s1 a) (off mod BSIZE) (take m src)"
    have l1: "length (view s1 a) = BSIZE" using fs_okD(7) [OF e1(1)] .
    then have "length ?d = BSIZE" using splice_length [of "off mod BSIZE" "take m src" "view s1 a"] m by simp
    with w obtain s3 s4 where c: "log_write i (set_data i ?d s2) = Ok s3" "brelse i s3 = Ok s4" "txn s4 {} (k + 6 * nch (off + m) (length (drop m src)))"
      "fkeep s1 s4" "view s4 = (view s1)(a := ?d)" by blast
    note k4 = fkeep_fs [OF c(4)]
    have i4: "inod s4 ip = inod s1 ip" using k4(2) by simp
    have pc: "fstep M v (disksize s) (view s1) (inod s1 ip) (view s4) (inod s1 ip)" "free_blocks (view s4) v = free_blocks (view s1) v"
      "\<And>cn. fblk (view s4) (inod s1 ip) cn = fblk (view s1) (inod s1 ip) cn"
      "\<And>p. p div BSIZE < NBLOCKS \<Longrightarrow> content (view s4) (inod s1 ip) p = (if off \<le> p \<and> p < off + m then take m src ! (p - off) else content (view s1) (inod s1 ip) p)"
      using put_chunk [OF e1(1,2) bn, of "off mod BSIZE" "take m src" "view s4"] b(2,3) c(5) m div_mult_mod_eq [of off BSIZE] by (simp_all add: bn_def)
    note st = fstep_trans [OF extends_fstep [OF b(6)] pc(1)]
    have sv: "fs_sb s4 = v" "disksize s4 = disksize s" using k4 k1 by (simp_all add: v_def)
    have "\<exists>s'. writei_loop ip (off + m) (drop m src) s4 = Ok s' \<and> txn s' {} k \<and> ikeep ip s4 s' \<and>
      fstep M (fs_sb s4) (disksize s4) (view s4) (inod s4 ip) (view s') (inod s' ip) \<and>
      (\<forall>p. p div BSIZE < NBLOCKS \<longrightarrow> content (view s') (inod s' ip) p =
        (if off + m \<le> p \<and> p < off + m + length (drop m src) then drop m src ! (p - (off + m)) else content (view s4) (inod s4 ip) p)) \<and>
      (\<forall>p. off + m \<le> p \<longrightarrow> p < off + m + length (drop m src) \<longrightarrow> fblk (view s') (inod s' ip) (p div BSIZE) \<noteq> 0)"
      by (rule less.hyps) (use m c(3) fstepD(1,2) [OF st] i4 sv k4(2) k1(3) less(5,6,7) n e1(11) pc(2) in \<open>simp_all add: v_def\<close>)
    then obtain s' where h: "writei_loop ip (off + m) (drop m src) s4 = Ok s'" "txn s' {} k" "ikeep ip s4 s'"
      "fstep M v (disksize s) (view s4) (inod s1 ip) (view s') (inod s' ip)"
      "\<And>p. p div BSIZE < NBLOCKS \<Longrightarrow> content (view s') (inod s' ip) p =
        (if off + m \<le> p \<and> p < off + length src then drop m src ! (p - (off + m)) else content (view s4) (inod s1 ip) p)"
      "\<And>p. off + m \<le> p \<Longrightarrow> p < off + length src \<Longrightarrow> fblk (view s') (inod s' ip) (p div BSIZE) \<noteq> 0"
      unfolding i4 sv using m by (auto simp: add.assoc)
    have "content (view s') (inod s' ip) p = (if off \<le> p \<and> p < off + length src then src ! (p - off) else content (view s) (inod s ip) p)" if "p div BSIZE < NBLOCKS" for p
      using h(5) [OF that] pc(4) [OF that] extends_content [OF f0 b(6) that] m by (auto simp: not_le)
    moreover have "fblk (view s') (inod s' ip) (p div BSIZE) \<noteq> 0" if "off \<le> p" "p < off + length src" for p
    proof (cases "off + m \<le> p")
      case False
      have "p div BSIZE = bn" by (rule div_nat_eqI) (use that(1) m(3) r0 False in \<open>auto simp: mult.commute\<close>)
      then show ?thesis using fstepD(4) [OF h(4) bn] pc(3) [of bn] b(2,3) by simp
    qed (use h(6) that in simp)
    moreover have "writei_loop ip off src s = Ok s'"
      using False b(1) r c(1,2) h(1) file_okD(1) [OF e1(2)] by (subst writei_loop.simps) (simp add: bn_def m_def chunk_def Let_def)
    moreover have "ikeep ip s s'" using ikeep_trans [OF ikeep_trans [OF b(5) fkeep_ikeep [OF c(4)]] h(3)] .
    ultimately show ?thesis using h(2) fstep_trans [OF st h(4)] by (intro exI [of _ s']) (simp add: v_def)
  qed
qed

lemma bmap_hit:
  assumes "txn s {} k" "fs_ok M (view s) (fs_sb s) (disksize s)" "file_ok M (view s) (fs_sb s) (inod s ip)" "bn < NBLOCKS" "fblk (view s) (inod s ip) bn \<noteq> 0"
  shows "\<exists>s'. bmap ip bn s = Ok (fblk (view s) (inod s ip) bn, s') \<and> txn s' {} k \<and> fkeep s s' \<and> view s' = view s"
proof (cases "bn < NDIRECT")
  case True
  then show ?thesis using assms(1,5) by (auto simp: bmap_def addr_of_def fblk_def)
next
  case False
  let ?x = "inod s ip"
  have i: "ind ?x \<noteq> 0" "fblk (view s) ?x bn = rd32 (view s (ind ?x)) (4 * (bn - NDIRECT))" using assms(5) False by (auto simp: fblk_def split: if_splits)
  then have "ind ?x < disksize s" using file_okD(3) [OF assms(3)] fs_okD(8) [OF assms(2)] by (simp add: data_block_def)
  from tx.peek [OF assms(1) _ this] obtain j s1 s2 where r: "bread 1 (ind ?x) s = Ok (j, s1)" "b_data (bf s1 j) = view s (ind ?x)" "fkeep s s1" "brelse j s1 = Ok s2"
    "txn s2 {} k" "fkeep s s2" "view s2 = view s" by auto
  have "addr_of ip NDIRECT s = Ok (ind ?x, s)" using i(1) by (simp add: addr_of_def ind_def)
  moreover have "bn - NDIRECT < NINDIRECT" using assms(4) by (simp add: dims)
  ultimately have "bmap ip bn s = Ok (fblk (view s) ?x bn, s2)"
    using False r(1,2,4) i(2) assms(5) file_okD(1) [OF assms(3)] by (simp add: bmap_def Let_def)
  then show ?thesis using r by blast
qed

lemma readi_loop_ok:
  assumes "txn s {} k" "fs_ok M (view s) (fs_sb s) (disksize s)" "file_ok M (view s) (fs_sb s) (inod s ip)" "off + n \<le> NBLOCKS * BSIZE"
    "\<And>p. off \<le> p \<Longrightarrow> p < off + n \<Longrightarrow> fblk (view s) (inod s ip) (p div BSIZE) \<noteq> 0"
  shows "\<exists>s'. readi_loop ip off n s = Ok (map (content (view s) (inod s ip)) [off..<off + n], s') \<and> txn s' {} k \<and> fkeep s s' \<and> view s' = view s"
  using assms
proof (induction n arbitrary: off s rule: less_induct)
  case (less n)
  show ?case
  proof (cases "n = 0")
    case True
    then show ?thesis using less(2) by (auto simp: readi_loop.simps)
  next
    case False
    define m bn where "m = chunk off n" and "bn = off div BSIZE"
    have m: "0 < m" "m \<le> n" "off mod BSIZE + m \<le> BSIZE" using chunk_facts [of n off] False by (simp_all add: m_def)
    have "off < NBLOCKS * BSIZE" using less(5) False by linarith
    then have bn: "bn < NBLOCKS" unfolding bn_def by (rule less_mult_imp_div_less)
    let ?a = "fblk (view s) (inod s ip) bn"
    have a: "?a \<noteq> 0" using less(6) [of off] False by (simp add: bn_def)
    from bmap_hit [OF less(2-4) bn a] obtain s1 where b: "bmap ip bn s = Ok (?a, s1)" "txn s1 {} k" "fkeep s s1" "view s1 = view s" by blast
    note k1 = fkeep_fs [OF b(3)]
    have "?a < disksize s1" using file_okD(4) [OF less(4) bn a] fs_okD(8) [OF less(3)] k1(3) by (simp add: data_block_def)
    from tx.peek [OF b(2) _ this] obtain j s2 s3 where r: "bread 1 ?a s1 = Ok (j, s2)" "b_data (bf s2 j) = view s ?a" "brelse j s2 = Ok s3" "txn s3 {} k" "fkeep s1 s3"
      "view s3 = view s" using b(4) by auto
    note k3 = fkeep_fs [OF r(5)]
    have i3: "inod s3 ip = inod s ip" "fs_sb s3 = fs_sb s" "disksize s3 = disksize s" using k1 k3 by simp_all
    have "\<exists>s'. readi_loop ip (off + m) (n - m) s3 = Ok (map (content (view s3) (inod s3 ip)) [off + m..<off + m + (n - m)], s') \<and> txn s' {} k \<and> fkeep s3 s' \<and> view s' = view s3"
      by (rule less.IH) (use m r(4,6) less(3-6) i3 in simp_all)
    then obtain s' where h: "readi_loop ip (off + m) (n - m) s3 = Ok (map (content (view s) (inod s ip)) [off + m..<off + n], s')" "txn s' {} k" "fkeep s3 s'" "view s' = view s"
      using r(6) i3(1) m(2) by auto
    have l: "length (view s ?a) = BSIZE" using fs_okD(7) [OF less(3)] .
    have "content (view s) (inod s ip) (off + t) = view s ?a ! (off mod BSIZE + t)" if t: "t < m" for t
    proof -
      have u: "off mod BSIZE + t < BSIZE" using t m(3) by simp
      have e: "off + t = bn * BSIZE + (off mod BSIZE + t)" using div_mult_mod_eq [of off BSIZE] unfolding bn_def by linarith
      have "(off + t) div BSIZE = bn" "(off + t) mod BSIZE = off mod BSIZE + t" unfolding e using u by simp_all
      then show ?thesis using a by (simp add: content_def)
    qed
    then have xs: "take m (drop (off mod BSIZE) (view s ?a)) = map (content (view s) (inod s ip)) [off..<off + m]"
      using m(3) l by (intro nth_equalityI) simp_all
    have "readi_loop ip off n s = Ok (take m (drop (off mod BSIZE) (view s ?a)) @ map (content (view s) (inod s ip)) [off + m..<off + n], s')"
      using False b(1) r(1-3) h(1) file_okD(1) [OF less(4)] k1(2) by (subst readi_loop.simps) (simp add: bn_def m_def chunk_def Let_def)
    also have "\<dots> = Ok (map (content (view s) (inod s ip)) [off..<off + n], s')"
      unfolding xs map_append [symmetric] using upt_add_eq_append [of off "off + m" "n - m"] m(2) by simp
    finally show ?thesis using h(2,4) fkeep_trans [OF fkeep_trans [OF b(3) r(5)] h(3)] by blast
  qed
qed

text \<open>A block of the inode table changes.\<close>

lemma table_upd:
  assumes "fs_ok M V v dz" "file_ok M V v x" "b \<in> M" "\<And>n. n < sb_size v \<Longrightarrow> BBLOCK n v \<noteq> b" "length d = BSIZE"
  shows "fs_ok M (V(b := d)) v dz" "file_ok M (V(b := d)) v x" "p div BSIZE < NBLOCKS \<Longrightarrow> content (V(b := d)) x p = content V x p"
    "fblk (V(b := d)) x bn = fblk V x bn"
proof -
  have u: "used (V(b := d)) v n = used V v n" if "n < sb_size v" for n using assms(4) [OF that] by (simp add: used_def)
  have z: "0 < sb_size v" using fs_okD(5) [OF assms(1,3)] by (metis word_not_simps(1) word_neq_0_conv)
  have um: "used (V(b := d)) v n" if "n \<in> M" for n using u [OF fs_okD(5) [OF assms(1) that]] fs_okD(6) [OF assms(1) that] by simp
  show "fs_ok M (V(b := d)) v dz" unfolding fs_ok_def using um u [OF z] fs_okD [OF assms(1)] assms(5) by auto
  have db: "data_block M (V(b := d)) v a = data_block M V v a" for a using u by (auto simp: data_block_def)
  have o: "data_block M V v a \<Longrightarrow> (V(b := d)) a = V a" for a using assms(3) by (auto simp: data_block_def)
  show fb: "fblk (V(b := d)) x bn = fblk V x bn" for bn using o file_okD(3) [OF assms(2)] by (auto simp: fblk_def)
  show "file_ok M (V(b := d)) v x" using assms(2) unfolding file_ok_def fb db .
  show "p div BSIZE < NBLOCKS \<Longrightarrow> content (V(b := d)) x p = content V x p" using o file_okD(4) [OF assms(2)] unfolding content_def fb by auto
qed

lemma put_dinode_length: "length (put_dinode d k x) = length d"
proof -
  have "length (fold (\<lambda>i d. wr32 d (f i) (g i)) is d) = length d" for f :: "nat \<Rightarrow> nat" and g "is" and d :: "byte list" by (induction "is" arbitrary: d) simp_all
  then show ?thesis by (simp add: put_dinode_def wr16_def)
qed

lemma iupdate_ok:
  assumes "txn s {} (Suc k)" "i_dev (inod s ip) = 1" "IBLOCK (i_inum (inod s ip)) (fs_sb s) < disksize s" "length (view s (IBLOCK (i_inum (inod s ip)) (fs_sb s))) = BSIZE"
  shows "\<exists>s' d. iupdate ip s = Ok s' \<and> length d = BSIZE \<and> txn s' {} k \<and> fkeep s s' \<and> view s' = (view s)(IBLOCK (i_inum (inod s ip)) (fs_sb s) := d)"
proof -
  let ?b = "IBLOCK (i_inum (inod s ip)) (fs_sb s)" and ?x = "inod s ip"
  let ?y = "\<lparr>d_type = i_type ?x, d_major = i_major ?x, d_minor = i_minor ?x, d_nlink = i_nlink ?x, d_size = i_size ?x, d_addrs = i_addrs ?x\<rparr>"
  let ?d = "put_dinode (view s ?b) (ioff (i_inum ?x)) ?y"
  from tx.poke [OF assms(1) _ assms(3)] obtain i s1 where r: "bread 1 ?b s = Ok (i, s1)" "b_data (bf s1 i) = view s ?b" "fkeep s s1" and
    w: "\<forall>d. length d = BSIZE \<longrightarrow> (\<exists>s2 s3. log_write i (set_data i d s1) = Ok s2 \<and> brelse i s2 = Ok s3 \<and> txn s3 {} k \<and> fkeep s s3 \<and> view s3 = (view s)(?b := d))" by auto
  have l: "length ?d = BSIZE" using put_dinode_length assms(4) by simp
  with w obtain s2 s3 where "log_write i (set_data i ?d s1) = Ok s2" "brelse i s2 = Ok s3" "txn s3 {} k" "fkeep s s3" "view s3 = (view s)(?b := ?d)" by blast
  then show ?thesis using r assms(2) l fkeep_fs(2) [OF r(3)] by (intro exI [of _ s3] exI [of _ ?d]) (simp add: iupdate_def Let_def)
qed

text \<open>
  A regular file whose inode is in the cache, on a well-formed file system: \<open>M\<close> are the blocks of the free map and of
  the inodes.
\<close>

definition file_ready :: "u32 set \<Rightarrow> nat \<Rightarrow> 'a fsst_scheme \<Rightarrow> bool" where
  "file_ready M ip s \<longleftrightarrow> ip < length (inodes s) \<and> i_type (inod s ip) \<noteq> T_DEV \<and> fs_ok M (view s) (fs_sb s) (disksize s) \<and>
     file_ok M (view s) (fs_sb s) (inod s ip) \<and> IBLOCK (i_inum (inod s ip)) (fs_sb s) \<in> M \<and>
     (\<forall>n < sb_size (fs_sb s). BBLOCK n (fs_sb s) \<noteq> IBLOCK (i_inum (inod s ip)) (fs_sb s))"

lemma writei_ok:
  assumes "file_ready M ip s" "txn s {} (k + 6 * nch (unat off) (length src) + 1)" "off \<le> i_size (inod s ip)" "src \<noteq> []"
    "unat off + length src \<le> NBLOCKS * BSIZE" "2 * nch (unat off) (length src) \<le> card (free_blocks (view s) (fs_sb s))"
  shows "\<exists>s'. writei dv ip src off (of_nat (length src)) s = Ok (int (length src), s') \<and> file_ready M ip s' \<and> txn s' {} k \<and> ikeep ip s s' \<and>
    i_size (inod s' ip) = max (i_size (inod s ip)) (off + of_nat (length src)) \<and>
    (\<forall>p < NBLOCKS * BSIZE. content (view s') (inod s' ip) p = (if unat off \<le> p \<and> p < unat off + length src then src ! (p - unat off) else content (view s) (inod s ip) p)) \<and>
    (\<forall>p. unat off \<le> p \<longrightarrow> p < unat off + length src \<longrightarrow> fblk (view s') (inod s' ip) (p div BSIZE) \<noteq> 0) \<and>
    (\<forall>b. data_block M (view s) (fs_sb s) b \<longrightarrow> \<not> owned (view s) (inod s ip) b \<longrightarrow> view s' b = view s b)"
proof -
  let ?n = "of_nat (length src) :: u32" and ?x = "inod s ip" and ?v = "fs_sb s" and ?dz = "disksize s"
  let ?b = "IBLOCK (i_inum ?x) ?v"
  have rd: "ip < length (inodes s)" "i_type ?x \<noteq> T_DEV" "fs_ok M (view s) ?v ?dz" "file_ok M (view s) ?v ?x" "?b \<in> M" "\<And>n. n < sb_size ?v \<Longrightarrow> BBLOCK n ?v \<noteq> ?b"
    using assms(1) unfolding file_ready_def by blast+
  have lim: "unat off + length src \<le> 71680" using assms(5) by (simp add: dims BSIZE_def)
  have un: "unat ?n = length src" using lim by (simp add: unat_of_nat take_bit_nat_eq_self)
  have uo: "unat (off + ?n) = unat off + length src" using lim un by (simp add: unat_word_ariths)
  have sn: "sint ?n = int (length src)" using lim by (simp add: signed_of_nat signed_take_bit_int_eq_self)
  have g: "\<not> i_size ?x < off" "\<not> off + ?n < off" "\<not> of_nat (MAXFILE * BSIZE) < off + ?n" "0 < ?n" "0 < length src"
    using assms(3,4) lim un uo by (simp_all add: word_less_nat_alt MAXFILE_def dims BSIZE_def not_less word_le_nat_alt)
  have "txn s {} (Suc k + 6 * nch (unat off) (length src))" using assms(2) by (simp add: algebra_simps)
  from writei_loop_ok [OF this rd(3,4,1) assms(5,6)] obtain s1 where w: "writei_loop ip (unat off) src s = Ok s1" "txn s1 {} (Suc k)" "ikeep ip s s1"
    "fstep M ?v ?dz (view s) ?x (view s1) (inod s1 ip)"
    "\<And>p. p div BSIZE < NBLOCKS \<Longrightarrow> content (view s1) (inod s1 ip) p = (if unat off \<le> p \<and> p < unat off + length src then src ! (p - unat off) else content (view s) ?x p)"
    "\<And>p. unat off \<le> p \<Longrightarrow> p < unat off + length src \<Longrightarrow> fblk (view s1) (inod s1 ip) (p div BSIZE) \<noteq> 0" by blast
  note f1 = fstepD [OF w(4)] and k1 = ikeepD [OF w(3)]
  have x1: "i_size (inod s1 ip) = i_size ?x" "i_type (inod s1 ip) = i_type ?x" "i_inum (inod s1 ip) = i_inum ?x" "i_dev (inod s1 ip) = 1"
    using f1(3) file_okD(1) [OF f1(2)] by auto
  have pd: "p div BSIZE < NBLOCKS" if "p < NBLOCKS * BSIZE" for p using that by (rule less_mult_imp_div_less)
  have wr: "writei dv ip src off ?n s = (if off + ?n > i_size ?x then bnd (iupdate ip (upd_inode ip (\<lambda>x. x\<lparr>i_size := off + ?n\<rparr>) s1)) (\<lambda>s. Ok (int (length src), s))
      else Ok (int (length src), s1))"
    using rd(2) g w(1) un x1(1) sn by (simp add: writei_def Let_def)
  show ?thesis
  proof (cases "off + ?n > i_size ?x")
    case False
    then have "file_ready M ip s1" unfolding file_ready_def using rd(1,2,5,6) x1 k1 f1(1,2) by auto
    then show ?thesis using False wr w(3,5,6) pd f1(5) txn_mono [OF w(2), of k] x1(1) by (intro exI [of _ s1]) (auto simp: max_def not_less)
  next
    case True
    define t where "t = upd_inode ip (\<lambda>x. x\<lparr>i_size := off + ?n\<rparr>) s1"
    have xt: "inod t ip = (inod s1 ip)\<lparr>i_size := off + ?n\<rparr>" "view t = view s1" "txn t {} (Suc k)" "fs_sb t = ?v" "disksize t = ?dz" "length (inodes t) = length (inodes s)"
      using rd(1) k1 w(2) by (simp_all add: t_def upd_inode_def)
    have fb: "fblk V (inod t ip) bn = fblk V (inod s1 ip) bn" "content V (inod t ip) p = content V (inod s1 ip) p" "file_ok M V ?v (inod t ip) = file_ok M V ?v (inod s1 ip)"
      for V bn p using xt(1) by (simp_all add: fblk_def ind_def content_def file_ok_def)
    have "ikeep ip s1 t" by (rule ikeepI [OF fkeep_refl, where ad = "i_addrs (inod s1 ip)" and sz = "off + ?n"]) (simp add: t_def upd_inode_def)
    note kt = ikeep_trans [OF w(3) this]
    have bt: "IBLOCK (i_inum (inod t ip)) (fs_sb t) = ?b" using xt x1 by simp
    have bl: "?b < ?dz" using fs_okD(5,8) [OF rd(3)] rd(5) by blast
    from iupdate_ok [OF xt(3), of ip] bt bl xt x1(4) fs_okD(7) [OF f1(1)] obtain s2 d where
      u: "iupdate ip t = Ok s2" "length d = BSIZE" "txn s2 {} k" "fkeep t s2" "view s2 = (view s1)(?b := d)" by auto
    note k2 = fkeep_fs [OF u(4)] and tu = table_upd [OF f1(1,2) rd(5,6) u(2)]
    have i2: "inod s2 ip = inod t ip" using k2(2) by simp
    have "file_ready M ip s2" unfolding file_ready_def using rd(1,2,5,6) x1 xt k2 tu(1,2) u(5) i2 fb(3) by auto
    moreover have "ikeep ip s s2" using ikeep_trans [OF kt fkeep_ikeep [OF u(4)]] .
    moreover have "view s2 b = view s b" if "data_block M (view s) ?v b" "\<not> owned (view s) ?x b" for b
      using f1(5) [OF that] that rd(5) u(5) by (auto simp: data_block_def)
    moreover have "i_size (inod s2 ip) = max (i_size ?x) (off + ?n)" using i2 xt(1) True by (simp add: max.absorb2 less_imp_le)
    moreover have "writei dv ip src off ?n s = Ok (int (length src), s2)" using True wr u(1) by (simp add: t_def)
    ultimately show ?thesis using u(3,5) w(5,6) pd tu(3,4) i2 fb(1,2) by (intro exI [of _ s2]) simp
  qed
qed

text \<open>
  C2: What is written to a file is read back. On a well-formed file system, in a transaction with room for it, \<open>writei\<close>
  of a range that lies in the first 140 blocks of a regular file and begins no later than its end writes all of it: the bytes of the file
  are then the ones written inside the range and the old ones outside, the size grows to the end of the range if it was smaller, no
  data block of another file changes, the file system stays well formed, and \<open>readi\<close> of the range returns exactly what was written.
\<close>

theorem writei_readi:
  fixes s :: "'a fsst_scheme"
  assumes "file_ready M ip s" "txn s {} (6 * nch (unat off) (length src) + 1)" "off \<le> i_size (inod s ip)" "src \<noteq> []"
    "unat off + length src \<le> NBLOCKS * BSIZE" "2 * nch (unat off) (length src) \<le> card (free_blocks (view s) (fs_sb s))"
  shows "\<exists>s'. writei dv ip src off (of_nat (length src)) s = Ok (int (length src), s') \<and> file_ready M ip s' \<and>
    i_size (inod s' ip) = max (i_size (inod s ip)) (off + of_nat (length src)) \<and>
    (\<forall>p < NBLOCKS * BSIZE. content (view s') (inod s' ip) p = (if unat off \<le> p \<and> p < unat off + length src then src ! (p - unat off) else content (view s) (inod s ip) p)) \<and>
    (\<forall>b. data_block M (view s) (fs_sb s) b \<longrightarrow> \<not> owned (view s) (inod s ip) b \<longrightarrow> view s' b = view s b) \<and>
    (\<exists>s''. readi dv ip off (of_nat (length src)) s' = Ok ((int (length src), src), s''))"
proof -
  let ?n = "of_nat (length src) :: u32"
  have t0: "txn s {} (0 + 6 * nch (unat off) (length src) + 1)" using assms(2) by simp
  from writei_ok [OF assms(1) t0 assms(3-6), of dv] obtain s' where w: "writei dv ip src off ?n s = Ok (int (length src), s')" "file_ready M ip s'" "txn s' {} 0"
    "i_size (inod s' ip) = max (i_size (inod s ip)) (off + ?n)"
    "\<forall>p < NBLOCKS * BSIZE. content (view s') (inod s' ip) p = (if unat off \<le> p \<and> p < unat off + length src then src ! (p - unat off) else content (view s) (inod s ip) p)"
    "\<And>p. unat off \<le> p \<Longrightarrow> p < unat off + length src \<Longrightarrow> fblk (view s') (inod s' ip) (p div BSIZE) \<noteq> 0"
    "\<forall>b. data_block M (view s) (fs_sb s) b \<longrightarrow> \<not> owned (view s) (inod s ip) b \<longrightarrow> view s' b = view s b" by auto
  have rd: "i_type (inod s' ip) \<noteq> T_DEV" "fs_ok M (view s') (fs_sb s') (disksize s')" "file_ok M (view s') (fs_sb s') (inod s' ip)" using w(2) by (auto simp: file_ready_def)
  have lim: "unat off + length src \<le> 71680" using assms(5) by (simp add: dims BSIZE_def)
  have un: "unat ?n = length src" using lim by (simp add: unat_of_nat take_bit_nat_eq_self)
  have uo: "unat (off + ?n) = unat off + length src" using lim un by (simp add: unat_word_ariths)
  have sn: "sint ?n = int (length src)" using lim by (simp add: signed_of_nat signed_take_bit_int_eq_self)
  have "off + ?n \<le> i_size (inod s' ip)" unfolding w(4) by simp
  moreover have "off \<le> off + ?n" using uo by (simp add: word_le_nat_alt)
  ultimately have le: "\<not> i_size (inod s' ip) < off" "\<not> off + ?n < off" "\<not> i_size (inod s' ip) < off + ?n" by auto
  from readi_loop_ok [OF w(3) rd(2,3) assms(5) w(6)] obtain s'' where r:
    "readi_loop ip (unat off) (length src) s' = Ok (map (content (view s') (inod s' ip)) [unat off..<unat off + length src], s'')" by blast
  have "map (content (view s') (inod s' ip)) [unat off..<unat off + length src] = src"
    using w(5) assms(5) by (intro nth_equalityI) simp_all
  then have "readi dv ip off ?n s' = Ok ((int (length src), src), s'')"
    using rd(1) le r un sn by (simp add: readi_def Let_def)
  with w show ?thesis by blast
qed

lemma logst_extend [simp]:
  "held (logst.extend r m) = held r" "ncli (logst.extend r m) = ncli r" "use_lock (logst.extend r m) = use_lock r"
  "freelist (logst.extend r m) = freelist r" "kend (logst.extend r m) = kend r" "mem (logst.extend r m) = mem r"
  "procs (logst.extend r m) = procs r" "cur (logst.extend r m) = cur r" "nextpid (logst.extend r m) = nextpid r"
  "initproc (logst.extend r m) = initproc r" "kpgdir (logst.extend r m) = kpgdir r" "cr3 (logst.extend r m) = cr3 r"
  "ts_esp0 (logst.extend r m) = ts_esp0 r" "queue (logst.extend r m) = queue r"
  "containers (logst.extend r m) = containers r" "sleeplocks (logst.extend r m) = sleeplocks r"
  "mutexes (logst.extend r m) = mutexes r" "pipes (logst.extend r m) = pipes r"
  "shm_infos (logst.extend r m) = shm_infos r" "kdata (logst.extend r m) = kdata r" "bufs (logst.extend r m) = bufs r"
  "memdisk (logst.extend r m) = memdisk r" "disksize (logst.extend r m) = disksize r"
  "dwrites (logst.extend r m) = dwrites r" "lg_start (logst.extend r m) = lg_start r"
  "lg_size (logst.extend r m) = lg_size r" "lg_outstanding (logst.extend r m) = lg_outstanding r"
  "lg_committing (logst.extend r m) = lg_committing r" "lg_dev (logst.extend r m) = lg_dev r"
  "lg_lh (logst.extend r m) = lg_lh r" "fs_sb (logst.extend r (fsst.fields v0 v1)) = v0"
  "inodes (logst.extend r (fsst.fields v0 v1)) = v1"
  by (simp_all add: logst.defs fsst.defs)


definition demo_sb :: superblock where
  "demo_sb = \<lparr>sb_size = 200, sb_nblocks = 72, sb_ninodes = 16, sb_nlog = 30, sb_logstart = 2, sb_inodestart = 33, sb_bmapstart = 45\<rparr>"

definition demo_map :: "u32 \<Rightarrow> byte list" where
  "demo_map n = (if n = 45 then replicate 16 (-1) @ replicate 496 0 else replicate BSIZE 0)"

definition demo_inode :: inode where
  "demo_inode = \<lparr>i_dev = 1, i_inum = 1, i_ref = 1, i_valid = True, i_type = T_FILE, i_major = 0, i_minor = 0, i_nlink = 1, i_size = 0, i_addrs = replicate 13 0\<rparr>"

definition demo_fs0 :: fsst where
  "demo_fs0 = logst.extend (bcache.extend (demo_raw\<lparr>memdisk := demo_map\<rparr>) (logst.fields 2 31 1 False 1 \<lparr>lh_n = 0, lh_block = replicate LOGSIZE 0\<rparr>))
     (fsst.fields demo_sb [demo_inode])"

definition demo_fs :: fsst where
  "demo_fs = binit demo_fs0"

lemma demo_fs_facts:
  "bc_inv demo_fs {}" "view demo_fs = demo_map" "pending demo_fs = {}" "disksize demo_fs = 4000" "lg_size demo_fs = 31" "lg_outstanding demo_fs = 1"
  "lg_lh demo_fs = \<lparr>lh_n = 0, lh_block = replicate LOGSIZE 0\<rparr>" "fs_sb demo_fs = demo_sb" "inodes demo_fs = [demo_inode]"
proof -
  have f: "length (bufs demo_fs0) = Suc NBUF" "held demo_fs0 = []" "cur demo_fs0 \<noteq> None" "\<And>n. length (memdisk demo_fs0 n) = BSIZE"
    "\<And>i. i < NBUF \<Longrightarrow> length (b_data (bf demo_fs0 i)) = BSIZE \<and> b_dev (bf demo_fs0 i) = 0 \<and> \<not> b_dirty (bf demo_fs0 i) \<and> b_refcnt (bf demo_fs0 i) = 0"
    "memdisk demo_fs0 = demo_map"
    by (simp_all add: demo_fs0_def demo_raw_def demo_vm_proc empty_buf_def demo_map_def BSIZE_def del: replicate_Suc)
  note b = binit_inv [OF f(1-5)]
  show "bc_inv demo_fs {}" "view demo_fs = demo_map" "pending demo_fs = {}" using b(1-3) f(6) by (simp_all add: demo_fs_def)
  obtain bs sl where e: "demo_fs = demo_fs0\<lparr>bufs := bs, sleeplocks := sl\<rparr>" using b(4) unfolding demo_fs_def by blast
  show "disksize demo_fs = 4000" "lg_size demo_fs = 31" "lg_outstanding demo_fs = 1"
    "lg_lh demo_fs = \<lparr>lh_n = 0, lh_block = replicate LOGSIZE 0\<rparr>" "fs_sb demo_fs = demo_sb" "inodes demo_fs = [demo_inode]"
    unfolding e by (simp_all add: demo_fs0_def demo_raw_def)
qed

lemma demo_used:
  assumes "n < 200"
  shows "BBLOCK n demo_sb = 45" "used demo_map demo_sb n \<longleftrightarrow> n < 128"
proof -
  have u: "unat n < 200" using assms by (simp add: word_less_nat_alt)
  show b: "BBLOCK n demo_sb = 45" using u by (simp add: BBLOCK_unat BPB_eq demo_sb_def)
  have "unat n div 8 < 25" using u by simp
  then have "(replicate 16 (-1) @ replicate 496 0 :: byte list) ! (unat n div 8) = (if unat n div 8 < 16 then -1 else 0)" by (simp add: nth_append)
  then show "used demo_map demo_sb n \<longleftrightarrow> n < 128"
    using u by (auto simp: used_def b bit_used_alt demo_map_def BPB_eq word_less_nat_alt)
qed

lemma demo_ready: "file_ready {33, 45} 0 demo_fs" "txn demo_fs {} 7" "2 \<le> card (free_blocks demo_map demo_sb)"
proof -
  note f = demo_fs_facts
  have ib: "IBLOCK 1 demo_sb = 33" by (simp add: IBLOCK_def IPB_def BSIZE_def demo_sb_def word_div_def)
  have sz: "sb_size demo_sb = 200" by (simp add: demo_sb_def)
  have "fs_ok {33, 45} demo_map demo_sb 4000"
    using demo_used unfolding fs_ok_def sz by (auto simp: demo_map_def BSIZE_def)
  moreover have "file_ok {33, 45} demo_map demo_sb demo_inode"
    by (auto simp: file_ok_def demo_inode_def fblk_def ind_def dims)
  ultimately show "file_ready {33, 45} 0 demo_fs"
    using demo_used(1) f ib sz by (auto simp: file_ready_def demo_inode_def T_FILE_def T_DEV_def)
  show "txn demo_fs {} 7" by (rule txnI [where n = 0]) (use f in \<open>simp_all add: LOGSIZE_def NBUF_def\<close>)
  have "{150, 151} \<subseteq> free_blocks demo_map demo_sb" using demo_used(2) sz by (simp add: free_blocks_def)
  moreover have "finite (free_blocks demo_map demo_sb)" by simp
  ultimately show "2 \<le> card (free_blocks demo_map demo_sb)" using card_mono [of "free_blocks demo_map demo_sb" "{150, 151}"] by simp
qed

definition no_dev :: "nat \<Rightarrow> fsst devsw" where
  "no_dev k = \<lparr>dv_read = None, dv_write = None\<rparr>"

theorem writei_readi_witness:
  "\<exists>s'. writei no_dev 0 [7] 0 1 demo_fs = Ok (1, s') \<and> i_size (inod s' 0) = 1 \<and> (\<exists>s''. readi no_dev 0 0 1 s' = Ok ((1, [7]), s''))"
  using writei_readi [OF demo_ready(1), of 0 "[7]" no_dev] demo_ready(2,3) demo_fs_facts by (auto simp: nch_def demo_inode_def dims BSIZE_def)

text \<open>
  A file cannot grow past its 140 blocks, but \<open>writei\<close> lets it try: its limit is twice what \<open>bmap\<close> maps, so a write that
  starts at the end of a file of 140 blocks or more passes every check and panics in \<open>bmap\<close>, whatever the state of the file system.
\<close>

theorem writei_past_blocks_panics:
  fixes s :: "'a fsst_scheme"
  assumes "i_type (inod s ip) \<noteq> T_DEV" "off \<le> i_size (inod s ip)" "NBLOCKS * BSIZE \<le> unat off" "src \<noteq> []" "unat off + length src \<le> MAXFILE * BSIZE"
  shows "writei dv ip src off (of_nat (length src)) s = panic ''bmap: out of range''"
proof -
  let ?n = "of_nat (length src) :: u32"
  have lim: "unat off + length src \<le> 143360" using assms(5) by (simp add: MAXFILE_def dims BSIZE_def)
  have un: "unat ?n = length src" using lim by (simp add: unat_of_nat take_bit_nat_eq_self)
  have uo: "unat (off + ?n) = unat off + length src" using lim un by (simp add: unat_word_ariths)
  have g: "\<not> i_size (inod s ip) < off" "\<not> off + ?n < off" "\<not> of_nat (MAXFILE * BSIZE) < off + ?n"
    using assms(2) lim uo by (simp_all add: word_less_nat_alt MAXFILE_def dims BSIZE_def not_less word_le_nat_alt)
  have "NBLOCKS \<le> unat off div BSIZE" using assms(3) by (simp add: less_eq_div_iff_mult_less_eq BSIZE_def)
  then have "\<not> unat off div BSIZE < NDIRECT" "\<not> unat off div BSIZE - NDIRECT < NINDIRECT" by (auto simp: dims)
  then have "bmap ip (unat off div BSIZE) s = panic ''bmap: out of range''" by (simp add: bmap_def)
  then have "writei_loop ip (unat off) src s = panic ''bmap: out of range''" using assms(4) by (subst writei_loop.simps) simp
  then show ?thesis using assms(1) g un by (simp add: writei_def Let_def)
qed

theorem writei_past_blocks_panics_witness:
  "writei no_dev 0 [7] 71680 1 (demo_fs\<lparr>inodes := [demo_inode\<lparr>i_size := 71680\<rparr>]\<rparr>) = panic ''bmap: out of range''"
  using writei_past_blocks_panics [of "demo_fs\<lparr>inodes := [demo_inode\<lparr>i_size := 71680\<rparr>]\<rparr>" 0 71680 "[7]" no_dev]
  by (simp add: demo_inode_def T_FILE_def T_DEV_def dims MAXFILE_def BSIZE_def)

section \<open>Walking a path\<close>

text \<open>The names \<open>namex\<close> meets on a path: \<open>skipelem\<close> applied until it returns null, with as many steps as \<open>n\<close>.\<close>

fun walk_path :: "nat \<Rightarrow> string \<Rightarrow> string \<Rightarrow> string list res" where
  "walk_path 0 path name = Inl Diverge"
| "walk_path (Suc n) path name =
     bnd (skipelem path name) (\<lambda>r. case r of None \<Rightarrow> Ok [] | Some (p, nm) \<Rightarrow> bnd (walk_path n p nm) (\<lambda>es. Ok (nm # es)))"

text \<open>The elements of a path.\<close>

definition path_elems :: "string \<Rightarrow> string list" where
  "path_elems p = tokens slash (cstr p)"

lemma skip_slashes_eq: "term_buf p \<Longrightarrow> skip_slashes p = Ok (dropWhile slash p)"
  by (induction p) (auto simp: term_buf_def)

lemma path_elem_eq: "term_buf p \<Longrightarrow> path_elem p = Ok (takeWhile (\<lambda>c. \<not> slash c \<and> c \<noteq> NUL) p, dropWhile (\<lambda>c. \<not> slash c \<and> c \<noteq> NUL) p)"
  by (induction p) (auto simp: term_buf_def)

lemma term_drop: "term_buf p \<Longrightarrow> (\<And>c. d c \<Longrightarrow> c \<noteq> NUL) \<Longrightarrow> term_buf (dropWhile d p)"
  by (induction p) (auto simp: term_buf_def)

lemma cstr_slashes: "cstr (dropWhile slash p) = dropWhile slash (cstr p)"
  by (induction p) (auto simp: cstr_def)

lemma cstr_elem:
  "takeWhile (\<lambda>c. \<not> slash c \<and> c \<noteq> NUL) p = takeWhile (\<lambda>c. \<not> slash c) (cstr p)"
  "cstr (dropWhile (\<lambda>c. \<not> slash c \<and> c \<noteq> NUL) p) = dropWhile (\<lambda>c. \<not> slash c) (cstr p)"
  by (induction p) (auto simp: cstr_def)

lemma tokens_case:
  "tokens d xs = (case dropWhile d xs of [] \<Rightarrow> []
     | y # ys \<Rightarrow> takeWhile (\<lambda>c. \<not> d c) (dropWhile d xs) # tokens d (dropWhile (\<lambda>c. \<not> d c) (dropWhile d xs)))"
proof (cases "dropWhile d xs")
  case (Cons y ys)
  then show ?thesis by (subst tokens.simps) (simp only: Cons list.case)
qed (subst tokens.simps, simp only: list.case)

lemma tokens_drop: "tokens slash (dropWhile slash xs) = tokens slash xs"
  by (simp only: tokens.simps [of slash "dropWhile slash xs"] tokens.simps [of slash xs] dropWhile_idem)

lemma skipelem_eq:
  assumes "term_buf path"
  shows "path_elems path = [] \<Longrightarrow> skipelem path name = Ok None"
    "path_elems path = e # es \<Longrightarrow> \<exists>p nm. skipelem path name = Ok (Some (p, nm)) \<and> term_buf p \<and> path_elems p = es \<and> cstr nm = take DIRSIZ e"
proof -
  define q where "q = dropWhile slash path"
  have q2: "term_buf q" unfolding q_def by (rule term_drop [OF assms]) simp
  then have q4: "q \<noteq> []" by (cases q) (simp_all add: term_buf_def)
  have q: "skip_slashes path = Ok q" "term_buf q" "cstr q = dropWhile slash (cstr path)" "q \<noteq> []"
    using skip_slashes_eq [OF assms] cstr_slashes [of path] q2 q4 by (simp_all only: q_def not_False_eq_True)
  have h: "hd q = NUL \<longleftrightarrow> cstr q = []" using q(4) by (cases q) (auto simp: cstr_def)
  have tk: "path_elems path = (case cstr q of [] \<Rightarrow> [] | y # ys \<Rightarrow> takeWhile (\<lambda>c. \<not> slash c) (cstr q) # tokens slash (dropWhile (\<lambda>c. \<not> slash c) (cstr q)))"
    unfolding path_elems_def q(3) by (rule tokens_case)
  show "skipelem path name = Ok None" if "path_elems path = []"
  proof -
    have "cstr q = []" using that tk by (cases "cstr q") simp_all
    then show ?thesis using q(1) h by (simp add: skipelem_def)
  qed
  show "\<exists>p nm. skipelem path name = Ok (Some (p, nm)) \<and> term_buf p \<and> path_elems p = es \<and> cstr nm = take DIRSIZ e" if a: "path_elems path = e # es"
  proof -
    have ne: "cstr q \<noteq> []" using a tk by auto
    then have e: "e = takeWhile (\<lambda>c. \<not> slash c) (cstr q)" "es = tokens slash (dropWhile (\<lambda>c. \<not> slash c) (cstr q))" using a tk by (cases "cstr q"; simp)+
    let ?r = "dropWhile (\<lambda>c. \<not> slash c \<and> c \<noteq> NUL) q"
    have r: "path_elem q = Ok (e, ?r)" "term_buf ?r" using path_elem_eq [OF q(2)] cstr_elem(1) [of q] e(1) term_drop [OF q(2), of "\<lambda>c. \<not> slash c \<and> c \<noteq> NUL"] by auto
    let ?nm = "if length e \<ge> DIRSIZ then take DIRSIZ e else e @ NUL # drop (length e + 1) name"
    have "NUL \<notin> set e" using cstr_no_nul [of q] set_takeWhileD [of _ "\<lambda>c. \<not> slash c" "cstr q"] unfolding e(1) by blast
    then have "cstr ?nm = take DIRSIZ e" using cstr_append_nul [of e] by (auto simp: cstr_def takeWhile_eq_all_conv dest: in_set_takeD)
    moreover have "skipelem path name = Ok (Some (dropWhile slash ?r, ?nm))" using q(1) h ne r skip_slashes_eq [OF r(2)] by (simp add: skipelem_def)
    moreover have "path_elems (dropWhile slash ?r) = es" unfolding path_elems_def cstr_slashes tokens_drop cstr_elem(2) e(2) ..
    ultimately show ?thesis using term_drop [OF r(2), of slash] by auto
  qed
qed



end
