(* ===== verification/File.thy ===== *)
theory File
  imports Filedata
begin

text \<open>
  The table of open files (\<^verbatim>\<open>file.c\<close>) and the creation of pipes (\<open>pipealloc\<close> of \<^verbatim>\<open>pipe.c\<close>). A file pointer is an index into
  \<open>ftable\<close>, a null pointer is \<open>None\<close>. What \<open>fileread\<close> stores through its pointer is part of its result. A read or
  write of a pipe that has to wait is \<open>Asleep\<close>; the pipe operations themselves are modelled past that point in \<open>Pipe\<close>. Counts are not
  negative, which \<open>argptr\<close> checks.

  Shown: every open pipe end is what its type says, a pipe exists exactly as long as one of its ends is open, and the pages of pipes never
  belong to the free list.
\<close>

definition NFILE :: nat where "NFILE = 100"

datatype ftype = FD_NONE | FD_PIPE | FD_INODE

record filest =
  f_type :: ftype
  f_ref :: int
  f_readable :: bool
  f_writable :: bool
  f_pipe :: u32
  f_ip :: nat
  f_off :: u32

record ftab = fsst +
  ftable :: "filest list"

abbreviation fil :: "'a ftab_scheme \<Rightarrow> nat \<Rightarrow> filest" where
  "fil s f \<equiv> ftable s ! f"

definition upd_file :: "nat \<Rightarrow> (filest \<Rightarrow> filest) \<Rightarrow> 'a ftab_scheme \<Rightarrow> 'a ftab_scheme" where
  "upd_file f g s = s\<lparr>ftable := (ftable s)[f := g (fil s f)]\<rparr>"

definition filealloc :: "'a ftab_scheme \<Rightarrow> (nat option \<times> 'a ftab_scheme) res" where
  "filealloc s =
     bnd (lock L_ftable s) (\<lambda>s.
     case first_idx (\<lambda>f. f_ref f = 0) (ftable s) of
       Some f \<Rightarrow> bnd (unlock L_ftable (upd_file f (\<lambda>x. x\<lparr>f_ref := 1\<rparr>) s)) (\<lambda>s. Ok (Some f, s))
     | None \<Rightarrow> bnd (unlock L_ftable s) (\<lambda>s. Ok (None, s)))"

definition filedup :: "nat \<Rightarrow> 'a ftab_scheme \<Rightarrow> (nat \<times> 'a ftab_scheme) res" where
  "filedup f s =
     bnd (lock L_ftable s) (\<lambda>s.
     if f_ref (fil s f) < 1 then panic ''filedup''
     else bnd (unlock L_ftable (upd_file f (\<lambda>x. x\<lparr>f_ref := f_ref x + 1\<rparr>) s)) (\<lambda>s. Ok (f, s)))"

definition fileclose :: "nat \<Rightarrow> 'a ftab_scheme \<Rightarrow> 'a ftab_scheme res" where
  "fileclose f s =
     bnd (lock L_ftable s) (\<lambda>s.
     if f_ref (fil s f) < 1 then panic ''fileclose''
     else
       let s = upd_file f (\<lambda>x. x\<lparr>f_ref := f_ref x - 1\<rparr>) s in
       if f_ref (fil s f) > 0 then unlock L_ftable s
       else
         let ff = fil s f in
         bnd (unlock L_ftable (upd_file f (\<lambda>x. x\<lparr>f_ref := 0, f_type := FD_NONE\<rparr>) s)) (\<lambda>s.
         case f_type ff of
           FD_PIPE \<Rightarrow> pipeclose (f_pipe ff) (f_writable ff) s
         | FD_INODE \<Rightarrow> bnd (begin_op s) (\<lambda>s. bnd (iput (f_ip ff) s) end_op)
         | FD_NONE \<Rightarrow> Ok s))"

definition filestat :: "nat \<Rightarrow> 'a ftab_scheme \<Rightarrow> (stat option \<times> 'a ftab_scheme) res" where
  "filestat f s =
     (if f_type (fil s f) = FD_INODE then
        bnd (ilock (f_ip (fil s f)) s) (\<lambda>s.
        let st = stati (f_ip (fil s f)) s in
        bnd (iunlock (f_ip (fil s f)) s) (\<lambda>s. Ok (Some st, s)))
      else Ok (None, s))"

definition fileread :: "(nat \<Rightarrow> 'a ftab_scheme devsw) \<Rightarrow> nat \<Rightarrow> nat \<Rightarrow> 'a ftab_scheme \<Rightarrow> ((int \<times> byte list) \<times> 'a ftab_scheme) res" where
  "fileread dv f n s =
     (if \<not> f_readable (fil s f) then Ok ((-1, []), s)
      else case f_type (fil s f) of
        FD_PIPE \<Rightarrow> bnd (piperead (f_pipe (fil s f)) n s) (\<lambda>(r, bs, s). case r of Ret i \<Rightarrow> Ok ((i, bs), s) | Sleeps _ \<Rightarrow> Inl Asleep)
      | FD_INODE \<Rightarrow>
          bnd (ilock (f_ip (fil s f)) s) (\<lambda>s.
          bnd (readi dv (f_ip (fil s f)) (f_off (fil s f)) (of_nat n) s) (\<lambda>((r, bs), s).
          let s = (if r > 0 then upd_file f (\<lambda>x. x\<lparr>f_off := f_off x + word_of_int r\<rparr>) s else s) in
          bnd (iunlock (f_ip (fil s f)) s) (\<lambda>s. Ok ((r, bs), s))))
      | FD_NONE \<Rightarrow> panic ''fileread'')"

definition max_write :: nat where
  "max_write = ((LOGSIZE - 1 - 1 - 2) div 2) * 512"

function filewrite_loop :: "(nat \<Rightarrow> 'a ftab_scheme devsw) \<Rightarrow> nat \<Rightarrow> byte list \<Rightarrow> 'a ftab_scheme \<Rightarrow> (bool \<times> 'a ftab_scheme) res" where
  "filewrite_loop dv f addr s =
     (if addr = [] then Ok (True, s)
      else
        let n1 = min (length addr) max_write in
        bnd (begin_op s) (\<lambda>s.
        bnd (ilock (f_ip (fil s f)) s) (\<lambda>s.
        bnd (writei dv (f_ip (fil s f)) addr (f_off (fil s f)) (of_nat n1) s) (\<lambda>(r, s).
        let s = (if r > 0 then upd_file f (\<lambda>x. x\<lparr>f_off := f_off x + word_of_int r\<rparr>) s else s) in
        bnd (iunlock (f_ip (fil s f)) s) (\<lambda>s.
        bnd (end_op s) (\<lambda>s.
        if r < 0 then Ok (False, s)
        else if r \<noteq> int n1 then panic ''short filewrite''
        else filewrite_loop dv f (drop n1 addr) s))))))"
  by pat_completeness auto
termination
  by (relation "measure (\<lambda>(dv, f, addr, s). length addr)") (auto simp: max_write_def LOGSIZE_def)

definition filewrite :: "(nat \<Rightarrow> 'a ftab_scheme devsw) \<Rightarrow> nat \<Rightarrow> byte list \<Rightarrow> 'a ftab_scheme \<Rightarrow> (int \<times> 'a ftab_scheme) res" where
  "filewrite dv f addr s =
     (if \<not> f_writable (fil s f) then Ok (-1, s)
      else case f_type (fil s f) of
        FD_PIPE \<Rightarrow> bnd (pipewrite (f_pipe (fil s f)) addr s) (\<lambda>(r, bs, s). case r of Ret i \<Rightarrow> Ok (i, s) | Sleeps _ \<Rightarrow> Inl Asleep)
      | FD_INODE \<Rightarrow> bnd (filewrite_loop dv f addr s) (\<lambda>(d, s). Ok (if d then int (length addr) else -1, s))
      | FD_NONE \<Rightarrow> panic ''filewrite'')"

text \<open>The bytes of a new pipe are what the page holds behind the spin lock of the structure, which is 52 bytes long.\<close>

definition new_pipe :: "u32 \<Rightarrow> 'a ftab_scheme \<Rightarrow> pipe" where
  "new_pipe p s = \<lparr>pp_data = map (\<lambda>i. mem s (p + 52 + of_nat i)) [0..<PIPESIZE], pp_nread = 0, pp_nwrite = 0, pp_readopen = True, pp_writeopen = True\<rparr>"

definition close_opt :: "nat option \<Rightarrow> 'a ftab_scheme \<Rightarrow> 'a ftab_scheme res" where
  "close_opt f s = (case f of None \<Rightarrow> Ok s | Some f \<Rightarrow> fileclose f s)"

definition pipealloc :: "'a ftab_scheme \<Rightarrow> ((nat \<times> nat) option \<times> 'a ftab_scheme) res" where
  "pipealloc s =
     (let bad = (\<lambda>p f0 f1 s.
        bnd (if p \<noteq> 0 then kfree p s else Ok s) (\<lambda>s.
        bnd (close_opt f0 s) (\<lambda>s.
        bnd (close_opt f1 s) (\<lambda>s. Ok (None, s))))) in
      bnd (filealloc s) (\<lambda>(f0, s).
      case f0 of None \<Rightarrow> bad 0 None None s | Some r \<Rightarrow>
        bnd (filealloc s) (\<lambda>(f1, s).
        case f1 of None \<Rightarrow> bad 0 (Some r) None s | Some w \<Rightarrow>
          bnd (kalloc s) (\<lambda>(p, s).
          if p = 0 then bad 0 (Some r) (Some w) s
          else
            let s = put_pipe p (new_pipe p s) s;
                s = upd_file r (\<lambda>x. x\<lparr>f_type := FD_PIPE, f_readable := True, f_writable := False, f_pipe := p\<rparr>) s;
                s = upd_file w (\<lambda>x. x\<lparr>f_type := FD_PIPE, f_readable := False, f_writable := True, f_pipe := p\<rparr>) s
            in Ok (Some (r, w), s)))))"

subsection \<open>What the operations compute\<close>

lemma upd_file_simps [simp]:
  "held (upd_file f g s) = held s" "ncli (upd_file f g s) = ncli s" "pipes (upd_file f g s) = pipes s" "procs (upd_file f g s) = procs s"
  "ftable (upd_file f g s) = (ftable s)[f := g (fil s f)]" "freelist (upd_file f g s) = freelist s" "mem (upd_file f g s) = mem s" "kend (upd_file f g s) = kend s"
  by (simp_all add: upd_file_def)

lemma held_nil: "held s = [] \<Longrightarrow> s\<lparr>held := []\<rparr> = s"
  by (cases s) simp

lemma filealloc_eval:
  assumes "held s = []"
  shows "filealloc s = (case first_idx (\<lambda>f. f_ref f = 0) (ftable s) of None \<Rightarrow> Ok (None, s) | Some f \<Rightarrow> Ok (Some f, upd_file f (\<lambda>x. x\<lparr>f_ref := 1\<rparr>) s))"
  using assms by (auto simp: filealloc_def upd_file_def split: option.split)

lemma filedup_eval:
  assumes "held s = []" "1 \<le> f_ref (fil s f)"
  shows "filedup f s = Ok (f, upd_file f (\<lambda>x. x\<lparr>f_ref := f_ref x + 1\<rparr>) s)"
  using assms by (simp add: filedup_def upd_file_def)

definition dropped :: "nat \<Rightarrow> 'a ftab_scheme \<Rightarrow> 'a ftab_scheme" where
  "dropped f s = upd_file f (\<lambda>x. x\<lparr>f_ref := 0, f_type := FD_NONE\<rparr>) s"

lemma fileclose_eval:
  assumes "held s = []" "f < length (ftable s)" "1 \<le> f_ref (fil s f)"
  shows "fileclose f s =
    (if f_ref (fil s f) > 1 then Ok (upd_file f (\<lambda>x. x\<lparr>f_ref := f_ref x - 1\<rparr>) s)
     else case f_type (fil s f) of
       FD_PIPE \<Rightarrow> pipeclose (f_pipe (fil s f)) (f_writable (fil s f)) (dropped f s)
     | FD_INODE \<Rightarrow> bnd (begin_op (dropped f s)) (\<lambda>s'. bnd (iput (f_ip (fil s f)) s') end_op)
     | FD_NONE \<Rightarrow> Ok (dropped f s))"
  using assms by (auto simp: fileclose_def upd_file_def dropped_def Let_def held_nil split: ftype.split)

definition shut :: "bool \<Rightarrow> pipe \<Rightarrow> pipe" where
  "shut w x = (if w then x\<lparr>pp_writeopen := False\<rparr> else x\<lparr>pp_readopen := False\<rparr>)"

lemma shut_ends: "pp_readopen (shut w x) \<longleftrightarrow> pp_readopen x \<and> w" "pp_writeopen (shut w x) \<longleftrightarrow> pp_writeopen x \<and> \<not> w"
  by (simp_all add: shut_def)

lemma pipeclose_eval:
  assumes "held s = []" "pipes s p = Some x"
  shows "\<exists>ps. pipeclose p w s =
    (if pp_readopen (shut w x) \<or> pp_writeopen (shut w x) then Ok (put_pipe p (shut w x) (s\<lparr>procs := ps\<rparr>)) else kfree p (s\<lparr>procs := ps, pipes := (pipes s)(p := None)\<rparr>))"
  using assms by (intro exI [of _ "procs (wakeup1 (if w then Ch_r p else Ch_w p) s)"])
    (auto simp: pipeclose_def get_pipe_def wakeup_eval shut_def wakeup1_def held_nil)

subsection \<open>Typing of the table\<close>

definition pipe_end :: "'a ftab_scheme \<Rightarrow> u32 \<Rightarrow> bool \<Rightarrow> nat \<Rightarrow> bool" where
  "pipe_end s p w f \<longleftrightarrow> f < length (ftable s) \<and> f_ref (fil s f) > 0 \<and> f_type (fil s f) = FD_PIPE \<and> f_pipe (fil s f) = p \<and> f_writable (fil s f) = w"

definition entry_ok :: "filest \<Rightarrow> bool" where
  "entry_ok x \<longleftrightarrow> f_ref x \<ge> 0 \<and> (f_ref x = 0 \<longrightarrow> f_type x = FD_NONE) \<and> (f_type x = FD_PIPE \<longrightarrow> f_readable x = (\<not> f_writable x))"

definition ft_ok :: "'a ftab_scheme \<Rightarrow> bool" where
  "ft_ok s \<longleftrightarrow> held s = [] \<and> kmem_ok s \<and> (\<forall>x \<in> set (ftable s). entry_ok x) \<and>
     (\<forall>p w f g. pipe_end s p w f \<longrightarrow> pipe_end s p w g \<longrightarrow> f = g) \<and> (\<forall>p w f. pipe_end s p w f \<longrightarrow> pipes s p \<noteq> None) \<and>
     (\<forall>p x. pipes s p = Some x \<longrightarrow> kpage s p \<and> p \<notin> stock s \<and> (pp_readopen x \<or> pp_writeopen x) \<and>
       (pp_readopen x \<longleftrightarrow> (\<exists>f. pipe_end s p False f)) \<and> (pp_writeopen x \<longleftrightarrow> (\<exists>f. pipe_end s p True f)))"

lemma ft_okD:
  assumes "ft_ok s"
  shows "held s = []" "kmem_ok s" "f < length (ftable s) \<Longrightarrow> entry_ok (fil s f)" "pipe_end s p w f \<Longrightarrow> pipe_end s p w g \<Longrightarrow> f = g"
    "pipe_end s p w f \<Longrightarrow> pipes s p \<noteq> None" "pipes s p = Some x \<Longrightarrow> kpage s p" "pipes s p = Some x \<Longrightarrow> p \<notin> stock s"
    "pipes s p = Some x \<Longrightarrow> pp_readopen x \<or> pp_writeopen x" "pipes s p = Some x \<Longrightarrow> pp_readopen x \<longleftrightarrow> (\<exists>f. pipe_end s p False f)"
    "pipes s p = Some x \<Longrightarrow> pp_writeopen x \<longleftrightarrow> (\<exists>f. pipe_end s p True f)"
proof -
  show "f < length (ftable s) \<Longrightarrow> entry_ok (fil s f)" using assms unfolding ft_ok_def by (meson nth_mem)
qed (use assms in \<open>unfold ft_ok_def, blast+\<close>)

lemma kmem_frame [simp]:
  "kmem_ok (upd_file f g s) = kmem_ok s" "stock (upd_file f g s) = stock s" "kpage (upd_file f g s) = kpage s"
  "kmem_ok (s\<lparr>pipes := P\<rparr>) = kmem_ok s" "stock (s\<lparr>pipes := P\<rparr>) = stock s" "kpage (s\<lparr>pipes := P\<rparr>) = kpage s"
  "kmem_ok (s\<lparr>procs := ps\<rparr>) = kmem_ok s" "stock (s\<lparr>procs := ps\<rparr>) = stock s" "kpage (s\<lparr>procs := ps\<rparr>) = kpage s"
  by (auto simp: kmem_ok_def stock_def free_pages_def kpage_def fun_eq_iff)

text \<open>A change of an entry that is no open pipe end before and after.\<close>

lemma ft_ok_entry:
  assumes "ft_ok s" "f < length (ftable s)" "entry_ok (g (fil s f))"
    "\<And>p w. (f_ref (g (fil s f)) > 0 \<and> f_type (g (fil s f)) = FD_PIPE \<and> f_pipe (g (fil s f)) = p \<and> f_writable (g (fil s f)) = w) = pipe_end s p w f"
  shows "ft_ok (upd_file f g s)"
proof -
  have e: "pipe_end (upd_file f g s) p w h = pipe_end s p w h" for p w h
    using assms(2) assms(4) [of p w] by (cases "h = f") (simp_all add: pipe_end_def)
  have "entry_ok x" if "x \<in> set (ftable (upd_file f g s))" for x
    using that assms(1,3) unfolding ft_ok_def by (auto dest!: set_update_subset_insert [THEN subsetD])
  then show ?thesis using assms(1) unfolding ft_ok_def e kmem_frame upd_file_simps(1,3) by blast
qed

text \<open>The last close of a pipe end: the pipe stays while the other end is open, its page goes back to the allocator otherwise.\<close>

definition other_open :: "'a ftab_scheme \<Rightarrow> nat \<Rightarrow> bool" where
  "other_open s f \<longleftrightarrow> (\<exists>g. pipe_end s (f_pipe (fil s f)) (\<not> f_writable (fil s f)) g)"

lemma pipe_end_dropped [simp]: "pipe_end (dropped f s) p w h \<longleftrightarrow> pipe_end s p w h \<and> h \<noteq> f"
  by (cases "h = f \<and> f < length (ftable s)") (auto simp: pipe_end_def dropped_def)

lemma pipe_end_frame:
  "pipe_end (s\<lparr>pipes := P\<rparr>) = pipe_end s" "pipe_end (s\<lparr>procs := ps\<rparr>) = pipe_end s" "pipe_end (s\<lparr>mem := m\<rparr>) = pipe_end s" "pipe_end (s\<lparr>freelist := l\<rparr>) = pipe_end s"
  by (simp_all add: pipe_end_def fun_eq_iff)

lemma dropped_simps [simp]:
  "held (dropped f s) = held s" "pipes (dropped f s) = pipes s" "kmem_ok (dropped f s) = kmem_ok s" "stock (dropped f s) = stock s" "kpage (dropped f s) = kpage s"
  by (simp_all add: dropped_def)

lemma dropped_entries:
  assumes "ft_ok s" "x \<in> set (ftable (dropped f s))"
  shows "entry_ok x"
  using assms unfolding ft_ok_def dropped_def by (auto simp: entry_ok_def dest!: set_update_subset_insert [THEN subsetD])

lemma ft_ok_shut:
  assumes "ft_ok s" "pipe_end s p w f" "pipes s p = Some x" "pp_readopen (shut w x) \<or> pp_writeopen (shut w x)"
  shows "ft_ok (put_pipe p (shut w x) ((dropped f s)\<lparr>procs := ps\<rparr>))"
proof -
  note d = ft_okD [OF assms(1)]
  have o: "pipe_end s p' w' f \<longleftrightarrow> p' = p \<and> w' = w" for p' w' using assms(2) by (auto simp: pipe_end_def)
  have n: "\<not> (\<exists>h. pipe_end s p w h \<and> h \<noteq> f)" using d(4) [OF assms(2)] by blast
  have e: "(\<exists>h. pipe_end s p w' h \<and> h \<noteq> f) \<longleftrightarrow> (\<exists>h. pipe_end s p w' h) \<and> w' \<noteq> w" for w'
    using n o by (cases "w' = w") blast+
  have e': "(\<exists>h. pipe_end s p' w' h \<and> h \<noteq> f) \<longleftrightarrow> (\<exists>h. pipe_end s p' w' h)" if "p' \<noteq> p" for p' w' using o that by blast
  show ?thesis
    unfolding ft_ok_def pipe_end_frame pipe_end_dropped
  proof (intro conjI allI impI ballI, goal_cases)
    case (3 y)
    then show ?case using dropped_entries [OF assms(1)] by simp
  next
    case (5 p' w' h)
    then show ?case using d(5) [of p' w' h] by simp
  next
    case (8 p' y)
    then show ?case using d(8) [of p' y] assms(4) by (cases "p' = p") auto
  next
    case (9 p' y)
    then show ?case using d(9) [of p'] assms(3) by (cases "p' = p") (auto simp: shut_ends e e')
  next
    case (10 p' y)
    then show ?case using d(10) [of p'] assms(3) by (cases "p' = p") (auto simp: shut_ends e e')
  qed (use d assms(3) in \<open>auto split: if_splits\<close>)
qed

lemma ft_ok_gone:
  assumes "ft_ok s" "pipe_end s p w f" "pipes s p = Some x" "\<not> pp_readopen (shut w x)" "\<not> pp_writeopen (shut w x)"
  shows "\<exists>s'. kfree p ((dropped f s)\<lparr>procs := ps, pipes := (pipes s)(p := None)\<rparr>) = Ok s' \<and> ft_ok s' \<and> pipes s' = (pipes s)(p := None) \<and> stock s' = insert p (stock s)"
proof -
  note d = ft_okD [OF assms(1)]
  let ?t = "(dropped f s)\<lparr>procs := ps, pipes := (pipes s)(p := None)\<rparr>"
  have o: "pipe_end s p' w' f \<longleftrightarrow> p' = p \<and> w' = w" for p' w' using assms(2) by (auto simp: pipe_end_def)
  have k: "kpage ?t p" "p \<notin> stock ?t" "kmem_ok ?t" using d(2) d(6,7) [OF assms(3)] by simp_all
  obtain s' where s': "kfree p ?t = Ok s'" "stock s' = insert p (stock s)" "kmem_ok s'" "kpage s' = kpage s"
    using ka.free_ok [OF k(3,1,2)] by auto
  have "s' = ?t\<lparr>mem := st32 (fill (mem ?t) p 1 4096) p (freelist ?t), freelist := p\<rparr>" using kfree_eval [of ?t p] k(1) d(1) s'(1) by simp
  then have f: "pipe_end s' = pipe_end (dropped f s)" "pipes s' = (pipes s)(p := None)" "held s' = []" "ftable s' = ftable (dropped f s)"
    using d(1) by (simp_all add: pipe_end_frame)
  have n: "\<not> (pipe_end s p w' h \<and> h \<noteq> f)" for w' h
    using assms(4,5) d(4) [OF assms(2), of h] d(9,10) [OF assms(3)] by (cases w; cases w') (auto simp: shut_def)
  have e': "(\<exists>h. pipe_end s p' w' h \<and> h \<noteq> f) \<longleftrightarrow> (\<exists>h. pipe_end s p' w' h)" if "p' \<noteq> p" for p' w' using o that by blast
  have "ft_ok s'"
    unfolding ft_ok_def f pipe_end_dropped
  proof (intro conjI allI impI ballI, goal_cases)
    case (5 p' w' h)
    then show ?case using d(5) [of p' w' h] n [of w' h] by auto
  next
    case (9 p' y)
    then show ?case using d(9) [of p'] by (cases "p' = p") (auto simp: e')
  next
    case (10 p' y)
    then show ?case using d(10) [of p'] by (cases "p' = p") (auto simp: e')
  qed (use d s' dropped_entries [OF assms(1)] in \<open>auto split: if_splits\<close>)
  with s' f(2) show ?thesis by blast
qed

lemma fileclose_typed:
  assumes "ft_ok s" "f < length (ftable s)" "1 \<le> f_ref (fil s f)" "f_type (fil s f) \<noteq> FD_INODE"
  shows "\<exists>s'. fileclose f s = Ok s' \<and> ft_ok s' \<and>
    (if f_type (fil s f) = FD_PIPE \<and> f_ref (fil s f) = 1 \<and> \<not> other_open s f
     then pipes s' = (pipes s)(f_pipe (fil s f) := None) \<and> stock s' = insert (f_pipe (fil s f)) (stock s)
     else dom (pipes s') = dom (pipes s) \<and> stock s' = stock s)"
proof -
  note d = ft_okD [OF assms(1)]
  note ev = fileclose_eval [OF d(1) assms(2,3)]
  have e: "entry_ok (fil s f)" using d(3) assms(2) by blast
  consider (more) "f_ref (fil s f) > 1" | (none) "f_ref (fil s f) = 1" "f_type (fil s f) = FD_NONE"
    | (pipe) "f_ref (fil s f) = 1" "f_type (fil s f) = FD_PIPE"
    using assms(3,4) by (cases "f_type (fil s f)") force+
  then show ?thesis
  proof cases
    case more
    have "ft_ok (upd_file f (\<lambda>x. x\<lparr>f_ref := f_ref x - 1\<rparr>) s)"
      using e more assms(2) by (intro ft_ok_entry assms(1,2)) (auto simp: entry_ok_def pipe_end_def)
    with ev more show ?thesis by simp
  next
    case none
    have "ft_ok (dropped f s)" unfolding dropped_def
      using none by (intro ft_ok_entry assms(1,2)) (auto simp: entry_ok_def pipe_end_def)
    with ev none show ?thesis by simp
  next
    case pipe
    let ?p = "f_pipe (fil s f)" and ?w = "f_writable (fil s f)"
    have pe: "pipe_end s ?p ?w f" using pipe assms(2) by (simp add: pipe_end_def)
    then obtain x where x: "pipes s ?p = Some x" using d(5) by blast
    obtain ps where ps: "pipeclose ?p ?w (dropped f s) = (if pp_readopen (shut ?w x) \<or> pp_writeopen (shut ?w x)
        then Ok (put_pipe ?p (shut ?w x) ((dropped f s)\<lparr>procs := ps\<rparr>)) else kfree ?p ((dropped f s)\<lparr>procs := ps, pipes := (pipes s)(?p := None)\<rparr>))"
      using pipeclose_eval [of "dropped f s" ?p x ?w, unfolded dropped_simps, OF d(1) x] by auto
    have oo: "pp_readopen (shut ?w x) \<or> pp_writeopen (shut ?w x) \<longleftrightarrow> other_open s f"
      using d(9,10) [OF x] by (cases ?w) (auto simp: shut_ends other_open_def)
    show ?thesis
    proof (cases "other_open s f")
      case True
      then show ?thesis using ft_ok_shut [OF assms(1) pe x, of ps] oo ev pipe ps x by (auto simp: insert_absorb)
    next
      case False
      then show ?thesis using ft_ok_gone [OF assms(1) pe x, of ps] oo ev pipe ps by auto
    qed
  qed
qed

subsection \<open>Creating a pipe\<close>

abbreviation claim_file :: "nat \<Rightarrow> 'a ftab_scheme \<Rightarrow> 'a ftab_scheme" where
  "claim_file f s \<equiv> upd_file f (\<lambda>x. x\<lparr>f_ref := 1\<rparr>) s"

lemma claim_file_ok:
  assumes "ft_ok s" "f < length (ftable s)" "f_ref (fil s f) = 0"
  shows "ft_ok (claim_file f s)" "dropped f (claim_file f s) = s" "f_type (fil s f) = FD_NONE"
proof -
  have e: "entry_ok (fil s f)" using ft_okD(3) [OF assms(1)] assms(2) by blast
  show t: "f_type (fil s f) = FD_NONE" using e assms(3) by (simp add: entry_ok_def)
  show "ft_ok (claim_file f s)"
    using e assms(3) t by (intro ft_ok_entry assms(1,2)) (auto simp: entry_ok_def pipe_end_def)
  have "(fil s f)\<lparr>f_ref := 0, f_type := FD_NONE\<rparr> = fil s f" using assms(3) t by (intro filest.equality) simp_all
  then show "dropped f (claim_file f s) = s" using assms(2) by (simp add: dropped_def upd_file_def)
qed

lemma close_claimed:
  assumes "ft_ok s" "f < length (ftable s)" "f_ref (fil s f) = 0"
  shows "fileclose f (claim_file f s) = Ok s"
  using fileclose_eval [of "claim_file f s" f] claim_file_ok [OF assms] assms ft_okD(1) [OF assms(1)] by simp

definition as_pipe :: "bool \<Rightarrow> u32 \<Rightarrow> filest \<Rightarrow> filest" where
  "as_pipe w p x = x\<lparr>f_type := FD_PIPE, f_readable := \<not> w, f_writable := w, f_pipe := p\<rparr>"

definition with_pipe :: "nat \<Rightarrow> nat \<Rightarrow> u32 \<Rightarrow> 'a ftab_scheme \<Rightarrow> 'a ftab_scheme" where
  "with_pipe r w p s = upd_file w (as_pipe True p) (upd_file r (as_pipe False p) (put_pipe p (new_pipe p s) s))"

lemma pipe_end_with_pipe:
  assumes "r \<noteq> w" "r < length (ftable s)" "w < length (ftable s)" "f_ref (fil s r) = 1" "f_ref (fil s w) = 1" "f_type (fil s r) = FD_NONE" "f_type (fil s w) = FD_NONE"
  shows "pipe_end (with_pipe r w p s) q b h \<longleftrightarrow> (if q = p \<and> h \<in> {r, w} then b = (h = w) else pipe_end s q b h)"
  using assms by (cases "h = r"; cases "h = w") (auto simp: pipe_end_def with_pipe_def as_pipe_def nth_list_update)

lemma with_pipe_ok:
  assumes "ft_ok s" "r \<noteq> w" "r < length (ftable s)" "w < length (ftable s)" "f_ref (fil s r) = 1" "f_ref (fil s w) = 1" "f_type (fil s r) = FD_NONE" "f_type (fil s w) = FD_NONE"
    "pipes s p = None" "kpage s p" "p \<notin> stock s"
  shows "ft_ok (with_pipe r w p s)"
proof -
  note d = ft_okD [OF assms(1)]
  have n: "\<not> pipe_end s p b h" for b h using d(5) [of p b h] assms(9) by blast
  have m: "\<not> pipe_end s q b r" "\<not> pipe_end s q b w" for q b using assms(7,8) by (simp_all add: pipe_end_def)
  have e: "pipe_end (with_pipe r w p s) q b h \<longleftrightarrow> (if q = p then h = (if b then w else r) else pipe_end s q b h)" for q b h
    unfolding pipe_end_with_pipe [OF assms(2-8)] using n m assms(2) by auto
  have f: "held (with_pipe r w p s) = held s" "kmem_ok (with_pipe r w p s) = kmem_ok s" "stock (with_pipe r w p s) = stock s" "kpage (with_pipe r w p s) = kpage s"
      "pipes (with_pipe r w p s) = (pipes s)(p \<mapsto> new_pipe p s)"
    by (simp_all add: with_pipe_def)
  have t: "entry_ok y" if "y \<in> set (ftable (with_pipe r w p s))" for y
    using that assms(1,2,5,6) unfolding ft_ok_def with_pipe_def
    by (auto simp: entry_ok_def as_pipe_def dest!: set_update_subset_insert [THEN subsetD])
  have o: "pp_readopen (new_pipe p s)" "pp_writeopen (new_pipe p s)" by (simp_all add: new_pipe_def)
  show ?thesis
    unfolding ft_ok_def f e
  proof (intro conjI allI impI ballI, goal_cases)
    case (3 y)
    then show ?case by (rule t)
  next
    case (4 q b h k)
    then show ?case using d(4) [of q b h k] by (simp split: if_splits)
  next
    case (5 q b h)
    then show ?case using d(5) [of q b h] by (simp split: if_splits)
  next
    case (8 q x)
    then show ?case using d(8) [of q x] o by (simp split: if_splits)
  next
    case (9 q x)
    then show ?case using d(9) [of q x] o by (simp split: if_splits)
  next
    case (10 q x)
    then show ?case using d(10) [of q x] o by (simp split: if_splits)
  qed (use d assms(10,11) in \<open>auto split: if_splits\<close>)
qed

lemma ft_ok_kalloc:
  assumes "ft_ok s"
  shows "kalloc s = Ok (0, s) \<and> stock s = {} \<or>
    (\<exists>p l. kalloc s = Ok (p, s\<lparr>freelist := l\<rparr>) \<and> p \<noteq> 0 \<and> ft_ok (s\<lparr>freelist := l\<rparr>) \<and> p \<in> stock s \<and> kpage s p \<and> stock (s\<lparr>freelist := l\<rparr>) = stock s - {p})"
proof -
  note d = ft_okD [OF assms]
  have l: "L_kmem \<notin> set (held s)" using d(1) by simp
  from ka.alloc_total [OF d(2)] consider (no) "kalloc s = Ok (0, s)" "stock s = {}"
    | (yes) p s' where "kalloc s = Ok (p, s')" "p \<noteq> 0" "p \<in> stock s" "kpage s p" "stock s' = stock s - {p}" "kmem_ok s'"
    by blast
  then show ?thesis
  proof cases
    case yes
    have s': "s' = s\<lparr>freelist := ld32 (mem s) p\<rparr>" using yes(1,2) unfolding kalloc_eval [OF l] by clarsimp
    have "ft_ok s'" using assms yes(5,6) unfolding ft_ok_def s' pipe_end_frame by auto
    with yes s' show ?thesis by blast
  qed simp
qed

lemma free_entries_le:
  assumes "first_idx (\<lambda>f. f_ref f = 0) (ftable (claim_file r s)) = None"
  shows "card {f. f < length (ftable s) \<and> f_ref (fil s f) = 0} < 2"
proof -
  have "f = r" if "f < length (ftable s)" "f_ref (fil s f) = 0" for f
  proof (rule ccontr)
    assume "f \<noteq> r"
    then have "ftable (claim_file r s) ! f = fil s f" "ftable (claim_file r s) ! f \<in> set (ftable (claim_file r s))"
      using that(1) by (simp, intro nth_mem, simp)
    with assms that(2) show False by (auto simp: first_idx_None)
  qed
  then have "{f. f < length (ftable s) \<and> f_ref (fil s f) = 0} \<subseteq> {r}" by blast
  from card_mono [OF _ this] show ?thesis by simp
qed

lemma pipealloc_typed:
  assumes "ft_ok s"
  shows "pipealloc s = Ok (None, s) \<and> (stock s = {} \<or> card {f. f < length (ftable s) \<and> f_ref (fil s f) = 0} < 2) \<or>
    (\<exists>r w p s'. pipealloc s = Ok (Some (r, w), s') \<and> ft_ok s' \<and> r \<noteq> w \<and> f_ref (fil s r) = 0 \<and> f_ref (fil s w) = 0 \<and>
       pipe_end s' p False r \<and> pipe_end s' p True w \<and> pipes s p = None \<and> p \<in> stock s \<and> stock s' = stock s - {p})"
proof -
  note d = ft_okD [OF assms]
  consider (none) "first_idx (\<lambda>f. f_ref f = 0) (ftable s) = None"
    | (one) r where "first_idx (\<lambda>f. f_ref f = 0) (ftable s) = Some r" "first_idx (\<lambda>f. f_ref f = 0) (ftable (claim_file r s)) = None"
    | (two) r w where "first_idx (\<lambda>f. f_ref f = 0) (ftable s) = Some r" "first_idx (\<lambda>f. f_ref f = 0) (ftable (claim_file r s)) = Some w"
    by (metis option.exhaust)
  then show ?thesis
  proof cases
    case none
    then have "{f. f < length (ftable s) \<and> f_ref (fil s f) = 0} = {}" by (auto simp: first_idx_None)
    then have "card {f. f < length (ftable s) \<and> f_ref (fil s f) = 0} < 2" by (simp only: card.empty)
    with none show ?thesis using d(1) by (simp add: pipealloc_def filealloc_eval close_opt_def)
  next
    case one
    then have r: "r < length (ftable s)" "f_ref (fil s r) = 0" by (auto simp: first_idx_Some)
    from one show ?thesis using d(1) close_claimed [OF assms r] free_entries_le [OF one(2)] by (simp add: pipealloc_def filealloc_eval close_opt_def)
  next
    case two
    let ?s = "claim_file r s" and ?t = "claim_file w (claim_file r s)"
    have r: "r < length (ftable s)" "f_ref (fil s r) = 0" using two(1) by (auto simp: first_idx_Some)
    have w0: "w < length (ftable ?s)" "f_ref (fil ?s w) = 0" using two(2) by (auto simp: first_idx_Some)
    then have w: "w \<noteq> r" "w < length (ftable s)" "f_ref (fil s w) = 0" using r(1) by (auto simp: nth_list_update split: if_splits)
    note s1 = claim_file_ok [OF assms r]
    note s2 = claim_file_ok [OF s1(1) w0]
    have fa: "filealloc s = Ok (Some r, ?s)" "filealloc ?s = Ok (Some w, ?t)"
      using two d(1) by (simp_all add: filealloc_eval del: upd_file_simps(5))
    from ft_ok_kalloc [OF s2(1)] show ?thesis
    proof (elim disjE conjE exE)
      assume k: "kalloc ?t = Ok (0, ?t)" "stock ?t = {}"
      have "?t = claim_file r (claim_file w s)" using w(1) by (simp add: upd_file_def list_update_swap)
      then have "fileclose r ?t = Ok (claim_file w s)"
        using close_claimed [of "claim_file w s" r] claim_file_ok(1) [OF assms w(2,3)] r w(1) by simp
      with k fa close_claimed [OF assms w(2,3)] show ?thesis by (simp add: pipealloc_def close_opt_def)
    next
      fix p l
      let ?u = "?t\<lparr>freelist := l\<rparr>"
      assume k: "kalloc ?t = Ok (p, ?u)" "p \<noteq> 0" "ft_ok ?u" "p \<in> stock ?t" "kpage ?t p" "stock ?u = stock ?t - {p}"
      have n: "pipes s p = None" using d(7) [of p] k(4) by (cases "pipes s p") simp_all
      have e: "r \<noteq> w" "r < length (ftable ?u)" "w < length (ftable ?u)" "f_ref (fil ?u r) = 1" "f_ref (fil ?u w) = 1" "f_type (fil ?u r) = FD_NONE" "f_type (fil ?u w) = FD_NONE"
        using r w s1(3) s2(3) by (simp_all add: nth_list_update)
      have "ft_ok (with_pipe r w p ?u)" using k n by (intro with_pipe_ok e) simp_all
      moreover have "pipealloc s = Ok (Some (r, w), with_pipe r w p ?u)"
        using fa k(1,2) by (simp add: pipealloc_def with_pipe_def as_pipe_def [abs_def])
      moreover have "pipe_end (with_pipe r w p ?u) p False r" "pipe_end (with_pipe r w p ?u) p True w"
        unfolding pipe_end_with_pipe [OF e] using w(1) by simp_all
      moreover have "stock (with_pipe r w p ?u) = stock s - {p}" "p \<in> stock s" using k(4,6) by (simp_all add: with_pipe_def)
      ultimately show ?thesis using r w n by blast
    qed
  qed
qed

text \<open>
  C15: The file table is well typed and stays so: every open pipe end is readable or writable but not both, a pipe has at most one file
  for each end and is flagged open at exactly the ends a file refers to, and no page of a live pipe is on the allocator's free list.
  \<open>pipealloc\<close> either makes both ends of a pipe on a page taken from the allocator, in two unused entries, or returns without
  any change to the state, which happens only when there is no page or there are fewer than two unused entries. \<open>filedup\<close> and \<open>fileclose\<close> of an open entry that is no inode never
  panic and keep the table well typed. The last close of the last end of a pipe removes it and gives its page back, no other close does.
\<close>

theorem pipe_files_typed:
  assumes "ft_ok s"
  shows "(pipealloc s = Ok (None, s) \<and> (stock s = {} \<or> card {f. f < length (ftable s) \<and> f_ref (fil s f) = 0} < 2) \<or>
     (\<exists>r w p s'. pipealloc s = Ok (Some (r, w), s') \<and> ft_ok s' \<and> r \<noteq> w \<and> f_ref (fil s r) = 0 \<and> f_ref (fil s w) = 0 \<and>
       pipe_end s' p False r \<and> pipe_end s' p True w \<and> pipes s p = None \<and> p \<in> stock s \<and> stock s' = stock s - {p})) \<and>
    (\<forall>f < length (ftable s). 1 \<le> f_ref (fil s f) \<and> f_type (fil s f) \<noteq> FD_INODE \<longrightarrow>
      (\<exists>s'. filedup f s = Ok (f, s') \<and> ft_ok s') \<and>
      (\<exists>s'. fileclose f s = Ok s' \<and> ft_ok s' \<and>
        (if f_type (fil s f) = FD_PIPE \<and> f_ref (fil s f) = 1 \<and> \<not> other_open s f
         then pipes s' = (pipes s)(f_pipe (fil s f) := None) \<and> stock s' = insert (f_pipe (fil s f)) (stock s)
         else dom (pipes s') = dom (pipes s) \<and> stock s' = stock s)))"
proof (intro conjI allI impI, goal_cases)
  case 1
  show ?case by (rule pipealloc_typed [OF assms])
next
  case (2 f)
  then have "entry_ok (fil s f)" using ft_okD(3) [OF assms] by blast
  then have "ft_ok (upd_file f (\<lambda>x. x\<lparr>f_ref := f_ref x + 1\<rparr>) s)" using 2
    by (intro ft_ok_entry assms) (auto simp: entry_ok_def pipe_end_def)
  then show ?case using filedup_eval [of s f] ft_okD(1) [OF assms] 2 by simp
next
  case (3 f)
  then show ?case using fileclose_typed [OF assms] by blast
qed

lemma fsst_extend [simp]:
  "held (fsst.extend r m) = held r" "ncli (fsst.extend r m) = ncli r" "use_lock (fsst.extend r m) = use_lock r"
  "freelist (fsst.extend r m) = freelist r" "kend (fsst.extend r m) = kend r" "mem (fsst.extend r m) = mem r"
  "procs (fsst.extend r m) = procs r" "cur (fsst.extend r m) = cur r" "nextpid (fsst.extend r m) = nextpid r"
  "initproc (fsst.extend r m) = initproc r" "kpgdir (fsst.extend r m) = kpgdir r" "cr3 (fsst.extend r m) = cr3 r"
  "ts_esp0 (fsst.extend r m) = ts_esp0 r" "queue (fsst.extend r m) = queue r"
  "containers (fsst.extend r m) = containers r" "sleeplocks (fsst.extend r m) = sleeplocks r"
  "mutexes (fsst.extend r m) = mutexes r" "pipes (fsst.extend r m) = pipes r"
  "shm_infos (fsst.extend r m) = shm_infos r" "kdata (fsst.extend r m) = kdata r" "bufs (fsst.extend r m) = bufs r"
  "memdisk (fsst.extend r m) = memdisk r" "disksize (fsst.extend r m) = disksize r"
  "dwrites (fsst.extend r m) = dwrites r" "lg_start (fsst.extend r m) = lg_start r"
  "lg_size (fsst.extend r m) = lg_size r" "lg_outstanding (fsst.extend r m) = lg_outstanding r"
  "lg_committing (fsst.extend r m) = lg_committing r" "lg_dev (fsst.extend r m) = lg_dev r"
  "lg_lh (fsst.extend r m) = lg_lh r" "fs_sb (fsst.extend r m) = fs_sb r" "inodes (fsst.extend r m) = inodes r"
  "ftable (fsst.extend r (ftab.fields v0)) = v0"
  by (simp_all add: fsst.defs ftab.defs)


text \<open>A pipe with both ends open, two unused entries and two free pages.\<close>

definition demo_open :: "bool \<Rightarrow> filest" where
  "demo_open w = as_pipe w 0x80403000 \<lparr>f_type = FD_NONE, f_ref = 1, f_readable = False, f_writable = False, f_pipe = 0, f_ip = 0, f_off = 0\<rparr>"

definition demo_files :: ftab where
  "demo_files = fsst.extend (demo_fs0\<lparr>pipes := [0x80403000 \<mapsto> demo_pipe\<lparr>pp_readopen := True, pp_writeopen := True\<rparr>]\<rparr>)
     (ftab.fields [demo_open False, demo_open True, (demo_open True)\<lparr>f_ref := 0, f_type := FD_NONE\<rparr>, (demo_open True)\<lparr>f_ref := 0, f_type := FD_NONE\<rparr>])"

lemma demo_files_mem: "mem demo_files = mem demo_vm" "freelist demo_files = freelist demo_vm" "kend demo_files = kend demo_vm" "held demo_files = []"
  "pipes demo_files = [0x80403000 \<mapsto> demo_pipe\<lparr>pp_readopen := True, pp_writeopen := True\<rparr>]"
  "ftable demo_files = [demo_open False, demo_open True, (demo_open True)\<lparr>f_ref := 0, f_type := FD_NONE\<rparr>, (demo_open True)\<lparr>f_ref := 0, f_type := FD_NONE\<rparr>]"
  by (simp_all add: demo_files_def demo_fs0_def demo_raw_def)

lemma demo_files_stock: "kmem_ok demo_files" "stock demo_files = {0x80401000, 0x80402000}"
proof -
  have f: "free_pages demo_files [0x80401000, 0x80402000]"
    using demo_vm_free by (simp add: free_pages_def kpage_def demo_files_mem del: demo_vm_mem)
  then show "kmem_ok demo_files" "stock demo_files = {0x80401000, 0x80402000}" using stock_eq [OF f] by (auto simp: kmem_ok_def demo_files_mem)
qed

lemma demo_files_ends: "pipe_end demo_files p w f \<longleftrightarrow> p = 0x80403000 \<and> f = (if w then 1 else 0)"
proof -
  have "f < 4 \<longleftrightarrow> f = 0 \<or> f = 1 \<or> f = 2 \<or> f = 3" by auto
  then show ?thesis by (auto simp: pipe_end_def demo_files_mem demo_open_def as_pipe_def)
qed

lemma demo_files_ok: "ft_ok demo_files"
proof -
  have "kpage demo_files 0x80403000" by (simp add: kpage_def demo_files_mem aligned_def V2P_def KERNBASE_def PHYSTOP_def)
  then show ?thesis
    unfolding ft_ok_def demo_files_ends by (simp add: demo_files_stock demo_files_mem entry_ok_def demo_open_def as_pipe_def)
qed

theorem pipe_files_typed_witness:
  "ft_ok demo_files \<and> (\<exists>r w s'. pipealloc demo_files = Ok (Some (r, w), s') \<and> ft_ok s' \<and> card (stock s') = 1) \<and>
   (\<exists>s'. fileclose 0 demo_files = Ok s' \<and> ft_ok s' \<and> stock s' = stock demo_files)"
proof -
  have "{f. f < length (ftable demo_files) \<and> f_ref (fil demo_files f) = 0} = {2, 3}"
    by (auto simp: demo_files_mem demo_open_def as_pipe_def numeral_3_eq_3 less_Suc_eq)
  then have c: "\<not> card {f. f < length (ftable demo_files) \<and> f_ref (fil demo_files f) = 0} < 2" by simp
  have o: "other_open demo_files 0" by (simp add: other_open_def demo_files_ends demo_files_mem demo_open_def as_pipe_def)
  have l: "0 < length (ftable demo_files)" "1 \<le> f_ref (fil demo_files 0)" "f_type (fil demo_files 0) \<noteq> FD_INODE"
    by (simp_all add: demo_files_mem demo_open_def as_pipe_def)
  have n: "card (stock demo_files - {p}) = 1" if "p \<in> stock demo_files" for p
    using that by (simp add: card_Diff_singleton demo_files_stock)
  note th = pipe_files_typed [OF demo_files_ok]
  have "\<exists>r w p s'. pipealloc demo_files = Ok (Some (r, w), s') \<and> ft_ok s' \<and> p \<in> stock demo_files \<and> stock s' = stock demo_files - {p}"
    using th c demo_files_stock(2) by (elim conjE disjE) blast+
  then have "\<exists>r w s'. pipealloc demo_files = Ok (Some (r, w), s') \<and> ft_ok s' \<and> card (stock s') = 1" by (metis n)
  moreover have "\<exists>s'. fileclose 0 demo_files = Ok s' \<and> ft_ok s' \<and> stock s' = stock demo_files"
    using th l o by (metis (no_types, lifting))
  ultimately show ?thesis using demo_files_ok by blast
qed

end
