(* ===== verification/Lifecycle.thy ===== *)
theory Lifecycle
  imports File
begin

text \<open>
  The life of a process (\<^verbatim>\<open>proc.c\<close>): \<open>allocproc\<close>, \<open>userinit\<close>, \<open>fork2\<close>, \<open>exit\<close>, \<open>wait\<close> and \<open>forkret\<close>.
  The addresses of the assembly entry points \<open>trapret\<close> and of \<open>forkret\<close>, and the place and size of the embedded
  first program, are fixed when the kernel is linked; they are arguments. The trap frame and the context of a process lie on its kernel stack in \<open>mem\<close>.
  \<open>exit_finish\<close> is the part of \<open>exit\<close> after it has taken the lock of the process table; both stop in \<open>sched\<close>.
  A \<open>wait\<close> that goes to sleep returns no number; \<open>wait_resume\<close> is what follows when the process runs again.

  Shown: an exiting process leaves the run queue, hands its children to the first process and wakes whoever has to wait for a zombie,
  so that no parent ever sleeps in \<open>wait\<close> while one of its children is a zombie; failed forks use up the process limit of a container.
\<close>

definition pinit :: "'a prioq_scheme \<Rightarrow> 'a prioq_scheme" where
  "pinit s = s\<lparr>queue := replicate PRIO_MAX None\<rparr>"

text \<open>The new process gets the mutexes of the running one, and counts as a user of each.\<close>

definition inherit_lock :: "nat \<Rightarrow> nat \<Rightarrow> 'a muxes_scheme \<Rightarrow> 'a muxes_scheme res" where
  "inherit_lock p i s =
     bnd (myproc s) (\<lambda>c.
     bnd (aget (p_locks (procs s ! c)) (int i)) (\<lambda>g.
     bnd (aset (p_locks (procs s ! p)) (int i) g) (\<lambda>ls.
     let s = upd_proc p (\<lambda>q. q\<lparr>p_locks := ls\<rparr>) s in
     if g = -1 then Ok s
     else bnd (aget (mutexes s) g) (\<lambda>_. Ok (upd_mux (nat g) (\<lambda>m. m\<lparr>mx_count := mx_count m + 1\<rparr>) s)))))"

definition init_locks :: "nat \<Rightarrow> 'a muxes_scheme \<Rightarrow> 'a muxes_scheme res" where
  "init_locks p s =
     (if p_pid (procs s ! p) = 1 then Ok (upd_proc p (\<lambda>q. q\<lparr>p_locks := replicate MUX_MAXNUM (-1)\<rparr>) s)
      else foldM (inherit_lock p) [0..<MUX_MAXNUM] s)"

text \<open>The top of the kernel stack: a trap frame of 76 bytes, a return address, and a context of 20 bytes whose last word is \<open>eip\<close>.\<close>

definition init_kstack :: "u32 \<Rightarrow> u32 \<Rightarrow> nat \<Rightarrow> u32 \<Rightarrow> 'a ptable_scheme \<Rightarrow> 'a ptable_scheme" where
  "init_kstack trapret forkret p k s =
     (let tf = k + KSTACKSIZE - 76; ctx = tf - 4 - 20 in
      (upd_proc p (\<lambda>q. q\<lparr>p_tf := tf, p_context := ctx\<rparr>) s)\<lparr>mem := st32 (memset (st32 (mem s) (tf - 4) trapret) ctx 0 20) (ctx + 16) forkret\<rparr>)"

definition allocproc :: "u32 \<Rightarrow> u32 \<Rightarrow> int \<Rightarrow> 'a muxes_scheme \<Rightarrow> (nat option \<times> 'a muxes_scheme) res" where
  "allocproc trapret forkret cid s =
     bnd (lock L_ptable s) (\<lambda>s.
     case first_idx (\<lambda>q. p_state q = UNUSED) (procs s) of
       None \<Rightarrow> bnd (unlock L_ptable s) (\<lambda>s. Ok (None, s))
     | Some p \<Rightarrow>
         bnd (setnextproc cid (int p) s) (\<lambda>(r, s).
         if r < 0 then bnd (unlock L_ptable s) (\<lambda>s. Ok (None, s))
         else
           let s = (upd_proc p (\<lambda>q. q\<lparr>p_state := EMBRYO, p_pid := nextpid s\<rparr>) s)\<lparr>nextpid := nextpid s + 1\<rparr> in
           bnd (if p_pid (procs s ! p) = 1 then pq1_enqueue p 0 (upd_proc p (\<lambda>q. q\<lparr>p_priority := 0\<rparr>) s) else Ok s) (\<lambda>s.
           bnd (unlock L_ptable s) (\<lambda>s.
           bnd (kalloc s) (\<lambda>(k, s).
           let s = upd_proc p (\<lambda>q. q\<lparr>p_kstack := k\<rparr>) s in
           if k = 0 then Ok (None, upd_proc p (\<lambda>q. q\<lparr>p_state := UNUSED\<rparr>) s)
           else bnd (init_locks p (init_kstack trapret forkret p k s)) (\<lambda>s. Ok (Some p, s)))))))"

subsection \<open>The first process\<close>

definition st16 :: "mem \<Rightarrow> u32 \<Rightarrow> u16 \<Rightarrow> mem" where
  "st16 m a v = m(a := ucast v, a + 1 := ucast (drop_bit 8 v))"

text \<open>The offsets of the trap frame: \<open>es\<close> 40, \<open>ds\<close> 44, \<open>eip\<close> 56, \<open>cs\<close> 60, \<open>eflags\<close> 64, \<open>esp\<close> 68, \<open>ss\<close> 72. The selectors are 0x1B for user code and 0x23 for user data.\<close>

definition user_frame :: "mem \<Rightarrow> u32 \<Rightarrow> mem" where
  "user_frame m tf =
     (let m = memset m tf 0 76;
          m = st16 m (tf + 60) 0x1B;
          m = st16 m (tf + 44) 0x23;
          m = st16 m (tf + 40) 0x23;
          m = st16 m (tf + 72) 0x23;
          m = st32 m (tf + 64) 0x200;
          m = st32 m (tf + 68) PGSIZE
      in st32 m (tf + 56) 0)"

definition userinit :: "u32 \<Rightarrow> u32 \<Rightarrow> (nat \<Rightarrow> 'a fsst_scheme devsw) \<Rightarrow> u32 \<Rightarrow> u32 \<Rightarrow> 'a fsst_scheme \<Rightarrow> 'a fsst_scheme res" where
  "userinit trapret forkret dv initcode initsize s =
     bnd (allocproc trapret forkret (-1) s) (\<lambda>(r, s).
     let s = s\<lparr>initproc := r\<rparr> in
     case r of None \<Rightarrow> fault ''userinit'' | Some p \<Rightarrow>
       bnd (setupkvm s) (\<lambda>(d, s).
       let s = upd_proc p (\<lambda>q. q\<lparr>p_pgdir := d\<rparr>) s in
       if d = 0 then panic ''userinit: out of memory?''
       else
         bnd (inituvm d initcode initsize s) (\<lambda>s.
         let s = (upd_proc p (\<lambda>q. q\<lparr>p_sz := PGSIZE\<rparr>) s)\<lparr>mem := user_frame (mem s) (p_tf (procs s ! p))\<rparr>;
             s = upd_proc p (\<lambda>q. q\<lparr>p_cid := -1, p_path := [], p_name := ''initcode''\<rparr>) s
         in
         bnd (namei dv (''/'' @ [NUL]) s) (\<lambda>(ip, s).
         bnd (lock L_ptable (upd_proc p (\<lambda>q. q\<lparr>p_cwd := ip, p_path := ''/''\<rparr>) s)) (\<lambda>s.
         unlock L_ptable (upd_proc p (\<lambda>q. q\<lparr>p_state := RUNNABLE\<rparr>) s))))))"

subsection \<open>Forking\<close>

definition dup_fd :: "nat \<Rightarrow> nat \<Rightarrow> nat \<Rightarrow> 'a ftab_scheme \<Rightarrow> 'a ftab_scheme res" where
  "dup_fd c p fd s =
     bnd (aget (p_ofile (procs s ! c)) (int fd)) (\<lambda>r.
     case r of None \<Rightarrow> Ok s | Some f \<Rightarrow>
       bnd (filedup f s) (\<lambda>(f, s).
       bnd (aset (p_ofile (procs s ! p)) (int fd) (Some f)) (\<lambda>fs.
       Ok (upd_proc p (\<lambda>q. q\<lparr>p_ofile := fs\<rparr>) s))))"

text \<open>The segments of the parent, from the last to the first, each one page lower than the one before.\<close>

definition dup_shm :: "nat \<Rightarrow> nat \<Rightarrow> nat \<Rightarrow> u32 \<times> 'a shmtab_scheme \<Rightarrow> (u32 \<times> 'a shmtab_scheme) res" where
  "dup_shm c p j = (\<lambda>(addr, s).
     bnd (aget (p_shms (procs s ! c)) (int j)) (\<lambda>x.
     if shp_name x = [] then Ok (addr, s)
     else
       bnd (upd_shm (int j) (\<lambda>x. x\<lparr>sh_ref_count := sh_ref_count x + 1\<rparr>) s) (\<lambda>s.
       bnd (upd_att p (int j) (\<lambda>y. y\<lparr>shp_name := shp_name x, shp_addr := addr - PGSIZE\<rparr>) s) (\<lambda>s.
       Ok (addr - PGSIZE, s)))))"

definition fork_priority :: "int \<Rightarrow> int \<Rightarrow> int" where
  "fork_priority pid parent = (if pid = 1 then 0 else if pid = 2 then 5 else parent)"

definition fork2 :: "u32 \<Rightarrow> u32 \<Rightarrow> int \<Rightarrow> 'a ftab_scheme \<Rightarrow> (int \<times> 'a ftab_scheme) res" where
  "fork2 trapret forkret cid s =
     bnd (myproc s) (\<lambda>c.
     bnd (allocproc trapret forkret cid s) (\<lambda>(r, s).
     case r of None \<Rightarrow> Ok (-1, s) | Some p \<Rightarrow>
       bnd (copyuvm (p_pgdir (procs s ! c)) (p_sz (procs s ! c)) s) (\<lambda>(d, s).
       let s = upd_proc p (\<lambda>q. q\<lparr>p_pgdir := d\<rparr>) s in
       if d = 0 then
         bnd (kfree (p_kstack (procs s ! p)) s) (\<lambda>s.
         Ok (-1, upd_proc p (\<lambda>q. q\<lparr>p_kstack := 0, p_state := UNUSED\<rparr>) s))
       else
         bnd (put_text 128 (p_path (procs s ! c))) (\<lambda>path.
         let s = (upd_proc p (\<lambda>q. q\<lparr>p_path := path, p_sz := p_sz (procs s ! c), p_cid := cid, p_parent := Some c\<rparr>) s)
               \<lparr>mem := memmove (mem s) (p_tf (procs s ! p)) (p_tf (procs s ! c)) 76\<rparr>;
             prio = fork_priority (p_pid (procs s ! p)) (p_priority (procs s ! c));
             s = upd_proc p (\<lambda>q. q\<lparr>p_priority := prio\<rparr>) s
         in
         bnd (pq1_enqueue p prio s) (\<lambda>s.
         let s = s\<lparr>mem := st32 (mem s) (p_tf (procs s ! p) + 28) 0\<rparr> in
         bnd (foldM (dup_fd c p) [0..<NOFILE] s) (\<lambda>s.
         bnd (case p_cwd (procs s ! c) of None \<Rightarrow> fault ''idup'' | Some ip \<Rightarrow> idup ip s) (\<lambda>(ip, s).
         let s = upd_proc p (\<lambda>q. q\<lparr>p_cwd := Some ip, p_name := take 15 (p_name (procs s ! c))\<rparr>) s;
             pid = p_pid (procs s ! p)
         in
         bnd (foldM (dup_shm c p) (rev [0..<SHM_MAXNUM]) (p_sz (procs s ! p), s)) (\<lambda>(_, s).
         bnd (lock L_ptable s) (\<lambda>s.
         bnd (unlock L_ptable (upd_proc p (\<lambda>q. q\<lparr>p_state := RUNNABLE\<rparr>) s)) (\<lambda>s.
         Ok (pid, s)))))))))))"

definition fork :: "u32 \<Rightarrow> u32 \<Rightarrow> 'a ftab_scheme \<Rightarrow> (int \<times> 'a ftab_scheme) res" where
  "fork trapret forkret s = bnd (myproc s) (\<lambda>c. fork2 trapret forkret (p_cid (procs s ! c)) s)"

text \<open>The first run of a new process. \<open>first\<close> is the static variable of the function, and part of the result.\<close>

definition forkret :: "bool \<Rightarrow> 'a fsst_scheme \<Rightarrow> (bool \<times> 'a fsst_scheme) res" where
  "forkret first s =
     bnd (unlock L_ptable s) (\<lambda>s.
     if first then bnd (iinit ROOTDEV s) (\<lambda>s. bnd (initlog ROOTDEV s) (\<lambda>s. Ok (False, s)))
     else Ok (first, s))"

subsection \<open>Exiting\<close>

definition close_fd :: "nat \<Rightarrow> nat \<Rightarrow> 'a ftab_scheme \<Rightarrow> 'a ftab_scheme res" where
  "close_fd c fd s =
     bnd (aget (p_ofile (procs s ! c)) (int fd)) (\<lambda>r.
     case r of None \<Rightarrow> Ok s | Some f \<Rightarrow>
       bnd (fileclose f s) (\<lambda>s. Ok (upd_proc c (\<lambda>q. q\<lparr>p_ofile := (p_ofile q)[fd := None]\<rparr>) s)))"

definition drop_shm :: "nat \<Rightarrow> nat \<Rightarrow> 'a shmtab_scheme \<Rightarrow> 'a shmtab_scheme res" where
  "drop_shm c j s =
     bnd (aget (p_shms (procs s ! c)) (int j)) (\<lambda>x.
     if shp_name x = [] then Ok s else bnd (shm_rem (Some (shp_name x)) s) (\<lambda>(_, s). Ok s))"

definition reparent :: "nat \<Rightarrow> nat \<Rightarrow> 'a ptable_scheme \<Rightarrow> 'a ptable_scheme" where
  "reparent c p s =
     (if p_parent (procs s ! p) = Some c then
        let s = upd_proc p (\<lambda>q. q\<lparr>p_parent := initproc s\<rparr>) s in
        if p_state (procs s ! p) = ZOMBIE then wakeup1 (map_option Ch_proc (initproc s)) s else s
      else s)"

text \<open>The mutex entry \<open>i\<close> of the process: one user less, and the mutex is given up if the process has it.\<close>

definition drop_mutex :: "nat \<Rightarrow> nat \<Rightarrow> 'a muxes_scheme \<Rightarrow> 'a muxes_scheme res" where
  "drop_mutex c i s =
     bnd (aget (p_locks (procs s ! c)) (int i)) (\<lambda>g.
     if g = -1 then Ok s
     else
       bnd (aget (mutexes s) g) (\<lambda>_.
       let s = upd_mux (nat g) (\<lambda>m. m\<lparr>mx_count := mx_count m - 1\<rparr>) s in
       if owns_mutex c (nat g) s then
         bnd (unlock L_ptable (s\<lparr>ncli := ncli s + 1\<rparr>)) (\<lambda>s.
         bnd (releasesleep (L_muxslp (nat g)) s) (\<lambda>s.
         bnd (lock L_ptable s) (\<lambda>s. if ncli s = 0 then panic ''popcli'' else Ok (s\<lparr>ncli := ncli s - 1\<rparr>))))
       else Ok s))"

definition exit_finish :: "nat \<Rightarrow> 'a muxes_scheme \<Rightarrow> 'a muxes_scheme res" where
  "exit_finish c s =
     (let s = wakeup1 (map_option Ch_proc (p_parent (procs s ! c))) s;
          s = foldl (\<lambda>s p. reparent c p s) s [0..<length (procs s)]
      in
      bnd (remove_node c s) (\<lambda>s.
      bnd (foldM (drop_mutex c) [0..<MUX_MAXNUM] s) (\<lambda>s.
      sched (upd_proc c (\<lambda>q. q\<lparr>p_state := ZOMBIE\<rparr>) s))))"

definition exit :: "'a ftab_scheme \<Rightarrow> 'a ftab_scheme res" where
  "exit s =
     bnd (myproc s) (\<lambda>c.
     if Some c = initproc s then panic ''init exiting''
     else
       bnd (foldM (close_fd c) [0..<NOFILE] s) (\<lambda>s.
       bnd (foldM (drop_shm c) [0..<SHM_MAXNUM] s) (\<lambda>s.
       bnd (begin_op s) (\<lambda>s.
       bnd (case p_cwd (procs s ! c) of None \<Rightarrow> fault ''iput'' | Some ip \<Rightarrow> iput ip s) (\<lambda>s.
       bnd (end_op s) (\<lambda>s.
       bnd (lock L_ptable (upd_proc c (\<lambda>q. q\<lparr>p_cwd := None\<rparr>) s)) (exit_finish c)))))))"

subsection \<open>Waiting for a child\<close>

definition reap :: "nat \<Rightarrow> 'a shmtab_scheme \<Rightarrow> (int \<times> 'a shmtab_scheme) res" where
  "reap p s =
     (let pid = p_pid (procs s ! p); cid = p_cid (procs s ! p) in
      bnd (kfree (p_kstack (procs s ! p)) s) (\<lambda>s.
      bnd (freevm (p_pgdir (procs s ! p)) (upd_proc p (\<lambda>q. q\<lparr>p_kstack := 0\<rparr>) s)) (\<lambda>s.
      let s = upd_proc p (\<lambda>q. q\<lparr>p_pid := 0, p_parent := None, p_name := [], p_killed := False, p_state := UNUSED, p_priority := -1\<rparr>) s in
      bnd (if cid \<ge> 0 then
             bnd (lock L_manager s) (\<lambda>s.
             bnd (aget (containers s) cid) (\<lambda>x.
             bnd (if c_active x > 0 then upd_con cid (\<lambda>x. x\<lparr>c_active := c_active x - 1\<rparr>) s else Ok s) (unlock L_manager)))
           else Ok s) (\<lambda>s.
      bnd (unlock L_ptable s) (\<lambda>s. Ok (pid, s))))))"

definition wait_loop :: "nat \<Rightarrow> 'a shmtab_scheme \<Rightarrow> (int option \<times> 'a shmtab_scheme) res" where
  "wait_loop c s =
     (case first_idx (\<lambda>q. p_parent q = Some c \<and> p_state q = ZOMBIE) (procs s) of
        Some p \<Rightarrow> bnd (reap p s) (\<lambda>(pid, s). Ok (Some pid, s))
      | None \<Rightarrow>
          if (\<forall>q \<in> set (procs s). p_parent q \<noteq> Some c) \<or> p_killed (procs s ! c)
          then bnd (unlock L_ptable s) (\<lambda>s. Ok (Some (-1), s))
          else bnd (sleep_out (Some (Ch_proc c)) L_ptable s) (\<lambda>s. Ok (None, s)))"

definition wait :: "'a shmtab_scheme \<Rightarrow> (int option \<times> 'a shmtab_scheme) res" where
  "wait s = bnd (myproc s) (\<lambda>c. bnd (lock L_ptable s) (wait_loop c))"

definition wait_resume :: "'a shmtab_scheme \<Rightarrow> (int option \<times> 'a shmtab_scheme) res" where
  "wait_resume s = bnd (myproc s) (\<lambda>c. bnd (sleep_in L_ptable s) (wait_loop c))"

subsection \<open>Waking processes\<close>

text \<open>\<open>woke s t\<close>: from \<open>s\<close> to \<open>t\<close> nothing of the process table and the run queue changed but that some sleeping processes are runnable.\<close>

definition woke :: "'a prioq_scheme \<Rightarrow> 'a prioq_scheme \<Rightarrow> bool" where
  "woke s t \<longleftrightarrow> length (procs t) = length (procs s) \<and> queue t = queue s \<and> cur t = cur s \<and> initproc t = initproc s \<and> held t = held s \<and> ncli t = ncli s \<and>
     (\<forall>q < length (procs s). procs t ! q = procs s ! q \<or> p_state (procs s ! q) = SLEEPING \<and> procs t ! q = (procs s ! q)\<lparr>p_state := RUNNABLE\<rparr>)"

definition waits_ok :: "'a ptable_scheme \<Rightarrow> bool" where
  "waits_ok s \<longleftrightarrow> (\<forall>q < length (procs s). \<forall>k < length (procs s).
     p_state (procs s ! q) = SLEEPING \<and> p_chan (procs s ! q) = Some (Ch_proc q) \<longrightarrow> \<not> (p_parent (procs s ! k) = Some q \<and> p_state (procs s ! k) = ZOMBIE))"

lemma woke_refl: "woke s s"
  by (simp add: woke_def)

lemma wokeD:
  assumes "woke s t" "q < length (procs s)"
  obtains "procs t ! q = procs s ! q" | "p_state (procs s ! q) = SLEEPING" "procs t ! q = (procs s ! q)\<lparr>p_state := RUNNABLE\<rparr>"
  using assms unfolding woke_def by blast

lemma woke_trans:
  assumes "woke s t" "woke t u"
  shows "woke s u"
proof -
  have "procs u ! q = procs s ! q \<or> p_state (procs s ! q) = SLEEPING \<and> procs u ! q = (procs s ! q)\<lparr>p_state := RUNNABLE\<rparr>" if q: "q < length (procs s)" for q
  proof -
    have q': "q < length (procs t)" using assms(1) q by (simp add: woke_def)
    show ?thesis by (rule wokeD [OF assms(1) q]; rule wokeD [OF assms(2) q']) simp_all
  qed
  then show ?thesis using assms by (simp add: woke_def)
qed

lemma woke_wakeup1: "woke s (wakeup1 ch s)"
  by (auto simp: woke_def Let_def) (simp_all add: wakeup1_def)

lemma woke_proc:
  assumes "woke s t" "q < length (procs s)"
  shows "p_parent (procs t ! q) = p_parent (procs s ! q)" "p_chan (procs t ! q) = p_chan (procs s ! q)" "p_priority (procs t ! q) = p_priority (procs s ! q)"
    "p_next (procs t ! q) = p_next (procs s ! q)" "p_pid (procs t ! q) = p_pid (procs s ! q)" "p_locks (procs t ! q) = p_locks (procs s ! q)"
    "p_state (procs t ! q) = p_state (procs s ! q) \<or> p_state (procs s ! q) = SLEEPING \<and> p_state (procs t ! q) = RUNNABLE"
  using assms unfolding woke_def by (auto dest!: spec [of _ q])

lemma woke_state:
  assumes "woke s t" "q < length (procs s)" "x = SLEEPING \<or> x = ZOMBIE" "p_state (procs t ! q) = x"
  shows "p_state (procs s ! q) = x"
  by (rule wokeD [OF assms(1,2)]) (use assms(3,4) in auto)

lemma woke_waits:
  assumes "woke s t" "waits_ok s"
  shows "waits_ok t"
  unfolding waits_ok_def
proof (intro allI impI notI)
  fix q k assume l: "q < length (procs t)" "k < length (procs t)"
    and h: "p_state (procs t ! q) = SLEEPING \<and> p_chan (procs t ! q) = Some (Ch_proc q)" "p_parent (procs t ! k) = Some q \<and> p_state (procs t ! k) = ZOMBIE"
  have l': "q < length (procs s)" "k < length (procs s)" using assms(1) l by (simp_all add: woke_def)
  have "p_state (procs s ! q) = SLEEPING" "p_chan (procs s ! q) = Some (Ch_proc q)" "p_parent (procs s ! k) = Some q" "p_state (procs s ! k) = ZOMBIE"
    using h woke_state [OF assms(1) l'(1), of SLEEPING] woke_state [OF assms(1) l'(2), of ZOMBIE] woke_proc(2) [OF assms(1) l'(1)] woke_proc(1) [OF assms(1) l'(2)] by simp_all
  then show False using assms(2) l' unfolding waits_ok_def by blast
qed

lemma woke_pq_ok:
  assumes "woke s t" "pq_ok s bs"
  shows "pq_ok t bs"
proof -
  have q: "x < length (procs s)" if "queued bs x" for x
    using assms(2) that by (auto simp: pq_ok_def pq_rep_def queued_def)
  have "pq_rep t bs"
  proof (rule pq_rep_cong)
    show "pq_rep s bs" using assms(2) by (simp add: pq_ok_def)
    show "queue t = queue s" "length (procs t) = length (procs s)" using assms(1) by (simp_all add: woke_def)
    show "nxt t x = nxt s x" if "x < length (procs s)" for x using woke_proc(4) [OF assms(1) that] by (simp add: nxt_def)
    show "p_priority (procs t ! x) = p_priority (procs s ! x)" if "queued bs x" for x by (rule woke_proc(3) [OF assms(1) q [OF that]])
  qed
  with assms show ?thesis by (simp add: pq_ok_def woke_def)
qed

subsection \<open>The end of a process\<close>

definition locks_ok :: "nat \<Rightarrow> 'a muxes_scheme \<Rightarrow> bool" where
  "locks_ok c s \<longleftrightarrow> c < length (procs s) \<and> length (p_locks (procs s ! c)) = MUX_MAXNUM \<and> (\<forall>g \<in> set (p_locks (procs s ! c)). g = -1 \<or> 0 \<le> g \<and> g < int (length (mutexes s)))"

lemma drop_mutex_woke:
  assumes "held s = [L_ptable]" "ncli s = 1" "locks_ok c s" "i < MUX_MAXNUM"
  shows "\<exists>t. drop_mutex c i s = Ok t \<and> woke s t \<and> locks_ok c t"
proof -
  let ?g = "p_locks (procs s ! c) ! i"
  have g: "aget (p_locks (procs s ! c)) (int i) = Ok ?g" "?g = -1 \<or> 0 \<le> ?g \<and> ?g < int (length (mutexes s))"
    using assms(3,4) by (simp_all add: locks_ok_def)
  let ?m = "upd_mux (nat ?g) (\<lambda>m. m\<lparr>mx_count := mx_count m - 1\<rparr>) s"
  have w: "woke s (wakeup1 ch ?m)" for ch using woke_wakeup1 [of ?m ch] by (simp add: woke_def upd_mux_def)
  have k: "locks_ok c t" if "woke s t" "length (mutexes t) = length (mutexes s)" for t
    using assms(3) that woke_proc(6) [OF that(1)] by (simp add: locks_ok_def woke_def)
  consider "?g = -1" | "?g \<noteq> -1" "\<not> owns_mutex c (nat ?g) ?m" | "?g \<noteq> -1" "owns_mutex c (nat ?g) ?m" by blast
  then show ?thesis
  proof cases
    case 1
    then show ?thesis using g assms(3) by (simp add: drop_mutex_def woke_refl)
  next
    case 2
    have "woke s ?m" by (simp add: woke_def upd_mux_def)
    then show ?thesis using g 2 k [of ?m] by (simp add: drop_mutex_def)
  next
    case 3
    let ?l = "L_muxslp (nat ?g)"
    let ?t = "put_sl ?l ((sleeplocks s ?l)\<lparr>sl_locked := False, sl_pid := 0\<rparr>) (wakeup1 (Some (Ch_sleeplock ?l)) ?m)"
    have "woke s ?t" using w [of "Some (Ch_sleeplock ?l)"] by (simp add: woke_def)
    moreover have "length (mutexes ?t) = length (mutexes s)" by (simp add: wakeup1_def)
    moreover have "drop_mutex c i s = Ok ?t"
      using g 3 assms(1,2) by (simp add: drop_mutex_def releasesleep_def wakeup_eval) (simp add: wakeup1_def)
    ultimately show ?thesis using k by blast
  qed
qed

lemma drop_mutexes_woke:
  assumes "held s = [L_ptable]" "ncli s = 1" "locks_ok c s" "set is \<subseteq> {..<MUX_MAXNUM}"
  shows "\<exists>t. foldM (drop_mutex c) is s = Ok t \<and> woke s t"
  using assms
proof (induction "is" arbitrary: s)
  case (Cons i "is")
  then obtain t where t: "drop_mutex c i s = Ok t" "woke s t" "locks_ok c t" using drop_mutex_woke [of s c i] by auto
  then have "held t = [L_ptable]" "ncli t = 1" using Cons.prems by (simp_all add: woke_def)
  then obtain u where "foldM (drop_mutex c) is t = Ok u" "woke t u" using Cons.IH [of t] Cons.prems(4) t(3) by auto
  then show ?case using t woke_trans by auto
qed (simp add: woke_refl)

text \<open>What \<open>exit\<close> does to another process: \<open>z\<close> says whether a zombie was handed over, \<open>b\<close> whether this process has been looked at.\<close>

definition handed :: "nat \<Rightarrow> nat \<Rightarrow> bool \<Rightarrow> bool \<Rightarrow> proc \<Rightarrow> proc" where
  "handed c i z b x =
     (let x = (if z \<and> p_state x = SLEEPING \<and> p_chan x = Some (Ch_proc i) then x\<lparr>p_state := RUNNABLE\<rparr> else x)
      in if b \<and> p_parent x = Some c then x\<lparr>p_parent := Some i\<rparr> else x)"

definition orphan_zombie :: "nat \<Rightarrow> 'a ptable_scheme \<Rightarrow> nat set \<Rightarrow> bool" where
  "orphan_zombie c s P \<longleftrightarrow> (\<exists>p \<in> P. p_parent (procs s ! p) = Some c \<and> p_state (procs s ! p) = ZOMBIE)"

lemma foldl_reparent:
  assumes "initproc s = Some i" "i \<noteq> c" "set ps \<subseteq> {..<length (procs s)}" "distinct ps"
  shows "foldl (\<lambda>s p. reparent c p s) s ps =
    s\<lparr>procs := map (\<lambda>q. handed c i (orphan_zombie c s (set ps)) (q \<in> set ps) (procs s ! q)) [0..<length (procs s)]\<rparr>"
  using assms(3,4)
proof (induction ps rule: rev_induct)
  case Nil
  have "map (\<lambda>q. handed c i False False (procs s ! q)) [0..<length (procs s)] = procs s" by (simp add: handed_def map_nth)
  then show ?case by (simp add: orphan_zombie_def)
next
  case (snoc p ps)
  let ?t = "s\<lparr>procs := map (\<lambda>q. handed c i (orphan_zombie c s (set ps)) (q \<in> set ps) (procs s ! q)) [0..<length (procs s)]\<rparr>"
  have IH: "foldl (\<lambda>s p. reparent c p s) s ps = ?t" using snoc by simp
  have p: "p < length (procs s)" "p \<notin> set ps" using snoc.prems by simp_all
  have pp: "procs ?t ! p = handed c i (orphan_zombie c s (set ps)) False (procs s ! p)" using p by simp
  have q: "p_parent (procs ?t ! p) = p_parent (procs s ! p)" "p_state (procs ?t ! p) = ZOMBIE \<longleftrightarrow> p_state (procs s ! p) = ZOMBIE"
    unfolding pp by (auto simp: handed_def Let_def)
  have oz: "orphan_zombie c s (insert p (set ps)) \<longleftrightarrow> orphan_zombie c s (set ps) \<or> p_parent (procs s ! p) = Some c \<and> p_state (procs s ! p) = ZOMBIE"
    by (auto simp: orphan_zombie_def)
  have "reparent c p ?t = s\<lparr>procs := map (\<lambda>q. handed c i (orphan_zombie c s (insert p (set ps))) (q \<in> insert p (set ps)) (procs s ! q)) [0..<length (procs s)]\<rparr>"
  proof (cases "p_parent (procs s ! p) = Some c")
    case False
    then have "reparent c p ?t = ?t" using q(1) unfolding reparent_def by (simp only: if_False)
    moreover have "handed c i z (b = p \<or> b \<in> set ps) (procs s ! b) = handed c i z (b \<in> set ps) (procs s ! b)" for z b
      using False by (cases "b = p") (auto simp: handed_def Let_def)
    ultimately show ?thesis using False oz by simp
  next
    case True
    have ip: "initproc ?t = Some i" using assms(1) by simp
    let ?z = "p_state (procs s ! p) = ZOMBIE" and ?u = "upd_proc p (\<lambda>q. q\<lparr>p_parent := Some i\<rparr>) ?t"
    have zu: "p_state (procs ?u ! p) = ZOMBIE \<longleftrightarrow> ?z" using p(1) q(2) by simp
    have r: "reparent c p ?t = (if ?z then wakeup1 (Some (Ch_proc i)) ?u else ?u)"
      using True q(1) ip zu unfolding reparent_def Let_def by (simp only: simp_thms if_True option.map upd_proc_simps)
    have u: "procs ?u = map (\<lambda>b. handed c i (orphan_zombie c s (set ps)) (b \<in> insert p (set ps)) (procs s ! b)) [0..<length (procs s)]"
    proof (rule nth_equalityI)
      fix b assume "b < length (procs ?u)"
      then show "procs ?u ! b = map (\<lambda>b. handed c i (orphan_zombie c s (set ps)) (b \<in> insert p (set ps)) (procs s ! b)) [0..<length (procs s)] ! b"
        using p True by (cases "b = p") (simp_all add: upd_proc_nth, simp add: handed_def Let_def)
    qed simp
    have h: "(let x = handed c i z b y in if p_state x = SLEEPING \<and> p_chan x = Some (Ch_proc i) then x\<lparr>p_state := RUNNABLE\<rparr> else x) = handed c i True b y" for z b y
      by (cases z; cases b; cases "p_parent y = Some c"; cases "p_state y = SLEEPING \<and> p_chan y = Some (Ch_proc i)") (auto simp: handed_def Let_def)
    have "procs (reparent c p ?t) = map (\<lambda>b. handed c i (orphan_zombie c s (insert p (set ps))) (b \<in> insert p (set ps)) (procs s ! b)) [0..<length (procs s)]"
    proof (cases ?z)
      case True
      then have "procs (reparent c p ?t) = map (\<lambda>x. if p_state x = SLEEPING \<and> p_chan x = Some (Ch_proc i) then x\<lparr>p_state := RUNNABLE\<rparr> else x) (procs ?u)"
        unfolding r by (simp add: wakeup1_def)
      then show ?thesis unfolding u using True \<open>p_parent (procs s ! p) = Some c\<close> by (simp add: oz o_def h [unfolded Let_def])
    next
      case False
      then show ?thesis unfolding r using u oz by simp
    qed
    moreover have "reparent c p ?t = s\<lparr>procs := procs (reparent c p ?t)\<rparr>"
      unfolding r by (simp add: wakeup1_def upd_proc_def)
    ultimately show ?thesis by simp
  qed
  then show ?case using IH by simp
qed

lemma handed_fields:
  "p_parent (handed c i z b x) = (if b \<and> p_parent x = Some c then Some i else p_parent x)" "p_chan (handed c i z b x) = p_chan x" "p_priority (handed c i z b x) = p_priority x"
  "p_next (handed c i z b x) = p_next x" "p_pid (handed c i z b x) = p_pid x" "p_locks (handed c i z b x) = p_locks x"
  "p_state (handed c i z b x) = (if z \<and> p_state x = SLEEPING \<and> p_chan x = Some (Ch_proc i) then RUNNABLE else p_state x)"
  by (auto simp: handed_def Let_def)

text \<open>The process table after the parent has been woken and the children handed over.\<close>

definition orphaned :: "nat \<Rightarrow> 'a ptable_scheme \<Rightarrow> 'a ptable_scheme" where
  "orphaned c s = (let s = wakeup1 (map_option Ch_proc (p_parent (procs s ! c))) s in foldl (\<lambda>s p. reparent c p s) s [0..<length (procs s)])"

lemma orphaned_procs:
  assumes "initproc s = Some i" "i \<noteq> c" "q < length (procs s)"
  shows "procs (orphaned c s) ! q = (let t = wakeup1 (map_option Ch_proc (p_parent (procs s ! c))) s in handed c i (orphan_zombie c t {..<length (procs s)}) True (procs t ! q))"
    "\<exists>ps. orphaned c s = s\<lparr>procs := ps\<rparr> \<and> length ps = length (procs s)"
proof -
  let ?t = "wakeup1 (map_option Ch_proc (p_parent (procs s ! c))) s"
  have i: "initproc ?t = Some i" using assms(1) by (simp add: wakeup1_def)
  have "orphaned c s = ?t\<lparr>procs := map (\<lambda>q. handed c i (orphan_zombie c ?t (set [0..<length (procs ?t)])) (q \<in> set [0..<length (procs ?t)]) (procs ?t ! q)) [0..<length (procs ?t)]\<rparr>"
    unfolding orphaned_def Let_def by (rule foldl_reparent [OF i assms(2)]) auto
  then have e: "orphaned c s = ?t\<lparr>procs := map (\<lambda>q. handed c i (orphan_zombie c ?t {..<length (procs s)}) True (procs ?t ! q)) [0..<length (procs s)]\<rparr>"
    by (simp add: atLeast0LessThan)
  show "procs (orphaned c s) ! q = (let t = ?t in handed c i (orphan_zombie c t {..<length (procs s)}) True (procs t ! q))"
    unfolding e Let_def using assms(3) by simp
  show "\<exists>ps. orphaned c s = s\<lparr>procs := ps\<rparr> \<and> length ps = length (procs s)"
    unfolding e by (rule exI [of _ "procs (orphaned c s)"]) (simp add: e, simp add: wakeup1_def)
qed

lemma orphaned_fields:
  assumes "initproc s = Some i" "i \<noteq> c" "q < length (procs s)"
  shows "p_parent (procs (orphaned c s) ! q) = (if p_parent (procs s ! q) = Some c then Some i else p_parent (procs s ! q))"
    "p_chan (procs (orphaned c s) ! q) = p_chan (procs s ! q)" "p_priority (procs (orphaned c s) ! q) = p_priority (procs s ! q)"
    "p_next (procs (orphaned c s) ! q) = p_next (procs s ! q)" "p_pid (procs (orphaned c s) ! q) = p_pid (procs s ! q)" "p_locks (procs (orphaned c s) ! q) = p_locks (procs s ! q)"
    "p_state (procs (orphaned c s) ! q) =
      (if p_state (procs s ! q) = SLEEPING \<and> (p_chan (procs s ! q) = map_option Ch_proc (p_parent (procs s ! c)) \<or> p_chan (procs s ! q) = Some (Ch_proc i) \<and> orphan_zombie c s {..<length (procs s)})
       then RUNNABLE else p_state (procs s ! q))"
proof -
  let ?t = "wakeup1 (map_option Ch_proc (p_parent (procs s ! c))) s"
  have oz: "orphan_zombie c ?t {..<length (procs s)} \<longleftrightarrow> orphan_zombie c s {..<length (procs s)}"
    unfolding orphan_zombie_def by (intro bex_cong refl) (auto simp: Let_def)
  note e = orphaned_procs(1) [OF assms, unfolded Let_def oz]
  show "p_parent (procs (orphaned c s) ! q) = (if p_parent (procs s ! q) = Some c then Some i else p_parent (procs s ! q))"
    "p_chan (procs (orphaned c s) ! q) = p_chan (procs s ! q)" "p_priority (procs (orphaned c s) ! q) = p_priority (procs s ! q)"
    "p_next (procs (orphaned c s) ! q) = p_next (procs s ! q)" "p_pid (procs (orphaned c s) ! q) = p_pid (procs s ! q)" "p_locks (procs (orphaned c s) ! q) = p_locks (procs s ! q)"
    using assms(3) by (simp_all add: e handed_fields Let_def)
  show "p_state (procs (orphaned c s) ! q) =
      (if p_state (procs s ! q) = SLEEPING \<and> (p_chan (procs s ! q) = map_option Ch_proc (p_parent (procs s ! c)) \<or> p_chan (procs s ! q) = Some (Ch_proc i) \<and> orphan_zombie c s {..<length (procs s)})
       then RUNNABLE else p_state (procs s ! q))"
    using assms(3) by (auto simp: e handed_fields Let_def)
qed

lemma orphaned_pq_ok:
  assumes "pq_ok s bs" "initproc s = Some i" "i \<noteq> c" "c < length (procs s)"
  shows "pq_ok (orphaned c s) bs"
proof -
  obtain ps where ps: "orphaned c s = s\<lparr>procs := ps\<rparr>" "length ps = length (procs s)" using orphaned_procs(2) [OF assms(2-4)] by blast
  have q: "x < length (procs s)" if "queued bs x" for x
    using assms(1) that by (auto simp: pq_ok_def pq_rep_def queued_def)
  have "pq_rep (orphaned c s) bs"
  proof (rule pq_rep_cong)
    show "pq_rep s bs" using assms(1) by (simp add: pq_ok_def)
    show "nxt (orphaned c s) x = nxt s x" if "x < length (procs s)" for x using orphaned_fields(4) [OF assms(2,3) that] by (simp add: nxt_def)
    show "p_priority (procs (orphaned c s) ! x) = p_priority (procs s ! x)" if "queued bs x" for x by (rule orphaned_fields(3) [OF assms(2,3) q [OF that]])
  qed (use ps in simp_all)
  with assms(1) ps show ?thesis by (simp add: pq_ok_def)
qed

text \<open>The relation between the process table before and after the end of process \<open>c\<close>.\<close>

definition ended :: "nat \<Rightarrow> nat \<Rightarrow> 'a ptable_scheme \<Rightarrow> 'a ptable_scheme \<Rightarrow> bool" where
  "ended c i s t \<longleftrightarrow> length (procs t) = length (procs s) \<and> p_state (procs t ! c) = ZOMBIE \<and>
     (\<forall>q < length (procs s). p_chan (procs t ! q) = p_chan (procs s ! q) \<and> p_pid (procs t ! q) = p_pid (procs s ! q) \<and>
        p_parent (procs t ! q) = (if p_parent (procs s ! q) = Some c then Some i else p_parent (procs s ! q)) \<and>
        (q \<noteq> c \<longrightarrow> p_state (procs t ! q) = p_state (procs s ! q) \<or> p_state (procs s ! q) = SLEEPING \<and> p_state (procs t ! q) = RUNNABLE) \<and>
        (p_state (procs s ! q) = SLEEPING \<and> p_chan (procs s ! q) = map_option Ch_proc (p_parent (procs s ! c)) \<longrightarrow> p_state (procs t ! q) \<noteq> SLEEPING) \<and>
        (p_state (procs s ! q) = SLEEPING \<and> p_chan (procs s ! q) = Some (Ch_proc i) \<and> orphan_zombie c s {..<length (procs s)} \<longrightarrow> p_state (procs t ! q) \<noteq> SLEEPING))"

lemma ended_waits:
  assumes "ended c i s t" "waits_ok s" "c < length (procs s)" "p_parent (procs s ! c) \<noteq> Some c"
  shows "waits_ok t"
  unfolding waits_ok_def
proof (intro allI impI notI)
  fix q k assume l: "q < length (procs t)" "k < length (procs t)"
    and h: "p_state (procs t ! q) = SLEEPING \<and> p_chan (procs t ! q) = Some (Ch_proc q)" "p_parent (procs t ! k) = Some q \<and> p_state (procs t ! k) = ZOMBIE"
  have l': "q < length (procs s)" "k < length (procs s)" and z: "p_state (procs t ! c) = ZOMBIE" using assms(1) l by (simp_all add: ended_def)
  have "q \<noteq> c" using h z by auto
  note q = assms(1) [unfolded ended_def, THEN conjunct2, THEN conjunct2, rule_format, OF l'(1)]
  note k = assms(1) [unfolded ended_def, THEN conjunct2, THEN conjunct2, rule_format, OF l'(2)]
  have sq: "p_state (procs s ! q) = SLEEPING" "p_chan (procs s ! q) = Some (Ch_proc q)" using q h \<open>q \<noteq> c\<close> by auto
  have np: "p_parent (procs s ! c) \<noteq> Some q" "q = i \<Longrightarrow> \<not> orphan_zombie c s {..<length (procs s)}" using q h sq by auto
  have kc: "k \<noteq> c"
  proof
    assume "k = c"
    then show False using k h assms(4) np(1) by simp
  qed
  then have zk: "p_state (procs s ! k) = ZOMBIE" using k h by auto
  show False
  proof (cases "p_parent (procs s ! k) = Some c")
    case True
    then have "q = i" "orphan_zombie c s {..<length (procs s)}" using k h zk l'(2) by (auto simp: orphan_zombie_def)
    then show False using np(2) by blast
  next
    case False
    then have "p_parent (procs s ! k) = Some q" using k h by simp
    then show False using assms(2) l' sq zk unfolding waits_ok_def by blast
  qed
qed

lemma exit_finish_ended:
  assumes "pq_ok s bs" "cur s = Some c" "c < length (procs s)" "initproc s = Some i" "i \<noteq> c" "held s = [L_ptable]" "ncli s = 1" "locks_ok c s" "p_state (procs s ! c) = RUNNING"
    "b < PRIO_MAX" "c \<in> set (bs ! b)" "\<forall>q \<in> set (bs ! b). p_pid (procs s ! q) = p_pid (procs s ! c) \<longrightarrow> q = c"
  shows "\<exists>t. exit_finish c s = Ok t \<and> ended c i s t \<and> pq_ok t (bs[b := remove1 c (bs ! b)])"
proof -
  let ?s = "orphaned c s"
  note f = orphaned_fields [OF assms(4,5)]
  obtain ps where ps: "?s = s\<lparr>procs := ps\<rparr>" "length ps = length (procs s)" using orphaned_procs(2) [OF assms(4,5,3)] by blast
  have pq: "pq_ok ?s bs" using assms by (intro orphaned_pq_ok) auto
  have in_b: "q < length (procs s)" if "q \<in> set (bs ! b)" for q using assms(1,10) that by (auto simp: pq_ok_def pq_rep_def)
  obtain u where u: "remove_node c ?s = Ok u" "pq_rep u (bs[b := remove1 c (bs ! b)])" "only_links ?s u"
    using remove_links [of ?s bs b c] pq assms(10-12) f(5) in_b assms(3) unfolding pq_ok_def by auto
  note lf = only_links_field [OF u(3)]
  have uh: "held u = [L_ptable]" "ncli u = 1" "length (procs u) = length (procs s)" "cur u = Some c" using lf ps assms(2,6,7) by simp_all
  have up: "p_state (procs u ! q) = p_state (procs ?s ! q)" "p_pid (procs u ! q) = p_pid (procs ?s ! q)" "p_parent (procs u ! q) = p_parent (procs ?s ! q)"
      "p_chan (procs u ! q) = p_chan (procs ?s ! q)" "p_locks (procs u ! q) = p_locks (procs ?s ! q)" if "q < length (procs s)" for q
    using that ps arg_cong [OF lf(8), of q p_chan] arg_cong [OF lf(8), of q p_locks] only_links_proc(1,2,4) [OF u(3), of q] by simp_all
  have "locks_ok c u" using assms(3,8) up(5) [OF assms(3)] f(6) [OF assms(3)] uh(3) u(3) ps(1) by (auto simp: locks_ok_def only_links_def)
  then obtain v where v: "foldM (drop_mutex c) [0..<MUX_MAXNUM] u = Ok v" "woke u v" using drop_mutexes_woke [OF uh(1,2), of c "[0..<MUX_MAXNUM]"] by (auto simp: atLeast0LessThan)
  have vh: "held v = [L_ptable]" "ncli v = 1" "length (procs v) = length (procs s)" "cur v = Some c" using v(2) uh by (simp_all add: woke_def)
  let ?t = "upd_proc c (\<lambda>q. q\<lparr>p_state := ZOMBIE\<rparr>) v"
  have "exit_finish c s = Ok ?t"
    using u(1) v(1) vh assms(3) unfolding exit_finish_def Let_def orphaned_def by (simp add: sched_def myproc_def)
  moreover have "ended c i s ?t"
    unfolding ended_def
  proof (intro conjI allI impI, goal_cases)
    case (6 q)
    then show ?case using woke_proc(7) [OF v(2), of q] up(1) [of q] f(7) [of q] uh(3) by (simp split: if_splits)
  next
    case (7 q)
    then show ?case using woke_proc(7) [OF v(2), of q] up(1) [of q] f(7) [of q] uh(3) vh(3) by (cases "q = c") (simp_all split: if_splits)
  next
    case (8 q)
    then show ?case using woke_proc(7) [OF v(2), of q] up(1) [of q] f(7) [of q] uh(3) vh(3) by (cases "q = c") (simp_all split: if_splits)
  qed (use assms(3) vh(3) uh(3) up f woke_proc [OF v(2)] in \<open>simp_all add: upd_proc_keep\<close>)
  moreover have "pq_ok ?t (bs[b := remove1 c (bs ! b)])"
  proof -
    have "pq_ok v (bs[b := remove1 c (bs ! b)])" using u(2) uh(1) by (intro woke_pq_ok [OF v(2)]) (simp add: pq_ok_def)
    then show ?thesis
      unfolding pq_ok_def by (auto intro!: pq_rep_cong [of v] simp: nxt_def upd_proc_keep)
  qed
  ultimately show ?thesis by blast
qed


text \<open>The shell 2 waits for its child 3, which is about to end and has itself a zombie child; the first process waits too.\<close>

definition demo_exit :: muxes where
  "demo_exit = demo_mux\<lparr>held := [L_ptable], ncli := 1, cur := Some 2,
     procs := [(mkproc 1 SLEEPING 0 None None)\<lparr>p_chan := Some (Ch_proc 0)\<rparr>, (mkproc 2 SLEEPING 5 (Some 0) (Some 2))\<lparr>p_chan := Some (Ch_proc 1)\<rparr>,
       mkproc 3 RUNNING 5 (Some 1) None, mkproc 4 ZOMBIE (-1) (Some 2) None]\<rparr>"

lemma demo_exit_simps:
  "held demo_exit = [L_ptable]" "ncli demo_exit = 1" "cur demo_exit = Some 2" "initproc demo_exit = Some 0" "queue demo_exit = queue demo_pq" "length (mutexes demo_exit) = MUX_MAXNUM"
  "procs demo_exit = [(mkproc 1 SLEEPING 0 None None)\<lparr>p_chan := Some (Ch_proc 0)\<rparr>, (mkproc 2 SLEEPING 5 (Some 0) (Some 2))\<lparr>p_chan := Some (Ch_proc 1)\<rparr>,
       mkproc 3 RUNNING 5 (Some 1) None, mkproc 4 ZOMBIE (-1) (Some 2) None]"
  by (simp_all add: demo_exit_def demo_mux_def demo_conts_def demo_pq_def)

lemma demo_exit_ok: "pq_ok demo_exit demo_bs" "waits_ok demo_exit" "locks_ok 2 demo_exit"
proof -
  show "pq_ok demo_exit demo_bs"
    unfolding pq_ok_def pq_rep_def PRIO_MAX_def
    by (simp add: demo_exit_simps demo_pq_def demo_bs_def mkproc_def nxt_def queued_def numeral_eq_Suc All_less_Suc)
  show "waits_ok demo_exit" "locks_ok 2 demo_exit"
    by (simp_all add: waits_ok_def locks_ok_def demo_exit_simps mkproc_def MUX_MAXNUM_def numeral_eq_Suc All_less_Suc)
qed


subsection \<open>A fork that fails\<close>

text \<open>
  Out of memory for the kernel stack, \<open>fork2\<close> returns -1 and leaves every process as it was but for the identifier of the unused slot, yet
  the count of active processes of the container has grown by one. No process accounts for it, so nothing takes it back.
\<close>

theorem failed_fork_counts:
  assumes "held s = []" "freelist s = 0" "cur s = Some c" "first_idx (\<lambda>q. p_state q = UNUSED) (procs s) = Some p" "nextpid s \<noteq> 1"
    "0 \<le> cid" "cid < int (length (containers s))" "\<not> (c_alive (containers s ! nat cid) = 1 \<and> c_max_proc (containers s ! nat cid) + 1 < c_active (containers s ! nat cid))"
  shows "\<exists>s'. fork2 trapret fret cid s = Ok (-1, s') \<and> c_active (containers s' ! nat cid) = c_active (containers s ! nat cid) + 1 \<and>
    (\<forall>q < length (procs s). p_state (procs s' ! q) = p_state (procs s ! q)) \<and> held s' = [] \<and> freelist s' = 0"
proof -
  have p: "p < length (procs s)" "p_state (procs s ! p) = UNUSED" using assms(4) by (auto simp: first_idx_Some)
  let ?s1 = "s\<lparr>containers := (containers s)[nat cid := (containers s ! nat cid)\<lparr>c_next_proc := int p, c_active := c_active (containers s ! nat cid) + 1\<rparr>]\<rparr>"
  let ?s2 = "(upd_proc p (\<lambda>q. q\<lparr>p_state := EMBRYO, p_pid := nextpid s\<rparr>) ?s1)\<lparr>nextpid := nextpid s + 1\<rparr>"
  let ?s3 = "upd_proc p (\<lambda>q. q\<lparr>p_state := UNUSED\<rparr>) (upd_proc p (\<lambda>q. q\<lparr>p_kstack := 0\<rparr>) ?s2)"
  have "setnextproc cid (int p) (s\<lparr>held := [L_ptable], ncli := Suc (ncli s)\<rparr>) = Ok (1, ?s1\<lparr>held := [L_ptable], ncli := Suc (ncli s)\<rparr>)"
    using assms(6-8) by (simp add: setnextproc_def upd_con_def)
  then have "allocproc trapret fret cid s = Ok (None, ?s3)"
    using assms(1-5) p by (simp add: allocproc_def kalloc_eval) (simp add: upd_proc_def held_nil)
  then have "fork2 trapret fret cid s = Ok (-1, ?s3)" using assms(3) by (simp add: fork2_def myproc_def)
  moreover have "c_active (containers ?s3 ! nat cid) = c_active (containers s ! nat cid) + 1" using assms(6,7) by simp
  moreover have "p_state (procs ?s3 ! q) = p_state (procs s ! q)" if "q < length (procs s)" for q using that p by (cases "q = p") simp_all
  ultimately show ?thesis using assms(1,2) by auto
qed

end
