(* ===== verification/Syscall.thy ===== *)
theory Syscall
  imports Lifecycle
begin

text \<open>
  How a system call gets at its arguments (\<^verbatim>\<open>syscall.c\<close>). The kernel runs with the page table of the process loaded, so it
  reads and writes the memory of the process at the addresses the process uses: \<open>uaddr\<close> is the translation the processor makes with the table
  \<open>cr3\<close> points to, and a page that is not there is a fault, as the kernel has no handler for one. The saved user stack pointer is at offset 68 of the trap frame, \<open>eax\<close>
  at offset 28. A fetched string is given with its address.

  Shown: with every page below the size of the process in place, fetching arguments never faults, whatever the process put on its stack or passed as a pointer, and
  what is accepted lies inside the process.
\<close>

subsection \<open>The memory of the process\<close>

definition uaddr :: "u32 \<Rightarrow> 'a ptable_scheme \<Rightarrow> u32 res" where
  "uaddr va s =
     (let e = pte (mem s) (P2V (cr3 s)) va in
      if present e then Ok (P2V (PTE_ADDR e) + va mod PGSIZE) else fault ''page fault'')"

definition uload :: "u32 \<Rightarrow> 'a ptable_scheme \<Rightarrow> byte res" where
  "uload va s = bnd (uaddr va s) (\<lambda>a. Ok (mem s a))"

definition ustore :: "u32 \<Rightarrow> byte \<Rightarrow> 'a ptable_scheme \<Rightarrow> 'a ptable_scheme res" where
  "ustore va b s = bnd (uaddr va s) (\<lambda>a. Ok (s\<lparr>mem := (mem s)(a := b)\<rparr>))"

primrec uread :: "u32 \<Rightarrow> nat \<Rightarrow> 'a ptable_scheme \<Rightarrow> byte list res" where
  "uread va 0 s = Ok []"
| "uread va (Suc n) s = bnd (uload va s) (\<lambda>b. bnd (uread (va + 1) n s) (\<lambda>bs. Ok (b # bs)))"

fun uwrite :: "u32 \<Rightarrow> byte list \<Rightarrow> 'a ptable_scheme \<Rightarrow> 'a ptable_scheme res" where
  "uwrite va [] s = Ok s"
| "uwrite va (b # bs) s = bnd (ustore va b s) (uwrite (va + 1) bs)"

definition of_bytes :: "byte list \<Rightarrow> u32" where
  "of_bytes bs = foldr (\<lambda>b w. ucast b + 256 * w) bs 0"

definition to_bytes :: "u32 \<Rightarrow> byte list" where
  "to_bytes w = [ucast w, ucast (drop_bit 8 w), ucast (drop_bit 16 w), ucast (drop_bit 24 w)]"

subsection \<open>Fetching arguments\<close>

definition fetchint :: "u32 \<Rightarrow> 'a ptable_scheme \<Rightarrow> int option res" where
  "fetchint addr s =
     bnd (myproc s) (\<lambda>p.
     if addr \<ge> p_sz (procs s ! p) \<or> addr + 4 > p_sz (procs s ! p) then Ok None
     else bnd (uread addr 4 s) (\<lambda>bs. Ok (Some (sint (of_bytes bs)))))"

function fetchstr_loop :: "u32 \<Rightarrow> u32 \<Rightarrow> 'a ptable_scheme \<Rightarrow> string option res" where
  "fetchstr_loop a ep s =
     (if a < ep then
        bnd (uload a s) (\<lambda>b.
        if b = 0 then Ok (Some [])
        else bnd (fetchstr_loop (a + 1) ep s) (\<lambda>r. Ok (map_option ((#) (char_of (unat b))) r)))
      else Ok None)"
  by pat_completeness auto
termination
proof (relation "measure (\<lambda>(a, ep, s). unat (ep - a))")
  fix a ep :: u32 and s b assume "a < ep"
  then have "ep - a - 1 = ep - (a + 1)" "ep - a \<noteq> 0" by auto
  then show "((a + 1, ep, s), a, ep, s :: 'a ptable_scheme) \<in> measure (\<lambda>(a, ep, s). unat (ep - a))" using measure_unat [of "ep - a"] by (simp add: diff_diff_eq)
qed simp

definition fetchstr :: "u32 \<Rightarrow> 'a ptable_scheme \<Rightarrow> (u32 \<times> string) option res" where
  "fetchstr addr s =
     bnd (myproc s) (\<lambda>p.
     if addr \<ge> p_sz (procs s ! p) then Ok None
     else bnd (fetchstr_loop addr (p_sz (procs s ! p)) s) (\<lambda>r. Ok (map_option (Pair addr) r)))"

definition argint :: "nat \<Rightarrow> 'a ptable_scheme \<Rightarrow> int option res" where
  "argint n s = bnd (myproc s) (\<lambda>p. fetchint (ld32 (mem s) (p_tf (procs s ! p) + 68) + 4 + 4 * of_nat n) s)"

definition argptr :: "nat \<Rightarrow> int \<Rightarrow> 'a ptable_scheme \<Rightarrow> u32 option res" where
  "argptr n sz s =
     bnd (myproc s) (\<lambda>p.
     bnd (argint n s) (\<lambda>r.
     case r of None \<Rightarrow> Ok None | Some i \<Rightarrow>
       if sz < 0 \<or> word_of_int i \<ge> p_sz (procs s ! p) \<or> word_of_int i + word_of_int sz > p_sz (procs s ! p) then Ok None
       else Ok (Some (word_of_int i))))"

definition argstr :: "nat \<Rightarrow> 'a ptable_scheme \<Rightarrow> (u32 \<times> string) option res" where
  "argstr n s = bnd (argint n s) (\<lambda>r. case r of None \<Rightarrow> Ok None | Some a \<Rightarrow> fetchstr (word_of_int a) s)"

declare fetchstr_loop.simps [simp del]

subsection \<open>Safety of the fetch\<close>

definition mapped :: "u32 \<Rightarrow> 'a ptable_scheme \<Rightarrow> bool" where
  "mapped va s \<longleftrightarrow> present (pte (mem s) (P2V (cr3 s)) va)"

lemma uload_mapped: "mapped va s \<Longrightarrow> \<exists>b. uload va s = Ok b"
  by (simp add: uload_def uaddr_def mapped_def Let_def)

lemma uread_mapped:
  assumes "\<And>i. i < n \<Longrightarrow> mapped (va + of_nat i) s"
  shows "\<exists>bs. uread va n s = Ok bs \<and> length bs = n"
  using assms
proof (induction n arbitrary: va)
  case (Suc n)
  have "mapped (va + 1 + of_nat i) s" if "i < n" for i using Suc.prems [of "Suc i"] that by (simp add: algebra_simps)
  then obtain bs where "uread (va + 1) n s = Ok bs" "length bs = n" using Suc.IH by blast
  then show ?case using uload_mapped [of va s] Suc.prems [of 0] by auto
qed simp

text \<open>The bytes of the string \<open>x\<close> at \<open>a\<close>, with its terminator, as the processor reads them.\<close>

definition utext :: "u32 \<Rightarrow> string \<Rightarrow> 'a ptable_scheme \<Rightarrow> bool" where
  "utext a x s \<longleftrightarrow> uread a (Suc (length x)) s = Ok (bytes x @ [0]) \<and> NUL \<notin> set x"

lemma byte_char: "word_of_nat (of_char (char_of (unat (b :: byte)))) = b"
proof -
  have "unat b < 256" using unsigned_less [of b, where ?'a = nat] by simp
  then show ?thesis by (simp add: of_char_of)
qed

lemma char_nul: "char_of (unat (b :: byte)) = NUL \<longleftrightarrow> b = 0"
proof
  assume "char_of (unat b) = NUL"
  then have "(word_of_nat (of_char (char_of (unat b))) :: byte) = 0" by simp
  then show "b = 0" by (simp only: byte_char)
qed (use char_of_char [of NUL, where ?'a = nat] in simp)

lemma fetchstr_loop_ok:
  assumes "\<And>va. a \<le> va \<Longrightarrow> va < ep \<Longrightarrow> mapped va s"
  shows "\<exists>r. fetchstr_loop a ep s = Ok r \<and>
    (case r of None \<Rightarrow> \<forall>va. a \<le> va \<and> va < ep \<longrightarrow> uload va s \<noteq> Ok 0 | Some x \<Rightarrow> unat a + length x < unat ep \<and> utext a x s)"
  using assms
proof (induction a ep s rule: fetchstr_loop.induct)
  case (1 a ep s)
  show ?case
  proof (cases "a < ep")
    case False
    then show ?thesis by (subst fetchstr_loop.simps) auto
  next
    case True
    then obtain b where b: "uload a s = Ok b" using 1(2) uload_mapped by blast
    have "unat a < unat ep" "unat ep < 2 ^ 32" using True unsigned_less [of ep, where ?'a = nat] by (simp_all add: word_less_nat_alt)
    then have a1: "unat (a + 1) = Suc (unat a)" by (simp add: unat_word_ariths)
    show ?thesis
    proof (cases "b = 0")
      case True
      then show ?thesis using b \<open>a < ep\<close> by (subst fetchstr_loop.simps) (simp add: utext_def bytes_def word_less_nat_alt)
    next
      case False
      have "mapped va s" if "a + 1 \<le> va" "va < ep" for va using 1(2) that a1 by (simp add: word_le_nat_alt)
      then obtain r where r: "fetchstr_loop (a + 1) ep s = Ok r"
          "case r of None \<Rightarrow> \<forall>va. a + 1 \<le> va \<and> va < ep \<longrightarrow> uload va s \<noteq> Ok 0 | Some x \<Rightarrow> unat (a + 1) + length x < unat ep \<and> utext (a + 1) x s"
        using 1(1) [OF True b False] by blast
      have e: "fetchstr_loop a ep s = Ok (map_option ((#) (char_of (unat b))) r)"
        using True False b r(1) by (subst fetchstr_loop.simps) simp
      have n: "uload va s \<noteq> Ok 0" if "r = None" "a \<le> va" "va < ep" for va
      proof (cases "va = a")
        case True
        then show ?thesis using b False by simp
      next
        case neq: False
        then have "unat a \<noteq> unat va" by (simp add: word_unat_eq_iff)
        then have "a + 1 \<le> va" using that(2) a1 by (simp add: word_le_nat_alt)
        then show ?thesis using that r(2) by simp
      qed
      show ?thesis
        using r(2) e n b False a1 char_nul [of b] byte_char [of b] by (cases r) (auto simp: utext_def bytes_def)
    qed
  qed
qed

text \<open>
  C10: Fetching the arguments of a system call is safe for every input. If every page below the size of the running process is in place and
  the process lies below the kernel, then \<open>argint\<close>, \<open>argptr\<close> and \<open>argstr\<close> return, whatever the saved stack pointer and the words on the stack are: the kernel does not touch a page
  that is not there. A pointer \<open>argptr\<close> accepts for \<open>k\<close> bytes, \<open>k\<close> a 32-bit signed number, denotes \<open>k\<close> bytes inside the process, with no wrap-around, and a string \<open>argstr\<close> accepts lies
  with its terminator inside the process and is what the processor reads there; a string is refused only
  if its address is outside or no terminator follows inside the process.
\<close>

theorem args_stay_inside:
  assumes "cur s = Some p" "\<forall>va < p_sz (procs s ! p). mapped va s" "p_sz (procs s ! p) \<le> KERNBASE" "k < 2 ^ 31"
  shows "(\<exists>r. argint n s = Ok r) \<and>
    (\<exists>r. argptr n k s = Ok r \<and> (\<forall>a. r = Some a \<longrightarrow> 0 \<le> k \<and> unat a + nat k \<le> unat (p_sz (procs s ! p)))) \<and>
    (\<exists>r. fetchstr a s = Ok r \<and> (case r of None \<Rightarrow> \<forall>va. a \<le> va \<and> va < p_sz (procs s ! p) \<longrightarrow> uload va s \<noteq> Ok 0
       | Some (b, x) \<Rightarrow> b = a \<and> unat a + length x < unat (p_sz (procs s ! p)) \<and> utext a x s)) \<and>
    (\<exists>r. argstr n s = Ok r \<and> (\<forall>b x. r = Some (b, x) \<longrightarrow> unat b + length x < unat (p_sz (procs s ! p)) \<and> utext b x s))"
proof -
  let ?sz = "p_sz (procs s ! p)"
  have sz: "unat ?sz \<le> 2147483648" using assms(3) by (simp add: word_le_nat_alt KERNBASE_def)
  have fi: "\<exists>r. fetchint addr s = Ok r" for addr
  proof (cases "addr \<ge> ?sz \<or> addr + 4 > ?sz")
    case False
    then have "unat addr < unat ?sz" "unat (addr + 4) \<le> unat ?sz" by (simp_all add: word_less_nat_alt word_le_nat_alt not_less not_le)
    then have "unat addr + 4 \<le> unat ?sz" using sz by (simp add: unat_word_ariths)
    then have "addr + of_nat i < ?sz" if "i < 4" for i
      using that sz by (simp add: word_less_nat_alt unat_word_ariths unat_of_nat)
    then have "mapped (addr + of_nat i) s" if "i < 4" for i using that assms(2) by blast
    with uread_mapped [of 4 addr s] show ?thesis using assms(1) by (auto simp: fetchint_def myproc_def)
  qed (use assms(1) in \<open>simp add: fetchint_def myproc_def\<close>)
  have fs: "\<exists>r. fetchstr a s = Ok r \<and> (case r of None \<Rightarrow> \<forall>va. a \<le> va \<and> va < ?sz \<longrightarrow> uload va s \<noteq> Ok 0
       | Some (b, x) \<Rightarrow> b = a \<and> unat a + length x < unat ?sz \<and> utext a x s)" for a
  proof (cases "a \<ge> ?sz")
    case True
    then show ?thesis using assms(1) by (auto simp: fetchstr_def myproc_def)
  next
    case False
    have m: "mapped va s" if "a \<le> va" "va < ?sz" for va using assms(2) that by blast
    obtain r where "fetchstr_loop a ?sz s = Ok r"
      "case r of None \<Rightarrow> \<forall>va. a \<le> va \<and> va < ?sz \<longrightarrow> uload va s \<noteq> Ok 0 | Some x \<Rightarrow> unat a + length x < unat ?sz \<and> utext a x s"
      using fetchstr_loop_ok [OF m] by blast
    then show ?thesis using False assms(1) by (cases r) (simp_all add: fetchstr_def myproc_def)
  qed
  obtain v where v: "argint n s = Ok v" using fi assms(1) by (auto simp: argint_def myproc_def)
  have "\<exists>r. argptr n k s = Ok r \<and> (\<forall>a. r = Some a \<longrightarrow> 0 \<le> k \<and> unat a + nat k \<le> unat ?sz)"
  proof (cases v)
    case (Some i)
    let ?w = "word_of_int i :: u32"
    have "unat ?w + nat k \<le> unat ?sz" if "\<not> (k < 0 \<or> ?w \<ge> ?sz \<or> ?w + word_of_int k > ?sz)"
    proof -
      have "unat ?w < unat ?sz" "unat (?w + word_of_int k) \<le> unat ?sz" "0 \<le> k" using that by (simp_all add: word_less_nat_alt word_le_nat_alt not_less not_le)
      moreover have "unat (word_of_int k :: u32) = nat k" using assms(4) \<open>0 \<le> k\<close> by (simp add: unat_eq_nat_uint uint_word_of_int)
      ultimately show ?thesis using sz assms(4) by (simp add: unat_word_ariths)
    qed
    then show ?thesis using v Some assms(1) by (auto simp: argptr_def myproc_def)
  qed (use v assms(1) in \<open>simp add: argptr_def myproc_def\<close>)
  moreover have "\<exists>r. argstr n s = Ok r \<and> (\<forall>b x. r = Some (b, x) \<longrightarrow> unat b + length x < unat ?sz \<and> utext b x s)"
  proof (cases v)
    case (Some i)
    obtain r where "fetchstr (word_of_int i) s = Ok r" "case r of None \<Rightarrow> \<forall>va. word_of_int i \<le> va \<and> va < ?sz \<longrightarrow> uload va s \<noteq> Ok 0
       | Some (b, x) \<Rightarrow> b = word_of_int i \<and> unat (word_of_int i :: u32) + length x < unat ?sz \<and> utext (word_of_int i) x s" using fs by blast
    then show ?thesis using v Some by (auto simp: argstr_def)
  qed (use v in \<open>simp add: argstr_def\<close>)
  ultimately show ?thesis using v fs by blast
qed

text \<open>A process of one page.\<close>

definition demo_user :: prioq where
  "demo_user = demo_pq\<lparr>cur := Some 2, cr3 := 0x200000, procs := (procs demo_pq)[2 := (procs demo_pq ! 2)\<lparr>p_sz := 4096, p_tf := 0x80500000\<rparr>],
     mem := st32 (st32 (\<lambda>_. 0) 0x80300000 0x400007) 0x80200000 0x300007\<rparr>"

lemma demo_user_mapped: "va < 4096 \<Longrightarrow> mapped va demo_user"
proof -
  assume "va < 4096"
  then have "unat va < 4096" by (simp add: word_less_nat_alt)
  then have i: "PDX va = 0" "PTX va = 0" using idx_unat [of va] by (simp_all add: word_unat_eq_iff)
  let ?m = "st32 (st32 (\<lambda>_. 0) 0x80300000 0x400007) 0x80200000 0x300007"
  have "ld32 ?m 0x80200000 = 0x300007" by simp
  moreover have "ld32 ?m 0x80300000 = ld32 (st32 (\<lambda>_. 0) 0x80300000 0x400007) 0x80300000"
    by (rule ld32_frame [of "0x80200000"]) (simp_all add: aligned_def st32_page)
  ultimately show ?thesis
    by (simp add: mapped_def pte_def tab_def ent_def i demo_user_def P2V_def KERNBASE_def PTE_P_def PTE_ADDR_def)
qed

theorem args_stay_inside_witness:
  "mapped 4095 demo_user \<and> (\<exists>r. argptr 0 8 demo_user = Ok r \<and> (case r of None \<Rightarrow> True | Some a \<Rightarrow> unat a + 8 \<le> 4096)) \<and> (\<exists>r. argstr 1 demo_user = Ok r)"
proof -
  have sz: "p_sz (procs demo_user ! 2) = 4096" "cur demo_user = Some 2" by (simp_all add: demo_user_def demo_pq_def)
  have m: "\<forall>va < p_sz (procs demo_user ! 2). mapped va demo_user" using demo_user_mapped sz by simp
  have k: "p_sz (procs demo_user ! 2) \<le> KERNBASE" by (simp add: sz KERNBASE_def)
  have t0: "\<exists>r. argptr 0 8 demo_user = Ok r \<and> (\<forall>a. r = Some a \<longrightarrow> 0 \<le> (8 :: int) \<and> unat a + nat 8 \<le> unat (p_sz (procs demo_user ! 2)))"
    using args_stay_inside [OF sz(2) m k, of 8 0] by simp
  have "\<exists>r. argstr 1 demo_user = Ok r" using args_stay_inside [OF sz(2) m k, of 8 1 0] by auto
  with t0 m show ?thesis by (auto simp: sz split: option.split)
qed

end
