(* ===== verification/Exec.thy ===== *)
theory Exec
  imports Syscall
begin

text \<open>
  Replacing the image of a process: \<open>loaduvm\<close> (\<^verbatim>\<open>vm.c\<close>) and \<open>exec\<close> (\<^verbatim>\<open>exec.c\<close>). The headers of the program file are the bytes \<open>readi\<close> delivers, read at the
  offsets of their fields. The arguments are the strings the system call has fetched; \<open>copyout_bytes\<close> is \<open>copyout\<close> with the bytes to copy as a list,
  since they come from the memory of the old image. \<open>setpath\<close> rewrites the path in the local array.
\<close>

definition MAXARG :: nat where "MAXARG = 32"
definition ELF_MAGIC :: u32 where "ELF_MAGIC = 0x464C457F"
definition ELF_PROG_LOAD :: u32 where "ELF_PROG_LOAD = 1"

definition field32 :: "byte list \<Rightarrow> nat \<Rightarrow> u32" where
  "field32 bs o1 = of_bytes (take 4 (drop o1 bs))"

record elfhdr =
  e_magic :: u32
  e_entry :: u32
  e_phoff :: u32
  e_phnum :: u16

definition elf_of :: "byte list \<Rightarrow> elfhdr" where
  "elf_of bs = \<lparr>e_magic = field32 bs 0, e_entry = field32 bs 24, e_phoff = field32 bs 28, e_phnum = rd16 bs 44\<rparr>"

record proghdr =
  ph_type :: u32
  ph_off :: u32
  ph_vaddr :: u32
  ph_filesz :: u32
  ph_memsz :: u32

definition ph_of :: "byte list \<Rightarrow> proghdr" where
  "ph_of bs = \<lparr>ph_type = field32 bs 0, ph_off = field32 bs 4, ph_vaddr = field32 bs 8, ph_filesz = field32 bs 16, ph_memsz = field32 bs 20\<rparr>"

fun store_bytes :: "mem \<Rightarrow> u32 \<Rightarrow> byte list \<Rightarrow> mem" where
  "store_bytes m a [] = m"
| "store_bytes m a (b # bs) = store_bytes (m(a := b)) (a + 1) bs"

subsection \<open>Loading a segment\<close>

function loaduvm_loop :: "(nat \<Rightarrow> 'a fsst_scheme devsw) \<Rightarrow> u32 \<Rightarrow> u32 \<Rightarrow> nat \<Rightarrow> u32 \<Rightarrow> u32 \<Rightarrow> u32 \<Rightarrow> 'a fsst_scheme \<Rightarrow> (int \<times> 'a fsst_scheme) res" where
  "loaduvm_loop dv pgdir addr ip offset sz i s =
     (if i < sz then
        bnd (walkpgdir pgdir (addr + i) False s) (\<lambda>(pte, s).
        if pte = 0 then panic ''loaduvm: address should exist''
        else
          let pa = PTE_ADDR (ld32 (mem s) pte);
              n = (if sz - i < PGSIZE then sz - i else PGSIZE)
          in
          bnd (readi dv ip (offset + i) n s) (\<lambda>((r, bs), s).
          let s = s\<lparr>mem := store_bytes (mem s) (P2V pa) bs\<rparr> in
          if word_of_int r \<noteq> n then Ok (-1, s)
          else if i + PGSIZE \<le> i then Inl Diverge
          else loaduvm_loop dv pgdir addr ip offset sz (i + PGSIZE) s))
      else Ok (0, s))"
  by pat_completeness auto
termination
  by (relation "measure (\<lambda>(_, _, _, _, _, _, i, _). 2 ^ 32 - unat i)")
    (auto simp: word_le_nat_alt not_le intro!: diff_less_mono2 unsigned_less [where ?'a = nat, THEN less_le_trans])

declare loaduvm_loop.simps [simp del]

definition loaduvm :: "(nat \<Rightarrow> 'a fsst_scheme devsw) \<Rightarrow> u32 \<Rightarrow> u32 \<Rightarrow> nat \<Rightarrow> u32 \<Rightarrow> u32 \<Rightarrow> 'a fsst_scheme \<Rightarrow> (int \<times> 'a fsst_scheme) res" where
  "loaduvm dv pgdir addr ip offset sz s =
     (if addr mod PGSIZE \<noteq> 0 then panic ''loaduvm: addr must be page aligned''
      else loaduvm_loop dv pgdir addr ip offset sz 0 s)"

text \<open>The loop over \<open>k\<close> remaining program headers; \<open>None\<close> is the jump to \<open>bad\<close>.\<close>

primrec load_program :: "(nat \<Rightarrow> 'a fsst_scheme devsw) \<Rightarrow> u32 \<Rightarrow> nat \<Rightarrow> nat \<Rightarrow> u32 \<Rightarrow> u32 \<Rightarrow> 'a fsst_scheme \<Rightarrow> (u32 option \<times> 'a fsst_scheme) res" where
  "load_program dv pgdir ip 0 off sz s = Ok (Some sz, s)"
| "load_program dv pgdir ip (Suc k) off sz s =
     bnd (readi dv ip off 32 s) (\<lambda>((r, bs), s).
     let ph = ph_of bs in
     if r \<noteq> 32 then Ok (None, s)
     else if ph_type ph \<noteq> ELF_PROG_LOAD then load_program dv pgdir ip k (off + 32) sz s
     else if ph_memsz ph < ph_filesz ph then Ok (None, s)
     else if ph_vaddr ph + ph_memsz ph < ph_vaddr ph then Ok (None, s)
     else
       bnd (allocuvm pgdir sz (ph_vaddr ph + ph_memsz ph) s) (\<lambda>(sz, s).
       if sz = 0 then Ok (None, s)
       else if ph_vaddr ph mod PGSIZE \<noteq> 0 then Ok (None, s)
       else
         bnd (loaduvm dv pgdir (ph_vaddr ph) ip (ph_off ph) (ph_filesz ph) s) (\<lambda>(r, s).
         if r < 0 then Ok (None, s) else load_program dv pgdir ip k (off + 32) sz s)))"

subsection \<open>The arguments\<close>

function copyout_bytes :: "u32 \<Rightarrow> u32 \<Rightarrow> byte list \<Rightarrow> 'a shmtab_scheme \<Rightarrow> (int \<times> 'a shmtab_scheme) res" where
  "copyout_bytes pgdir va bs s =
     (if bs \<noteq> [] then
        let va0 = PGROUNDDOWN va in
        bnd (uva2ka pgdir va0 s) (\<lambda>pa0.
        if pa0 = 0 then Ok (-1, s)
        else
          let n = min (4096 - unat va mod 4096) (length bs) in
          copyout_bytes pgdir (va0 + PGSIZE) (drop n bs) (s\<lparr>mem := store_bytes (mem s) (pa0 + (va - va0)) (take n bs)\<rparr>))
      else Ok (0, s))"
  by pat_completeness auto
termination
proof (relation "measure (\<lambda>(_, _, bs, _). length bs)")
  fix bs :: "byte list" and va :: u32 and n
  assume "bs \<noteq> []" "n = min (4096 - unat va mod 4096) (length bs)"
  moreover have "unat va mod 4096 < 4096" by simp
  ultimately show "((a, b, drop n bs, c), d, va, bs, e) \<in> measure (\<lambda>(_, _, bs, _). length bs)" for a b c d e by auto
qed simp

declare copyout_bytes.simps [simp del]

text \<open>The strings, pushed one below the other; the result is the new stack pointer and the addresses of the strings.\<close>

fun push_args :: "u32 \<Rightarrow> nat \<Rightarrow> u32 \<Rightarrow> string list \<Rightarrow> 'a shmtab_scheme \<Rightarrow> ((u32 \<times> u32 list) option \<times> 'a shmtab_scheme) res" where
  "push_args pgdir argc sp [] s = Ok (Some (sp, []), s)"
| "push_args pgdir argc sp (x # xs) s =
     (if argc \<ge> MAXARG then Ok (None, s)
      else
        let sp = (sp - of_nat (length x + 1)) AND NOT 3 in
        bnd (copyout_bytes pgdir sp (bytes x @ [0]) s) (\<lambda>(r, s).
        if r < 0 then Ok (None, s)
        else bnd (push_args pgdir (Suc argc) sp xs s) (\<lambda>(q, s). Ok (map_option (\<lambda>(e, us). (e, sp # us)) q, s))))"

subsection \<open>Exec\<close>

definition exec_bad :: "u32 \<Rightarrow> nat option \<Rightarrow> 'a fsst_scheme \<Rightarrow> (int \<times> 'a fsst_scheme) res" where
  "exec_bad pgdir ip s =
     bnd (if pgdir \<noteq> 0 then freevm pgdir s else Ok s) (\<lambda>s.
     bnd (case ip of None \<Rightarrow> Ok s | Some ip \<Rightarrow> bnd (iunlockput ip s) end_op) (\<lambda>s. Ok (-1, s)))"

definition last_name :: "string \<Rightarrow> string" where
  "last_name path = rev (takeWhile (\<lambda>c. c \<noteq> CHR ''/'') (rev path))"

definition exec_commit :: "nat \<Rightarrow> string \<Rightarrow> u32 \<Rightarrow> u32 \<Rightarrow> u32 \<Rightarrow> u32 \<Rightarrow> 'a shmtab_scheme \<Rightarrow> (int \<times> 'a shmtab_scheme) res" where
  "exec_commit p path pgdir sz entry sp s =
     (let oldpgdir = p_pgdir (procs s ! p);
          tf = p_tf (procs s ! p);
          s = upd_proc p (\<lambda>q. q\<lparr>p_name := take 15 (last_name path), p_pgdir := pgdir, p_sz := sz\<rparr>) s;
          s = s\<lparr>mem := st32 (st32 (mem s) (tf + 56) entry) (tf + 68) sp\<rparr>
      in
      bnd (switchuvm p s) (\<lambda>s.
      bnd (freevm oldpgdir s) (\<lambda>s. Ok (0, s))))"

definition exec_stack :: "nat \<Rightarrow> string \<Rightarrow> u32 \<Rightarrow> u32 \<Rightarrow> u32 \<Rightarrow> string list \<Rightarrow> 'a fsst_scheme \<Rightarrow> (int \<times> 'a fsst_scheme) res" where
  "exec_stack p path pgdir entry sz argv s =
     (let sz = PGROUNDUP sz in
      bnd (allocuvm pgdir sz (sz + 2 * PGSIZE) s) (\<lambda>(sz, s).
      if sz = 0 then exec_bad pgdir None s
      else
        bnd (clearpteu pgdir (sz - 2 * PGSIZE) s) (\<lambda>s.
        bnd (push_args pgdir 0 sz argv s) (\<lambda>(r, s).
        case r of None \<Rightarrow> exec_bad pgdir None s | Some (sp, us) \<Rightarrow>
          let argc = of_nat (length us) :: u32;
              ustack = [0xFFFFFFFF, argc, sp - (argc + 1) * 4] @ us @ [0];
              sp = sp - (3 + argc + 1) * 4
          in
          bnd (copyout_bytes pgdir sp (concat (map to_bytes ustack)) s) (\<lambda>(r, s).
          if r < 0 then exec_bad pgdir None s
          else exec_commit p path pgdir sz entry sp s)))))"

definition exec :: "(nat \<Rightarrow> 'a fsst_scheme devsw) \<Rightarrow> string \<Rightarrow> string list \<Rightarrow> 'a fsst_scheme \<Rightarrow> (int \<times> 'a fsst_scheme) res" where
  "exec dv pathcmd argv s =
     bnd (myproc s) (\<lambda>p.
     bnd (put_text 128 pathcmd) (\<lambda>path.
     bnd (setpath (-1) path 2 s) (\<lambda>((r, path), s).
     if r < 0 then Ok (-1, s)
     else
       bnd (begin_op s) (\<lambda>s.
       bnd (namei dv (path @ [NUL]) s) (\<lambda>(ip, s).
       case ip of None \<Rightarrow> bnd (end_op s) (\<lambda>s. Ok (-1, s)) | Some ip \<Rightarrow>
         bnd (ilock ip s) (\<lambda>s.
         bnd (readi dv ip 0 52 s) (\<lambda>((r, bs), s).
         let elf = elf_of bs in
         if r \<noteq> 52 \<or> e_magic elf \<noteq> ELF_MAGIC then exec_bad 0 (Some ip) s
         else
           bnd (setupkvm s) (\<lambda>(pgdir, s).
           if pgdir = 0 then exec_bad 0 (Some ip) s
           else
             bnd (load_program dv pgdir ip (unat (e_phnum elf)) (e_phoff elf) 0 s) (\<lambda>(sz, s).
             case sz of None \<Rightarrow> exec_bad pgdir (Some ip) s | Some sz \<Rightarrow>
               bnd (bnd (iunlockput ip s) end_op) (\<lambda>s.
               exec_stack p path pgdir (e_entry elf) sz argv s))))))))))"

end
