(* ===== verification/Sysproc.thy ===== *)
theory Sysproc
  imports Exec
begin

text \<open>
  The system calls on processes, containers, priorities, mutexes and shared memory (\<^verbatim>\<open>sysproc.c\<close>, and \<open>getcid\<close>, \<open>get_new_cid\<close>, \<open>print\<close>, \<open>get_proc_pipe\<close> and the three
  tests of \<^verbatim>\<open>sysfile.c\<close> and \<^verbatim>\<open>proc.c\<close>). A call that leaves its process asleep returns no number. What is only printed on the console is left out. \<open>sys_remove_node\<close> hands an address of
  the process to \<open>remove_node\<close> as if it were a process structure of the kernel, which this model has no value for: it is a fault.
  Where the code writes \<open>sizeof(x) < 0\<close> as the size of an argument, the size is 0 and every negative result of \<open>argptr\<close> counts as a failure.

  Shown: \<open>sys_prio_set\<close> takes the priority from the word that holds the process identifier; container numbers reach the table of containers unchecked.
\<close>

record tickst = ftab +
  ticks :: u32

definition if_args :: "'b option res \<Rightarrow> 's \<Rightarrow> ('b \<Rightarrow> (int \<times> 's) res) \<Rightarrow> (int \<times> 's) res" where
  "if_args r s f = bnd r (\<lambda>v. case v of None \<Rightarrow> Ok (-1, s) | Some x \<Rightarrow> f x)"

definition blocking :: "(int option \<times> 's) res \<Rightarrow> (int \<times> 's) res" where
  "blocking r = bnd r (\<lambda>(v, s). case v of None \<Rightarrow> Inl Asleep | Some x \<Rightarrow> Ok (x, s))"

subsection \<open>Processes\<close>

definition sys_fork :: "u32 \<Rightarrow> u32 \<Rightarrow> 'a ftab_scheme \<Rightarrow> (int \<times> 'a ftab_scheme) res" where
  "sys_fork trapret fret s = fork trapret fret s"

definition sys_fork2 :: "u32 \<Rightarrow> u32 \<Rightarrow> 'a ftab_scheme \<Rightarrow> (int \<times> 'a ftab_scheme) res" where
  "sys_fork2 trapret fret s = if_args (argint 0 s) s (\<lambda>cid. fork2 trapret fret cid s)"

text \<open>\<open>exit\<close> does not come back: its process stays a zombie.\<close>

definition sys_exit :: "'a ftab_scheme \<Rightarrow> (int option \<times> 'a ftab_scheme) res" where
  "sys_exit s = bnd (exit s) (\<lambda>s. Ok (None, s))"

definition sys_wait :: "'a shmtab_scheme \<Rightarrow> (int option \<times> 'a shmtab_scheme) res" where
  "sys_wait s = wait s"

definition sys_kill :: "'a ptable_scheme \<Rightarrow> (int \<times> 'a ptable_scheme) res" where
  "sys_kill s = if_args (argint 0 s) s (\<lambda>pid. kill pid s)"

definition sys_getpid :: "'a ptable_scheme \<Rightarrow> (int \<times> 'a ptable_scheme) res" where
  "sys_getpid s = bnd (myproc s) (\<lambda>p. Ok (p_pid (procs s ! p), s))"

definition sys_sbrk :: "'a shmtab_scheme \<Rightarrow> (int \<times> 'a shmtab_scheme) res" where
  "sys_sbrk s =
     if_args (argint 0 s) s (\<lambda>n.
     bnd (myproc s) (\<lambda>p.
     let addr = sint (p_sz (procs s ! p)) in
     bnd (growproc n s) (\<lambda>(r, s). Ok (if r < 0 then -1 else addr, s))))"

definition sleep_loop :: "u32 \<Rightarrow> int \<Rightarrow> 'a tickst_scheme \<Rightarrow> (int option \<times> 'a tickst_scheme) res" where
  "sleep_loop ticks0 n s =
     (if ticks s - ticks0 < word_of_int n then
        bnd (myproc s) (\<lambda>p.
        if p_killed (procs s ! p) then bnd (unlock L_ticks s) (\<lambda>s. Ok (Some (-1), s))
        else bnd (sleep_out (Some Ch_ticks) L_ticks s) (\<lambda>s. Ok (None, s)))
      else bnd (unlock L_ticks s) (\<lambda>s. Ok (Some 0, s)))"

definition sys_sleep :: "'a tickst_scheme \<Rightarrow> (int option \<times> 'a tickst_scheme) res" where
  "sys_sleep s =
     bnd (argint 0 s) (\<lambda>r.
     case r of None \<Rightarrow> Ok (Some (-1), s) | Some n \<Rightarrow>
       bnd (lock L_ticks s) (\<lambda>s. sleep_loop (ticks s) n s))"

definition sys_sleep_resume :: "u32 \<Rightarrow> int \<Rightarrow> 'a tickst_scheme \<Rightarrow> (int option \<times> 'a tickst_scheme) res" where
  "sys_sleep_resume ticks0 n s = bnd (sleep_in L_ticks s) (sleep_loop ticks0 n)"

definition sys_uptime :: "'a tickst_scheme \<Rightarrow> (int \<times> 'a tickst_scheme) res" where
  "sys_uptime s =
     bnd (lock L_ticks s) (\<lambda>s.
     let xticks = ticks s in
     bnd (unlock L_ticks s) (\<lambda>s. Ok (sint xticks, s)))"

subsection \<open>Containers\<close>

definition two_args :: "'b option res \<Rightarrow> 'c option res \<Rightarrow> ('b \<times> 'c) option res" where
  "two_args a b = bnd a (\<lambda>x. case x of None \<Rightarrow> Ok None | Some x \<Rightarrow> bnd b (\<lambda>y. Ok (map_option (Pair x) y)))"

definition sys_setalive :: "'a conts_scheme \<Rightarrow> (int \<times> 'a conts_scheme) res" where
  "sys_setalive s = if_args (two_args (argint 0 s) (argint 1 s)) s (\<lambda>(index, val). setalive index val s)"

definition sys_getname :: "'a conts_scheme \<Rightarrow> (int \<times> 'a conts_scheme) res" where
  "sys_getname s =
     if_args (two_args (argint 0 s) (argstr 1 s)) s (\<lambda>(index, name, _).
     bnd (getname index s) (\<lambda>(x, s). bnd (uwrite name (bytes x @ [0]) s) (\<lambda>s. Ok (0, s))))"

definition sys_setname :: "'a conts_scheme \<Rightarrow> (int \<times> 'a conts_scheme) res" where
  "sys_setname s = if_args (two_args (argint 0 s) (argstr 1 s)) s (\<lambda>(index, _, name). setname index name s)"

definition sys_setroot :: "'a conts_scheme \<Rightarrow> (int \<times> 'a conts_scheme) res" where
  "sys_setroot s = if_args (two_args (argint 0 s) (argstr 1 s)) s (\<lambda>(index, _, name). setroot index name s)"

definition sys_getmaxproc :: "'a conts_scheme \<Rightarrow> (int \<times> 'a conts_scheme) res" where
  "sys_getmaxproc s = if_args (argint 0 s) s (\<lambda>index. getmaxproc index s)"

definition sys_setmaxproc :: "'a conts_scheme \<Rightarrow> (int \<times> 'a conts_scheme) res" where
  "sys_setmaxproc s = if_args (two_args (argint 0 s) (argint 1 s)) s (\<lambda>(index, max). setmaxproc index max s)"

text \<open>\<open>fds\<close> is checked for no bytes at all, then its two words are read.\<close>

definition sys_setvc :: "'a shmtab_scheme \<Rightarrow> (int \<times> 'a shmtab_scheme) res" where
  "sys_setvc s =
     if_args (two_args (argint 0 s) (argstr 1 s)) s (\<lambda>(index, _, vc).
     if_args (argptr 2 0 s) s (\<lambda>fds.
     bnd (uread fds 8 s) (\<lambda>bs.
     setvc index (Some vc) (sint (of_bytes (take 4 bs))) (sint (of_bytes (drop 4 bs))) s)))"

definition sys_getpath :: "'a conts_scheme \<Rightarrow> (int \<times> 'a conts_scheme) res" where
  "sys_getpath s =
     if_args (two_args (argint 0 s) (argstr 1 s)) s (\<lambda>(index, path, _).
     bnd (getpath index s) (\<lambda>(x, s). bnd (uwrite path (bytes x @ [0]) s) (\<lambda>s. Ok (0, s))))"

text \<open>\<open>setpath\<close> writes the path it arrives at over the one it was given.\<close>

definition sys_setpath :: "'a conts_scheme \<Rightarrow> (int \<times> 'a conts_scheme) res" where
  "sys_setpath s =
     if_args (two_args (two_args (argint 0 s) (argstr 1 s)) (argint 2 s)) s (\<lambda>((index, addr, path), rm).
     bnd (setpath index path rm s) (\<lambda>((r, x), s).
     bnd (if x = path then Ok s else uwrite addr (bytes x @ [0]) s) (\<lambda>s. Ok (r, s))))"

lemma next_address:
  assumes "a + 1 \<noteq> 0"
  shows "4294967296 - unat (a + 1) < 4294967296 - unat (a :: u32)"
proof -
  have "unat (a + 1) = Suc (unat a)" using unatSuc [of a] assms unfolding add.commute [of a 1] by simp
  moreover have "unat a < 4294967296" using unsigned_less [of a, where ?'a = nat] by simp
  ultimately show ?thesis by linarith
qed

function ustrcpy :: "u32 \<Rightarrow> u32 \<Rightarrow> 'a ptable_scheme \<Rightarrow> 'a ptable_scheme res" where
  "ustrcpy d a s =
     bnd (uload a s) (\<lambda>b.
     bnd (ustore d b s) (\<lambda>s.
     if b = 0 then Ok s else if a + 1 = 0 then fault ''strcpy'' else ustrcpy (d + 1) (a + 1) s))"
  by pat_completeness auto
termination
  by (relation "measure (\<lambda>(_, a, _). 4294967296 - unat a)") (use next_address in auto)

declare ustrcpy.simps [simp del]

text \<open>A bad number is only reported on the console; then the address the container keeps is copied from as a string.\<close>

definition get_con_shm :: "int \<Rightarrow> u32 \<Rightarrow> 'a conts_scheme \<Rightarrow> (int \<times> 'a conts_scheme) res" where
  "get_con_shm cid str s =
     bnd (aget (containers s) cid) (\<lambda>c.
     bnd (ustrcpy str (c_shm c) s) (\<lambda>s. Ok (0, s)))"

text \<open>Here too both arguments are fetched from position 0.\<close>

definition sys_con_shm :: "'a conts_scheme \<Rightarrow> (int \<times> 'a conts_scheme) res" where
  "sys_con_shm s = if_args (argint 0 s) s (\<lambda>cid. if_args (argstr 0 s) s (\<lambda>(str, _). get_con_shm cid str s))"

definition sys_getnumcontainers :: "'a conts_scheme \<Rightarrow> (int \<times> 'a conts_scheme) res" where
  "sys_getnumcontainers s = Ok (getnumcontainers, s)"

definition sys_getcid :: "'a ptable_scheme \<Rightarrow> (int \<times> 'a ptable_scheme) res" where
  "sys_getcid s = bnd (getcid s) (\<lambda>c. Ok (c, s))"

definition sys_get_new_cid :: "'a conts_scheme \<Rightarrow> (int \<times> 'a conts_scheme) res" where
  "sys_get_new_cid s = Ok (get_new_cid s, s)"

definition sys_print :: "'a ptable_scheme \<Rightarrow> (int \<times> 'a ptable_scheme) res" where
  "sys_print s = if_args (two_args (argstr 0 s) (argint 1 s)) s (\<lambda>_. Ok (0, s))"

definition sys_get_proc_pipe :: "'a ptable_scheme \<Rightarrow> (int \<times> 'a ptable_scheme) res" where
  "sys_get_proc_pipe s =
     if_args (argptr 0 8 s) s (\<lambda>fds.
     bnd (uread fds 8 s) (\<lambda>bs.
     bnd (get_proc_pipe (sint (of_bytes (take 4 bs)), sint (of_bytes (drop 4 bs))) s) (\<lambda>((a, b), s).
     bnd (uwrite fds (to_bytes (word_of_int a) @ to_bytes (word_of_int b)) s) (\<lambda>s. Ok (0, s)))))"

subsection \<open>Priorities, mutexes and shared memory\<close>

text \<open>Both arguments are fetched from position 0.\<close>

definition sys_prio_set :: "'a prioq_scheme \<Rightarrow> (int \<times> 'a prioq_scheme) res" where
  "sys_prio_set s = if_args (argint 0 s) s (\<lambda>pid. if_args (argint 0 s) s (\<lambda>priority. prio_set pid priority s))"

definition sys_remove_node :: "'a prioq_scheme \<Rightarrow> (int \<times> 'a prioq_scheme) res" where
  "sys_remove_node s = if_args (argptr 0 0 s) s (\<lambda>_. fault ''remove_node'')"

definition test_0 :: "'a prioq_scheme \<Rightarrow> 'a prioq_scheme res" where
  "test_0 s =
     bnd (myproc s) (\<lambda>p.
     let pid = p_pid (procs s ! p) in
     foldM (\<lambda>v s. bnd (prio_set pid v s) (\<lambda>(_, s). Ok s)) [6, 7, 8, 9] s)"

definition test_1 :: "'a prioq_scheme \<Rightarrow> 'a prioq_scheme res" where
  "test_1 s =
     bnd (myproc s) (\<lambda>p.
     let pid = p_pid (procs s ! p) in
     foldM (\<lambda>v s. bnd (prio_set pid v s) (\<lambda>(_, s). Ok s)) [int PRIO_MAX + 1, -1, 1] s)"

definition test_2 :: "u32 \<Rightarrow> u32 \<Rightarrow> 'a ftab_scheme \<Rightarrow> 'a ftab_scheme res" where
  "test_2 trapret fret s =
     bnd (myproc s) (\<lambda>p.
     bnd (prio_set (p_pid (procs s ! p)) 0 s) (\<lambda>(_, s).
     bnd (fork trapret fret s) (\<lambda>(_, s).
     bnd (pq1_dequeue s) (\<lambda>(_, s). Ok s))))"

definition sys_test_0 :: "'a prioq_scheme \<Rightarrow> (int \<times> 'a prioq_scheme) res" where
  "sys_test_0 s = bnd (test_0 s) (\<lambda>s. Ok (0, s))"

definition sys_test_1 :: "'a prioq_scheme \<Rightarrow> (int \<times> 'a prioq_scheme) res" where
  "sys_test_1 s = bnd (test_1 s) (\<lambda>s. Ok (0, s))"

definition sys_test_2 :: "u32 \<Rightarrow> u32 \<Rightarrow> 'a ftab_scheme \<Rightarrow> (int \<times> 'a ftab_scheme) res" where
  "sys_test_2 trapret fret s = bnd (test_2 trapret fret s) (\<lambda>s. Ok (0, s))"

text \<open>The result is the size of the process before the call, whatever address \<open>shm_get\<close> gives.\<close>

definition sys_shm_get :: "'a shmtab_scheme \<Rightarrow> (int \<times> 'a shmtab_scheme) res" where
  "sys_shm_get s =
     bnd (argstr 0 s) (\<lambda>r.
     case r of None \<Rightarrow> Ok (0, s) | Some (_, name) \<Rightarrow>
       bnd (myproc s) (\<lambda>p.
       let addr = sint (p_sz (procs s ! p)) in
       bnd (shm_get (Some name) s) (\<lambda>(a, s). Ok (if a = 0 then 0 else addr, s))))"

definition sys_shm_rem :: "'a shmtab_scheme \<Rightarrow> (int \<times> 'a shmtab_scheme) res" where
  "sys_shm_rem s = if_args (argstr 0 s) s (\<lambda>(_, name). shm_rem (Some name) s)"

text \<open>
  \<open>mutex_create\<close> and \<open>mutex_get\<close> follow their pointer until they find a zero byte, with no end at the size of the process.
  Past the last address there is nothing to read.
\<close>

function uname :: "u32 \<Rightarrow> 'a ptable_scheme \<Rightarrow> string res" where
  "uname a s =
     bnd (uload a s) (\<lambda>b.
     if b = 0 then Ok [NUL]
     else if a + 1 = 0 then fault ''name''
     else bnd (uname (a + 1) s) (\<lambda>x. Ok (char_of (unat b) # x)))"
  by pat_completeness auto
termination
  by (relation "measure (\<lambda>(a, _). 4294967296 - unat a)") (use next_address in auto)

declare uname.simps [simp del]

definition sys_mutex_create :: "'a muxes_scheme \<Rightarrow> (int \<times> 'a muxes_scheme) res" where
  "sys_mutex_create s = if_args (argptr 0 0 s) s (\<lambda>a. bnd (uname a s) (\<lambda>name. mutex_create name s))"

definition sys_mutex_get :: "'a muxes_scheme \<Rightarrow> (int \<times> 'a muxes_scheme) res" where
  "sys_mutex_get s = if_args (argptr 0 0 s) s (\<lambda>a. bnd (uname a s) (\<lambda>name. mutex_get name s))"

definition sys_mutex_delete :: "'a muxes_scheme \<Rightarrow> (int \<times> 'a muxes_scheme) res" where
  "sys_mutex_delete s = if_args (argint 0 s) s (\<lambda>muxid. mutex_delete muxid s)"

definition sys_mutex_unlock :: "'a muxes_scheme \<Rightarrow> (int \<times> 'a muxes_scheme) res" where
  "sys_mutex_unlock s = if_args (argint 0 s) s (\<lambda>muxid. mutex_unlock muxid s)"

definition sys_cv_signal :: "'a muxes_scheme \<Rightarrow> (int \<times> 'a muxes_scheme) res" where
  "sys_cv_signal s = if_args (argint 0 s) s (\<lambda>muxid. cv_signal muxid s)"

definition sys_mutex_lock :: "'a muxes_scheme \<Rightarrow> (int option \<times> 'a muxes_scheme) res" where
  "sys_mutex_lock s = bnd (argint 0 s) (\<lambda>r. case r of None \<Rightarrow> Ok (Some (-1), s) | Some muxid \<Rightarrow> mutex_lock muxid s)"

definition sys_cv_wait :: "'a muxes_scheme \<Rightarrow> (int option \<times> 'a muxes_scheme) res" where
  "sys_cv_wait s = bnd (argint 0 s) (\<lambda>r. case r of None \<Rightarrow> Ok (Some (-1), s) | Some muxid \<Rightarrow> cv_wait muxid s)"

subsection \<open>Consequences of the argument positions\<close>

text \<open>
  The priority a process asks for never arrives: the call sets the priority of process \<open>v\<close> to \<open>v\<close>, whatever the second argument is, and it fails without
  any effect for every process with an identifier of 10 or more.
\<close>

theorem prio_set_call_uses_pid:
  assumes "argint 0 s = Ok (Some v)" "L_prioqueue \<notin> set (held s)"
  shows "sys_prio_set s = prio_set v v s \<and> (int PRIO_MAX \<le> v \<and> cur s \<noteq> None \<longrightarrow> sys_prio_set s = Ok (-1, s))"
  using assms by (auto simp: sys_prio_set_def if_args_def prio_set_def myproc_def)

text \<open>A container number from the process is used as an index without a test: past the table the call is an access outside it.\<close>

theorem container_number_unchecked:
  assumes "argint 0 s = Ok (Some i)" "argint 1 s = Ok (Some n)" "i < 0 \<or> int (length (containers s)) \<le> i" "L_manager \<notin> set (held s)"
  shows "\<exists>e. sys_setalive s = Inl (Fault e) \<and> sys_setmaxproc s = Inl (Fault e)"
  using assms by (auto simp: sys_setalive_def sys_setmaxproc_def if_args_def two_args_def setalive_def setmaxproc_def upd_con_def aget_def)

end
