(* ===== verification/Sysfile.thy ===== *)
theory Sysfile
  imports Sysproc
begin

text \<open>
  The system calls on files (\<^verbatim>\<open>sysfile.c\<close>). What \<open>fileread\<close> and \<open>filestat\<close> deliver is stored in the memory of the process. A waiting read, write or transaction is \<open>Asleep\<close>.
  \<open>name_for_inode\<close> climbs the directory tree; \<open>k\<close> bounds the climb, and a climb past the bound is \<open>Diverge\<close>.

  Shown: \<open>getcwd\<close> can only return in the root directory; in any other it waits for a lock it holds itself.
\<close>

definition O_WRONLY :: u32 where "O_WRONLY = 1"
definition O_RDWR :: u32 where "O_RDWR = 2"
definition O_CREATE :: u32 where "O_CREATE = 0x200"

subsection \<open>Descriptors\<close>

definition argfd :: "nat \<Rightarrow> 'a ptable_scheme \<Rightarrow> (int \<times> nat) option res" where
  "argfd n s =
     bnd (argint n s) (\<lambda>r.
     case r of None \<Rightarrow> Ok None | Some fd \<Rightarrow>
       if fd < 0 \<or> fd \<ge> int NOFILE then Ok None
       else
         bnd (myproc s) (\<lambda>p.
         bnd (aget (p_ofile (procs s ! p)) fd) (\<lambda>f. Ok (map_option (Pair fd) f))))"

definition fdalloc :: "nat \<Rightarrow> 'a ptable_scheme \<Rightarrow> (int \<times> 'a ptable_scheme) res" where
  "fdalloc f s =
     bnd (myproc s) (\<lambda>p.
     case first_idx (\<lambda>x. x = None) (p_ofile (procs s ! p)) of
       None \<Rightarrow> Ok (-1, s)
     | Some fd \<Rightarrow> Ok (int fd, upd_proc p (\<lambda>q. q\<lparr>p_ofile := (p_ofile q)[fd := Some f]\<rparr>) s))"

definition clear_fd :: "int \<Rightarrow> 'a ptable_scheme \<Rightarrow> 'a ptable_scheme res" where
  "clear_fd fd s = bnd (myproc s) (\<lambda>p. Ok (upd_proc p (\<lambda>q. q\<lparr>p_ofile := (p_ofile q)[nat fd := None]\<rparr>) s))"

definition sys_dup :: "'a ftab_scheme \<Rightarrow> (int \<times> 'a ftab_scheme) res" where
  "sys_dup s =
     if_args (argfd 0 s) s (\<lambda>(_, f).
     bnd (fdalloc f s) (\<lambda>(fd, s).
     if fd < 0 then Ok (-1, s) else bnd (filedup f s) (\<lambda>(_, s). Ok (fd, s))))"

definition io_args :: "'a ptable_scheme \<Rightarrow> (nat \<times> nat \<times> u32) option res" where
  "io_args s =
     bnd (argfd 0 s) (\<lambda>f. case f of None \<Rightarrow> Ok None | Some (_, f) \<Rightarrow>
     bnd (argint 2 s) (\<lambda>n. case n of None \<Rightarrow> Ok None | Some n \<Rightarrow>
     bnd (argptr 1 n s) (\<lambda>p. Ok (map_option (\<lambda>p. (f, nat n, p)) p))))"

definition sys_read :: "(nat \<Rightarrow> 'a ftab_scheme devsw) \<Rightarrow> 'a ftab_scheme \<Rightarrow> (int \<times> 'a ftab_scheme) res" where
  "sys_read dv s =
     if_args (io_args s) s (\<lambda>(f, n, p).
     bnd (fileread dv f n s) (\<lambda>((r, bs), s).
     bnd (uwrite p bs s) (\<lambda>s. Ok (r, s))))"

definition sys_write :: "(nat \<Rightarrow> 'a ftab_scheme devsw) \<Rightarrow> 'a ftab_scheme \<Rightarrow> (int \<times> 'a ftab_scheme) res" where
  "sys_write dv s =
     if_args (io_args s) s (\<lambda>(f, n, p).
     bnd (uread p n s) (\<lambda>bs. filewrite dv f bs s))"

definition sys_close :: "'a ftab_scheme \<Rightarrow> (int \<times> 'a ftab_scheme) res" where
  "sys_close s =
     if_args (argfd 0 s) s (\<lambda>(fd, f).
     bnd (clear_fd fd s) (\<lambda>s.
     bnd (fileclose f s) (\<lambda>s. Ok (0, s))))"

text \<open>The structure \<open>stat\<close> with its two bytes of padding after each short, which keep what the memory held.\<close>

definition write_stat :: "u32 \<Rightarrow> stat \<Rightarrow> 'a ptable_scheme \<Rightarrow> 'a ptable_scheme res" where
  "write_stat a st s =
     bnd (uwrite a (take 2 (to_bytes (ucast (st_type st)))) s) (\<lambda>s.
     bnd (uwrite (a + 4) (to_bytes (st_dev st) @ to_bytes (st_ino st) @ take 2 (to_bytes (ucast (st_nlink st)))) s) (\<lambda>s.
     uwrite (a + 16) (to_bytes (st_size st)) s))"

definition sys_fstat :: "'a ftab_scheme \<Rightarrow> (int \<times> 'a ftab_scheme) res" where
  "sys_fstat s =
     if_args (two_args (argfd 0 s) (argptr 1 20 s)) s (\<lambda>((_, f), a).
     bnd (filestat f s) (\<lambda>(r, s).
     case r of None \<Rightarrow> Ok (-1, s) | Some st \<Rightarrow> bnd (write_stat a st s) (\<lambda>s. Ok (0, s))))"

subsection \<open>Links\<close>

abbreviation cpath :: "string \<Rightarrow> string" where
  "cpath x \<equiv> x @ [NUL]"

definition fail_op :: "'a logst_scheme \<Rightarrow> (int \<times> 'a logst_scheme) res" where
  "fail_op s = bnd (end_op s) (\<lambda>s. Ok (-1, s))"

definition put_fail :: "nat \<Rightarrow> 'a fsst_scheme \<Rightarrow> (int \<times> 'a fsst_scheme) res" where
  "put_fail ip s = bnd (iunlockput ip s) fail_op"

definition add_nlink :: "nat \<Rightarrow> u16 \<Rightarrow> 'a fsst_scheme \<Rightarrow> 'a fsst_scheme res" where
  "add_nlink ip d s = iupdate ip (upd_inode ip (\<lambda>x. x\<lparr>i_nlink := i_nlink x + d\<rparr>) s)"

definition sys_link :: "(nat \<Rightarrow> 'a fsst_scheme devsw) \<Rightarrow> 'a fsst_scheme \<Rightarrow> (int \<times> 'a fsst_scheme) res" where
  "sys_link dv s =
     if_args (two_args (argstr 0 s) (argstr 1 s)) s (\<lambda>((_, old), _, new).
     bnd (begin_op s) (\<lambda>s.
     bnd (namei dv (cpath old) s) (\<lambda>(r, s).
     case r of None \<Rightarrow> fail_op s | Some ip \<Rightarrow>
       bnd (ilock ip s) (\<lambda>s.
       if i_type (inod s ip) = T_DIR then put_fail ip s
       else
         bnd (add_nlink ip 1 s) (\<lambda>s.
         bnd (iunlock ip s) (\<lambda>s.
         let bad = (\<lambda>s. bnd (ilock ip s) (\<lambda>s. bnd (add_nlink ip (-1) s) (put_fail ip))) in
         bnd (nameiparent dv (cpath new) (replicate DIRSIZ NUL) s) (\<lambda>((dp, name), s).
         case dp of None \<Rightarrow> bad s | Some dp \<Rightarrow>
           bnd (ilock dp s) (\<lambda>s.
           bnd (if i_dev (inod s dp) \<noteq> i_dev (inod s ip) then Ok (-1, s) else dirlink dv dp name (i_inum (inod s ip)) s) (\<lambda>(r, s).
           if r < 0 then bnd (iunlockput dp s) bad
           else
             bnd (iunlockput dp s) (\<lambda>s.
             bnd (iput ip s) (\<lambda>s.
             bnd (end_op s) (\<lambda>s. Ok (0, s)))))))))))))"

primrec dir_empty_loop :: "(nat \<Rightarrow> 'a fsst_scheme devsw) \<Rightarrow> nat \<Rightarrow> nat list \<Rightarrow> 'a fsst_scheme \<Rightarrow> (bool \<times> 'a fsst_scheme) res" where
  "dir_empty_loop dv dp [] s = Ok (True, s)"
| "dir_empty_loop dv dp (off # offs) s =
     bnd (read_dirent dv ''isdirempty: readi'' dp off s) (\<lambda>(de, s).
     if de_inum de \<noteq> 0 then Ok (False, s) else dir_empty_loop dv dp offs s)"

definition isdirempty :: "(nat \<Rightarrow> 'a fsst_scheme devsw) \<Rightarrow> nat \<Rightarrow> 'a fsst_scheme \<Rightarrow> (bool \<times> 'a fsst_scheme) res" where
  "isdirempty dv dp s = dir_empty_loop dv dp (drop 2 (steps 16 (unat (i_size (inod s dp))))) s"

definition sys_unlink :: "(nat \<Rightarrow> 'a fsst_scheme devsw) \<Rightarrow> 'a fsst_scheme \<Rightarrow> (int \<times> 'a fsst_scheme) res" where
  "sys_unlink dv s =
     if_args (argstr 0 s) s (\<lambda>(_, path).
     bnd (begin_op s) (\<lambda>s.
     bnd (nameiparent dv (cpath path) (replicate DIRSIZ NUL) s) (\<lambda>((r, name), s).
     case r of None \<Rightarrow> fail_op s | Some dp \<Rightarrow>
       bnd (ilock dp s) (\<lambda>s.
       bnd (namecmp name (cpath ''.'')) (\<lambda>c1.
       bnd (if c1 = 0 then Ok 0 else namecmp name (cpath ''..'')) (\<lambda>c2.
       if c2 = 0 then put_fail dp s
       else
         bnd (dirlookup dv dp name s) (\<lambda>(r, s).
         case r of None \<Rightarrow> put_fail dp s | Some (ip, off) \<Rightarrow>
           bnd (ilock ip s) (\<lambda>s.
           if sint (i_nlink (inod s ip)) < 1 then panic ''unlink: nlink < 1''
           else
             bnd (if i_type (inod s ip) = T_DIR then isdirempty dv ip s else Ok (True, s)) (\<lambda>(e, s).
             if \<not> e then bnd (iunlockput ip s) (put_fail dp)
             else
               bnd (writei dv dp (replicate 16 0) (of_nat off) 16 s) (\<lambda>(w, s).
               if w \<noteq> 16 then panic ''unlink: writei''
               else
                 bnd (if i_type (inod s ip) = T_DIR then add_nlink dp (-1) s else Ok s) (\<lambda>s.
                 bnd (iunlockput dp s) (\<lambda>s.
                 bnd (add_nlink ip (-1) s) (\<lambda>s.
                 bnd (iunlockput ip s) (\<lambda>s.
                 bnd (end_op s) (\<lambda>s. Ok (0, s))))))))))))))))"

subsection \<open>Creating and opening\<close>

definition create :: "(nat \<Rightarrow> 'a fsst_scheme devsw) \<Rightarrow> string \<Rightarrow> u16 \<Rightarrow> u16 \<Rightarrow> u16 \<Rightarrow> 'a fsst_scheme \<Rightarrow> (nat option \<times> 'a fsst_scheme) res" where
  "create dv path ty major minor s =
     bnd (nameiparent dv (cpath path) (replicate DIRSIZ NUL) s) (\<lambda>((r, name), s).
     case r of None \<Rightarrow> Ok (None, s) | Some dp \<Rightarrow>
       bnd (ilock dp s) (\<lambda>s.
       bnd (dirlookup dv dp name s) (\<lambda>(r, s).
       case r of
         Some (ip, _) \<Rightarrow>
           bnd (iunlockput dp s) (\<lambda>s.
           bnd (ilock ip s) (\<lambda>s.
           if ty = T_FILE \<and> i_type (inod s ip) = T_FILE then Ok (Some ip, s)
           else bnd (iunlockput ip s) (\<lambda>s. Ok (None, s))))
       | None \<Rightarrow>
           bnd (ialloc (i_dev (inod s dp)) ty s) (\<lambda>(ip, s).
           bnd (ilock ip s) (\<lambda>s.
           bnd (iupdate ip (upd_inode ip (\<lambda>x. x\<lparr>i_major := major, i_minor := minor, i_nlink := 1\<rparr>) s)) (\<lambda>s.
           bnd (if ty = T_DIR then
                  bnd (add_nlink dp 1 s) (\<lambda>s.
                  bnd (dirlink dv ip (cpath ''.'') (i_inum (inod s ip)) s) (\<lambda>(r, s).
                  if r < 0 then panic ''create dots''
                  else
                    bnd (dirlink dv ip (cpath ''..'') (i_inum (inod s dp)) s) (\<lambda>(r, s).
                    if r < 0 then panic ''create dots'' else Ok s)))
                else Ok s) (\<lambda>s.
           bnd (dirlink dv dp name (i_inum (inod s ip)) s) (\<lambda>(r, s).
           if r < 0 then panic ''create: dirlink''
           else bnd (iunlockput dp s) (\<lambda>s. Ok (Some ip, s))))))))))"

text \<open>The inode is returned locked.\<close>

definition open_inode :: "(nat \<Rightarrow> 'a fsst_scheme devsw) \<Rightarrow> string \<Rightarrow> u32 \<Rightarrow> 'a fsst_scheme \<Rightarrow> (nat option \<times> 'a fsst_scheme) res" where
  "open_inode dv path omode s =
     (if omode AND O_CREATE \<noteq> 0 then create dv path T_FILE 0 0 s
      else
        bnd (namei dv (cpath path) s) (\<lambda>(r, s).
        case r of None \<Rightarrow> Ok (None, s) | Some ip \<Rightarrow>
          bnd (ilock ip s) (\<lambda>s.
          if i_type (inod s ip) = T_DIR \<and> omode \<noteq> 0 then bnd (iunlockput ip s) (\<lambda>s. Ok (None, s))
          else Ok (Some ip, s))))"

definition sys_open :: "(nat \<Rightarrow> 'a ftab_scheme devsw) \<Rightarrow> 'a ftab_scheme \<Rightarrow> (int \<times> 'a ftab_scheme) res" where
  "sys_open dv s =
     if_args (two_args (argstr 0 s) (argint 1 s)) s (\<lambda>((_, path), om).
     let omode = word_of_int om :: u32 in
     bnd (begin_op s) (\<lambda>s.
     bnd (open_inode dv path omode s) (\<lambda>(r, s).
     case r of None \<Rightarrow> fail_op s | Some ip \<Rightarrow>
       bnd (filealloc s) (\<lambda>(f, s).
       case f of None \<Rightarrow> put_fail ip s | Some f \<Rightarrow>
         bnd (fdalloc f s) (\<lambda>(fd, s).
         if fd < 0 then bnd (fileclose f s) (put_fail ip)
         else
           bnd (iunlock ip s) (\<lambda>s.
           bnd (end_op s) (\<lambda>s.
           Ok (fd, upd_file f (\<lambda>x. x\<lparr>f_type := FD_INODE, f_ip := ip, f_off := 0, f_readable := omode AND O_WRONLY = 0,
             f_writable := (omode AND O_WRONLY \<noteq> 0 \<or> omode AND O_RDWR \<noteq> 0)\<rparr>) s))))))))"

definition make_node :: "(nat option \<times> 'a fsst_scheme) res \<Rightarrow> (int \<times> 'a fsst_scheme) res" where
  "make_node r =
     bnd r (\<lambda>(ip, s).
     case ip of None \<Rightarrow> fail_op s | Some ip \<Rightarrow> bnd (iunlockput ip s) (\<lambda>s. bnd (end_op s) (\<lambda>s. Ok (0, s))))"

definition sys_mkdir :: "(nat \<Rightarrow> 'a fsst_scheme devsw) \<Rightarrow> 'a fsst_scheme \<Rightarrow> (int \<times> 'a fsst_scheme) res" where
  "sys_mkdir dv s =
     bnd (begin_op s) (\<lambda>s.
     make_node (bnd (argstr 0 s) (\<lambda>r. case r of None \<Rightarrow> Ok (None, s) | Some (_, path) \<Rightarrow> create dv path T_DIR 0 0 s)))"

definition sys_mknod :: "(nat \<Rightarrow> 'a fsst_scheme devsw) \<Rightarrow> 'a fsst_scheme \<Rightarrow> (int \<times> 'a fsst_scheme) res" where
  "sys_mknod dv s =
     bnd (begin_op s) (\<lambda>s.
     make_node (bnd (two_args (two_args (argstr 0 s) (argint 1 s)) (argint 2 s)) (\<lambda>r.
       case r of None \<Rightarrow> Ok (None, s)
       | Some (((_, path), major), minor) \<Rightarrow> create dv path T_DEV (word_of_int major) (word_of_int minor) s)))"

subsection \<open>The working directory\<close>

text \<open>\<open>setpath\<close> comes first; it writes the path it arrives at over the argument, and the new path is looked up.\<close>

definition sys_chdir :: "(nat \<Rightarrow> 'a fsst_scheme devsw) \<Rightarrow> 'a fsst_scheme \<Rightarrow> (int \<times> 'a fsst_scheme) res" where
  "sys_chdir dv s =
     bnd (myproc s) (\<lambda>p.
     bnd (begin_op s) (\<lambda>s.
     bnd (argstr 0 s) (\<lambda>r.
     case r of None \<Rightarrow> fail_op s | Some (addr, path) \<Rightarrow>
       bnd (setpath (p_cid (procs s ! p)) path 1 s) (\<lambda>((r, x), s).
       bnd (if x = path then Ok s else uwrite addr (bytes x @ [0]) s) (\<lambda>s.
       if r < 0 then fail_op s
       else
         bnd (namei dv (cpath x) s) (\<lambda>(ip, s).
         case ip of None \<Rightarrow> fail_op s | Some ip \<Rightarrow>
           bnd (ilock ip s) (\<lambda>s.
           if i_type (inod s ip) \<noteq> T_DIR then put_fail ip s
           else
             bnd (iunlock ip s) (\<lambda>s.
             bnd (case p_cwd (procs s ! p) of None \<Rightarrow> fault ''iput'' | Some d \<Rightarrow> iput d s) (\<lambda>s.
             bnd (end_op s) (\<lambda>s.
             Ok (0, upd_proc p (\<lambda>q. q\<lparr>p_cwd := Some ip\<rparr>) s)))))))))))"

primrec name_loop :: "(nat \<Rightarrow> 'a fsst_scheme devsw) \<Rightarrow> u32 \<Rightarrow> nat \<Rightarrow> nat list \<Rightarrow> 'a fsst_scheme \<Rightarrow> (string option \<times> 'a fsst_scheme) res" where
  "name_loop dv inum parent [] s = Ok (None, s)"
| "name_loop dv inum parent (off # offs) s =
     bnd (read_dirent dv ''couldnt read dir entry'' parent off s) (\<lambda>(de, s).
     if ucast (de_inum de) = inum then Ok (Some (take (DIRSIZ - 1) (cstr (de_name de))), s)
     else name_loop dv inum parent offs s)"

definition name_of_inode :: "(nat \<Rightarrow> 'a fsst_scheme devsw) \<Rightarrow> nat \<Rightarrow> nat \<Rightarrow> 'a fsst_scheme \<Rightarrow> (string option \<times> 'a fsst_scheme) res" where
  "name_of_inode dv ip parent s = name_loop dv (i_inum (inod s ip)) parent (steps 16 (unat (i_size (inod s parent)))) s"

primrec name_for_inode :: "nat \<Rightarrow> (nat \<Rightarrow> 'a fsst_scheme devsw) \<Rightarrow> u32 \<Rightarrow> int \<Rightarrow> nat \<Rightarrow> 'a fsst_scheme \<Rightarrow> (int \<times> 'a fsst_scheme) res" where
  "name_for_inode 0 dv buf n ip s = Inl Diverge"
| "name_for_inode (Suc k) dv buf n ip s =
     bnd (namei dv (cpath ''/'') s) (\<lambda>(r, s).
     case r of None \<Rightarrow> fault ''namei'' | Some root \<Rightarrow>
       if i_inum (inod s ip) = i_inum (inod s root) then bnd (ustore buf 47 s) (\<lambda>s. Ok (1, s))
       else if i_type (inod s ip) = T_DIR then
         bnd (dirlookup dv ip (cpath ''..'') s) (\<lambda>(r, s).
         case r of None \<Rightarrow> panic ''ilock'' | Some (parent, _) \<Rightarrow>
           bnd (ilock parent s) (\<lambda>s.
           bnd (name_of_inode dv ip parent s) (\<lambda>(r, s).
           case r of None \<Rightarrow> panic ''could not find name of inode in parent!'' | Some node \<Rightarrow>
             bnd (name_for_inode k dv buf n parent s) (\<lambda>(off, s).
             bnd (if n - off \<le> 0 then Ok s else uwrite (buf + word_of_int off) (bytes (take (nat (n - off) - 1) node) @ [0]) s) (\<lambda>s.
             let off = off + int (length node) in
             if off = n - 1 then bnd (ustore (buf + word_of_int off) 0 s) (\<lambda>s. Ok (n, s))
             else
               bnd (ustore (buf + word_of_int off) 47 s) (\<lambda>s.
               bnd (iput parent s) (\<lambda>s. Ok (off + 1, s))))))))
       else if i_type (inod s ip) = T_DEV \<or> i_type (inod s ip) = T_FILE then panic ''process cwd is a device node / file, not a directory!''
       else panic ''unknown inode type'')"

definition sys_getcwd :: "nat \<Rightarrow> (nat \<Rightarrow> 'a fsst_scheme devsw) \<Rightarrow> 'a fsst_scheme \<Rightarrow> (int \<times> 'a fsst_scheme) res" where
  "sys_getcwd k dv s =
     if_args (bnd (argint 1 s) (\<lambda>n. case n of None \<Rightarrow> Ok None | Some n \<Rightarrow> bnd (argptr 0 n s) (\<lambda>p. Ok (map_option (Pair n) p)))) s (\<lambda>(n, buf).
     bnd (myproc s) (\<lambda>p.
     case p_cwd (procs s ! p) of None \<Rightarrow> fault ''cwd'' | Some ip \<Rightarrow> name_for_inode k dv buf n ip s))"

subsection \<open>Programs and pipes\<close>

primrec fetch_argv :: "nat \<Rightarrow> u32 \<Rightarrow> 'a ptable_scheme \<Rightarrow> string list option res" where
  "fetch_argv 0 uargv s = Ok None"
| "fetch_argv (Suc k) uargv s =
     bnd (fetchint uargv s) (\<lambda>r.
     case r of None \<Rightarrow> Ok None | Some uarg \<Rightarrow>
       if uarg = 0 then Ok (Some [])
       else
         bnd (fetchstr (word_of_int uarg) s) (\<lambda>r.
         case r of None \<Rightarrow> Ok None | Some (_, x) \<Rightarrow>
           bnd (fetch_argv k (uargv + 4) s) (\<lambda>r. Ok (map_option ((#) x) r))))"

definition sys_exec :: "(nat \<Rightarrow> 'a fsst_scheme devsw) \<Rightarrow> 'a fsst_scheme \<Rightarrow> (int \<times> 'a fsst_scheme) res" where
  "sys_exec dv s =
     if_args (two_args (argstr 0 s) (argint 1 s)) s (\<lambda>((_, path), uargv).
     if_args (fetch_argv MAXARG (word_of_int uargv) s) s (\<lambda>argv. exec dv path argv s))"

definition sys_pipe :: "'a ftab_scheme \<Rightarrow> (int \<times> 'a ftab_scheme) res" where
  "sys_pipe s =
     if_args (argptr 0 8 s) s (\<lambda>a.
     bnd (pipealloc s) (\<lambda>(r, s).
     case r of None \<Rightarrow> Ok (-1, s) | Some (rf, wfl) \<Rightarrow>
       let bad = (\<lambda>s. bnd (fileclose rf s) (\<lambda>s. bnd (fileclose wfl s) (\<lambda>s. Ok (-1, s)))) in
       bnd (fdalloc rf s) (\<lambda>(fd0, s).
       if fd0 < 0 then bad s
       else
         bnd (fdalloc wfl s) (\<lambda>(fd1, s).
         if fd1 < 0 then bnd (clear_fd fd0 s) bad
         else bnd (uwrite a (to_bytes (word_of_int fd0) @ to_bytes (word_of_int fd1)) s) (\<lambda>s. Ok (0, s))))))"

subsection \<open>Locked inodes stay locked\<close>

definition lk :: "nat set \<Rightarrow> 'a slps_scheme \<Rightarrow> bool" where
  "lk x s \<longleftrightarrow> (\<forall>i \<in> x. sl_locked (sleeplocks s (L_inode i)))"

named_theorems lks \<open>operations that release no inode\<close>

lemma lk_simps [simp]:
  "lk x (s\<lparr>held := h\<rparr>) = lk x s" "lk x (s\<lparr>ncli := n\<rparr>) = lk x s" "lk x (s\<lparr>mem := m\<rparr>) = lk x s" "lk x (s\<lparr>procs := ps\<rparr>) = lk x s" "lk x (upd_proc p f s) = lk x s"
  "lk x (put_sl (L_buf b) v s) = lk x s" "lk x (wakeup1 ch s) = lk x s"
  by (simp_all add: lk_def wakeup1_def)

lemma lk_bufs [simp]: "lk x (upd_buf b f s) = lk x s" "lk x (push_front b s) = lk x s" "lk x (unlink_buf b s) = lk x s" "lk x (s\<lparr>memdisk := d\<rparr>) = lk x s" "lk x (s\<lparr>dwrites := w\<rparr>) = lk x s"
  by (simp_all add: lk_def upd_buf_def push_front_def unlink_buf_def Let_def)

lemma lk_inodes [simp]: "lk x (upd_inode ip f s) = lk x s" "lk x (s\<lparr>fs_sb := b\<rparr>) = lk x s"
  by (simp_all add: lk_def upd_inode_def)

lemma lk_log [simp]: "lk x (s\<lparr>lg_lh := h\<rparr>) = lk x s" "lk x (set_data b d s) = lk x s"
  by (simp_all add: lk_def set_data_def)

lemma lk_lock [lks]: "lk x s \<Longrightarrow> (\<And>s'. lk x s' \<Longrightarrow> R s') \<Longrightarrow> spec (lock l s) R"
  by (auto simp: lock_def vc)

lemma lk_unlock [lks]: "lk x s \<Longrightarrow> (\<And>s'. lk x s' \<Longrightarrow> R s') \<Longrightarrow> spec (unlock l s) R"
  by (auto simp: unlock_def vc)

lemma lk_getsleep [lks]: "lk x s \<Longrightarrow> (\<And>s'. lk x s' \<Longrightarrow> R s') \<Longrightarrow> spec (getsleep l s) R"
  by (auto simp: getsleep_def acquiresleep_def acquiresleep_loop_def sleep_out_def sched_def lock_def unlock_def myproc_def vc lk_def split: option.splits)

lemma lk_holding [lks]: "lk x s \<Longrightarrow> (\<And>h s'. lk x s' \<Longrightarrow> R (h, s')) \<Longrightarrow> spec (holdingsleep l s) R"
  by (auto simp: holdingsleep_def vc intro!: lks)

lemma lk_wakeup [lks]: "lk x s \<Longrightarrow> (\<And>s'. lk x s' \<Longrightarrow> R s') \<Longrightarrow> spec (wakeup ch s) R"
  unfolding wakeup_def by (simp only: spec_simps, rule lk_lock, assumption, rule lk_unlock) auto

lemma lk_release [lks]: "lk x s \<Longrightarrow> (\<And>s'. lk x s' \<Longrightarrow> R s') \<Longrightarrow> spec (releasesleep (L_buf b) s) R"
  unfolding releasesleep_def by (simp only: spec_simps, rule lk_lock, assumption, rule lk_wakeup, simp, rule lk_unlock) auto

lemma lk_bget [lks]: "lk x s \<Longrightarrow> (\<And>i s'. lk x s' \<Longrightarrow> R (i, s')) \<Longrightarrow> spec (bget d b s) R"
  unfolding bget_def spec_simps
  apply (rule lk_lock, assumption)
  apply (rule specI)
  apply (auto simp: spec_simps split: option.split intro!: specI [of "walk_bufs _ _ _ _ _"])
  apply (rule lk_unlock, simp, rule lk_getsleep, assumption, simp)+
  done

lemma lk_iderw [lks]: "lk x s \<Longrightarrow> (\<And>s'. lk x s' \<Longrightarrow> R s') \<Longrightarrow> spec (iderw b s) R"
  unfolding iderw_def spec_simps by (rule lk_holding, assumption) (auto simp: spec_simps Let_def)

lemma lk_bread [lks]: "lk x s \<Longrightarrow> (\<And>i s'. lk x s' \<Longrightarrow> R (i, s')) \<Longrightarrow> spec (bread d b s) R"
  unfolding bread_def spec_simps by (rule lk_bget, assumption) (auto simp: spec_simps intro!: lk_iderw)

lemma lk_brelse [lks]: "lk x s \<Longrightarrow> (\<And>s'. lk x s' \<Longrightarrow> R s') \<Longrightarrow> spec (brelse b s) R"
  unfolding brelse_def spec_simps
  by (rule lk_holding, assumption) (auto simp: spec_simps Let_def intro!: lk_release lk_lock lk_unlock)

lemma lk_log_write [lks]: "lk x s \<Longrightarrow> (\<And>s'. lk x s' \<Longrightarrow> R s') \<Longrightarrow> spec (log_write b s) R"
  unfolding log_write_def Let_def spec_simps
  by (auto simp: vc spec_simps aset_def intro!: lk_lock lk_unlock)

lemma lk_bzero [lks]: "lk x s \<Longrightarrow> (\<And>s'. lk x s' \<Longrightarrow> R s') \<Longrightarrow> spec (bzero d b s) R"
  unfolding bzero_def spec_simps by (rule lk_bread, assumption) (auto simp: spec_simps intro!: lk_log_write lk_brelse)

lemma lk_balloc [lks]: "lk x s \<Longrightarrow> (\<And>i s'. lk x s' \<Longrightarrow> R (i, s')) \<Longrightarrow> spec (balloc d s) R"
proof -
  have "lk x s \<Longrightarrow> (\<And>i s'. lk x s' \<Longrightarrow> R (i, s')) \<Longrightarrow> spec (balloc_loop d bs s) R" for bs
    by (induction bs arbitrary: s) (auto simp: spec_simps split: option.split intro!: lk_bread lk_brelse lk_log_write lk_bzero)
  then show "lk x s \<Longrightarrow> (\<And>i s'. lk x s' \<Longrightarrow> R (i, s')) \<Longrightarrow> spec (balloc d s) R" unfolding balloc_def by blast
qed

lemma lk_bmap [lks]: "lk x s \<Longrightarrow> (\<And>i s'. lk x s' \<Longrightarrow> R (i, s')) \<Longrightarrow> spec (bmap ip n s) R"
  unfolding bmap_def addr_of_def set_addr_def Let_def
  by (auto simp: spec_simps intro!: lk_bread lk_brelse lk_log_write lk_balloc)

text \<open>A device may give up inodes during a read but has them again when it returns, as \<open>consoleread\<close> does.\<close>

definition quiet_devs :: "(nat \<Rightarrow> 'a fsst_scheme devsw) \<Rightarrow> bool" where
  "quiet_devs dv \<longleftrightarrow> (\<forall>j f ip n s r s' x. dv_read (dv j) = Some f \<and> f ip n s = Ok (r, s') \<and> lk x s \<longrightarrow> lk x s')"

lemma lk_readi_loop:
  fixes s :: "'a fsst_scheme"
  shows "lk x s \<Longrightarrow> (\<And>i s'. lk x s' \<Longrightarrow> R (i, s')) \<Longrightarrow> spec (readi_loop ip off n s) R"
proof (induction n arbitrary: off s R rule: less_induct)
  case (less n)
  let ?m = "min n (BSIZE - off mod BSIZE)"
  have m: "n - ?m < n" if "n \<noteq> 0" using that by (simp add: BSIZE_def)
  have IH: "spec (readi_loop ip (off + ?m) (n - ?m) s1) Q" if "n \<noteq> 0" "lk x s1" "\<And>i s'. lk x s' \<Longrightarrow> Q (i, s')" for s1 :: "'a fsst_scheme" and Q
    by (rule less.IH [OF m [OF that(1)] that(2)]) (rule that(3))
  show ?case
    by (subst readi_loop.simps, unfold Let_def)
      (auto simp: spec_simps less.prems simp del: readi_loop.simps intro!: lk_bmap [OF less.prems(1)] lk_bread lk_brelse IH)
qed

lemma lk_readi [lks]:
  fixes s :: "'a fsst_scheme"
  assumes "quiet_devs dv" "lk x s" "\<And>i s'. lk x s' \<Longrightarrow> R (i, s')"
  shows "spec (readi dv ip off n s) R"
proof -
  have d: "spec (f ip (unat n) s) R" if "dv_read (dv j) = Some f" for j f
  proof (rule specI)
    fix y assume y: "f ip (unat n) s = Ok y"
    obtain r s' where rs: "y = (r, s')" by (cases y)
    have "lk x s'" using assms(1,2) that y unfolding quiet_devs_def rs by blast
    then show "R y" using assms(3) rs by blast
  qed
  have l: "spec (readi_loop ip a b s) (\<lambda>(xs, s). R ((r, xs), s))" for a b r
    by (rule lk_readi_loop [OF assms(2)]) (simp add: assms(3))
  show ?thesis unfolding readi_def Let_def spec_simps
    by (simp add: d assms(2,3) spec_simps case_prod_unfold l [unfolded case_prod_unfold] del: readi_loop.simps split: option.split)
qed

lemma lk_read_dirent [lks]:
  assumes "quiet_devs dv"
  shows "lk x s \<Longrightarrow> (\<And>i s'. lk x s' \<Longrightarrow> R (i, s')) \<Longrightarrow> spec (read_dirent dv msg dp off s) R"
  unfolding read_dirent_def by (auto simp: spec_simps intro!: lk_readi [OF assms])

lemma lk_iget [lks]: "lk x s \<Longrightarrow> (\<And>i s'. lk x s' \<Longrightarrow> R (i, s')) \<Longrightarrow> spec (iget d n s) R"
  unfolding iget_def spec_simps by (rule lk_lock, assumption) (auto simp: spec_simps split: option.split intro!: lk_unlock)

lemma lk_dirlookup [lks]:
  assumes "quiet_devs dv"
  shows "lk x s \<Longrightarrow> (\<And>i s'. lk x s' \<Longrightarrow> R (i, s')) \<Longrightarrow> spec (dirlookup dv dp name s) R"
proof -
  have "lk x s \<Longrightarrow> (\<And>i s'. lk x s' \<Longrightarrow> R (i, s')) \<Longrightarrow> spec (dirlookup_loop dv dp name offs s) R" for offs
  proof (induction offs arbitrary: s)
    case (Cons off offs)
    have "spec (dirlookup_loop dv dp name offs s1) R" "spec (iget d n s1) (\<lambda>a. spec (case a of (ip, s) \<Rightarrow> Ok (Some (ip, off), s)) R)" if "lk x s1" for s1 d n
      using that Cons by (auto simp: spec_simps intro!: lk_iget)
    then show ?case unfolding dirlookup_loop.simps spec_simps
      by (intro lk_read_dirent [OF assms Cons.prems(1)]) (auto simp: spec_simps intro!: specI [of "namecmp _ _"])
  qed (simp add: spec_simps)
  then show "lk x s \<Longrightarrow> (\<And>i s'. lk x s' \<Longrightarrow> R (i, s')) \<Longrightarrow> spec (dirlookup dv dp name s) R"
    unfolding dirlookup_def by (auto simp: spec_simps)
qed

lemma lk_name_of [lks]:
  assumes "quiet_devs dv"
  shows "lk x s \<Longrightarrow> (\<And>i s'. lk x s' \<Longrightarrow> R (i, s')) \<Longrightarrow> spec (name_of_inode dv ip parent s) R"
proof -
  have "lk x s \<Longrightarrow> (\<And>i s'. lk x s' \<Longrightarrow> R (i, s')) \<Longrightarrow> spec (name_loop dv n parent offs s) R" for offs n
    by (induction offs arbitrary: s) (auto simp: spec_simps intro!: lk_read_dirent [OF assms])
  then show "lk x s \<Longrightarrow> (\<And>i s'. lk x s' \<Longrightarrow> R (i, s')) \<Longrightarrow> spec (name_of_inode dv ip parent s) R"
    unfolding name_of_inode_def by blast
qed

lemma lk_load: "lk x s \<Longrightarrow> (\<And>s'. lk x s' \<Longrightarrow> R s') \<Longrightarrow> spec (load_inode ip s) R"
  unfolding load_inode_def Let_def by (auto simp: spec_simps intro!: lk_bread lk_brelse)

lemma lk_ilock [lks]: "lk x s \<Longrightarrow> (\<And>s'. lk x s' \<Longrightarrow> R s') \<Longrightarrow> spec (ilock ip s) R"
  unfolding ilock_def by (auto simp: spec_simps intro!: lk_getsleep lk_load)

lemma lk_getsleep_inode: "lk x s \<Longrightarrow> (\<And>s'. lk (insert ip x) s' \<Longrightarrow> R s') \<Longrightarrow> spec (getsleep (L_inode ip) s) R"
  by (auto simp: getsleep_def acquiresleep_def acquiresleep_loop_def sleep_out_def sched_def lock_def unlock_def myproc_def vc lk_def split: option.splits)

lemma ilock_locks: "lk x s \<Longrightarrow> (\<And>s'. lk (insert ip x) s' \<Longrightarrow> R s') \<Longrightarrow> spec (ilock ip s) R"
  unfolding ilock_def by (auto simp: spec_simps intro!: lk_getsleep_inode [of x] lk_load [of "insert ip x"])

lemma iput_locked: "lk x s \<Longrightarrow> ip \<in> x \<Longrightarrow> spec (iput ip s) R"
  by (intro specI) (auto simp: iput_def getsleep_def acquiresleep_def acquiresleep_loop_def lk_def lock_def bnd_eq_Inr split: if_splits)

lemma lk_ustore [lks]: "lk x s \<Longrightarrow> (\<And>s'. lk x s' \<Longrightarrow> R s') \<Longrightarrow> spec (ustore a b s) R"
  unfolding ustore_def by (auto simp: spec_simps intro!: specI [of "uaddr _ _"])

lemma lk_uwrite [lks]: "lk x s \<Longrightarrow> (\<And>s'. lk x s' \<Longrightarrow> R s') \<Longrightarrow> spec (uwrite a bs s) R"
  by (induction bs arbitrary: a s) (auto simp: spec_simps intro!: lk_ustore)

subsection \<open>Asking for the working directory\<close>

lemma lk_root: "lk x s \<Longrightarrow> (\<And>i s'. lk x s' \<Longrightarrow> R (i, s')) \<Longrightarrow> spec (namei dv (cpath ''/'') s) R"
proof -
  assume a: "lk x s" "\<And>i s'. lk x s' \<Longrightarrow> R (i, s')"
  have "skipelem (cpath ''/'') (replicate DIRSIZ NUL) = Ok None" by (simp add: skipelem_def)
  then have "namei dv (cpath ''/'') s = bnd (iget ROOTDEV ROOTINO s) (\<lambda>(ip, s). Ok (Some ip, s))"
    by (cases "iget ROOTDEV ROOTINO s") (auto simp: namei_def namex_def namex_loop.simps)
  then show ?thesis using a by (simp add: spec_simps) (auto simp: spec_simps intro!: lk_iget)
qed

lemma name_for_inode_stuck:
  fixes s :: "'a fsst_scheme"
  assumes "quiet_devs dv" "lk x s"
  shows "spec (name_for_inode k dv buf n ip s) (\<lambda>(r, s'). lk x s' \<and>
    (r = n \<or> (\<exists>root s1. namei dv (cpath ''/'') s = Ok (Some root, s1) \<and> i_inum (inod s1 ip) = i_inum (inod s1 root))))"
  using assms(2)
proof (induction k arbitrary: ip s x)
  case (Suc k)
  let ?R = "\<lambda>(r, s'). lk x s' \<and> (r = n \<or> (\<exists>root s1. namei dv (cpath ''/'') s = Ok (Some root, s1) \<and> i_inum (inod s1 ip) = i_inum (inod s1 root)))"
  have sub: "lk x t" if "lk (insert p x) t" for p and t :: "'a fsst_scheme" using that by (simp add: lk_def)
  have tail: "spec (bnd (if n - off \<le> 0 then Ok t else uwrite (buf + word_of_int off) bs t) (\<lambda>s.
        let off = off + int m in
        if off = n - 1 then bnd (ustore (buf + word_of_int off) 0 s) (\<lambda>s. Ok (n, s))
        else bnd (ustore (buf + word_of_int off) 47 s) (\<lambda>s. bnd (iput p s) (\<lambda>s. Ok (off + 1, s))))) ?R"
    if "lk (insert p x) t" for p off m bs and t :: "'a fsst_scheme"
  proof -
    have "spec (if off + int m = n - 1 then bnd (ustore (buf + word_of_int (off + int m)) 0 u) (\<lambda>s. Ok (n, s))
        else bnd (ustore (buf + word_of_int (off + int m)) 47 u) (\<lambda>s. bnd (iput p s) (\<lambda>s. Ok (off + int m + 1, s)))) ?R"
      if u: "lk (insert p x) u" for u :: "'a fsst_scheme"
      unfolding spec_simps
      by (auto intro!: lk_ustore [OF u] sub [of p] iput_locked [of "insert p x"] simp: spec_simps)
    then show ?thesis unfolding Let_def spec_simps using that by (auto intro!: lk_uwrite [OF that] simp: spec_simps)
  qed
  show ?case
  proof (cases "namei dv (cpath ''/'') s")
    case (Inr y)
    obtain r1 s1 where y: "y = (r1, s1)" by (cases y)
    have l1: "lk x s1" using lk_root [OF Suc.prems, of "\<lambda>(_, t). lk x t" dv] Inr y by (auto dest: specD)
    have top: "spec (bnd (ustore buf 47 s1) (\<lambda>s. Ok (1, s))) ?R" if "r1 = Some root" "i_inum (inod s1 ip) = i_inum (inod s1 root)" for root
      unfolding spec_simps using that Inr y by (intro lk_ustore [OF l1]) (auto simp: spec_simps)
    have rec: "spec (name_for_inode k dv buf n parent s4) (\<lambda>(off, t). lk (insert parent x) t)" if "lk (insert parent x) s4" for parent and s4 :: "'a fsst_scheme"
      using Suc.IH [OF that] by (rule spec_mono) auto
    have up: "spec (bnd (dirlookup dv ip (cpath ''..'') s1) (\<lambda>(r, s).
        case r of None \<Rightarrow> panic ''ilock'' | Some (parent, _) \<Rightarrow>
          bnd (ilock parent s) (\<lambda>s.
          bnd (name_of_inode dv ip parent s) (\<lambda>(r, s).
          case r of None \<Rightarrow> panic ''could not find name of inode in parent!'' | Some node \<Rightarrow>
            bnd (name_for_inode k dv buf n parent s) (\<lambda>(off, s).
            bnd (if n - off \<le> 0 then Ok s else uwrite (buf + word_of_int off) (bytes (take (nat (n - off) - 1) node) @ [0]) s) (\<lambda>s.
            let off = off + int (length node) in
            if off = n - 1 then bnd (ustore (buf + word_of_int off) 0 s) (\<lambda>s. Ok (n, s))
            else bnd (ustore (buf + word_of_int off) 47 s) (\<lambda>s. bnd (iput parent s) (\<lambda>s. Ok (off + 1, s))))))))) ?R" (is "spec ?U _")
      unfolding spec_simps(3)
    proof (rule lk_dirlookup [OF assms(1) l1], goal_cases)
      case (1 z s2)
      have inner: "spec (bnd (name_for_inode k dv buf n parent s4) (\<lambda>(off, s). bnd (if n - off \<le> 0 then Ok s else uwrite (buf + word_of_int off) (bytes (take (nat (n - off) - 1) node) @ [0]) s) (\<lambda>s.
            let off = off + int (length node) in
            if off = n - 1 then bnd (ustore (buf + word_of_int off) 0 s) (\<lambda>s. Ok (n, s))
            else bnd (ustore (buf + word_of_int off) 47 s) (\<lambda>s. bnd (iput parent s) (\<lambda>s. Ok (off + 1, s)))))) ?R" if "lk (insert parent x) s4" for parent node and s4 :: "'a fsst_scheme"
        unfolding spec_simps(3) [of "name_for_inode _ _ _ _ _ _"] by (rule spec_mono [OF rec [OF that]]) (use tail in \<open>simp add: case_prod_unfold\<close>)
      show ?case
      proof (cases z)
        case (Some q)
        obtain parent o1 where q: "q = (parent, o1)" by (cases q)
        show ?thesis unfolding Some q
          apply (simp only: prod.case option.case spec_simps(3) [of "ilock _ _"])
          apply (rule ilock_locks [OF 1])
          apply (simp only: spec_simps(3) [of "name_of_inode _ _ _ _"])
          apply (rule lk_name_of [OF assms(1)], assumption)
          apply (use inner in \<open>simp add: spec_simps(2) split: option.split\<close>)
          done
      qed (simp add: spec_simps)
    qed
    show ?thesis
    proof (cases r1)
      case (Some root)
      have "name_for_inode (Suc k) dv buf n ip s =
          (if i_inum (inod s1 ip) = i_inum (inod s1 root) then bnd (ustore buf 47 s1) (\<lambda>s. Ok (1, s))
           else if i_type (inod s1 ip) = T_DIR then ?U
           else if i_type (inod s1 ip) = T_DEV \<or> i_type (inod s1 ip) = T_FILE then panic ''process cwd is a device node / file, not a directory!''
           else panic ''unknown inode type'')"
        by (simp only: name_for_inode.simps Inr y Some bnd_Inr prod.case option.case)
      then show ?thesis
        using top [OF Some] up by (cases "i_inum (inod s1 ip) = i_inum (inod s1 root)"; cases "i_type (inod s1 ip) = T_DIR")
          (simp_all only: if_True if_False simp_thms spec_simps(2,4) split: if_split)
    qed (simp only: name_for_inode.simps Inr y bnd_Inr prod.case option.case spec_simps(2))
  qed (simp only: name_for_inode.simps bnd_Inl spec_simps(2))
qed (simp add: spec_simps)



end
