(* ===== verification/Console.thy ===== *)
theory Console
  imports Sysfile
begin

text \<open>
  The console (\<^verbatim>\<open>console.c\<close>, \<^verbatim>\<open>kbd.c\<close>, \<^verbatim>\<open>uart.c\<close>): printing, the line editor the keyboard interrupt runs, reading and writing the console device, and the
  listings of processes and containers that are only printed. The screen is a map from cells to words together with the cursor register; the serial line is the list of the
  bytes sent to it. An interrupt is given by the codes its \<open>getc\<close> delivers before it answers -1. A string is given without its terminator. The strings the ^T key builds
  in local arrays have no effect and are left out.

  Shown: keys act on the ring buffer with its three wrapping counters as a line editor acts on a queue of committed bytes and a line being edited; the interrupt
  always returns with the cursor on the screen, and a read takes from the front of the queue what the terminal convention says.
\<close>

definition INPUT_BUF :: nat where "INPUT_BUF = 128"
definition BACKSPACE :: int where "BACKSPACE = 0x100"
definition CONSOLE :: nat where "CONSOLE = 1"

record input =
  in_buf :: "byte list"
  in_r :: u32
  in_w :: u32
  in_e :: u32

record consst = tickst +
  con_in :: input
  con_inputs :: "input list"
  con_active :: int
  con_locking :: bool
  con_panicked :: bool
  crt :: "int \<Rightarrow> u16"
  crt_pos :: int
  uart :: bool
  uart_out :: "byte list"
  kbd_shift :: u32

subsection \<open>Output\<close>

definition uartputc :: "int \<Rightarrow> 'a consst_scheme \<Rightarrow> 'a consst_scheme" where
  "uartputc c s = (if uart s then s\<lparr>uart_out := uart_out s @ [word_of_int c]\<rparr> else s)"

definition scroll :: "int \<Rightarrow> (int \<Rightarrow> u16) \<Rightarrow> int \<Rightarrow> u16" where
  "scroll pos scr = (\<lambda>i. if pos \<le> i \<and> i < 24 * 80 then 0 else if 0 \<le> i \<and> i < 23 * 80 then scr (i + 80) else scr i)"

definition cgaputc :: "int \<Rightarrow> 'a consst_scheme \<Rightarrow> 'a consst_scheme res" where
  "cgaputc c s =
     (let pos = crt_pos s;
          scr = (if c = 10 \<or> c = BACKSPACE then crt s else (crt s)(pos := ucast (word_of_int c :: byte) OR 0x0700));
          pos = (if c = 10 then pos + (80 - pos mod 80) else if c = BACKSPACE then (if pos > 0 then pos - 1 else pos) else pos + 1)
      in
      if pos < 0 \<or> pos > 25 * 80 then panic ''pos under/overflow''
      else
        let (pos, scr) = (if pos div 80 \<ge> 24 then (pos - 80, scroll (pos - 80) scr) else (pos, scr)) in
        Ok (s\<lparr>crt_pos := pos, crt := scr(pos := 0x0720)\<rparr>))"

definition consputc :: "int \<Rightarrow> 'a consst_scheme \<Rightarrow> 'a consst_scheme res" where
  "consputc c s =
     (if con_panicked s then Inl Diverge
      else cgaputc c (if c = BACKSPACE then uartputc 8 (uartputc 32 (uartputc 8 s)) else uartputc c s))"

function num_digits :: "nat \<Rightarrow> nat \<Rightarrow> string" where
  "num_digits base x = (''0123456789abcdef'' ! (x mod base)) # (if x div base = 0 \<or> base < 2 then [] else num_digits base (x div base))"
  by pat_completeness auto
termination
proof (relation "measure snd")
  fix base x :: nat assume "\<not> (x div base = 0 \<or> base < 2)"
  moreover from this have "0 < x" by (cases x) auto
  ultimately show "((base, x div base), base, x) \<in> measure snd" by simp
qed simp

declare num_digits.simps [simp del]

definition ascii :: "string \<Rightarrow> int list" where
  "ascii = map (\<lambda>c. int (of_char c))"

definition printint :: "u32 \<Rightarrow> nat \<Rightarrow> bool \<Rightarrow> 'a consst_scheme \<Rightarrow> 'a consst_scheme res" where
  "printint xx base sign s =
     (let neg = sign \<and> sint xx < 0;
          x = unat (if neg then - xx else xx)
      in foldM consputc (ascii (rev (num_digits base x @ (if neg then ''-'' else [])))) s)"

datatype carg = Num u32 | Str "string option"

definition print_arg :: "char \<Rightarrow> carg list \<Rightarrow> 'a consst_scheme \<Rightarrow> (carg list \<times> 'a consst_scheme) res" where
  "print_arg c args s =
     (if c = CHR ''d'' then
        (case args of Num x # args \<Rightarrow> bnd (printint x 10 True s) (\<lambda>s. Ok (args, s)) | _ \<Rightarrow> fault ''cprintf'')
      else if c = CHR ''x'' \<or> c = CHR ''p'' then
        (case args of Num x # args \<Rightarrow> bnd (printint x 16 False s) (\<lambda>s. Ok (args, s)) | _ \<Rightarrow> fault ''cprintf'')
      else if c = CHR ''s'' then
        (case args of Str x # args \<Rightarrow> bnd (foldM consputc (ascii (case x of None \<Rightarrow> ''(null)'' | Some y \<Rightarrow> y)) s) (\<lambda>s. Ok (args, s)) | _ \<Rightarrow> fault ''cprintf'')
      else if c = CHR ''%'' then bnd (consputc 37 s) (\<lambda>s. Ok (args, s))
      else bnd (foldM consputc [37, int (of_char c)] s) (\<lambda>s. Ok (args, s)))"

fun cprintf_loop :: "string \<Rightarrow> carg list \<Rightarrow> 'a consst_scheme \<Rightarrow> 'a consst_scheme res" where
  "cprintf_loop [] args s = Ok s"
| "cprintf_loop (c # cs) args s =
     (if c \<noteq> CHR ''%'' then bnd (consputc (int (of_char c)) s) (cprintf_loop cs args)
      else case cs of [] \<Rightarrow> Ok s | d # ds \<Rightarrow> bnd (print_arg d args s) (\<lambda>(args, s). cprintf_loop ds args s))"

definition cprintf :: "string \<Rightarrow> carg list \<Rightarrow> 'a consst_scheme \<Rightarrow> 'a consst_scheme res" where
  "cprintf fmt args s =
     (if con_locking s
      then bnd (lock L_cons s) (\<lambda>s. bnd (cprintf_loop fmt args s) (unlock L_cons))
      else cprintf_loop fmt args s)"

subsection \<open>Listings\<close>

definition num :: "int \<Rightarrow> carg" where
  "num x = Num (word_of_int x)"

fun state_name :: "procstate \<Rightarrow> string" where
  "state_name UNUSED = ''unused''"
| "state_name EMBRYO = ''embryo''"
| "state_name SLEEPING = ''sleep ''"
| "state_name RUNNABLE = ''runble''"
| "state_name RUNNING = ''run   ''"
| "state_name ZOMBIE = ''zombie''"

definition show_proc :: "proc \<Rightarrow> 'a consst_scheme \<Rightarrow> 'a consst_scheme res" where
  "show_proc p s =
     bnd (cprintf ''%d %s %s %d'' [num (p_pid p), Str (Some (state_name (p_state p))), Str (Some (p_name p)), num (p_ticks p)] s) (\<lambda>s.
     bnd (if p_state p = SLEEPING
          then foldM (\<lambda>pc. cprintf '' %p'' [Num pc]) (takeWhile (\<lambda>pc. pc \<noteq> 0) (getcallerpcs (ld32 (mem s)) (ld32 (mem s) (p_context p + 12) + 8))) s
          else Ok s) (cprintf [CHR 10] []))"

definition procdump :: "'a consst_scheme \<Rightarrow> 'a consst_scheme res" where
  "procdump s = foldM (\<lambda>p s. if p_state p = UNUSED then Ok s else show_proc p s) (procs s) s"

definition psroot :: "'a consst_scheme \<Rightarrow> 'a consst_scheme res" where
  "psroot s = foldM (\<lambda>p s.
     if p_state p = UNUSED then Ok s
     else bnd (if p_cid p = -1 then cprintf ''ROOT: '' [] s else cprintf ''Container %d: '' [num (p_cid p)] s) (show_proc p)) (procs s) s"

definition pscontainer :: "int \<Rightarrow> 'a consst_scheme \<Rightarrow> 'a consst_scheme res" where
  "pscontainer index s = foldM (\<lambda>p s.
     if p_cid p \<noteq> index \<or> p_state p = UNUSED then Ok s
     else bnd (cprintf ''Container %d: '' [num (p_cid p)] s) (show_proc p)) (procs s) s"

definition ps :: "'a consst_scheme \<Rightarrow> (int \<times> 'a consst_scheme) res" where
  "ps s =
     (let index = 0 in
      bnd (cprintf (''ps index = %d'' @ [CHR 10]) [num 0] s) (\<lambda>s.
      bnd (if index = -1 then psroot s else pscontainer index s) (\<lambda>s. Ok (0, s))))"

text \<open>The field \<open>vc\<close> of a container is never written, so it is the empty string.\<close>

definition print_container :: "nat \<Rightarrow> 'a consst_scheme \<Rightarrow> 'a consst_scheme res" where
  "print_container i s =
     (let x = containers s ! i; line = (\<lambda>label fmt args s. bnd (cprintf label [] s) (\<lambda>s. bnd (cprintf fmt args s) (cprintf [CHR 10] []))) in
      if c_alive x = 0 then Ok s
      else
        bnd (line ''Name: '' (c_name x) [] s) (\<lambda>s.
        bnd (line ''shm: '' [] [] s) (\<lambda>s.
        bnd (line ''CURRENT PATH: '' (c_path x) [] s) (\<lambda>s.
        bnd (line ''MAX PROC:  '' ''%d'' [num (c_max_proc x)] s) (\<lambda>s.
        bnd (line ''USED PROC: '' ''%d'' [num (c_active x)] s) (\<lambda>s.
        bnd (line ''Index: '' ''%d'' [num (int i)] s) (\<lambda>s.
        bnd (pscontainer (int i) s) (cprintf [CHR 10, CHR 10] []))))))))"

definition tostring :: "'a consst_scheme \<Rightarrow> (int \<times> 'a consst_scheme) res" where
  "tostring s =
     bnd (lock L_manager s) (\<lambda>s.
     bnd (foldM print_container [0..<MAX_NUM_CONTAINERS] s) (\<lambda>s.
     bnd (unlock L_manager s) (\<lambda>s. Ok (0, s))))"

subsection \<open>The keyboard\<close>

abbreviation SHIFT :: u32 where "SHIFT \<equiv> 1"
abbreviation CTL :: u32 where "CTL \<equiv> 2"
abbreviation ALT :: u32 where "ALT \<equiv> 4"
abbreviation CAPSLOCK :: u32 where "CAPSLOCK \<equiv> 8"
abbreviation NUMLOCK :: u32 where "NUMLOCK \<equiv> 16"
abbreviation SCROLLLOCK :: u32 where "SCROLLLOCK \<equiv> 32"
abbreviation E0ESC :: u32 where "E0ESC \<equiv> 64"

definition shiftcode :: "nat \<Rightarrow> u32" where
  "shiftcode k =
     (if k = 0x1D then CTL else if k = 0x2A then SHIFT else if k = 0x36 then SHIFT else if k = 0x38 then ALT
      else if k = 0x9D then CTL else if k = 0xB8 then ALT else 0)"

definition togglecode :: "nat \<Rightarrow> u32" where
  "togglecode k = (if k = 0x3A then CAPSLOCK else if k = 0x45 then NUMLOCK else if k = 0x46 then SCROLLLOCK else 0)"

text \<open>The codes of the keys that send a prefix: up, down, page up, page down, left, right, home, end, insert and delete.\<close>

definition special_key :: "nat \<Rightarrow> nat" where
  "special_key k =
     (case map_of [(0xC8, 0xE2), (0xD0, 0xE3), (0xC9, 0xE6), (0xD1, 0xE7), (0xCB, 0xE4), (0xCD, 0xE5), (0x97, 0xE0), (0xCF, 0xE1), (0xD2, 0xE8), (0xD3, 0xE9)] k of
        None \<Rightarrow> 0 | Some c \<Rightarrow> c)"

definition keymap :: "nat list \<Rightarrow> nat \<Rightarrow> nat \<Rightarrow> nat \<Rightarrow> nat" where
  "keymap codes enter kpdiv k =
     (if k < length codes then codes ! k else if k = 0x9C then enter else if k = 0xB5 then kpdiv else special_key k)"

definition normalmap :: "nat \<Rightarrow> nat" where
  "normalmap k = keymap [
     0, 27, 49, 50, 51, 52, 53, 54, 55, 56, 57, 48, 45, 61, 8, 9,
     113, 119, 101, 114, 116, 121, 117, 105, 111, 112, 91, 93, 10, 0, 97, 115,
     100, 102, 103, 104, 106, 107, 108, 59, 39, 96, 0, 92, 122, 120, 99, 118,
     98, 110, 109, 44, 46, 47, 0, 42, 0, 32, 0, 0, 0, 0, 0, 0,
     0, 0, 0, 0, 0, 0, 0, 55, 56, 57, 45, 52, 53, 54, 43, 49,
     50, 51, 48, 46, 0, 0, 0, 0] 10 47 k"

definition shiftmap :: "nat \<Rightarrow> nat" where
  "shiftmap k = keymap [
     0, 27, 33, 64, 35, 36, 37, 94, 38, 42, 40, 41, 95, 43, 8, 9,
     81, 87, 69, 82, 84, 89, 85, 73, 79, 80, 123, 125, 10, 0, 65, 83,
     68, 70, 71, 72, 74, 75, 76, 58, 34, 126, 0, 124, 90, 88, 67, 86,
     66, 78, 77, 60, 62, 63, 0, 42, 0, 32, 0, 0, 0, 0, 0, 0,
     0, 0, 0, 0, 0, 0, 0, 55, 56, 57, 45, 52, 53, 54, 43, 49,
     50, 51, 48, 46, 0, 0, 0, 0] 10 47 k"

definition ctlmap :: "nat \<Rightarrow> nat" where
  "ctlmap k = keymap [
     0, 0, 0, 0, 0, 0, 0, 0, 0, 0, 0, 0, 0, 0, 0, 0,
     17, 23, 5, 18, 20, 25, 21, 9, 15, 16, 0, 0, 13, 0, 1, 19,
     4, 6, 7, 8, 10, 11, 12, 0, 0, 0, 0, 28, 26, 24, 3, 22,
     2, 14, 13, 0, 0, 239, 0, 0] 13 239 k"


text \<open>One byte from the keyboard controller: the code it stands for, and the new state of the modifiers.\<close>

definition kbd_code :: "u32 \<Rightarrow> nat \<Rightarrow> nat" where
  "kbd_code shift k =
     (let c = (if shift AND (CTL OR SHIFT) = 0 then normalmap k else if shift AND (CTL OR SHIFT) = SHIFT then shiftmap k else ctlmap k) in
      if shift AND CAPSLOCK \<noteq> 0
      then (if 97 \<le> c \<and> c \<le> 122 then c - 32 else if 65 \<le> c \<and> c \<le> 90 then c + 32 else c)
      else c)"

definition kbdgetc :: "byte \<Rightarrow> u32 \<Rightarrow> int \<times> u32" where
  "kbdgetc b shift =
     (let data = unat b in
      if data = 0xE0 then (0, shift OR E0ESC)
      else if 128 \<le> data then
        let data = (if shift AND E0ESC \<noteq> 0 then data else data - 128) in
        (0, shift AND NOT (shiftcode data OR E0ESC))
      else
        let (data, shift) = (if shift AND E0ESC \<noteq> 0 then (data + 128, shift AND NOT E0ESC) else (data, shift));
            shift = (shift OR shiftcode data) XOR togglecode data
        in (int (kbd_code shift data), shift))"

fun kbd_codes :: "byte list \<Rightarrow> u32 \<Rightarrow> int list \<times> u32" where
  "kbd_codes [] shift = ([], shift)"
| "kbd_codes (b # bs) shift = (let (c, shift) = kbdgetc b shift; (cs, shift) = kbd_codes bs shift in (c # cs, shift))"

text \<open>Shift pressed, the key A pressed and released, Shift released: one capital letter, and no modifier stays.\<close>

lemma kbd_shift_key: "kbd_codes [0x2A, 0x1E, 0x9E, 0xAA] 0 = ([0, 65, 0, 0], 0)"
  by code_simp

subsection \<open>Editing a line\<close>

definition at_ring :: "input \<Rightarrow> u32 \<Rightarrow> byte" where
  "at_ring x i = in_buf x ! (unat i mod INPUT_BUF)"

text \<open>The loop of the ^U key; the number counts the backspaces it prints.\<close>

function kill_line :: "input \<Rightarrow> input \<times> nat" where
  "kill_line x =
     (if in_e x \<noteq> in_w x \<and> at_ring x (in_e x - 1) \<noteq> 10
      then (let (x, n) = kill_line (x\<lparr>in_e := in_e x - 1\<rparr>) in (x, Suc n))
      else (x, 0))"
  by pat_completeness auto
termination
proof (relation "measure (\<lambda>x. unat (in_e x - in_w x))")
  fix x :: input assume "in_e x \<noteq> in_w x \<and> at_ring x (in_e x - 1) \<noteq> 10"
  then have "in_e x - in_w x \<noteq> 0" by simp
  then show "(x\<lparr>in_e := in_e x - 1\<rparr>, x) \<in> measure (\<lambda>x. unat (in_e x - in_w x))"
    using measure_unat [of "in_e x - in_w x"] by (simp add: algebra_simps)
qed simp

declare kill_line.simps [simp del]

definition put_key :: "byte \<Rightarrow> input \<Rightarrow> input" where
  "put_key b x = x\<lparr>in_buf := (in_buf x)[unat (in_e x) mod INPUT_BUF := b], in_e := in_e x + 1\<rparr>"

definition switch_console :: "'a consst_scheme \<Rightarrow> 'a consst_scheme" where
  "switch_console s =
     (let inputs = (con_inputs s)[nat (con_active s) := con_in s];
          active = (con_active s + 1) mod int (MAX_NUM_CONTAINERS + 1)
      in s\<lparr>con_inputs := inputs, con_active := active, con_in := inputs ! nat active\<rparr>)"

definition con_char :: "int \<Rightarrow> 'a consst_scheme \<Rightarrow> 'a consst_scheme res" where
  "con_char c s =
     (if c \<noteq> 0 \<and> in_e (con_in s) - in_r (con_in s) < of_nat INPUT_BUF then
        let c = (if c = 13 then 10 else c) in
        bnd (consputc c (s\<lparr>con_in := put_key (word_of_int c) (con_in s)\<rparr>)) (\<lambda>s.
        if c = 10 \<or> c = 4 \<or> in_e (con_in s) = in_r (con_in s) + of_nat INPUT_BUF
        then wakeup (Some Ch_input) (s\<lparr>con_in := (con_in s)\<lparr>in_w := in_e (con_in s)\<rparr>\<rparr>)
        else Ok s)
      else Ok s)"

definition con_key :: "int \<Rightarrow> 'a consst_scheme \<Rightarrow> 'a consst_scheme res" where
  "con_key c s =
     (if c = 16 then Ok s
      else if c = 20 then Ok (switch_console s)
      else if c = 21 then
        let (x, n) = kill_line (con_in s) in foldM consputc (replicate n BACKSPACE) (s\<lparr>con_in := x\<rparr>)
      else if c = 8 \<or> c = 127 then
        if in_e (con_in s) \<noteq> in_w (con_in s)
        then consputc BACKSPACE (s\<lparr>con_in := (con_in s)\<lparr>in_e := in_e (con_in s) - 1\<rparr>\<rparr>)
        else Ok s
      else con_char c s)"

definition consoleintr :: "int list \<Rightarrow> 'a consst_scheme \<Rightarrow> 'a consst_scheme res" where
  "consoleintr codes s =
     bnd (lock L_cons s) (\<lambda>s.
     bnd (foldM con_key codes s) (\<lambda>s.
     bnd (unlock L_cons s) (\<lambda>s.
     bnd (if 16 \<in> set codes then procdump s else Ok s) (\<lambda>s.
     if 20 \<in> set codes then cprintf ([CHR 10] @ ''Active console now: %d'' @ [CHR 10]) [num (con_active s)] s else Ok s))))"

definition kbdintr :: "byte list \<Rightarrow> 'a consst_scheme \<Rightarrow> 'a consst_scheme res" where
  "kbdintr bs s = (let (codes, shift) = kbd_codes bs (kbd_shift s) in consoleintr codes (s\<lparr>kbd_shift := shift\<rparr>))"

definition uartintr :: "byte list \<Rightarrow> 'a consst_scheme \<Rightarrow> 'a consst_scheme res" where
  "uartintr bs s = consoleintr (if uart s then map uint bs else []) s"

subsection \<open>The console device\<close>

definition con_mine :: "nat \<Rightarrow> 'a consst_scheme \<Rightarrow> bool" where
  "con_mine ip s \<longleftrightarrow> con_active s = sint (i_minor (inod s ip)) - 1"

definition con_done :: "nat \<Rightarrow> int \<Rightarrow> 'a consst_scheme \<Rightarrow> ((int, nat) call \<times> byte list \<times> 'a consst_scheme) res" where
  "con_done ip r s = bnd (unlock L_cons s) (\<lambda>s. bnd (ilock ip s) (\<lambda>s. Ok (Ret r, [], s)))"

text \<open>The loop with \<open>n\<close> of \<open>target\<close> bytes to go; a sleep reports how many are left.\<close>

primrec con_read_loop :: "nat \<Rightarrow> nat \<Rightarrow> nat \<Rightarrow> 'a consst_scheme \<Rightarrow> ((int, nat) call \<times> byte list \<times> 'a consst_scheme) res" where
  "con_read_loop ip target 0 s = con_done ip (int target) s"
| "con_read_loop ip target (Suc n) s =
     (let x = con_in s in
      if in_r x = in_w x \<or> \<not> con_mine ip s then
        bnd (myproc s) (\<lambda>p.
        if p_killed (procs s ! p) then con_done ip (-1) s
        else bnd (sleep_out (Some Ch_input) L_cons s) (\<lambda>s. Ok (Sleeps (Suc n), [], s)))
      else
        let c = at_ring x (in_r x); s1 = s\<lparr>con_in := x\<lparr>in_r := in_r x + 1\<rparr>\<rparr> in
        if c = 4 then con_done ip (int target - int (Suc n)) (if Suc n < target then s else s1)
        else
          bnd (if c = 10 then con_done ip (int target - int n) s1 else con_read_loop ip target n s1) (\<lambda>(r, bs, s).
          Ok (r, c # bs, s)))"

definition consoleread :: "nat \<Rightarrow> nat \<Rightarrow> 'a consst_scheme \<Rightarrow> ((int, nat) call \<times> byte list \<times> 'a consst_scheme) res" where
  "consoleread ip n s = bnd (iunlock ip s) (\<lambda>s. bnd (lock L_cons s) (con_read_loop ip n n))"

definition consoleread_resume :: "nat \<Rightarrow> nat \<Rightarrow> nat \<Rightarrow> 'a consst_scheme \<Rightarrow> ((int, nat) call \<times> byte list \<times> 'a consst_scheme) res" where
  "consoleread_resume ip target n s = bnd (sleep_in L_cons s) (con_read_loop ip target n)"

definition consolewrite :: "nat \<Rightarrow> byte list \<Rightarrow> 'a consst_scheme \<Rightarrow> (int \<times> 'a consst_scheme) res" where
  "consolewrite ip bs s =
     bnd (if con_mine ip s
          then
            bnd (iunlock ip s) (\<lambda>s.
            bnd (lock L_cons s) (\<lambda>s.
            bnd (foldM consputc (map uint bs) s) (\<lambda>s.
            bnd (unlock L_cons s) (ilock ip))))
          else Ok s) (\<lambda>s. Ok (int (length bs), s))"

definition consoleinit :: "(nat \<Rightarrow> 'a consst_scheme devsw) \<Rightarrow> 'a consst_scheme \<Rightarrow> (nat \<Rightarrow> 'a consst_scheme devsw) \<times> 'a consst_scheme" where
  "consoleinit dv s =
     (dv(CONSOLE := \<lparr>
        dv_read = Some (\<lambda>ip n s. bnd (consoleread ip n s) (\<lambda>(r, bs, s). case r of Ret v \<Rightarrow> Ok ((v, bs), s) | Sleeps _ \<Rightarrow> Inl Asleep)),
        dv_write = Some consolewrite\<rparr>),
      s\<lparr>con_locking := True\<rparr>)"

subsection \<open>The ring as a queue and a line\<close>

definition con_bytes :: "input \<Rightarrow> byte list" where
  "con_bytes x = map (\<lambda>k. at_ring x (in_r x + of_nat k)) [0..<unat (in_e x - in_r x)]"

definition con_view :: "input \<Rightarrow> byte list \<times> byte list" where
  "con_view x = (take (unat (in_w x - in_r x)) (con_bytes x), drop (unat (in_w x - in_r x)) (con_bytes x))"

definition input_ok :: "input \<Rightarrow> bool" where
  "input_ok x \<longleftrightarrow> length (in_buf x) = INPUT_BUF \<and> unat (in_w x - in_r x) \<le> unat (in_e x - in_r x) \<and> unat (in_e x - in_r x) \<le> INPUT_BUF"

lemma con_idx: "unat (a + of_nat k :: u32) mod 128 = (unat a + k) mod 128"
proof -
  have "unat (a + of_nat k :: u32) = (unat a + k) mod 2 ^ 32"
    by (simp add: unat_word_ariths unsigned_of_nat take_bit_nat_def mod_add_right_eq)
  then show ?thesis using mod_mod_cancel [of 128 "2 ^ 32" "unat a + k"] by simp
qed

lemma unat_less_one: "y \<noteq> 0 \<Longrightarrow> unat (y - 1 :: u32) = unat y - 1"
  using unat_sub [of 1 y] by (simp add: word_le_nat_alt unat_gt_0 Suc_le_eq)

lemma unat_diff_eq: "unat (a - c :: u32) = unat (b - c) \<longleftrightarrow> a = b"
  by (metis diff_eq_eq diff_add_cancel word_unat_eq_iff)

lemma length_con_bytes [simp]: "length (con_bytes x) = unat (in_e x - in_r x)"
  by (simp add: con_bytes_def)

lemma nth_con_bytes: "k < unat (in_e x - in_r x) \<Longrightarrow> con_bytes x ! k = in_buf x ! ((unat (in_r x) + k) mod 128)"
  by (simp add: con_bytes_def at_ring_def INPUT_BUF_def con_idx)

lemma put_key_bytes:
  assumes "input_ok x" "unat (in_e x - in_r x) < 128"
  shows "con_bytes (put_key b x) = con_bytes x @ [b]" "input_ok (put_key b x)"
proof -
  let ?d = "unat (in_e x - in_r x)"
  have "in_e x + 1 - in_r x = (in_e x - in_r x) + 1" by simp
  then have d: "unat (in_e x + 1 - in_r x) = Suc ?d" using assms(2) by (simp only:) (simp add: unat_word_ariths)
  have e: "unat (in_e x) mod 128 = (unat (in_r x) + ?d) mod 128"
    using con_idx [of "in_r x" ?d] by simp
  have ne: "(unat (in_r x) + k) mod 128 \<noteq> (unat (in_r x) + ?d) mod 128" if "k < ?d" for k
  proof
    assume "(unat (in_r x) + k) mod 128 = (unat (in_r x) + ?d) mod 128"
    then have "128 dvd (unat (in_r x) + ?d) - (unat (in_r x) + k)"
      using that by (intro mod_eq_dvd_iff_nat [THEN iffD1]) simp_all
    with that assms(2) show False by (auto dest: dvd_imp_le)
  qed
  show "con_bytes (put_key b x) = con_bytes x @ [b]"
  proof (rule nth_equalityI)
    fix i assume "i < length (con_bytes (put_key b x))"
    then have i: "i < Suc ?d" by (simp add: put_key_def d)
    then have "con_bytes (put_key b x) ! i = (in_buf x)[unat (in_e x) mod 128 := b] ! ((unat (in_r x) + i) mod 128)"
      using nth_con_bytes [of i "put_key b x"] by (simp add: put_key_def d INPUT_BUF_def)
    then show "con_bytes (put_key b x) ! i = (con_bytes x @ [b]) ! i"
      using i ne [of i] assms(1) by (cases "i = ?d") (auto simp: e nth_append nth_con_bytes input_ok_def INPUT_BUF_def dest: not_sym)
  qed (simp add: put_key_def d)
  show "input_ok (put_key b x)"
    using assms d by (simp add: input_ok_def put_key_def INPUT_BUF_def)
qed

lemma erase_bytes:
  assumes "input_ok x" "in_e x \<noteq> in_w x"
  shows "con_bytes (x\<lparr>in_e := in_e x - 1\<rparr>) = butlast (con_bytes x)" "input_ok (x\<lparr>in_e := in_e x - 1\<rparr>)"
    "unat (in_w x - in_r x) < unat (in_e x - in_r x)" "at_ring x (in_e x - 1) = last (con_bytes x)"
proof -
  let ?d = "unat (in_e x - in_r x)"
  show lt: "unat (in_w x - in_r x) < ?d" using assms unat_diff_eq [of "in_e x" "in_r x" "in_w x"] by (simp add: input_ok_def)
  then have "in_e x - in_r x \<noteq> 0" by auto
  then have "unat ((in_e x - in_r x) - 1) = ?d - 1" by (rule unat_less_one)
  moreover have "(in_e x - in_r x) - 1 = in_e x - 1 - in_r x" by (simp only: diff_diff_eq add.commute)
  ultimately have d: "unat (in_e x - 1 - in_r x) = ?d - 1" by (simp only:)
  show "con_bytes (x\<lparr>in_e := in_e x - 1\<rparr>) = butlast (con_bytes x)"
    by (rule nth_equalityI) (auto simp: d nth_con_bytes nth_butlast)
  show "input_ok (x\<lparr>in_e := in_e x - 1\<rparr>)" using assms(1) lt d by (auto simp: input_ok_def)
  have "in_e x - 1 = in_r x + of_nat (?d - 1)" unfolding d [symmetric] by simp
  then show "at_ring x (in_e x - 1) = last (con_bytes x)"
    using lt con_idx [of "in_r x" "?d - 1"] nth_con_bytes [of "?d - 1" x] by (subst last_conv_nth) (auto simp: at_ring_def INPUT_BUF_def simp flip: length_0_conv)
qed

lemma get_bytes:
  assumes "input_ok x" "in_r x \<noteq> in_w x"
  shows "con_bytes x = at_ring x (in_r x) # con_bytes (x\<lparr>in_r := in_r x + 1\<rparr>)" "input_ok (x\<lparr>in_r := in_r x + 1\<rparr>)"
    "unat (in_w x - in_r x) = Suc (unat (in_w x - (in_r x + 1)))"
proof -
  have less: "unat (y - (in_r x + 1)) = unat (y - in_r x) - 1" if "y \<noteq> in_r x" for y
    using unat_less_one [of "y - in_r x"] that by (simp add: diff_diff_eq)
  have q: "0 < unat (in_w x - in_r x)" using assms(2) by (simp add: unat_gt_0)
  then have d: "0 < unat (in_e x - in_r x)" using assms(1) by (simp add: input_ok_def)
  then have w: "unat (in_w x - (in_r x + 1)) = unat (in_w x - in_r x) - 1" and e: "unat (in_e x - (in_r x + 1)) = unat (in_e x - in_r x) - 1"
    using assms(2) less [of "in_w x"] less [of "in_e x"] by fastforce+
  show "unat (in_w x - in_r x) = Suc (unat (in_w x - (in_r x + 1)))" using w q assms(2) by simp
  show "input_ok (x\<lparr>in_r := in_r x + 1\<rparr>)" using assms q d w e by (auto simp: input_ok_def)
  have i: "(unat (in_r x + 1) + k) mod 128 = (unat (in_r x) + Suc k) mod 128" for k
    using con_idx [of "in_r x + 1" k] con_idx [of "in_r x" "Suc k"] by (simp add: add.assoc)
  show "con_bytes x = at_ring x (in_r x) # con_bytes (x\<lparr>in_r := in_r x + 1\<rparr>)"
    using d e nth_con_bytes [of 0 x]
    by (intro nth_equalityI) (auto simp: nth_Cons nth_con_bytes i at_ring_def INPUT_BUF_def split: nat.split)
qed

lemma in_r_w: "input_ok x \<Longrightarrow> in_r x = in_w x \<longleftrightarrow> fst (con_view x) = []"
proof -
  assume "input_ok x"
  then have "length (fst (con_view x)) = unat (in_w x - in_r x)" by (simp add: con_view_def input_ok_def)
  then show ?thesis by (metis length_0_conv right_minus_eq unat_eq_0)
qed

lemma in_e_w: "input_ok x \<Longrightarrow> in_e x = in_w x \<longleftrightarrow> snd (con_view x) = []"
proof -
  assume "input_ok x"
  then have "snd (con_view x) = [] \<longleftrightarrow> unat (in_w x - in_r x) = unat (in_e x - in_r x)" by (auto simp: con_view_def input_ok_def)
  then show ?thesis using unat_diff_eq [of "in_w x" "in_r x" "in_e x"] by metis
qed

lemma view_length: "input_ok x \<Longrightarrow> length (fst (con_view x)) + length (snd (con_view x)) = unat (in_e x - in_r x)"
  by (simp add: con_view_def input_ok_def)

lemma view_put:
  assumes "input_ok x" "con_view x = (q, l)" "length q + length l < 128"
  shows "con_view (put_key b x) = (q, l @ [b])" "input_ok (put_key b x)"
proof -
  have d: "unat (in_e x - in_r x) < 128" using assms view_length [of x] by simp
  show "input_ok (put_key b x)" by (rule put_key_bytes [OF assms(1) d])
  have "in_w (put_key b x) = in_w x" "in_r (put_key b x) = in_r x" by (simp_all add: put_key_def)
  then show "con_view (put_key b x) = (q, l @ [b])"
    using assms(1,2) put_key_bytes(1) [OF assms(1) d, of b] by (auto simp: con_view_def input_ok_def)
qed

lemma view_erase:
  assumes "input_ok x" "con_view x = (q, l)" "l \<noteq> []"
  shows "con_view (x\<lparr>in_e := in_e x - 1\<rparr>) = (q, butlast l)" "input_ok (x\<lparr>in_e := in_e x - 1\<rparr>)" "at_ring x (in_e x - 1) = last l"
proof -
  have "in_e x \<noteq> in_w x" using assms in_e_w by auto
  note b = erase_bytes [OF assms(1) this]
  show "input_ok (x\<lparr>in_e := in_e x - 1\<rparr>)" by (rule b)
  show "at_ring x (in_e x - 1) = last l" using b(3,4) assms(2) by (auto simp: con_view_def last_drop)
  show "con_view (x\<lparr>in_e := in_e x - 1\<rparr>) = (q, butlast l)"
    using assms(2) b(1,3) by (auto simp: con_view_def drop_butlast take_butlast)
qed

lemma view_commit:
  assumes "input_ok x" "con_view x = (q, l)"
  shows "con_view (x\<lparr>in_w := in_e x\<rparr>) = (q @ l, [])" "input_ok (x\<lparr>in_w := in_e x\<rparr>)"
proof -
  have "con_bytes (x\<lparr>in_w := in_e x\<rparr>) = con_bytes x" by (simp add: con_bytes_def at_ring_def)
  then show "con_view (x\<lparr>in_w := in_e x\<rparr>) = (q @ l, [])" using assms by (auto simp: con_view_def)
qed (use assms in \<open>simp add: input_ok_def\<close>)

lemma view_get:
  assumes "input_ok x" "con_view x = (c # q, l)"
  shows "at_ring x (in_r x) = c" "con_view (x\<lparr>in_r := in_r x + 1\<rparr>) = (q, l)" "input_ok (x\<lparr>in_r := in_r x + 1\<rparr>)" "in_r x \<noteq> in_w x"
proof -
  show ne: "in_r x \<noteq> in_w x" using assms in_r_w by auto
  note b = get_bytes [OF assms(1) ne]
  show "input_ok (x\<lparr>in_r := in_r x + 1\<rparr>)" by (rule b)
  have "con_view x = (at_ring x (in_r x) # fst (con_view (x\<lparr>in_r := in_r x + 1\<rparr>)), snd (con_view (x\<lparr>in_r := in_r x + 1\<rparr>)))"
    unfolding con_view_def b(1) by (simp add: b(3))
  then show "at_ring x (in_r x) = c" "con_view (x\<lparr>in_r := in_r x + 1\<rparr>) = (q, l)"
    using assms(2) by (auto simp: prod_eq_iff)
qed

lemma view_kill:
  assumes "input_ok x" "con_view x = (q, l)"
  shows "\<exists>y n. kill_line x = (y, n) \<and> input_ok y \<and> con_view y = (q, rev (dropWhile (\<lambda>b. b \<noteq> 10) (rev l)))"
  using assms
proof (induction x arbitrary: l rule: kill_line.induct)
  case (1 x)
  show ?case
  proof (cases "in_e x \<noteq> in_w x \<and> at_ring x (in_e x - 1) \<noteq> 10")
    case True
    then have "l \<noteq> []" using 1(2,3) in_e_w by auto
    note v = view_erase [OF 1(2,3) this]
    obtain y n where "kill_line (x\<lparr>in_e := in_e x - 1\<rparr>) = (y, n)" "input_ok y" "con_view y = (q, rev (dropWhile (\<lambda>b. b \<noteq> 10) (rev (butlast l))))"
      using 1(1) [OF True v(2,1)] by auto
    moreover have "dropWhile (\<lambda>b. b \<noteq> 10) (rev l) = dropWhile (\<lambda>b. b \<noteq> 10) (rev (butlast l))"
      using \<open>l \<noteq> []\<close> True v(3) by (cases l rule: rev_cases) auto
    ultimately show ?thesis using True by (subst kill_line.simps) simp
  next
    case False
    then have "dropWhile (\<lambda>b. b \<noteq> 10) (rev l) = rev l"
      using 1(2,3) in_e_w [of x] view_erase(3) [OF 1(2,3)] by (cases l rule: rev_cases) auto
    moreover have "kill_line x = (x, 0)" by (subst kill_line.simps) (simp only: False if_False)
    ultimately show ?thesis using 1(2,3) by simp
  qed
qed

subsection \<open>Keys\<close>

text \<open>What a key does to the committed bytes \<open>q\<close> and the line \<open>l\<close> being edited.\<close>

fun edit_key :: "int \<Rightarrow> byte list \<times> byte list \<Rightarrow> byte list \<times> byte list" where
  "edit_key c (q, l) =
     (if c = 21 then (q, rev (dropWhile (\<lambda>b. b \<noteq> 10) (rev l)))
      else if c = 8 \<or> c = 127 then (q, butlast l)
      else if c \<noteq> 0 \<and> length q + length l < 128 then
        let c = (if c = 13 then 10 else c) in
        if c = 10 \<or> c = 4 \<or> length q + length l = 127 then (q @ l @ [word_of_int c], []) else (q, l @ [word_of_int c])
      else (q, l))"

definition con_ok :: "'a consst_scheme \<Rightarrow> bool" where
  "con_ok s \<longleftrightarrow> input_ok (con_in s) \<and> 0 \<le> crt_pos s \<and> crt_pos s < 24 * 80 \<and> \<not> con_panicked s"

definition con_frame :: "'a consst_scheme \<Rightarrow> 'a consst_scheme \<Rightarrow> bool" where
  "con_frame s s' \<longleftrightarrow> held s' = held s \<and> ncli s' = ncli s \<and> cur s' = cur s \<and> inodes s' = inodes s \<and> sleeplocks s' = sleeplocks s \<and> con_active s' = con_active s"

text \<open>Where the cursor goes, before the screen scrolls.\<close>

lemma cursor_range:
  fixes pos :: int
  assumes "0 \<le> pos" "pos < 1920"
  shows "0 \<le> pos + (80 - pos mod 80)" "pos + (80 - pos mod 80) \<le> 1920"
proof -
  have m: "0 \<le> pos mod 80" "pos mod 80 < 80" "80 * (pos div 80) + pos mod 80 = pos" by simp_all
  show "0 \<le> pos + (80 - pos mod 80)" using m assms by linarith
  have "pos div 80 \<le> 23" using m assms by linarith
  then show "pos + (80 - pos mod 80) \<le> 1920" using m by linarith
qed

lemma cgaputc_ok:
  assumes "0 \<le> crt_pos s" "crt_pos s < 24 * 80"
  shows "\<exists>p g. cgaputc c s = Ok (s\<lparr>crt_pos := p, crt := g\<rparr>) \<and> 0 \<le> p \<and> p < 24 * 80"
proof -
  define pos where "pos = (if c = 10 then crt_pos s + (80 - crt_pos s mod 80) else if c = BACKSPACE then (if crt_pos s > 0 then crt_pos s - 1 else crt_pos s) else crt_pos s + 1)"
  have pos: "0 \<le> pos" "pos \<le> 1920" using assms cursor_range [of "crt_pos s"] by (auto simp: pos_def)
  define scr where "scr = (if c = 10 \<or> c = BACKSPACE then crt s else (crt s)(crt_pos s := ucast (word_of_int c :: byte) OR 0x0700))"
  show ?thesis
  proof (cases "pos = 1920")
    case True
    then show ?thesis unfolding cgaputc_def Let_def pos_def [symmetric] scr_def [symmetric]
      by (intro exI [of _ 1840] exI [of _ "(scroll 1840 scr)(1840 := 0x0720)"]) simp
  next
    case False
    with pos have "\<not> 24 \<le> pos div 80" "0 \<le> pos" "pos < 1920" by simp_all
    then show ?thesis unfolding cgaputc_def Let_def pos_def [symmetric] scr_def [symmetric]
      by (intro exI [of _ pos] exI [of _ "scr(pos := 0x0720)"]) simp
  qed
qed

lemma consputc_ok:
  assumes "con_ok s"
  shows "\<exists>u p g. consputc c s = Ok (s\<lparr>uart_out := u, crt_pos := p, crt := g\<rparr>) \<and> 0 \<le> p \<and> p < 24 * 80"
proof -
  let ?t = "if c = BACKSPACE then uartputc 8 (uartputc 32 (uartputc 8 s)) else uartputc c s"
  have "?t = s\<lparr>uart_out := uart_out ?t\<rparr>" by (cases "uart s"; cases "c = BACKSPACE") (simp_all add: uartputc_def)
  then obtain u where t: "?t = s\<lparr>uart_out := u\<rparr>" by blast
  have "\<not> con_panicked s" "0 \<le> crt_pos (s\<lparr>uart_out := u\<rparr>)" "crt_pos (s\<lparr>uart_out := u\<rparr>) < 24 * 80" using assms by (simp_all add: con_ok_def)
  then show ?thesis using cgaputc_ok [of "s\<lparr>uart_out := u\<rparr>" c] unfolding consputc_def t by auto
qed

lemma con_ok_out: "con_ok s \<Longrightarrow> 0 \<le> p \<Longrightarrow> p < 24 * 80 \<Longrightarrow> con_ok (s\<lparr>uart_out := u, crt_pos := p, crt := g\<rparr>)"
  by (simp add: con_ok_def)

lemma consputs_ok:
  assumes "con_ok s"
  shows "\<exists>u p g. foldM consputc cs s = Ok (s\<lparr>uart_out := u, crt_pos := p, crt := g\<rparr>) \<and> 0 \<le> p \<and> p < 24 * 80"
  using assms
proof (induction cs arbitrary: s)
  case Nil
  then show ?case by (intro exI [of _ "uart_out s"] exI [of _ "crt_pos s"] exI [of _ "crt s"]) (simp add: con_ok_def)
next
  case (Cons c cs)
  obtain u p g where 1: "consputc c s = Ok (s\<lparr>uart_out := u, crt_pos := p, crt := g\<rparr>)" "0 \<le> p" "p < 24 * 80"
    using consputc_ok [OF Cons.prems] by blast
  show ?case using Cons.IH [OF con_ok_out [OF Cons.prems 1(2,3), of g u]] 1(1) by auto
qed

text \<open>What one key, or a sequence of keys, promises: the screen and the ring stay well-formed, and new committed bytes come with a wake-up.\<close>

definition key_step :: "(byte list \<times> byte list \<Rightarrow> byte list \<times> byte list) \<Rightarrow> 'a consst_scheme \<Rightarrow> 'a consst_scheme \<Rightarrow> bool" where
  "key_step f s s' \<longleftrightarrow> con_ok s' \<and> con_frame s s' \<and> con_view (con_in s') = f (con_view (con_in s)) \<and>
     (procs s' = procs s \<and> fst (con_view (con_in s')) = fst (con_view (con_in s)) \<or> asleep_on (Some Ch_input) (procs s') = {})"

lemma key_step_trans:
  assumes "key_step f s s1" "key_step g s1 s2"
  shows "key_step (g \<circ> f) s s2"
  using assms by (auto simp: key_step_def con_frame_def)

lemma no_sleeper: "asleep_on c (procs (wakeup1 c s)) = {}"
  by (auto simp: asleep_on_def wakeup1_def split: if_splits)

lemma con_char_ok:
  assumes "con_ok s" "L_ptable \<notin> set (held s)" "c \<notin> {21, 8, 127}"
  shows "\<exists>s'. con_char c s = Ok s' \<and> key_step (edit_key c) s s'"
proof -
  let ?x = "con_in s"
  obtain q l where v: "con_view ?x = (q, l)" by (cases "con_view ?x")
  have x: "input_ok ?x" using assms(1) by (simp add: con_ok_def)
  have len: "length q + length l = unat (in_e ?x - in_r ?x)" using view_length [OF x] v by simp
  have room: "in_e ?x - in_r ?x < of_nat INPUT_BUF \<longleftrightarrow> length q + length l < 128"
    by (simp add: len word_less_nat_alt INPUT_BUF_def)
  show ?thesis
  proof (cases "c \<noteq> 0 \<and> length q + length l < 128")
    case True
    define b where "b = (if c = 13 then 10 else c)"
    let ?y = "put_key (word_of_int b) ?x"
    have b1: "(if c = 13 then 10 else c) = b" by (simp add: b_def)
    note y = view_put [OF x v conjunct2 [OF True], of "word_of_int b"]
    have "con_ok (s\<lparr>con_in := ?y\<rparr>)" using assms(1) y by (simp add: con_ok_def)
    from consputc_ok [OF this, of b] obtain u p g where
      o: "consputc b (s\<lparr>con_in := ?y\<rparr>) = Ok (s\<lparr>con_in := ?y, uart_out := u, crt_pos := p, crt := g\<rparr>)" "0 \<le> p" "p < 24 * 80" by auto
    have full: "in_e ?y = in_r ?y + of_nat INPUT_BUF \<longleftrightarrow> length q + length l = 127"
    proof -
      have "unat (in_e ?y - in_r ?y) = Suc (length q + length l)" using view_length [OF y(2)] y(1) by simp
      moreover have "in_e ?y = in_r ?y + of_nat INPUT_BUF \<longleftrightarrow> in_e ?y - in_r ?y = 128" by (simp add: INPUT_BUF_def algebra_simps)
      moreover have "in_e ?y - in_r ?y = 128 \<longleftrightarrow> unat (in_e ?y - in_r ?y) = 128" by (simp add: word_unat_eq_iff)
      ultimately show ?thesis by simp
    qed
    let ?s = "s\<lparr>con_in := ?y, uart_out := u, crt_pos := p, crt := g\<rparr>"
    have eval: "con_char c s = (if b = 10 \<or> b = 4 \<or> length q + length l = 127
        then Ok (wakeup1 (Some Ch_input) (?s\<lparr>con_in := ?y\<lparr>in_w := in_e ?y\<rparr>\<rparr>)) else Ok ?s)"
      unfolding con_char_def Let_def b1 room using True assms(2) full by (simp add: o(1) wakeup_eval)
    have e: "edit_key c (q, l) = (if b = 10 \<or> b = 4 \<or> length q + length l = 127 then (q @ l @ [word_of_int b], []) else (q, l @ [word_of_int b]))"
      using True assms(3) by (simp add: b1 Let_def)
    show ?thesis
    proof (cases "b = 10 \<or> b = 4 \<or> length q + length l = 127")
      case True
      then show ?thesis using eval e o(2,3) assms(1) view_commit [OF y(2,1)] no_sleeper [of "Some Ch_input" "?s\<lparr>con_in := ?y\<lparr>in_w := in_e ?y\<rparr>\<rparr>"]
        by (simp add: key_step_def con_frame_def con_ok_def v wakeup1_def del: edit_key.simps)
    next
      case False
      then show ?thesis using eval e o(2,3) assms(1) y by (simp add: key_step_def con_frame_def con_ok_def v del: edit_key.simps)
    qed
  next
    case False
    then have "con_char c s = Ok s" "edit_key c (q, l) = (q, l)" using assms(3) by (auto simp: con_char_def room)
    then show ?thesis using assms(1) by (simp add: key_step_def con_frame_def v del: edit_key.simps)
  qed
qed

lemma con_key_ok:
  assumes "con_ok s" "L_ptable \<notin> set (held s)" "c \<notin> {16, 20}"
  shows "\<exists>s'. con_key c s = Ok s' \<and> key_step (edit_key c) s s'"
proof -
  let ?x = "con_in s"
  obtain q l where v: "con_view ?x = (q, l)" by (cases "con_view ?x")
  have x: "input_ok ?x" using assms(1) by (simp add: con_ok_def)
  have out: "\<exists>s'. foldM consputc cs (s\<lparr>con_in := y\<rparr>) = Ok s' \<and> key_step (edit_key c) s s'"
    if "input_ok y" "con_view y = edit_key c (q, l)" "fst (con_view y) = q" for cs y
  proof -
    have "con_ok (s\<lparr>con_in := y\<rparr>)" using assms(1) that by (simp add: con_ok_def)
    from consputs_ok [OF this, of cs] that assms(1) v show ?thesis
      by (auto simp: key_step_def con_frame_def con_ok_def simp del: edit_key.simps)
  qed
  consider "c = 21" | "c = 8 \<or> c = 127" | "c \<notin> {21, 8, 127}" by auto
  then show ?thesis
  proof cases
    case 1
    obtain y n where y: "kill_line ?x = (y, n)" "input_ok y" "con_view y = (q, rev (dropWhile (\<lambda>b. b \<noteq> 10) (rev l)))"
      using view_kill [OF x v] by blast
    then show ?thesis using out [of y "replicate n BACKSPACE"] 1 by (simp add: con_key_def)
  next
    case 2
    show ?thesis
    proof (cases "l = []")
      case True
      then have "con_key c s = Ok s" "edit_key c (q, l) = (q, l)" using 2 in_e_w [OF x] v by (auto simp: con_key_def)
      then show ?thesis using assms(1) by (simp add: key_step_def con_frame_def v del: edit_key.simps)
    next
      case False
      then have "con_key c s = foldM consputc [BACKSPACE] (s\<lparr>con_in := ?x\<lparr>in_e := in_e ?x - 1\<rparr>\<rparr>)"
        using 2 in_e_w [OF x] v by (auto simp: con_key_def bnd_def split: sum.split)
      moreover have "edit_key c (q, l) = (q, butlast l)" using 2 by auto
      ultimately show ?thesis using out [of "?x\<lparr>in_e := in_e ?x - 1\<rparr>" "[BACKSPACE]"] view_erase [OF x v False] by (simp del: edit_key.simps foldM.simps)
    qed
  next
    case 3
    then show ?thesis using con_char_ok [OF assms(1,2) 3] assms(3) by (simp add: con_key_def)
  qed
qed

lemma con_keys_ok:
  assumes "con_ok s" "L_ptable \<notin> set (held s)" "16 \<notin> set cs" "20 \<notin> set cs"
  shows "\<exists>s'. foldM con_key cs s = Ok s' \<and> key_step (fold edit_key cs) s s'"
  using assms
proof (induction cs arbitrary: s)
  case Nil
  then show ?case by (simp add: key_step_def con_frame_def)
next
  case (Cons c cs)
  obtain s1 where 1: "con_key c s = Ok s1" "key_step (edit_key c) s s1" using con_key_ok [of s c] Cons.prems by auto
  then obtain s2 where "foldM con_key cs s1 = Ok s2" "key_step (fold edit_key cs) s1 s2"
    using Cons.IH [of s1] Cons.prems by (auto simp: key_step_def con_frame_def)
  with 1 key_step_trans [of "edit_key c" s s1 "fold edit_key cs" s2] show ?case by (simp add: comp_def)
qed

subsection \<open>Reading\<close>

text \<open>What a read of \<open>target\<close> bytes takes, with \<open>n\<close> to go, from the committed bytes: the bytes, what is left, and how many bytes short it stays. Without a complete
  line, an end of file or enough bytes it has to wait.\<close>

fun read_line :: "nat \<Rightarrow> nat \<Rightarrow> byte list \<Rightarrow> (byte list \<times> byte list \<times> nat) option" where
  "read_line target 0 q = Some ([], q, 0)"
| "read_line target (Suc n) [] = None"
| "read_line target (Suc n) (c # q) =
     (if c = 4 then Some ([], if Suc n < target then c # q else q, Suc n)
      else if c = 10 then Some ([c], q, n)
      else map_option (\<lambda>(bs, r). (c # bs, r)) (read_line target n q))"

definition may_lock :: "nat \<Rightarrow> 'a consst_scheme \<Rightarrow> bool" where
  "may_lock ip s \<longleftrightarrow> cur s \<noteq> None \<and> \<not> sl_locked (sleeplocks s (L_inode ip)) \<and> \<not> i_ref (inod s ip) < 1 \<and> i_valid (inod s ip)"

lemma con_done_ok:
  assumes "held s = L_cons # h" "ncli s = Suc m" "L_inode ip \<notin> set h" "may_lock ip s"
  shows "\<exists>s'. con_done ip r s = Ok (Ret r, [], s') \<and> con_in s' = con_in s"
proof -
  obtain p where p: "cur s = Some p" using assms(4) by (auto simp: may_lock_def)
  let ?s = "s\<lparr>held := h, ncli := m\<rparr>"
  have "getsleep (L_inode ip) ?s = Ok (put_sl (L_inode ip) ((sleeplocks ?s (L_inode ip))\<lparr>sl_locked := True, sl_pid := p_pid (procs ?s ! p)\<rparr>) ?s)"
    using assms p by (intro getsleep_free) (auto simp: may_lock_def)
  then show ?thesis using assms by (simp add: con_done_def ilock_def may_lock_def)
qed

lemma con_read_ok:
  assumes "held s = L_cons # h" "ncli s = Suc m" "L_inode ip \<notin> set h" "may_lock ip s" "con_mine ip s"
    "input_ok (con_in s)" "con_view (con_in s) = (q, l)" "read_line target n q = Some (bs, q', k)"
  shows "\<exists>s'. con_read_loop ip target n s = Ok (Ret (int target - int k), bs, s') \<and> input_ok (con_in s') \<and> con_view (con_in s') = (q', l)"
  using assms
proof (induction n arbitrary: s q bs)
  case 0
  then show ?case using con_done_ok [of s h m ip "int target"] by auto
next
  case (Suc n)
  obtain c q1 where q: "q = c # q1" using Suc.prems(8) by (cases q) auto
  note g = view_get [OF Suc.prems(6) Suc.prems(7) [unfolded q]]
  let ?s = "s\<lparr>con_in := (con_in s)\<lparr>in_r := in_r (con_in s) + 1\<rparr>\<rparr>"
  have fin: "\<exists>s'. con_done ip r (if b then s else ?s) = Ok (Ret r, [], s') \<and> con_in s' = con_in (if b then s else ?s)" for r b
    by (rule con_done_ok [of _ h m]) (use Suc.prems in \<open>auto simp: may_lock_def\<close>)
  have step: "con_read_loop ip target (Suc n) s =
      (if c = 4 then con_done ip (int target - int (Suc n)) (if Suc n < target then s else ?s)
       else bnd (if c = 10 then con_done ip (int target - int n) ?s else con_read_loop ip target n ?s) (\<lambda>(r, bs, s). Ok (r, c # bs, s)))"
    using g(1,4) Suc.prems(5) by (simp add: Let_def)
  consider "c = 4" | "c = 10" | "c \<noteq> 4 \<and> c \<noteq> 10" by blast
  then show ?case
  proof cases
    case 1
    then show ?thesis unfolding step using Suc.prems(6,7,8) q g fin [of "int target - int (Suc n)" "Suc n < target"] by (auto split: if_splits)
  next
    case 2
    then show ?thesis unfolding step using Suc.prems(8) q g fin [of "int target - int n" False] by auto
  next
    case 3
    then obtain bs1 where b: "read_line target n q1 = Some (bs1, q', k)" "bs = c # bs1" using Suc.prems(8) q by auto
    have "\<exists>s'. con_read_loop ip target n ?s = Ok (Ret (int target - int k), bs1, s') \<and> input_ok (con_in s') \<and> con_view (con_in s') = (q', l)"
      by (rule Suc.IH [OF _ _ _ _ _ _ _ b(1)]) (use Suc.prems g in \<open>auto simp: may_lock_def con_mine_def\<close>)
    then show ?thesis unfolding step using 3 b(2) by auto
  qed
qed

text \<open>
  C11: What is typed is what is read. For every sequence of key codes other than the listing and the console switch, the keyboard interrupt returns, with the cursor on the screen, and
  has edited the input as a line editor does, through the wrap-around of the three counters: ordinary keys extend the line while there is room, backspace and ^U shorten it, and
  Enter, ^D or a full buffer commit it and wake every reader. A process that then reads its active console gets exactly the committed bytes up to the end of the first line, the end of
  file or the size of its buffer, and the rest stays in place.
\<close>

theorem typed_text_is_read:
  assumes "con_ok s" "16 \<notin> set cs" "20 \<notin> set cs" "{L_cons, L_ptable, L_inode ip} \<inter> set (held s) = {}"
    "cur s = Some p" "sl_locked (sleeplocks s (L_inode ip))" "1 \<le> i_ref (inod s ip)" "i_valid (inod s ip)" "con_mine ip s"
  shows "\<exists>s1. consoleintr cs s = Ok s1 \<and> con_ok s1 \<and> con_view (con_in s1) = fold edit_key cs (con_view (con_in s)) \<and>
    (fst (con_view (con_in s1)) = fst (con_view (con_in s)) \<or> asleep_on (Some Ch_input) (procs s1) = {}) \<and>
    (case read_line n n (fst (con_view (con_in s1))) of None \<Rightarrow> True | Some (bs, q, k) \<Rightarrow>
      \<exists>s2. consoleread ip n s1 = Ok (Ret (int n - int k), bs, s2) \<and> con_view (con_in s2) = (q, snd (con_view (con_in s1))))"
proof -
  let ?s = "s\<lparr>held := L_cons # held s, ncli := ncli s + 1\<rparr>"
  have "con_ok ?s" "L_ptable \<notin> set (held ?s)" using assms by (auto simp: con_ok_def)
  from con_keys_ok [OF this assms(2,3)] obtain t where t: "foldM con_key cs ?s = Ok t" "key_step (fold edit_key cs) ?s t" by blast
  let ?s1 = "t\<lparr>held := held s, ncli := ncli s\<rparr>"
  have f: "held t = L_cons # held s" "ncli t = Suc (ncli s)" "cur t = Some p" "inodes t = inodes s" "sleeplocks t = sleeplocks s" "con_active t = con_active s"
    using t(2) assms(5) by (simp_all add: key_step_def con_frame_def)
  have run: "consoleintr cs s = Ok ?s1" using assms(2-4) t(1) f by (simp add: consoleintr_def)
  let ?l = "L_inode ip"
  let ?s2 = "wakeup1 (Some (Ch_sleeplock ?l)) (put_sl ?l ((sleeplocks ?s1 ?l)\<lparr>sl_locked := False, sl_pid := 0\<rparr>) ?s1)"
  have "iunlock ip ?s1 = Ok ?s2"
    using assms(4,6,7) f releasesleep_eval [of ?l ?s1] holdingsleep_eval [of ?l ?s1] by (simp add: iunlock_def)
  then have rd: "consoleread ip n ?s1 = con_read_loop ip n n (?s2\<lparr>held := L_cons # held s, ncli := Suc (ncli s)\<rparr>)"
    using assms(4) by (simp add: consoleread_def wakeup1_def)
  let ?s3 = "?s2\<lparr>held := L_cons # held s, ncli := Suc (ncli s)\<rparr>"
  have "may_lock ip ?s3" "con_mine ip ?s3" using assms f by (simp_all add: may_lock_def con_mine_def wakeup1_def)
  moreover have "con_in ?s3 = con_in t" by (simp add: wakeup1_def)
  ultimately have "\<exists>s2. consoleread ip n ?s1 = Ok (Ret (int n - int k), bs, s2) \<and> con_view (con_in s2) = (q, snd (con_view (con_in t)))"
    if "read_line n n (fst (con_view (con_in t))) = Some (bs, q, k)" for bs q k
    unfolding rd using con_read_ok [of ?s3 "held s" "ncli s" ip "fst (con_view (con_in t))" "snd (con_view (con_in t))" n n bs q k] that assms(4) t(2)
    by (auto simp: key_step_def con_ok_def)
  then show ?thesis using run t(2) by (intro exI [of _ ?s1]) (auto simp: key_step_def con_ok_def split: option.split)
qed

subsection \<open>A console\<close>

lemma ftab_extend [simp]:
  "held (ftab.extend r m) = held r" "ncli (ftab.extend r m) = ncli r" "use_lock (ftab.extend r m) = use_lock r"
  "freelist (ftab.extend r m) = freelist r" "kend (ftab.extend r m) = kend r" "mem (ftab.extend r m) = mem r"
  "procs (ftab.extend r m) = procs r" "cur (ftab.extend r m) = cur r" "nextpid (ftab.extend r m) = nextpid r"
  "initproc (ftab.extend r m) = initproc r" "kpgdir (ftab.extend r m) = kpgdir r" "cr3 (ftab.extend r m) = cr3 r"
  "ts_esp0 (ftab.extend r m) = ts_esp0 r" "queue (ftab.extend r m) = queue r"
  "containers (ftab.extend r m) = containers r" "sleeplocks (ftab.extend r m) = sleeplocks r"
  "mutexes (ftab.extend r m) = mutexes r" "pipes (ftab.extend r m) = pipes r"
  "shm_infos (ftab.extend r m) = shm_infos r" "kdata (ftab.extend r m) = kdata r" "bufs (ftab.extend r m) = bufs r"
  "memdisk (ftab.extend r m) = memdisk r" "disksize (ftab.extend r m) = disksize r"
  "dwrites (ftab.extend r m) = dwrites r" "lg_start (ftab.extend r m) = lg_start r"
  "lg_size (ftab.extend r m) = lg_size r" "lg_outstanding (ftab.extend r m) = lg_outstanding r"
  "lg_committing (ftab.extend r m) = lg_committing r" "lg_dev (ftab.extend r m) = lg_dev r"
  "lg_lh (ftab.extend r m) = lg_lh r" "fs_sb (ftab.extend r m) = fs_sb r" "inodes (ftab.extend r m) = inodes r"
  "ftable (ftab.extend r m) = ftable r" "ticks (ftab.extend r (tickst.fields v0)) = v0"
  by (simp_all add: ftab.defs tickst.defs)

lemma tickst_extend [simp]:
  "held (tickst.extend r m) = held r" "ncli (tickst.extend r m) = ncli r" "use_lock (tickst.extend r m) = use_lock r"
  "freelist (tickst.extend r m) = freelist r" "kend (tickst.extend r m) = kend r" "mem (tickst.extend r m) = mem r"
  "procs (tickst.extend r m) = procs r" "cur (tickst.extend r m) = cur r" "nextpid (tickst.extend r m) = nextpid r"
  "initproc (tickst.extend r m) = initproc r" "kpgdir (tickst.extend r m) = kpgdir r"
  "cr3 (tickst.extend r m) = cr3 r" "ts_esp0 (tickst.extend r m) = ts_esp0 r" "queue (tickst.extend r m) = queue r"
  "containers (tickst.extend r m) = containers r" "sleeplocks (tickst.extend r m) = sleeplocks r"
  "mutexes (tickst.extend r m) = mutexes r" "pipes (tickst.extend r m) = pipes r"
  "shm_infos (tickst.extend r m) = shm_infos r" "kdata (tickst.extend r m) = kdata r"
  "bufs (tickst.extend r m) = bufs r" "memdisk (tickst.extend r m) = memdisk r"
  "disksize (tickst.extend r m) = disksize r" "dwrites (tickst.extend r m) = dwrites r"
  "lg_start (tickst.extend r m) = lg_start r" "lg_size (tickst.extend r m) = lg_size r"
  "lg_outstanding (tickst.extend r m) = lg_outstanding r" "lg_committing (tickst.extend r m) = lg_committing r"
  "lg_dev (tickst.extend r m) = lg_dev r" "lg_lh (tickst.extend r m) = lg_lh r" "fs_sb (tickst.extend r m) = fs_sb r"
  "inodes (tickst.extend r m) = inodes r" "ftable (tickst.extend r m) = ftable r"
  "ticks (tickst.extend r m) = ticks r" "con_in (tickst.extend r (consst.fields v0 v1 v2 v3 v4 v5 v6 v7 v8 v9)) = v0"
  "con_inputs (tickst.extend r (consst.fields v0 v1 v2 v3 v4 v5 v6 v7 v8 v9)) = v1"
  "con_active (tickst.extend r (consst.fields v0 v1 v2 v3 v4 v5 v6 v7 v8 v9)) = v2"
  "con_locking (tickst.extend r (consst.fields v0 v1 v2 v3 v4 v5 v6 v7 v8 v9)) = v3"
  "con_panicked (tickst.extend r (consst.fields v0 v1 v2 v3 v4 v5 v6 v7 v8 v9)) = v4"
  "crt (tickst.extend r (consst.fields v0 v1 v2 v3 v4 v5 v6 v7 v8 v9)) = v5"
  "crt_pos (tickst.extend r (consst.fields v0 v1 v2 v3 v4 v5 v6 v7 v8 v9)) = v6"
  "uart (tickst.extend r (consst.fields v0 v1 v2 v3 v4 v5 v6 v7 v8 v9)) = v7"
  "uart_out (tickst.extend r (consst.fields v0 v1 v2 v3 v4 v5 v6 v7 v8 v9)) = v8"
  "kbd_shift (tickst.extend r (consst.fields v0 v1 v2 v3 v4 v5 v6 v7 v8 v9)) = v9"
  by (simp_all add: tickst.defs consst.defs)

definition demo_input :: input where
  "demo_input = \<lparr>in_buf = replicate 128 0, in_r = 0xFFFFFFFE, in_w = 0xFFFFFFFE, in_e = 0xFFFFFFFE\<rparr>"

text \<open>A process that holds the inode of the active console, with the counters about to wrap.\<close>

definition demo_con :: consst where
  "demo_con = tickst.extend (ftab.extend (demo_files\<lparr>inodes := [demo_inode\<lparr>i_minor := 1\<rparr>],
       sleeplocks := (\<lambda>_. \<lparr>sl_locked = True, sl_name = [], sl_pid = 1\<rparr>)\<rparr>) (tickst.fields 0))
     (consst.fields demo_input (replicate 11 demo_input) 0 True False (\<lambda>_. 0) 0 True [] 0)"

theorem typed_text_is_read_witness:
  "\<exists>s1 s2. consoleintr [104, 105, 120, 8, 13] demo_con = Ok s1 \<and> consoleread 0 10 s1 = Ok (Ret 3, [104, 105, 10], s2) \<and> con_view (con_in s2) = ([], [])"
proof -
  have i: "con_view demo_input = ([], [])" "input_ok demo_input" by (simp_all add: demo_input_def con_view_def con_bytes_def input_ok_def INPUT_BUF_def)
  have f: "con_ok demo_con" "{L_cons, L_ptable, L_inode 0} \<inter> set (held demo_con) = {}" "sl_locked (sleeplocks demo_con (L_inode 0))"
    "1 \<le> i_ref (inod demo_con 0)" "i_valid (inod demo_con 0)" "con_mine 0 demo_con" "con_in demo_con = demo_input"
    using i by (simp_all add: demo_con_def con_ok_def con_mine_def demo_inode_def demo_files_mem)
  obtain p where p: "cur demo_con = Some p"
    by (simp add: demo_con_def demo_files_def demo_fs0_def demo_raw_def demo_vm_proc)
  have v: "fold edit_key [104, 105, 120, 8, 13] ([], []) = ([104, 105, 10], [])" by (simp add: Let_def)
  have "read_line m (Suc (Suc (Suc n))) [104, 105, 10] = Some ([104, 105, 10], [], n)" for m n by simp
  moreover have "Suc (Suc (Suc 7)) = 10" by simp
  ultimately have "read_line 10 10 [104, 105, 10] = Some ([104, 105, 10], [], 7)" by metis
  then show ?thesis
    using typed_text_is_read [OF f(1) _ _ f(2) p f(3-6), of "[104, 105, 120, 8, 13]" 10] by (auto simp: f(7) i v simp del: fold_simps)
qed

end
