(* ===== verification/Trap.thy ===== *)
theory Trap
  imports Console
begin

text \<open>
  The entry of the kernel: the table of system calls and its dispatch (\<^verbatim>\<open>syscall.c\<close>), and \<open>trap\<close> (\<^verbatim>\<open>trap.c\<close>). What the hardware supplies, the number of the processor, the address that
  faulted and the bytes the keyboard and the serial line hold, is an argument, as are the addresses of the return paths that \<open>fork\<close> puts in a context. The disk is the one of \<^verbatim>\<open>memide.c\<close>, whose interrupt does nothing.
  Acknowledging an interrupt changes nothing here. A trap ends in one of three ways: it returns to the code it interrupted, it has made its process exit, or its process has given up the processor, to sleep, at the end of its time or in the \<open>exit\<close> call;
  \<open>trap_resume\<close> is the rest of \<open>trap\<close> after \<open>yield\<close>.

  Shown: a clock interrupt counts, wakes the sleepers on the clock and takes the processor from the running process; a process that was killed does not return to user mode from a trap; a number without
  a handler is answered with -1 and has no other effect on the process.
\<close>

definition sys_ps :: "'a consst_scheme \<Rightarrow> (int \<times> 'a consst_scheme) res" where
  "sys_ps s = bnd (ps s) (\<lambda>(_, s). Ok (0, s))"

definition sys_tostring :: "'a consst_scheme \<Rightarrow> (int \<times> 'a consst_scheme) res" where
  "sys_tostring s = tostring s"

definition answers :: "(int \<times> 's) res \<Rightarrow> (int option \<times> 's) res" where
  "answers r = bnd r (\<lambda>(v, s). Ok (Some v, s))"

text \<open>The table: \<open>k\<close> bounds the recursion of \<open>getcwd\<close>, \<open>tr\<close> and \<open>fr\<close> are the addresses of \<open>trapret\<close> and \<open>forkret\<close>.\<close>

definition syscalls :: "nat \<Rightarrow> (nat \<Rightarrow> 'a consst_scheme devsw) \<Rightarrow> u32 \<Rightarrow> u32 \<Rightarrow> (int \<times> ('a consst_scheme \<Rightarrow> (int option \<times> 'a consst_scheme) res)) list" where
  "syscalls k dv tr fr =
     [(1, \<lambda>s. answers (sys_fork tr fr s)), (2, sys_exit), (3, sys_wait), (4, \<lambda>s. answers (sys_pipe s)), (5, \<lambda>s. answers (sys_read dv s)),
      (6, \<lambda>s. answers (sys_kill s)), (7, \<lambda>s. answers (sys_exec dv s)), (8, \<lambda>s. answers (sys_fstat s)), (9, \<lambda>s. answers (sys_chdir dv s)), (10, \<lambda>s. answers (sys_dup s)),
      (11, \<lambda>s. answers (sys_getpid s)), (12, \<lambda>s. answers (sys_sbrk s)), (13, sys_sleep), (14, \<lambda>s. answers (sys_uptime s)), (15, \<lambda>s. answers (sys_open dv s)),
      (16, \<lambda>s. answers (sys_write dv s)), (17, \<lambda>s. answers (sys_mknod dv s)), (18, \<lambda>s. answers (sys_unlink dv s)), (19, \<lambda>s. answers (sys_link dv s)), (20, \<lambda>s. answers (sys_mkdir dv s)),
      (21, \<lambda>s. answers (sys_close s)), (22, \<lambda>s. answers (sys_getname s)), (23, \<lambda>s. answers (sys_setname s)), (24, \<lambda>s. answers (sys_getmaxproc s)), (25, \<lambda>s. answers (sys_setmaxproc s)),
      (34, \<lambda>s. answers (sys_setvc s)), (38, \<lambda>s. answers (sys_getcwd k dv s)), (39, \<lambda>s. answers (sys_tostring s)), (43, \<lambda>s. answers (sys_getpath s)), (44, \<lambda>s. answers (sys_setpath s)),
      (45, \<lambda>s. answers (sys_ps s)), (54, \<lambda>s. answers (sys_fork2 tr fr s)), (55, \<lambda>s. answers (sys_setalive s)), (56, \<lambda>s. answers (sys_getnumcontainers s)),
      (62, \<lambda>s. answers (sys_setroot s)), (63, \<lambda>s. answers (sys_getcid s)), (64, \<lambda>s. answers (sys_con_shm s)), (65, \<lambda>s. answers (sys_get_new_cid s)), (66, \<lambda>s. answers (sys_print s)),
      (67, \<lambda>s. answers (sys_get_proc_pipe s)), (72, \<lambda>s. answers (sys_mutex_create s)), (73, \<lambda>s. answers (sys_mutex_delete s)), (74, sys_mutex_lock), (75, \<lambda>s. answers (sys_mutex_unlock s)),
      (76, sys_cv_wait), (77, \<lambda>s. answers (sys_cv_signal s)), (78, \<lambda>s. answers (sys_shm_get s)), (79, \<lambda>s. answers (sys_shm_rem s)), (80, \<lambda>s. answers (sys_mutex_get s)),
      (92, \<lambda>s. answers (sys_prio_set s)), (93, \<lambda>s. answers (sys_test_0 s)), (94, \<lambda>s. answers (sys_test_1 s)), (95, \<lambda>s. answers (sys_test_2 tr fr s)), (96, \<lambda>s. answers (sys_remove_node s))]"

text \<open>The answer goes to \<open>eax\<close> of the trap frame; a call that leaves its process asleep or exited gives none.\<close>

definition put_eax :: "nat \<Rightarrow> int \<Rightarrow> 'a ptable_scheme \<Rightarrow> 'a ptable_scheme" where
  "put_eax p v s = s\<lparr>mem := st32 (mem s) (p_tf (procs s ! p) + 28) (word_of_int v)\<rparr>"

definition syscall :: "nat \<Rightarrow> (nat \<Rightarrow> 'a consst_scheme devsw) \<Rightarrow> u32 \<Rightarrow> u32 \<Rightarrow> 'a consst_scheme \<Rightarrow> (bool \<times> 'a consst_scheme) res" where
  "syscall k dv tr fr s =
     bnd (myproc s) (\<lambda>p.
     let n = sint (ld32 (mem s) (p_tf (procs s ! p) + 28)) in
     case map_of (syscalls k dv tr fr) n of
       Some f \<Rightarrow> bnd (f s) (\<lambda>(r, s). case r of None \<Rightarrow> Ok (False, s) | Some v \<Rightarrow> Ok (True, put_eax p v s))
     | None \<Rightarrow>
         bnd (cprintf (''%d %s: unknown sys call %d'' @ [CHR 10]) [num (p_pid (procs s ! p)), Str (Some (p_name (procs s ! p))), num n] s) (\<lambda>s.
         Ok (True, put_eax p (-1) s)))"

subsection \<open>Traps\<close>

abbreviation T_SYSCALL :: u32 where "T_SYSCALL \<equiv> 64"
abbreviation T_IRQ0 :: u32 where "T_IRQ0 \<equiv> 32"

datatype tend = Returned | Exited | Suspended

record hardware =
  hw_cpu :: nat
  hw_cr2 :: u32
  hw_kbd :: "byte list"
  hw_uart :: "byte list"

definition tf_trapno :: "u32 \<Rightarrow> 'a ptable_scheme \<Rightarrow> u32" where "tf_trapno tf s = ld32 (mem s) (tf + 48)"
definition tf_err :: "u32 \<Rightarrow> 'a ptable_scheme \<Rightarrow> u32" where "tf_err tf s = ld32 (mem s) (tf + 52)"
definition tf_eip :: "u32 \<Rightarrow> 'a ptable_scheme \<Rightarrow> u32" where "tf_eip tf s = ld32 (mem s) (tf + 56)"
definition tf_cs :: "u32 \<Rightarrow> 'a ptable_scheme \<Rightarrow> u32" where "tf_cs tf s = ld32 (mem s) (tf + 60) AND 0xFFFF"

definition killed :: "'a ptable_scheme \<Rightarrow> bool" where
  "killed s = (case cur s of None \<Rightarrow> False | Some p \<Rightarrow> p_killed (procs s ! p))"

definition die :: "'a ftab_scheme \<Rightarrow> (tend \<times> 'a ftab_scheme) res" where
  "die s = bnd (exit s) (\<lambda>s. Ok (Exited, s))"

definition clock_tick :: "nat \<Rightarrow> 'a tickst_scheme \<Rightarrow> 'a tickst_scheme res" where
  "clock_tick cpu s =
     (if cpu = 0 then
        bnd (lock L_ticks s) (\<lambda>s.
        bnd (wakeup (Some Ch_ticks) (s\<lparr>ticks := ticks s + 1\<rparr>)) (unlock L_ticks))
      else Ok s)"

definition bad_trap :: "hardware \<Rightarrow> u32 \<Rightarrow> 'a consst_scheme \<Rightarrow> 'a consst_scheme res" where
  "bad_trap h tf s =
     (case cur s of
        None \<Rightarrow> panic ''trap''
      | Some p \<Rightarrow>
          if tf_cs tf s AND 3 = 0 then panic ''trap''
          else
            bnd (cprintf (''pid %d %s: trap %d err %d on cpu %d eip 0x%x addr 0x%x--kill proc'' @ [CHR 10])
              [num (p_pid (procs s ! p)), Str (Some (p_name (procs s ! p))), Num (tf_trapno tf s), Num (tf_err tf s), Num (of_nat (hw_cpu h)), Num (tf_eip tf s), Num (hw_cr2 h)] s)
              (\<lambda>s. Ok (upd_proc p (\<lambda>x. x\<lparr>p_killed := True\<rparr>) s)))"

definition trap_irq :: "hardware \<Rightarrow> u32 \<Rightarrow> 'a consst_scheme \<Rightarrow> 'a consst_scheme res" where
  "trap_irq h tf s =
     (let no = tf_trapno tf s in
      if no = T_IRQ0 then clock_tick (hw_cpu h) s
      else if no = T_IRQ0 + 14 \<or> no = T_IRQ0 + 15 then Ok s
      else if no = T_IRQ0 + 1 then kbdintr (hw_kbd h) s
      else if no = T_IRQ0 + 4 then uartintr (hw_uart h) s
      else if no = T_IRQ0 + 7 \<or> no = T_IRQ0 + 31
      then cprintf (''cpu%d: spurious interrupt at %x:%x'' @ [CHR 10]) [Num (of_nat (hw_cpu h)), Num (tf_cs tf s), Num (tf_eip tf s)] s
      else bad_trap h tf s)"

definition trap_end :: "u32 \<Rightarrow> 'a ftab_scheme \<Rightarrow> (tend \<times> 'a ftab_scheme) res" where
  "trap_end tf s =
     (if killed s \<and> tf_cs tf s AND 3 = 3 then die s
      else case cur s of
        None \<Rightarrow> Ok (Returned, s)
      | Some p \<Rightarrow>
          if p_state (procs s ! p) = RUNNING \<and> tf_trapno tf s = T_IRQ0
          then bnd (yield_out s) (\<lambda>s. Ok (Suspended, s))
          else Ok (Returned, s))"

definition trap_resume :: "u32 \<Rightarrow> 'a ftab_scheme \<Rightarrow> (tend \<times> 'a ftab_scheme) res" where
  "trap_resume tf s = bnd (yield_in s) (\<lambda>s. if killed s \<and> tf_cs tf s AND 3 = 3 then die s else Ok (Returned, s))"

definition trap :: "nat \<Rightarrow> (nat \<Rightarrow> 'a consst_scheme devsw) \<Rightarrow> u32 \<Rightarrow> u32 \<Rightarrow> hardware \<Rightarrow> u32 \<Rightarrow> 'a consst_scheme \<Rightarrow> (tend \<times> 'a consst_scheme) res" where
  "trap k dv tr fr h tf s =
     (if tf_trapno tf s = T_SYSCALL then
        bnd (myproc s) (\<lambda>p.
        if killed s then die s
        else
          bnd (syscall k dv tr fr (upd_proc p (\<lambda>x. x\<lparr>p_tf := tf\<rparr>) s)) (\<lambda>(back, s).
          if \<not> back then Ok (Suspended, s)
          else if killed s then die s
          else Ok (Returned, s)))
      else bnd (trap_irq h tf s) (trap_end tf))"

subsection \<open>What a trap does\<close>

text \<open>
  A process that has been killed never gets back to its program. Whenever a trap returns, be it a system call or an interrupt of user mode, and also when a process that gave up the processor at a clock interrupt
  comes back, the running process is not marked as killed, whatever the handler did in between.
\<close>

lemma killed_never_returns:
  "spec (trap k dv tr fr h tf s) (\<lambda>(e, s'). e = Returned \<and> (tf_trapno tf s = T_SYSCALL \<or> tf_cs tf s' AND 3 = 3) \<longrightarrow> \<not> killed s') \<and>
   spec (trap_resume tf t) (\<lambda>(e, t'). e = Returned \<and> tf_cs tf t' AND 3 = 3 \<longrightarrow> \<not> killed t')"
proof
  show "spec (trap k dv tr fr h tf s) (\<lambda>(e, s'). e = Returned \<and> (tf_trapno tf s = T_SYSCALL \<or> tf_cs tf s' AND 3 = 3) \<longrightarrow> \<not> killed s')"
    by (rule specI) (auto simp: trap_def die_def trap_end_def bnd_eq_Inr split: if_splits option.splits)
  show "spec (trap_resume tf t) (\<lambda>(e, t'). e = Returned \<and> tf_cs tf t' AND 3 = 3 \<longrightarrow> \<not> killed t')"
    by (rule specI) (auto simp: trap_resume_def die_def bnd_eq_Inr split: if_splits)
qed

lemma unknown_call_fails:
  assumes "cur s = Some p" "map_of (syscalls k dv tr fr) (sint (ld32 (mem s) (p_tf (procs s ! p) + 28))) = None"
  shows "spec (syscall k dv tr fr s) (\<lambda>(back, s'). back \<and> (\<exists>u. s' = put_eax p (-1) u))"
  using assms by (intro specI) (auto simp: syscall_def Let_def myproc_def bnd_eq_Inr)

text \<open>
  C20: The clock preempts. A clock interrupt on the first processor, with a running process that is not killed and no lock held, always gets through: the clock has advanced by one, with
  wrap-around, every process that slept on the clock is runnable, and the interrupted process has become runnable and has handed the processor to the scheduler with only the lock of the process table held,
  once. When the scheduler runs it again the trap returns to the program, with no lock held and interrupts as they were.
\<close>

theorem clock_preempts:
  assumes "tf_trapno tf s = T_IRQ0" "hw_cpu h = 0" "cur s = Some p" "p < length (procs s)" "p_state (procs s ! p) = RUNNING" "\<not> p_killed (procs s ! p)"
    "held s = []" "ncli s = 0"
  shows "\<exists>s'. trap k dv tr fr h tf s = Ok (Suspended, s') \<and> ticks s' = ticks s + 1 \<and> asleep_on (Some Ch_ticks) (procs s') = {} \<and>
    p_state (procs s' ! p) = RUNNABLE \<and> held s' = [L_ptable] \<and> ncli s' = 1 \<and>
    (\<exists>t. trap_resume tf (upd_proc p (\<lambda>x. x\<lparr>p_state := RUNNING\<rparr>) s') = Ok (Returned, t) \<and> held t = [] \<and> ncli t = 0 \<and> procs t ! p = procs s ! p)"
proof -
  define u where "u = wakeup1 (Some Ch_ticks) (s\<lparr>ticks := ticks s + 1\<rparr>)"
  have u: "ticks u = ticks s + 1" "cur u = Some p" "held u = []" "ncli u = 0" "mem u = mem s" "length (procs u) = length (procs s)" "procs u ! p = procs s ! p"
    using assms by (simp_all add: u_def wakeup1_def)
  have awake: "asleep_on (Some Ch_ticks) (procs u) = {}" unfolding u_def by (rule no_sleeper)
  have "clock_tick 0 s = Ok u" using assms(7,8) by (simp add: clock_tick_def wakeup_eval wakeup1_def u_def)
  then have irq: "trap_irq h tf s = Ok u" using assms(1,2) by (simp add: trap_irq_def)
  let ?s = "upd_proc p (\<lambda>x. x\<lparr>p_state := RUNNABLE\<rparr>) (u\<lparr>held := [L_ptable], ncli := 1\<rparr>)"
  have "trap_end tf u = Ok (Suspended, ?s)"
    using u assms by (simp add: trap_end_def killed_def tf_trapno_def yield_out_def myproc_def sched_def upd_proc_def)
  then have run: "trap k dv tr fr h tf s = Ok (Suspended, ?s)"
    using irq assms(1) by (simp add: trap_def)
  let ?r = "upd_proc p (\<lambda>x. x\<lparr>p_state := RUNNING\<rparr>) ?s"
  have "trap_resume tf ?r = Ok (Returned, ?r\<lparr>held := [], ncli := 0\<rparr>)"
    using u assms by (simp add: trap_resume_def yield_in_def upd_proc_def killed_def)
  moreover have "procs ?r ! p = procs s ! p" using u assms by (simp add: upd_proc_def)
  moreover have "asleep_on (Some Ch_ticks) (procs ?s) = {}" using awake u(6) assms(4) by (auto simp: asleep_on_def upd_proc_def nth_list_update split: if_splits)
  ultimately show ?thesis using run u assms(4) by (intro exI [of _ ?s]) (simp add: upd_proc_def)
qed

definition demo_trap :: consst where
  "demo_trap = demo_con\<lparr>held := [], ncli := 0, mem := st32 (\<lambda>_. 0) 48 32, ticks := 0xFFFFFFFF, procs := replicate 3 ((procs demo_con ! 2)\<lparr>p_state := RUNNING, p_killed := False\<rparr>), cur := Some 2\<rparr>"

theorem clock_preempts_witness:
  "\<exists>s'. trap 5 (\<lambda>_. \<lparr>dv_read = None, dv_write = None\<rparr>) 0 0 \<lparr>hw_cpu = 0, hw_cr2 = 0, hw_kbd = [], hw_uart = []\<rparr> 0 demo_trap = Ok (Suspended, s') \<and>
     ticks s' = 0 \<and> p_state (procs s' ! 2) = RUNNABLE \<and> held s' = [L_ptable]"
proof -
  have d: "tf_trapno 0 demo_trap = T_IRQ0" "cur demo_trap = Some 2" "2 < length (procs demo_trap)" "p_state (procs demo_trap ! 2) = RUNNING"
    "\<not> p_killed (procs demo_trap ! 2)" "held demo_trap = []" "ncli demo_trap = 0" "ticks demo_trap + 1 = 0"
    by (simp_all add: demo_trap_def tf_trapno_def demo_con_def demo_files_def demo_fs0_def demo_raw_def demo_vm_proc nth_Cons')
  show ?thesis
    using clock_preempts [OF d(1) _ d(2-7), of "\<lparr>hw_cpu = 0, hw_cr2 = 0, hw_kbd = [], hw_uart = []\<rparr>" 5 "\<lambda>_. \<lparr>dv_read = None, dv_write = None\<rparr>" 0 0] d(8) by auto
qed

end
