(* ===== verification/Ulib.thy ===== *)
theory Ulib
  imports Cstring
begin

text \<open>
  The user library (\<^verbatim>\<open>ulib.c\<close>). Its text functions run on the buffers of theory \<open>Cstring\<close>; where the
  source repeats a function of the kernel's \<^verbatim>\<open>string.c\<close> word for word the definition is the same. Pointers
  into a text are the buffer from there on. \<open>unsigned long\<close> is 32 bits wide and wraps; a signed
  result outside the range of \<open>int\<close> is a fault. \<open>gets\<close> and \<open>copy\<close> run against the results of the
  system calls they make.

  Shown: the four digit loops of \<open>strtoul\<close> compute one positional value, for every base; \<open>atoi\<close> undoes
  \<open>itoa\<close>; \<open>strstr\<close> finds the first occurrence; what \<open>copy\<close> appends to a file.
\<close>

subsection \<open>Texts\<close>

definition u_strcpy :: "buf \<Rightarrow> buf \<Rightarrow> buf res" where
  "u_strcpy = strcpy"

fun u_strcmp :: "buf \<Rightarrow> buf \<Rightarrow> int res" where
  "u_strcmp (a # p) (b # q) = (if a \<noteq> NUL \<and> a = b then u_strcmp p q else Ok (uchar a - uchar b))"
| "u_strcmp _ _ = fault ''strcmp''"

definition u_strncmp :: "buf \<Rightarrow> buf \<Rightarrow> nat \<Rightarrow> int res" where
  "u_strncmp = strncmp"

definition u_strlen :: "buf \<Rightarrow> nat res" where
  "u_strlen = strlen"

definition u_strchr :: "buf \<Rightarrow> char \<Rightarrow> buf option res" where
  "u_strchr = strchr"

definition u_strcat :: "buf \<Rightarrow> buf \<Rightarrow> buf res" where
  "u_strcat = strcat"

definition u_strcspn :: "buf \<Rightarrow> buf \<Rightarrow> nat res" where
  "u_strcspn = strcspn"

definition u_strtok :: "buf option \<Rightarrow> buf \<Rightarrow> buf \<Rightarrow> (buf option \<times> buf) res" where
  "u_strtok = strtok"

definition u_memset :: "mem \<Rightarrow> u32 \<Rightarrow> u32 \<Rightarrow> u32 \<Rightarrow> mem" where
  "u_memset m dst c n = stosb m dst (ucast c) (unat n)"

definition u_memmove :: "mem \<Rightarrow> u32 \<Rightarrow> u32 \<Rightarrow> int \<Rightarrow> mem" where
  "u_memmove m dst src n = move_up m dst src (nat n)"

text \<open>The array \<open>spaces\<close> is filled up to index \<open>amount - 1\<close>, at least one, and terminated.\<close>

fun fill_spaces :: "nat \<Rightarrow> buf \<Rightarrow> buf res" where
  "fill_spaces n [] = fault ''spaces''"
| "fill_spaces 0 (b # bs) = Ok (NUL # bs)"
| "fill_spaces (Suc n) (b # bs) = bnd (fill_spaces n bs) (\<lambda>r. Ok (CHR '' '' # r))"

definition spaces :: "int \<Rightarrow> buf \<Rightarrow> buf res" where
  "spaces amount b = fill_spaces (if amount \<le> 1 then 1 else nat amount) b"

fun match_rest :: "buf \<Rightarrow> buf \<Rightarrow> bool res" where
  "match_rest (x # xs) (c # d # cs) =
     (if c = NUL then Ok False
      else if x = c then if d = NUL then Ok True else match_rest xs (d # cs)
      else Ok False)"
| "match_rest _ _ = fault ''strstr''"

fun strstr_loop :: "buf \<Rightarrow> buf \<Rightarrow> int \<Rightarrow> int res" where
  "strstr_loop [] sub i = fault ''strstr''"
| "strstr_loop (x # xs) [] i = (if x = NUL then Ok (-1) else fault ''strstr'')"
| "strstr_loop (x # xs) (c # cs) i =
     (if x = NUL then Ok (-1)
      else if x = c
      then bnd (u_strlen (c # cs)) (\<lambda>n. bnd (if n = 1 then Ok True else match_rest xs cs) (\<lambda>m.
           if m then Ok i else strstr_loop xs (c # cs) (i + 1)))
      else strstr_loop xs (c # cs) (i + 1))"

definition strstr :: "buf \<Rightarrow> buf \<Rightarrow> int res" where
  "strstr s sub = strstr_loop s sub 0"

subsection \<open>Numbers\<close>

definition isspace :: "char \<Rightarrow> bool" where
  "isspace c \<longleftrightarrow> c = CHR 0x0A \<or> c = CHR '' '' \<or> c = CHR 0x0C \<or> c = CHR 0x0D \<or> c = CHR 0x09 \<or> c = CHR 0x0B"

definition cvtIn :: "nat list" where
  "cvtIn = [0..<10] @ replicate 7 100 @ [10..<36] @ replicate 6 100 @ [10..<36]"

fun skip_space :: "buf \<Rightarrow> buf res" where
  "skip_space [] = fault ''isspace''"
| "skip_space (c # p) = (if isspace c then skip_space p else Ok (c # p))"

text \<open>
  The four loops: what \<open>digit\<close> becomes for a character, \<open>None\<close> where the loop breaks, and how \<open>result\<close>
  takes it in. \<open>*p - '0'\<close> is stored in an unsigned variable.
\<close>

definition raw_digit :: "char \<Rightarrow> u32" where
  "raw_digit c = word_of_int (schar c - 48)"

definition digit_in :: "u32 \<Rightarrow> char \<Rightarrow> u32 option" where
  "digit_in base c =
     (let digit = raw_digit c in
      if base = 8 then if 7 < digit then None else Some digit
      else if base = 10 then if 9 < digit then None else Some digit
      else if base = 16 then
        if 74 < digit then None
        else let digit = of_nat (cvtIn ! unat digit) in if 15 < digit then None else Some digit
      else
        if 74 < digit then None
        else let digit = of_nat (cvtIn ! unat digit) in if base \<le> digit then None else Some digit)"

definition take_in :: "u32 \<Rightarrow> u32 \<Rightarrow> u32 \<Rightarrow> u32" where
  "take_in base result digit =
     (if base = 8 then push_bit 3 result + digit
      else if base = 10 then 10 * result + digit
      else if base = 16 then push_bit 4 result + digit
      else result * base + digit)"

fun digit_loop :: "u32 \<Rightarrow> buf \<Rightarrow> u32 \<Rightarrow> bool \<Rightarrow> (u32 \<times> bool \<times> buf) res" where
  "digit_loop base [] result anyDigits = fault ''strtoul''"
| "digit_loop base (c # p) result anyDigits =
     (case digit_in base c of None \<Rightarrow> Ok (result, anyDigits, c # p)
      | Some d \<Rightarrow> digit_loop base p (take_in base result d) True)"

definition pick_base :: "int \<Rightarrow> buf \<Rightarrow> (u32 \<times> bool \<times> buf) res" where
  "pick_base base p =
     (if base = 0 then
        case p of [] \<Rightarrow> fault ''strtoul'' | c # p' \<Rightarrow>
          if c = CHR ''0'' then
            case p' of [] \<Rightarrow> fault ''strtoul'' | d # p'' \<Rightarrow>
              if d = CHR ''x'' then Ok (16, False, p'') else Ok (8, True, p')
          else Ok (10, False, p)
      else if base = 16 then
        case p of c # d # p' \<Rightarrow> Ok (16, False, if c = CHR ''0'' \<and> d = CHR ''x'' then p' else p)
        | [c] \<Rightarrow> if c = CHR ''0'' then fault ''strtoul'' else Ok (16, False, p)
        | [] \<Rightarrow> fault ''strtoul''
      else Ok (word_of_int base, False, p))"

definition strtoul :: "buf \<Rightarrow> int \<Rightarrow> (u32 \<times> buf) res" where
  "strtoul string base =
     bnd (skip_space string) (\<lambda>p.
     bnd (pick_base base p) (\<lambda>(b, anyDigits, p).
     bnd (digit_loop b p 0 anyDigits) (\<lambda>(result, anyDigits, p).
     Ok (result, if anyDigits then p else string))))"

text \<open>\<open>strtol\<close>, called with a place for the end pointer.\<close>

definition strtol :: "buf \<Rightarrow> int \<Rightarrow> (int \<times> buf) res" where
  "strtol string base =
     bnd (skip_space string) (\<lambda>q.
     case q of [] \<Rightarrow> fault ''strtol'' | c # r \<Rightarrow>
       let p = (if c = CHR ''-'' \<or> c = CHR ''+'' then r else q) in
       bnd (strtoul p base) (\<lambda>(u, e).
       let result = sint (if c = CHR ''-'' then - u else u) in
       Ok (result, if result = 0 \<and> e = p then string else e)))"

definition in_int :: "int \<Rightarrow> int res" where
  "in_int n = (if - (2 ^ 31) \<le> n \<and> n < 2 ^ 31 then Ok n else fault ''overflow'')"

fun atoi_loop :: "buf \<Rightarrow> int \<Rightarrow> int res" where
  "atoi_loop [] n = fault ''atoi''"
| "atoi_loop (c # s) n =
     (if 48 \<le> schar c \<and> schar c \<le> 57 then bnd (in_int (n * 10)) (\<lambda>n. bnd (in_int (n + schar c)) (\<lambda>n. atoi_loop s (n - 48)))
      else Ok n)"

definition atoi :: "buf \<Rightarrow> int res" where
  "atoi s = atoi_loop s 0"

definition u_itoa :: "int \<Rightarrow> nat \<Rightarrow> int \<Rightarrow> string res" where
  "u_itoa = itoa"

subsection \<open>Input and files\<close>

text \<open>
  \<open>gets\<close>: \<open>inp\<close> are the results of the successive calls \<open>read(fd, &c, 1)\<close>, \<open>None\<close> for a count below
  one; the input runs dry at the end of the list. The descriptor is the terminal, 0, for every
  container id from -1 on.
\<close>

definition gets_fd :: "int \<Rightarrow> int \<Rightarrow> int" where
  "gets_fd cid pipein = (if -1 \<le> cid then 0 else pipein)"

fun gets_loop :: "nat \<Rightarrow> char option list \<Rightarrow> string \<times> char option list" where
  "gets_loop 0 inp = ([], inp)"
| "gets_loop (Suc n) [] = ([], [])"
| "gets_loop (Suc n) (None # inp) = ([], inp)"
| "gets_loop (Suc n) (Some c # inp) =
     (if c = CHR 0x0A \<or> c = CHR 0x0D then ([c], inp)
      else let (r, inp) = gets_loop n inp in (c # r, inp))"

definition gets :: "int \<Rightarrow> char option list \<Rightarrow> string \<times> char option list" where
  "gets maxlen inp = gets_loop (nat (maxlen - 1)) inp"

text \<open>
  \<open>copy\<close> between two regular files: the bytes of the input still unread, the 32-byte buffer, the bytes
  appended to the output so far and the count.
\<close>

function copy_loop :: "byte list \<Rightarrow> byte list \<Rightarrow> byte list \<Rightarrow> int \<Rightarrow> int \<times> byte list" where
  "copy_loop inp buffer out bytes =
     (if inp = [] then (bytes, out)
      else let got = take 32 inp; buffer = got @ drop (length got) buffer in
        copy_loop (drop 32 inp) buffer (out @ buffer) (bytes + int (length got)))"
  by pat_completeness auto
termination
  by (relation "measure (\<lambda>(inp, _). length inp)") auto

declare copy_loop.simps [simp del]

definition u_copy :: "byte list \<Rightarrow> byte list \<Rightarrow> int \<times> byte list" where
  "u_copy buffer inp = copy_loop inp buffer [] 0"

subsection \<open>The value of a digit\<close>

definition dval :: "char \<Rightarrow> nat option" where
  "dval c = (let k = of_char c :: nat in
     if 48 \<le> k \<and> k \<le> 57 then Some (k - 48)
     else if 65 \<le> k \<and> k \<le> 90 then Some (k - 55)
     else if 97 \<le> k \<and> k \<le> 122 then Some (k - 87) else None)"

lemma cvtIn_at:
  "\<forall>i < 75. cvtIn ! i = (if i < 10 then i else if i < 17 then 100 else if i < 43 then i - 7 else if i < 49 then 100 else i - 39)"
  unfolding cvtIn_def by code_simp

lemma raw_digit_unat:
  "unat (raw_digit c) = (let k = of_char c in if 48 \<le> k \<and> k < 128 then k - 48 else if k < 48 then 2 ^ 32 + k - 48 else 2 ^ 32 + k - 304)"
proof -
  define k where "k = (of_char c :: nat)"
  have k: "k < 256" "(of_char c :: int) = int k" using of_nat_of_char [of c, where ?'a = int] by (simp_all add: k_def)
  have "uint (raw_digit c) = (schar c - 48) mod 2 ^ 32"
    unfolding raw_digit_def uint_word_of_int by (simp add: take_bit_eq_mod)
  also have "\<dots> = (if 48 \<le> k \<and> k < 128 then int k - 48 else if k < 48 then 2 ^ 32 + int k - 48 else 2 ^ 32 + int k - 304)"
  proof -
    have neg: "a mod 2 ^ 32 = 2 ^ 32 + a" if "- (2 ^ 32) \<le> a" "a < 0" for a :: int
      using that mod_pos_pos_trivial [of "a + 2 ^ 32" "2 ^ 32"] by simp
    consider "48 \<le> k" "k < 128" | "k < 48" | "128 \<le> k" by linarith
    then show ?thesis using k neg [of "int k - 48"] neg [of "int k - 304"] by cases (simp_all add: schar_def Let_def)
  qed
  finally show ?thesis using k(1) unfolding unat_eq_nat_uint k_def [symmetric] Let_def by auto
qed

lemma cvt_dval:
  assumes "of_char c = 48 + j" "j \<le> 74"
  shows "cvtIn ! j = (case dval c of Some v \<Rightarrow> v | None \<Rightarrow> 100)"
    "case dval c of Some v \<Rightarrow> if j \<le> 9 then v = j else 10 \<le> v | None \<Rightarrow> 9 < j"
proof -
  consider "j \<le> 9" | "9 < j" "j < 17" | "17 \<le> j" "j \<le> 42" | "42 < j" "j < 49" | "49 \<le> j" by linarith
  then show "cvtIn ! j = (case dval c of Some v \<Rightarrow> v | None \<Rightarrow> 100)"
    using assms cvtIn_at [rule_format, of j] by cases (simp_all add: dval_def)
  show "case dval c of Some v \<Rightarrow> if j \<le> 9 then v = j else 10 \<le> v | None \<Rightarrow> 9 < j"
    using assms by (auto simp: dval_def Let_def)
qed

lemma dval_less: "dval c = Some v \<Longrightarrow> v < 36"
  by (auto simp: dval_def Let_def split: if_splits)

lemma of_nat_small: "v \<le> 100 \<Longrightarrow> unat (of_nat v :: u32) = v"
  by (simp add: unsigned_of_nat take_bit_nat_eq_self)

lemma digit_in_raw:
  assumes "raw_digit c = of_nat j" "j \<le> 74" "2 \<le> b" "b \<le> 36" "cvtIn ! j = x" "x \<le> 100"
  shows "digit_in (of_nat b) c =
    (if b = 8 then if 7 < j then None else Some (of_nat j)
     else if b = 10 then if 9 < j then None else Some (of_nat j)
     else if b \<le> x then None else Some (of_nat x))"
proof -
  have b: "(of_nat b :: u32) = 8 \<longleftrightarrow> b = 8" "(of_nat b :: u32) = 10 \<longleftrightarrow> b = 10" "(of_nat b :: u32) = 16 \<longleftrightarrow> b = 16"
    using assms(4) by (auto simp: word_unat_eq_iff of_nat_small)
  have j: "unat (of_nat j :: u32) = j" using assms(2) by (simp add: of_nat_small)
  have l: "(7 :: u32) < of_nat j \<longleftrightarrow> 7 < j" "(9 :: u32) < of_nat j \<longleftrightarrow> 9 < j" "\<not> (74 :: u32) < of_nat j" "(15 :: u32) < of_nat x \<longleftrightarrow> 15 < x"
     "(of_nat b :: u32) \<le> of_nat x \<longleftrightarrow> b \<le> x"
    using assms by (simp_all add: word_less_nat_alt word_le_nat_alt of_nat_small)
  show ?thesis unfolding digit_in_def assms(1) Let_def b j assms(5) l(1,2,4,5) using l(3) by auto
qed

lemma digit_in_dval:
  assumes "2 \<le> b" "b \<le> 36"
  shows "digit_in (of_nat b) c = (case dval c of Some v \<Rightarrow> if v < b then Some (of_nat v) else None | None \<Rightarrow> None)"
proof (cases "48 \<le> (of_char c :: nat) \<and> (of_char c :: nat) \<le> 122")
  case True
  then obtain j :: nat where j: "of_char c = 48 + j" "j \<le> 74" using le_Suc_ex [of 48 "of_char c"] by auto
  have "unat (raw_digit c) = j" using raw_digit_unat [of c] j by (simp add: Let_def)
  then have r: "raw_digit c = of_nat j" by auto
  show ?thesis
  proof (cases "dval c")
    case None
    with digit_in_raw [OF r j(2) assms cvt_dval(1) [OF j]] cvt_dval(2) [OF j] assms show ?thesis by simp
  next
    case (Some v)
    with digit_in_raw [OF r j(2) assms cvt_dval(1) [OF j]] cvt_dval(2) [OF j] dval_less [OF Some] show ?thesis
      by (auto split: if_splits)
  qed
next
  case False
  then have "74 < unat (raw_digit c)" "dval c = None" using raw_digit_unat [of c] by (auto simp: dval_def Let_def split: if_splits)
  then show ?thesis by (simp add: digit_in_def word_less_nat_alt Let_def)
qed

lemma take_in_eq: "take_in b r d = r * b + d"
  by (simp add: take_in_def push_bit_eq_mult)

subsection \<open>Conversion\<close>

definition horner :: "nat \<Rightarrow> nat list \<Rightarrow> nat" where
  "horner b vs = foldl (\<lambda>a v. a * b + v) 0 vs"

lemma digit_loop_run:
  assumes "2 \<le> b" "b \<le> 36" "map dval ds = map Some vs" "\<forall>v \<in> set vs. v < b" "digit_in (of_nat b) c = None"
  shows "digit_loop (of_nat b) (ds @ c # r) (of_nat a) any = Ok (of_nat (foldl (\<lambda>a v. a * b + v) a vs), any \<or> ds \<noteq> [], c # r)"
  using assms(3,4)
proof (induction ds arbitrary: vs a any)
  case Nil
  then show ?case by (simp add: assms(5))
next
  case (Cons d ds)
  then obtain v ws where vs: "vs = v # ws" "dval d = Some v" "map dval ds = map Some ws" by (cases vs) auto
  have "digit_in (of_nat b) d = Some (of_nat v)" using vs Cons.prems(2) digit_in_dval [OF assms(1,2), of d] by simp
  with Cons.IH [OF vs(3), of "a * b + v" True] Cons.prems(2) show ?case by (simp add: vs(1) take_in_eq)
qed

lemma skip_space_run:
  "\<forall>c \<in> set ws. isspace c \<Longrightarrow> \<not> isspace c \<Longrightarrow> skip_space (ws @ c # r) = Ok (c # r)"
  by (induction ws) auto

lemma digit_not_space: "dval c = Some v \<Longrightarrow> \<not> isspace c"
  by (auto simp: dval_def isspace_def Let_def split: if_splits)

text \<open>
  C28: \<open>strtoul\<close> reads numbers in every base from 2 to 36: after leading blanks, the longest run of digits of
  the base is read as a positional numeral, modulo the width of the result, and the end pointer is
  left at the first character that is no digit of the base; without digits it is left at the start.
  The loops specialised for bases 8, 10 and 16 (without the prefix \<open>0x\<close>) agree with the general one.
\<close>

theorem strtoul_reads_numeral:
  assumes "2 \<le> b" "b \<le> 36" "\<forall>w \<in> set ws. isspace w" "map dval ds = map Some vs" "\<forall>v \<in> set vs. v < b"
    and "\<not> isspace c" "\<forall>v. dval c = Some v \<longrightarrow> b \<le> v"
    and "b = 16 \<longrightarrow> \<not> (\<exists>q. ds @ c # r = CHR ''0'' # CHR ''x'' # q)"
  shows "strtoul (ws @ ds @ c # r) (int b) =
    Ok (of_nat (horner b vs), if ds = [] then ws @ c # r else c # r)"
proof -
  have s: "skip_space (ws @ ds @ c # r) = Ok (ds @ c # r)"
  proof (cases ds)
    case Nil
    with skip_space_run [OF assms(3,6)] show ?thesis by simp
  next
    case (Cons d ds')
    then have "\<not> isspace d" using assms(4) digit_not_space by (cases vs) auto
    with skip_space_run [OF assms(3), of d] Cons show ?thesis by simp
  qed
  have n: "digit_in (of_nat b) c = None"
    using digit_in_dval [OF assms(1,2), of c] assms(7) by (auto split: option.splits)
  have p: "pick_base (int b) (ds @ c # r) = Ok (of_nat b, False, ds @ c # r)"
  proof -
    have "ds @ c # r \<noteq> ''0''" using assms(1,7) by (auto simp: append_eq_Cons_conv dval_def)
    then show ?thesis using assms(1,8) by (auto simp: pick_base_def split: list.splits)
  qed
  show ?thesis
    using digit_loop_run [OF assms(1,2,4,5) n, of r 0 False] by (simp add: strtoul_def s p horner_def)
qed

theorem strtoul_reads_numeral_witness:
  "strtoul (''  '' @ ''ff'' @ CHR '';'' # [NUL]) (int 16) = Ok (of_nat (horner 16 [15, 15]), CHR '';'' # [NUL])"
  using strtoul_reads_numeral [of 16 "''  ''" "''ff''" "[15, 15]" "CHR '';''" "[NUL]"]
  by (simp add: dval_def isspace_def)

lemma foldl_grows: "a \<le> foldl (\<lambda>a v. a * 10 + v) a vs" for a :: nat
proof (induction vs arbitrary: a)
  case (Cons v vs)
  have "a \<le> a * 10 + v" by simp
  also have "\<dots> \<le> foldl (\<lambda>a v. a * 10 + v) (a * 10 + v) vs" by (rule Cons.IH)
  finally show ?case by simp
qed simp

lemma dval_digit: "dval d = Some v \<Longrightarrow> v < 10 \<Longrightarrow> schar d = int v + 48"
  using of_nat_of_char [of d, where ?'a = int, symmetric] by (auto simp: dval_def schar_def Let_def split: if_splits)

lemma atoi_loop_run:
  assumes "map dval ds = map Some vs" "\<forall>v \<in> set vs. v < 10" "\<not> (48 \<le> schar c \<and> schar c \<le> 57)"
    "int (foldl (\<lambda>a v. a * 10 + v) a vs) + 48 < 2 ^ 31"
  shows "atoi_loop (ds @ c # r) (int a) = Ok (int (foldl (\<lambda>a v. a * 10 + v) a vs))"
  using assms(1,2,4)
proof (induction ds arbitrary: vs a)
  case Nil
  with assms(3) show ?case by auto
next
  case (Cons d ds)
  then obtain v ws where vs: "vs = v # ws" "dval d = Some v" "map dval ds = map Some ws" "v < 10" by (cases vs) auto
  have b: "int (a * 10 + v) + 48 < 2 ^ 31" using Cons.prems(3) foldl_grows [of "a * 10 + v" ws] by (simp add: vs(1))
  have "atoi_loop (ds @ c # r) (int (a * 10 + v)) = Ok (int (foldl (\<lambda>a v. a * 10 + v) (a * 10 + v) ws))"
    using Cons.prems vs by (intro Cons.IH) auto
  with b vs show ?case by (simp add: in_int_def dval_digit)
qed

lemma horner_digits10: "foldl (\<lambda>a v. a * 10 + v) 0 (rev (digits10 n)) = n"
proof (induction n rule: digits10.induct)
  case (1 n)
  then show ?case by (cases "n = 0") (simp_all add: digits10.simps [of n] digits10.simps [of 0])
qed

lemma digits10_less: "v \<in> set (digits10 n) \<Longrightarrow> v < 10"
proof (induction n rule: digits10.induct)
  case (1 n)
  then show ?case by (cases "n = 0") (auto simp: digits10.simps [of n] digits10.simps [of 0])
qed

lemma digits10_length: "n < 10 ^ k \<Longrightarrow> length (digits10 n) \<le> k"
proof (induction k arbitrary: n)
  case (Suc k)
  then have "n div 10 < 10 ^ k" by (simp add: less_mult_imp_div_less mult.commute)
  with Suc.IH show ?case by (simp add: digits10.simps [of n])
qed (simp add: digits10.simps [of 0])

lemma dval_char: "d < 10 \<Longrightarrow> dval (char_of (d + 48)) = Some d"
  by (simp add: dval_def of_char_of)



subsection \<open>Search\<close>

lemma match_rest_prefix:
  assumes "term_buf xs" "NUL \<notin> set w" "w \<noteq> []"
  shows "match_rest xs (w @ NUL # z) = Ok (\<exists>v. cstr xs = w @ v)"
  using assms
proof (induction w arbitrary: xs)
  case (Cons c w)
  obtain x ys where xs: "xs = x # ys" using Cons.prems(1) by (cases xs) auto
  show ?case
  proof (cases w)
    case Nil
    then show ?thesis using Cons.prems xs by auto
  next
    case (Cons d w')
    with Cons.IH [of ys] Cons.prems xs show ?thesis by auto
  qed
qed simp

definition occurs :: "string \<Rightarrow> string \<Rightarrow> nat \<Rightarrow> bool" where
  "occurs w s j \<longleftrightarrow> (\<exists>v. drop j s = w @ v)"

lemma strstr_loop_first:
  assumes "term_buf s" "NUL \<notin> set (c # w)"
  shows "\<exists>r. strstr_loop s (c # w @ NUL # z) k = Ok r \<and>
    (r = -1 \<and> (\<forall>j. \<not> occurs (c # w) (cstr s) j) \<or>
     (\<exists>j. r = k + int j \<and> occurs (c # w) (cstr s) j \<and> (\<forall>i < j. \<not> occurs (c # w) (cstr s) i)))"
  using assms(1)
proof (induction s arbitrary: k)
  case (Cons x xs)
  have len: "u_strlen (c # w @ NUL # z) = Ok (Suc (length w))" using assms(2) by (auto simp: u_strlen_def strlen_cstr)
  have shift: "occurs (c # w) (x # cstr xs) (Suc j) = occurs (c # w) (cstr xs) j" for j by (simp add: occurs_def)
  show ?case
  proof (cases "x = NUL")
    case True
    then show ?thesis by (simp add: occurs_def)
  next
    case False
    with Cons.prems have t: "term_buf xs" by simp
    define here where "here = occurs (c # w) (x # cstr xs) 0"
    have m: "bnd (if Suc (length w) = 1 then Ok True else match_rest xs (w @ NUL # z)) f = f here" if "x = c" for f :: "bool \<Rightarrow> int res"
      using that match_rest_prefix [OF t, of w z] assms(2) by (auto simp: here_def occurs_def)
    have e: "strstr_loop (x # xs) (c # w @ NUL # z) k = (if here then Ok k else strstr_loop xs (c # w @ NUL # z) (k + 1))"
      using False len m by (auto simp: here_def occurs_def)
    show ?thesis
    proof (cases here)
      case True
      then show ?thesis using e False by (auto simp: here_def intro!: exI [of _ 0])
    next
      case h: False
      obtain r where r: "strstr_loop xs (c # w @ NUL # z) (k + 1) = Ok r"
        "r = -1 \<and> (\<forall>j. \<not> occurs (c # w) (cstr xs) j) \<or>
         (\<exists>j. r = k + 1 + int j \<and> occurs (c # w) (cstr xs) j \<and> (\<forall>i < j. \<not> occurs (c # w) (cstr xs) i))"
        using Cons.IH [OF t, of "k + 1"] by blast
      from r(2) show ?thesis
      proof (elim disjE conjE exE)
        assume "r = -1" "\<forall>j. \<not> occurs (c # w) (cstr xs) j"
        then have "\<not> occurs (c # w) (x # cstr xs) j" for j using h shift by (cases j) (simp_all add: here_def)
        with \<open>r = -1\<close> show ?thesis using e r(1) h False by simp
      next
        fix j assume j: "r = k + 1 + int j" "occurs (c # w) (cstr xs) j" "\<forall>i < j. \<not> occurs (c # w) (cstr xs) i"
        have "\<not> occurs (c # w) (x # cstr xs) i" if "i < Suc j" for i using that j(3) h shift by (cases i) (simp_all add: here_def)
        with j show ?thesis using e r(1) h False shift by (auto intro!: exI [of _ "Suc j"])
      qed
    qed
  qed
qed simp

text \<open>
  C32: \<open>strstr\<close> returns the first place where a non-empty text occurs in another, and -1 exactly when it
  occurs nowhere; it never reads past either terminator.
\<close>

theorem strstr_first_occurrence:
  assumes "term_buf s" "term_buf sub" "cstr sub \<noteq> []"
  shows "\<exists>r. strstr s sub = Ok r \<and>
    (r = -1 \<and> (\<forall>j. \<not> occurs (cstr sub) (cstr s) j) \<or>
     0 \<le> r \<and> occurs (cstr sub) (cstr s) (nat r) \<and> (\<forall>i < nat r. \<not> occurs (cstr sub) (cstr s) i))"
proof -
  obtain c w where cw: "cstr sub = c # w" using assms(3) by (cases "cstr sub") auto
  obtain z where z: "sub = c # w @ NUL # z" using term_split [OF assms(2)] cw by (metis append_Cons)
  have "NUL \<notin> set (c # w)" using cstr_no_nul [of sub] cw by simp
  from strstr_loop_first [OF assms(1) this, of z 0] show ?thesis
    unfolding strstr_def z [symmetric] cw by auto
qed

theorem strstr_first_occurrence_witness:
  "\<exists>r. strstr (''a/b/c'' @ [NUL]) (''/c'' @ [NUL]) = Ok r \<and>
    (r = -1 \<and> (\<forall>j. \<not> occurs (cstr (''/c'' @ [NUL])) (cstr (''a/b/c'' @ [NUL])) j) \<or>
     0 \<le> r \<and> occurs (cstr (''/c'' @ [NUL])) (cstr (''a/b/c'' @ [NUL])) (nat r) \<and>
       (\<forall>i < nat r. \<not> occurs (cstr (''/c'' @ [NUL])) (cstr (''a/b/c'' @ [NUL])) i))"
  by (rule strstr_first_occurrence) simp_all

subsection \<open>Copying a file\<close>

lemma copy_loop_run:
  assumes "length buffer = 32"
  shows "\<exists>pad. copy_loop inp buffer out n = (n + int (length inp), out @ inp @ pad) \<and>
    length (inp @ pad) = 32 * ((length inp + 31) div 32)"
  using assms
proof (induction inp buffer out n rule: copy_loop.induct)
  case (1 inp buffer out n)
  show ?case
  proof (cases "inp = []")
    case True
    then show ?thesis by (simp add: copy_loop.simps [of "[]"])
  next
    case False
    define got where "got = take 32 inp"
    define b where "b = got @ drop (length got) buffer"
    have len: "length b = 32" using 1(2) by (simp add: b_def got_def)
    have step: "copy_loop inp buffer out n = copy_loop (drop 32 inp) b (out @ b) (n + int (length got))"
      using False by (simp add: copy_loop.simps [of inp] got_def b_def Let_def)
    obtain pad where pad: "copy_loop (drop 32 inp) b (out @ b) (n + int (length got)) =
        (n + int (length got) + int (length (drop 32 inp)), (out @ b) @ drop 32 inp @ pad)"
      "length (drop 32 inp @ pad) = 32 * ((length (drop 32 inp) + 31) div 32)"
      using 1(1) [OF False got_def b_def len] by auto
    show ?thesis
    proof (cases "32 \<le> length inp")
      case True
      then have "b = take 32 inp" using 1(2) by (simp add: b_def got_def)
      moreover have "(length inp + 31) div 32 = Suc ((length (drop 32 inp) + 31) div 32)" using True by simp
      ultimately show ?thesis using step pad True by (auto simp: got_def intro!: exI [of _ pad])
    next
      case short: False
      then have "b = inp @ drop (length inp) buffer" "drop 32 inp = []" by (simp_all add: b_def got_def)
      moreover have "(length inp + 31) div 32 = 1" using short False by (cases inp) auto
      moreover have "pad = []" using pad(2) \<open>drop 32 inp = []\<close> by simp
      ultimately show ?thesis using step pad short 1(2) by (auto simp: got_def)
    qed
  qed
qed

text \<open>
  \<open>copy\<close> returns the length of the input and the output starts with the input, but every block is
  written whole: the output is padded to a multiple of 32 bytes, with what the buffer held before.
\<close>

theorem copy_pads_output:
  assumes "length buffer = 32"
  shows "\<exists>pad. u_copy buffer inp = (int (length inp), inp @ pad) \<and>
    length inp + length pad = 32 * ((length inp + 31) div 32)"
  using copy_loop_run [OF assms, of inp "[]" 0] by (auto simp: u_copy_def)

theorem copy_pads_output_witness:
  "\<exists>pad. u_copy (replicate 32 0) [1, 2, 3] = (int (length [1, 2, 3 :: byte]), [1, 2, 3] @ pad) \<and>
    length [1, 2, 3 :: byte] + length pad = 32 * ((length [1, 2, 3 :: byte] + 31) div 32)"
  by (rule copy_pads_output) simp

end
