(* ===== verification/Jsmn.thy ===== *)
theory Jsmn
  imports Ulib
begin

text \<open>
  The JSON tokenizer \<^verbatim>\<open>jsmn.h\<close>, compiled without \<open>JSMN_STRICT\<close> and \<open>JSMN_PARENT_LINKS\<close>, and the container
  specification reader of \<^verbatim>\<open>helpers.h\<close> built on it. \<open>js\<close> is the list of the \<open>len\<close> characters to be parsed;
  reading beyond it, or outside the token array, is a fault. The token array is \<open>None\<close> where the source
  passes a null pointer, which only counts.

  Shown: parsing always ends and never leaves the text or the array; the tokens of a successful
  parse lie in the text, are delimited by the characters their type promises, and are properly nested.
\<close>

datatype jsmntype = JSMN_UNDEFINED | JSMN_OBJECT | JSMN_ARRAY | JSMN_STRING | JSMN_PRIMITIVE

record jsmntok =
  jt_type :: jsmntype
  jt_start :: int
  jt_end :: int
  jt_size :: int

record jsmn_parser =
  jp_pos :: nat
  jp_toknext :: nat
  jp_toksuper :: int

type_synonym tokens = "jsmntok list option"

abbreviation JSMN_ERROR_NOMEM :: int where "JSMN_ERROR_NOMEM \<equiv> -1"
abbreviation JSMN_ERROR_INVAL :: int where "JSMN_ERROR_INVAL \<equiv> -2"
abbreviation JSMN_ERROR_PART :: int where "JSMN_ERROR_PART \<equiv> -3"

definition jsmn_init :: jsmn_parser where
  "jsmn_init = \<lparr>jp_pos = 0, jp_toknext = 0, jp_toksuper = -1\<rparr>"

text \<open>The index of the new token, or \<open>None\<close> when the pool is used up.\<close>

definition jsmn_alloc_token :: "jsmn_parser \<Rightarrow> jsmntok list \<Rightarrow> (nat \<times> jsmn_parser \<times> jsmntok list) option" where
  "jsmn_alloc_token p ts =
     (let i = jp_toknext p in
      if length ts \<le> i then None
      else Some (i, p\<lparr>jp_toknext := i + 1\<rparr>, ts[i := (ts ! i)\<lparr>jt_start := -1, jt_end := -1, jt_size := 0\<rparr>]))"

definition jsmn_fill_token :: "nat \<Rightarrow> jsmntype \<Rightarrow> int \<Rightarrow> int \<Rightarrow> jsmntok list \<Rightarrow> jsmntok list" where
  "jsmn_fill_token i ty a b ts = ts[i := \<lparr>jt_type = ty, jt_start = a, jt_end = b, jt_size = 0\<rparr>]"

text \<open>The loops run while \<open>pos < len && js[pos] != 0\<close>.\<close>

definition in_text :: "string \<Rightarrow> nat \<Rightarrow> bool" where
  "in_text js i \<longleftrightarrow> i < length js \<and> js ! i \<noteq> NUL"

subsection \<open>Primitives\<close>

definition stops_primitive :: "char \<Rightarrow> bool" where
  "stops_primitive c \<longleftrightarrow> c \<in> {CHR '':'', CHR 0x09, CHR 0x0D, CHR 0x0A, CHR '' '', CHR '','', CHR '']'', CHR ''}''}"

text \<open>The scan: the position where it stops, or \<open>None\<close> at an invalid character.\<close>

function primitive_end :: "string \<Rightarrow> nat \<Rightarrow> nat option" where
  "primitive_end js i =
     (if in_text js i then
        if stops_primitive (js ! i) then Some i
        else if schar (js ! i) < 32 \<or> 127 \<le> schar (js ! i) then None
        else primitive_end js (Suc i)
      else Some i)"
  by pat_completeness auto
termination
  by (relation "measure (\<lambda>(js, i). length js - i)") (auto simp: in_text_def)

declare primitive_end.simps [simp del]

definition jsmn_parse_primitive :: "string \<Rightarrow> jsmn_parser \<Rightarrow> tokens \<Rightarrow> int \<times> jsmn_parser \<times> tokens" where
  "jsmn_parse_primitive js p toks =
     (let start = jp_pos p in
      case primitive_end js start of
        None \<Rightarrow> (JSMN_ERROR_INVAL, p, toks)
      | Some e \<Rightarrow>
          case toks of None \<Rightarrow> (0, p\<lparr>jp_pos := e - 1\<rparr>, None)
          | Some ts \<Rightarrow>
              case jsmn_alloc_token p ts of
                None \<Rightarrow> (JSMN_ERROR_NOMEM, p, Some ts)
              | Some (i, p, ts) \<Rightarrow>
                  (0, p\<lparr>jp_pos := e - 1\<rparr>, Some (jsmn_fill_token i JSMN_PRIMITIVE (int start) (int e) ts)))"

subsection \<open>Strings\<close>

definition hexdig :: "char \<Rightarrow> bool" where
  "hexdig c \<longleftrightarrow> 48 \<le> schar c \<and> schar c \<le> 57 \<or> 65 \<le> schar c \<and> schar c \<le> 70 \<or> 97 \<le> schar c \<and> schar c \<le> 102"

text \<open>Up to four hexadecimal digits: the position after them, or \<open>None\<close> at anything else.\<close>

fun hex4 :: "nat \<Rightarrow> string \<Rightarrow> nat \<Rightarrow> nat option" where
  "hex4 0 js i = Some i"
| "hex4 (Suc n) js i =
     (if in_text js i then if hexdig (js ! i) then hex4 n js (Suc i) else None else Some i)"

definition plain_escape :: "char \<Rightarrow> bool" where
  "plain_escape c \<longleftrightarrow> c \<in> {CHR 0x22, CHR ''/'', CHR 0x5C, CHR ''b'', CHR ''f'', CHR ''r'', CHR ''n'', CHR ''t''}"

text \<open>
  One character of the string, with \<open>i\<close> its position: the position of its last character (an escape
  takes several), or \<open>None\<close> where the code gives up.
\<close>

definition string_char :: "string \<Rightarrow> nat \<Rightarrow> nat option" where
  "string_char js i =
     (if js ! i = CHR 0x5C \<and> i + 1 < length js then
        if plain_escape (js ! (i + 1)) then Some (i + 1)
        else if js ! (i + 1) = CHR ''u'' then map_option (\<lambda>k. k - 1) (hex4 4 js (i + 2))
        else None
      else Some i)"

lemma hex4_ge: "hex4 n js i = Some k \<Longrightarrow> i \<le> k"
proof (induction n js i arbitrary: k rule: hex4.induct)
  case (2 n js i)
  then show ?case by (auto split: if_splits)
qed simp

lemma string_char_ge: "string_char js i = Some k \<Longrightarrow> i \<le> k"
  by (auto simp: string_char_def split: if_splits dest!: hex4_ge)

datatype scan = Closes nat | Invalid | Partial

function string_end :: "string \<Rightarrow> nat \<Rightarrow> scan" where
  "string_end js i =
     (if in_text js i then
        if js ! i = CHR 0x22 then Closes i
        else case string_char js i of None \<Rightarrow> Invalid | Some k \<Rightarrow> string_end js (k + 1)
      else Partial)"
  by pat_completeness auto
termination
proof (relation "measure (\<lambda>(js, i). length js - i)", goal_cases)
  case (2 js i k)
  then show ?case using string_char_ge [of js i k] by (auto simp: in_text_def)
qed simp

declare string_end.simps [simp del]

definition jsmn_parse_string :: "string \<Rightarrow> jsmn_parser \<Rightarrow> tokens \<Rightarrow> int \<times> jsmn_parser \<times> tokens" where
  "jsmn_parse_string js p toks =
     (let start = jp_pos p in
      case string_end js (start + 1) of
        Invalid \<Rightarrow> (JSMN_ERROR_INVAL, p, toks)
      | Partial \<Rightarrow> (JSMN_ERROR_PART, p, toks)
      | Closes e \<Rightarrow>
          case toks of None \<Rightarrow> (0, p\<lparr>jp_pos := e\<rparr>, None)
          | Some ts \<Rightarrow>
              case jsmn_alloc_token p ts of
                None \<Rightarrow> (JSMN_ERROR_NOMEM, p, Some ts)
              | Some (i, p, ts) \<Rightarrow>
                  (0, p\<lparr>jp_pos := e\<rparr>, Some (jsmn_fill_token i JSMN_STRING (int start + 1) (int e) ts)))"

subsection \<open>Brackets\<close>

definition is_open :: "jsmntok \<Rightarrow> bool" where
  "is_open t \<longleftrightarrow> jt_start t \<noteq> -1 \<and> jt_end t = -1"

text \<open>The downward searches: the last index below \<open>n\<close> that satisfies the test, or -1.\<close>

fun last_with :: "(jsmntok \<Rightarrow> bool) \<Rightarrow> jsmntok list \<Rightarrow> nat \<Rightarrow> int" where
  "last_with P ts 0 = -1"
| "last_with P ts (Suc n) = (if P (ts ! n) then int n else last_with P ts n)"

definition bump :: "jsmn_parser \<Rightarrow> jsmntok list \<Rightarrow> jsmntok list res" where
  "bump p ts =
     (if jp_toksuper p \<noteq> -1
      then bnd (aget ts (jp_toksuper p)) (\<lambda>t. aset ts (jp_toksuper p) (t\<lparr>jt_size := jt_size t + 1\<rparr>))
      else Ok ts)"

definition bracket_type :: "char \<Rightarrow> jsmntype" where
  "bracket_type c = (if c = CHR ''{'' \<or> c = CHR ''}'' then JSMN_OBJECT else JSMN_ARRAY)"

definition open_bracket :: "char \<Rightarrow> jsmn_parser \<Rightarrow> jsmntok list \<Rightarrow> (int \<times> jsmn_parser \<times> jsmntok list) res" where
  "open_bracket c p ts =
     (case jsmn_alloc_token p ts of
        None \<Rightarrow> Ok (JSMN_ERROR_NOMEM, p, ts)
      | Some (i, q, ts) \<Rightarrow>
          bnd (bump p ts) (\<lambda>ts.
          Ok (0, q\<lparr>jp_toksuper := int (jp_toknext q) - 1\<rparr>,
              ts[i := (ts ! i)\<lparr>jt_type := bracket_type c, jt_start := int (jp_pos p)\<rparr>])))"

definition close_bracket :: "char \<Rightarrow> jsmn_parser \<Rightarrow> jsmntok list \<Rightarrow> int \<times> jsmn_parser \<times> jsmntok list" where
  "close_bracket c p ts =
     (let i = last_with is_open ts (jp_toknext p) in
      if i = -1 then (JSMN_ERROR_INVAL, p, ts)
      else if jt_type (ts ! nat i) \<noteq> bracket_type c then (JSMN_ERROR_INVAL, p, ts)
      else
        let ts = ts[nat i := (ts ! nat i)\<lparr>jt_end := int (jp_pos p) + 1\<rparr>];
            k = last_with is_open ts (nat i + 1)
        in (0, p\<lparr>jp_toksuper := k\<rparr>, ts))"

definition is_container :: "jsmntok \<Rightarrow> bool" where
  "is_container t \<longleftrightarrow> jt_type t = JSMN_ARRAY \<or> jt_type t = JSMN_OBJECT"

definition comma :: "jsmn_parser \<Rightarrow> jsmntok list \<Rightarrow> jsmn_parser res" where
  "comma p ts =
     (if jp_toksuper p \<noteq> -1 then
        bnd (aget ts (jp_toksuper p)) (\<lambda>t.
        if is_container t then Ok p
        else
          let k = last_with (\<lambda>t. is_container t \<and> is_open t) ts (jp_toknext p) in
          Ok (if k = -1 then p else p\<lparr>jp_toksuper := k\<rparr>))
      else Ok p)"

subsection \<open>The parser\<close>

text \<open>
  The body of the loop: a negative code where it returns, and how far \<open>count\<close> moves. \<open>pos\<close> stays on
  the last character consumed.
\<close>

definition jsmn_step :: "string \<Rightarrow> jsmn_parser \<Rightarrow> tokens \<Rightarrow> (int \<times> int \<times> jsmn_parser \<times> tokens) res" where
  "jsmn_step js p toks =
     (let c = js ! jp_pos p in
      if c = CHR ''{'' \<or> c = CHR ''['' then
        case toks of None \<Rightarrow> Ok (0, 1, p, None)
        | Some ts \<Rightarrow> bnd (open_bracket c p ts) (\<lambda>(r, p, ts). Ok (r, 1, p, Some ts))
      else if c = CHR ''}'' \<or> c = CHR '']'' then
        case toks of None \<Rightarrow> Ok (0, 0, p, None)
        | Some ts \<Rightarrow> let (r, p, ts) = close_bracket c p ts in Ok (r, 0, p, Some ts)
      else if c = CHR 0x22 then
        let (r, p, toks) = jsmn_parse_string js p toks in
        if r < 0 then Ok (r, 0, p, toks)
        else
          case toks of None \<Rightarrow> Ok (0, 1, p, None)
          | Some ts \<Rightarrow> bnd (bump p ts) (\<lambda>ts. Ok (0, 1, p, Some ts))
      else if c = CHR 0x09 \<or> c = CHR 0x0D \<or> c = CHR 0x0A \<or> c = CHR '' '' then Ok (0, 0, p, toks)
      else if c = CHR '':'' then Ok (0, 0, p\<lparr>jp_toksuper := int (jp_toknext p) - 1\<rparr>, toks)
      else if c = CHR '','' then
        case toks of None \<Rightarrow> Ok (0, 0, p, None)
        | Some ts \<Rightarrow> bnd (comma p ts) (\<lambda>p. Ok (0, 0, p, Some ts))
      else
        let (r, p, toks) = jsmn_parse_primitive js p toks in
        if r < 0 then Ok (r, 0, p, toks)
        else
          case toks of None \<Rightarrow> Ok (0, 1, p, None)
          | Some ts \<Rightarrow> bnd (bump p ts) (\<lambda>ts. Ok (0, 1, p, Some ts)))"

lemma primitive_end_ge: "primitive_end js i = Some e \<Longrightarrow> i \<le> e"
proof (induction js i arbitrary: e rule: primitive_end.induct)
  case (1 js i)
  from 1(2) show ?case
    by (subst (asm) primitive_end.simps) (auto split: if_splits dest: 1(1))
qed

lemma primitive_end_gt:
  assumes "primitive_end js i = Some e" "in_text js i" "\<not> stops_primitive (js ! i)"
  shows "i < e"
  using assms primitive_end_ge [of js "Suc i" e] by (subst (asm) primitive_end.simps) (auto split: if_splits)

lemma string_end_ge: "string_end js i = Closes e \<Longrightarrow> i \<le> e"
proof (induction js i rule: string_end.induct)
  case (1 js i)
  show ?case
  proof (cases "in_text js i \<and> js ! i \<noteq> CHR 0x22")
    case True
    then obtain k where k: "string_char js i = Some k" "string_end js (k + 1) = Closes e"
      using 1(2) by (subst (asm) string_end.simps) (auto split: option.splits)
    with 1(1) [of k] True string_char_ge [of js i k] show ?thesis by auto
  next
    case False
    with 1(2) show ?thesis by (subst (asm) string_end.simps) (auto split: if_splits)
  qed
qed

lemma jsmn_step_pos:
  assumes "in_text js (jp_pos p)" "jsmn_step js p toks = Ok (r, n, p', toks')"
  shows "jp_pos p \<le> jp_pos p'"
proof -
  have s: "jsmn_parse_string js p toks = (r, p', toks') \<Longrightarrow> jp_pos p \<le> jp_pos p'" for r p' toks'
    by (auto simp: jsmn_parse_string_def jsmn_alloc_token_def Let_def split: scan.splits option.splits if_splits dest!: string_end_ge)
  have e: "jsmn_parse_primitive js p toks = (r, p', toks') \<Longrightarrow> \<not> stops_primitive (js ! jp_pos p) \<Longrightarrow> jp_pos p \<le> jp_pos p'" for r p' toks'
    using primitive_end_gt [OF _ assms(1)]
    by (fastforce simp: jsmn_parse_primitive_def jsmn_alloc_token_def Let_def split: option.splits if_splits)
  have o: "open_bracket c p ts = Ok (r, p', ts') \<Longrightarrow> jp_pos p' = jp_pos p" "comma p ts = Ok p' \<Longrightarrow> jp_pos p' = jp_pos p"
    "close_bracket c p ts = (r, p', ts') \<Longrightarrow> jp_pos p' = jp_pos p" for c ts r p' ts'
    by (auto simp: open_bracket_def comma_def close_bracket_def jsmn_alloc_token_def Let_def bnd_eq_Inr split: option.splits if_splits)
  have n: "\<not> stops_primitive (js ! jp_pos p)" if "js ! jp_pos p \<notin> {CHR '':'', CHR 0x09, CHR 0x0D, CHR 0x0A, CHR '' '', CHR '','', CHR '']'', CHR ''}''}"
    using that by (simp add: stops_primitive_def)
  show ?thesis
    using assms(2) s e o n
    by (auto simp: jsmn_step_def Let_def bnd_eq_Inr split: option.splits if_splits prod.splits)
qed

function jsmn_loop :: "string \<Rightarrow> jsmn_parser \<Rightarrow> tokens \<Rightarrow> int \<Rightarrow> (int \<times> jsmn_parser \<times> tokens) res" where
  "jsmn_loop js p toks count =
     (if in_text js (jp_pos p) then
        bnd (jsmn_step js p toks) (\<lambda>(r, n, p, toks).
        if r < 0 then Ok (r, p, toks)
        else jsmn_loop js (p\<lparr>jp_pos := jp_pos p + 1\<rparr>) toks (count + n))
      else
        Ok (case toks of None \<Rightarrow> count
            | Some ts \<Rightarrow> if last_with is_open ts (jp_toknext p) = -1 then count else JSMN_ERROR_PART, p, toks))"
  by pat_completeness auto
termination
proof (relation "measure (\<lambda>(js, p, _). length js - jp_pos p)", goal_cases)
  case (2 js p toks count x r y n z p' toks')
  then have "jp_pos p \<le> jp_pos p'" using jsmn_step_pos [of js p toks r n p' toks'] by auto
  with 2 show ?case by (auto simp: in_text_def)
qed simp

declare jsmn_loop.simps [simp del]

definition jsmn_parse :: "jsmn_parser \<Rightarrow> string \<Rightarrow> tokens \<Rightarrow> (int \<times> jsmn_parser \<times> tokens) res" where
  "jsmn_parse p js toks = jsmn_loop js p toks (int (jp_toknext p))"

subsection \<open>Spans\<close>

text \<open>
  A token as its type and span. After \<open>k\<close> characters have been consumed, a span lies within them and is delimited
  as its type says; a bracket may still be open. Of two tokens the earlier one either ends before the
  later one starts, or contains it.
\<close>

definition span :: "jsmntok \<Rightarrow> jsmntype \<times> int \<times> int" where
  "span t = (jt_type t, jt_start t, jt_end t)"

fun span_in :: "string \<Rightarrow> nat \<Rightarrow> jsmntype \<times> int \<times> int \<Rightarrow> bool" where
  "span_in js k (JSMN_STRING, a, b) \<longleftrightarrow> 1 \<le> a \<and> a \<le> b \<and> b < int k \<and> js ! nat (a - 1) = CHR 0x22 \<and> js ! nat b = CHR 0x22"
| "span_in js k (JSMN_PRIMITIVE, a, b) \<longleftrightarrow> 0 \<le> a \<and> a < b \<and> b \<le> int k"
| "span_in js k (JSMN_OBJECT, a, b) \<longleftrightarrow> 0 \<le> a \<and> a < int k \<and> js ! nat a = CHR ''{'' \<and>
     (b = -1 \<or> a < b \<and> b \<le> int k \<and> js ! nat (b - 1) = CHR ''}'')"
| "span_in js k (JSMN_ARRAY, a, b) \<longleftrightarrow> 0 \<le> a \<and> a < int k \<and> js ! nat a = CHR ''['' \<and>
     (b = -1 \<or> a < b \<and> b \<le> int k \<and> js ! nat (b - 1) = CHR '']'')"
| "span_in js k (JSMN_UNDEFINED, a, b) \<longleftrightarrow> False"

fun nests :: "jsmntype \<times> int \<times> int \<Rightarrow> jsmntype \<times> int \<times> int \<Rightarrow> bool" where
  "nests (_, a, b) (_, c, d) \<longleftrightarrow> a < c \<and> (b \<noteq> -1 \<longrightarrow> b \<le> c \<or> d \<noteq> -1 \<and> d \<le> b)"

definition spans_ok :: "string \<Rightarrow> nat \<Rightarrow> (jsmntype \<times> int \<times> int) list \<Rightarrow> bool" where
  "spans_ok js k xs \<longleftrightarrow> k \<le> length js \<and> (\<forall>x \<in> set xs. span_in js k x) \<and> sorted_wrt nests xs"

definition jinv :: "string \<Rightarrow> nat \<Rightarrow> jsmn_parser \<Rightarrow> jsmntok list \<Rightarrow> bool" where
  "jinv js k p ts \<longleftrightarrow> jp_toknext p \<le> length ts \<and> -1 \<le> jp_toksuper p \<and> jp_toksuper p < int (jp_toknext p) \<and>
     spans_ok js k (map span (take (jp_toknext p) ts))"

lemma span_in_mono: "span_in js k x \<Longrightarrow> k \<le> m \<Longrightarrow> span_in js m x"
  by (cases x; cases "fst x") auto

lemma spans_ok_mono: "spans_ok js k xs \<Longrightarrow> k \<le> m \<Longrightarrow> m \<le> length js \<Longrightarrow> spans_ok js m xs"
  using span_in_mono by (auto simp: spans_ok_def)

lemma span_start: "span_in js k (ty, a, b) \<Longrightarrow> 0 \<le> a \<and> a < int k \<and> b \<le> int k"
  by (cases ty) auto

lemma spans_ok_add:
  assumes "spans_ok js k xs" "k \<le> m" "m \<le> length js" "span_in js m (ty, a, b)" "int k \<le> a"
  shows "spans_ok js m (xs @ [(ty, a, b)])"
proof -
  have "nests x (ty, a, b)" if x: "x \<in> set xs" for x
  proof -
    obtain ty' c d where "x = (ty', c, d)" by (cases x)
    moreover have "span_in js k x" using assms(1) x by (simp add: spans_ok_def)
    ultimately show ?thesis using span_start [of js k ty' c d] assms(5) by auto
  qed
  with assms spans_ok_mono [OF assms(1-3)] show ?thesis by (auto simp: spans_ok_def sorted_wrt_append)
qed

lemma spans_ok_close:
  assumes "spans_ok js k (xs @ (ty, a, -1) # ys)" "\<forall>(_, _, d) \<in> set ys. d \<noteq> -1" "k < length js"
    "ty = JSMN_OBJECT \<and> js ! k = CHR ''}'' \<or> ty = JSMN_ARRAY \<and> js ! k = CHR '']''"
  shows "spans_ok js (Suc k) (xs @ (ty, a, int k + 1) # ys)"
proof -
  have m: "span_in js (Suc k) x" if "span_in js k x" for x using span_in_mono [OF that] by simp
  have i: "span_in js k (ty, a, -1)" using assms(1) by (simp add: spans_ok_def)
  then have "span_in js (Suc k) (ty, a, int k + 1)" using assms(4) by (auto split: if_splits)
  moreover have "nests (ty, a, int k + 1) y" if y: "y \<in> set ys" for y
  proof -
    obtain ty' c d where e: "y = (ty', c, d)" by (cases y)
    have "span_in js k y" "nests (ty, a, -1) y" using assms(1) y by (auto simp: spans_ok_def sorted_wrt_append)
    moreover have "d \<noteq> -1" using assms(2) y e by auto
    ultimately show ?thesis using e span_start [of js k ty' c d] by auto
  qed
  moreover have "nests x (ty, a, int k + 1)" if "x \<in> set xs" for x
  proof -
    have "nests x (ty, a, -1)" using assms(1) that by (auto simp: spans_ok_def sorted_wrt_append)
    then show ?thesis by (cases x) auto
  qed
  ultimately show ?thesis using assms(1,3) m by (auto simp: spans_ok_def sorted_wrt_append)
qed

lemma last_with_none: "last_with P ts n = -1 \<longleftrightarrow> (\<forall>j < n. \<not> P (ts ! j))"
  by (induction n) (auto simp: less_Suc_eq)

lemma last_with_some:
  "last_with P ts n \<noteq> -1 \<Longrightarrow> \<exists>i < n. last_with P ts n = int i \<and> P (ts ! i) \<and> (\<forall>j. i < j \<and> j < n \<longrightarrow> \<not> P (ts ! j))"
  by (induction n) (auto simp: less_Suc_eq)

lemma last_with_range: "-1 \<le> last_with P ts n \<and> last_with P ts n < int n"
  by (induction n) auto

lemma map_take_upd: "f v = f (ts ! i) \<Longrightarrow> map f (take n (ts[i := v])) = map f (take n ts)"
  by (cases "i < length ts") (auto simp: list_eq_iff_nth_eq nth_list_update list_update_beyond)

lemma bump_runs:
  assumes "jinv js k p ts" "length ts = length us" "jp_toknext p \<le> n"
  shows "runs (bump p us) (\<lambda>vs. length vs = length us \<and> map span (take n vs) = map span (take n us))"
  using assms by (auto simp: bump_def vc jinv_def span_def map_take_upd)

lemma take_Suc_upd: "i < length ts \<Longrightarrow> take (Suc i) (ts[i := v]) = take i ts @ [v]"
  by (simp add: take_Suc_conv_app_nth)

lemma jinv_add:
  assumes "jinv js k p ts" "jp_toknext p < length ts" "k \<le> m" "m \<le> length js" "span_in js m (span t)" "int k \<le> jt_start t"
    and "map span (take (Suc (jp_toknext p)) us) = map span (take (Suc (jp_toknext p)) (ts[jp_toknext p := t]))" "length us = length ts"
    and "jp_toknext q = Suc (jp_toknext p)" "jp_toksuper q = jp_toksuper p \<or> jp_toksuper q = int (jp_toknext p)"
  shows "jinv js m q us"
proof -
  have "spans_ok js m (map span (take (jp_toknext p) ts) @ [span t])"
    using spans_ok_add [of js k "map span (take (jp_toknext p) ts)" m] assms(1,3-6) by (simp add: jinv_def span_def)
  then show ?thesis using assms by (auto simp: jinv_def take_Suc_upd)
qed

subsection \<open>Every step keeps them\<close>

definition step_ok :: "string \<Rightarrow> jsmn_parser \<Rightarrow> jsmntok list \<Rightarrow> int \<times> int \<times> jsmn_parser \<times> tokens \<Rightarrow> bool" where
  "step_ok js p ts = (\<lambda>(r, n, p', toks'). \<exists>ts'. toks' = Some ts' \<and> length ts' = length ts \<and>
     (r < 0 \<or> r = 0 \<and> jinv js (Suc (jp_pos p')) p' ts' \<and> int (jp_toknext p') = int (jp_toknext p) + n))"

lemma open_bracket_ok:
  assumes "jinv js (jp_pos p) p ts" "in_text js (jp_pos p)" "js ! jp_pos p = c" "c = CHR ''{'' \<or> c = CHR ''[''"
  shows "runs (open_bracket c p ts) (\<lambda>(r, p', ts'). step_ok js p ts (r, 1, p', Some ts'))"
proof (cases "length ts \<le> jp_toknext p")
  case True
  then show ?thesis by (simp add: open_bracket_def jsmn_alloc_token_def step_ok_def vc)
next
  case False
  let ?i = "jp_toknext p"
  let ?us = "ts[?i := (ts ! ?i)\<lparr>jt_start := -1, jt_end := -1, jt_size := 0\<rparr>]"
  obtain vs where vs: "bump p ?us = Ok vs" "length vs = length ts" "map span (take (Suc ?i) vs) = map span (take (Suc ?i) ?us)"
    using bump_runs [OF assms(1), of ?us "Suc ?i"] by (auto simp: runs_def)
  let ?t = "(vs ! ?i)\<lparr>jt_type := bracket_type c, jt_start := int (jp_pos p)\<rparr>"
  have "map span (take (Suc ?i) vs) ! ?i = span (?us ! ?i)" using vs(2,3) False by (simp add: nth_append)
  then have e: "jt_end (vs ! ?i) = -1" using vs(2) False by (simp add: span_def)
  have "map span (take ?i vs) = map span (take ?i ts)"
    using arg_cong [OF vs(3), of "take ?i"] by (simp add: take_map min_def)
  then have s: "map span (take (Suc ?i) (vs[?i := ?t])) = map span (take (Suc ?i) (ts[?i := ?t]))"
    using False vs(2) by (simp add: take_Suc_upd)
  have "jinv js (Suc (jp_pos p)) (p\<lparr>jp_toknext := Suc ?i, jp_toksuper := int (Suc ?i) - 1\<rparr>) (vs[?i := ?t])"
    using assms False vs(2) e s by (intro jinv_add [OF assms(1), of _ ?t]) (auto simp: in_text_def span_def bracket_type_def)
  then show ?thesis using False vs(1,2) by (simp add: open_bracket_def jsmn_alloc_token_def step_ok_def vc runs_def Let_def)
qed

lemma close_bracket_ok:
  assumes "jinv js (jp_pos p) p ts" "in_text js (jp_pos p)" "js ! jp_pos p = c" "c = CHR ''}'' \<or> c = CHR '']''"
    "close_bracket c p ts = (r, p', ts')"
  shows "step_ok js p ts (r, 0, p', Some ts')"
proof (cases "last_with is_open ts (jp_toknext p) = -1")
  case True
  then show ?thesis using assms(5) by (auto simp: close_bracket_def step_ok_def)
next
  case False
  then obtain i where i: "i < jp_toknext p" "last_with is_open ts (jp_toknext p) = int i" "is_open (ts ! i)"
      "\<forall>j. i < j \<and> j < jp_toknext p \<longrightarrow> \<not> is_open (ts ! j)"
    using last_with_some by blast
  show ?thesis
  proof (cases "jt_type (ts ! i) = bracket_type c")
    case False
    then show ?thesis using assms(5) i(2) by (auto simp: close_bracket_def step_ok_def)
  next
    case ty: True
    let ?n = "jp_toknext p" and ?t = "(ts ! i)\<lparr>jt_end := int (jp_pos p) + 1\<rparr>"
    let ?us = "ts[i := ?t]" and ?ys = "map span (drop (Suc i) (take (jp_toknext p) ts))"
    have n: "?n \<le> length ts" "i < length ts" using assms(1) i(1) by (auto simp: jinv_def)
    have a: "map span (take ?n ts) = map span (take i ts) @ span (ts ! i) # ?ys"
      using id_take_nth_drop [of i "take ?n ts"] i(1) n by (metis (no_types, lifting) length_take list.simps(9) map_append min.absorb2 nth_take take_take min.absorb1 less_imp_le)
    have b: "map span (take ?n ?us) = map span (take i ts) @ span ?t # ?ys"
      using upd_conv_take_nth_drop [of i "take ?n ts" ?t] i(1) n by (simp add: take_update_swap min_def)
    have o: "span (ts ! i) = (bracket_type c, jt_start (ts ! i), -1)" using i(3) ty by (simp add: span_def is_open_def)
    have y: "d \<noteq> -1" if "(ty, a, d) \<in> set ?ys" for ty a d
    proof -
      from that obtain j where j: "j < ?n - Suc i" "(ty, a, d) = span (ts ! (Suc i + j))"
        using n by (auto simp: in_set_conv_nth)
      then have "\<not> is_open (ts ! (Suc i + j))" using i(4) by simp
      moreover have "span_in js (jp_pos p) (ty, a, d)" using assms(1) that a by (auto simp: jinv_def spans_ok_def)
      ultimately show ?thesis using j(2) span_start [of js "jp_pos p" ty a d] by (auto simp: is_open_def span_def)
    qed
    have "spans_ok js (Suc (jp_pos p)) (map span (take i ts) @ (bracket_type c, jt_start (ts ! i), int (jp_pos p) + 1) # ?ys)"
    proof (rule spans_ok_close)
      show "\<forall>(_, _, d) \<in> set ?ys. d \<noteq> -1"
      proof
        fix x assume x: "x \<in> set ?ys"
        obtain ty a d where e: "x = (ty, a, d)" by (cases x)
        show "case x of (_, _, d) \<Rightarrow> d \<noteq> -1" unfolding e prod.case by (rule y [OF x [unfolded e]])
      qed
    qed (use assms(1-4) a o in \<open>auto simp: jinv_def in_text_def bracket_type_def\<close>)
    then have "spans_ok js (Suc (jp_pos p)) (map span (take ?n ?us))" using b ty by (simp add: span_def)
    then show ?thesis
      using assms(1,5) i(1,2) ty n last_with_range [of is_open ?us "Suc i"]
      by (auto simp: close_bracket_def step_ok_def jinv_def Let_def)
  qed
qed

lemma string_end_at:
  "string_end js i = Closes e \<Longrightarrow> e < length js \<and> js ! e = CHR 0x22"
proof (induction js i rule: string_end.induct)
  case (1 js i)
  show ?case
  proof (cases "in_text js i \<and> js ! i \<noteq> CHR 0x22")
    case True
    then obtain k where k: "string_char js i = Some k" "string_end js (k + 1) = Closes e"
      using 1(2) by (subst (asm) string_end.simps) (auto split: option.splits)
    with 1(1) [of k] True show ?thesis by auto
  next
    case False
    with 1(2) show ?thesis by (subst (asm) string_end.simps) (auto simp: in_text_def split: if_splits)
  qed
qed

lemma primitive_end_le: "primitive_end js i = Some e \<Longrightarrow> i \<le> length js \<Longrightarrow> e \<le> length js"
proof (induction js i arbitrary: e rule: primitive_end.induct)
  case (1 js i)
  show ?case
  proof (cases "primitive_end js (Suc i) = Some e \<and> in_text js i \<and> \<not> stops_primitive (js ! i) \<and> \<not> (schar (js ! i) < 32 \<or> 127 \<le> schar (js ! i))")
    case True
    then show ?thesis using 1(1) [of e] by (auto simp: in_text_def)
  next
    case False
    then show ?thesis using 1(2,3) by (subst (asm) (2) primitive_end.simps) (auto simp: in_text_def split: if_splits)
  qed
qed

text \<open>A string or a primitive becomes a new token, which then counts for the token above it.\<close>

lemma new_token_ok:
  assumes "jinv js (jp_pos p) p ts" "jp_toknext p < length ts" "jp_pos p \<le> e" "Suc e \<le> length js"
    "span_in js (Suc e) (ty, a, b)" "int (jp_pos p) \<le> a" "q = p\<lparr>jp_toknext := Suc (jp_toknext p), jp_pos := e\<rparr>"
    "us = (ts[jp_toknext p := x])[jp_toknext p := \<lparr>jt_type = ty, jt_start = a, jt_end = b, jt_size = 0\<rparr>]"
  shows "runs (bump q us) (\<lambda>vs. step_ok js p ts (0, 1, q, Some vs))"
proof -
  let ?n = "jp_toknext p" and ?t = "\<lparr>jt_type = ty, jt_start = a, jt_end = b, jt_size = 0\<rparr>"
  have us: "us = ts[?n := ?t]" using assms(8) by simp
  have q: "jinv js (Suc e) q us"
    using assms by (intro jinv_add [OF assms(1), of _ ?t]) (auto simp: us span_def)
  have "jinv js (Suc e) q vs" if "length vs = length us" "map span (take (Suc ?n) vs) = map span (take (Suc ?n) us)" for vs
    using that q assms(7) by (simp add: jinv_def)
  then show ?thesis
    using bump_runs [OF q, of us "Suc ?n"] assms(7) us by (auto simp: step_ok_def runs_def)
qed

lemma parse_string_ok:
  assumes "jinv js (jp_pos p) p ts" "in_text js (jp_pos p)" "js ! jp_pos p = CHR 0x22"
  shows "case jsmn_parse_string js p (Some ts) of (r, q, toks) \<Rightarrow>
    (\<exists>us. toks = Some us \<and> length us = length ts \<and>
      (r < 0 \<or> r = 0 \<and> runs (bump q us) (\<lambda>vs. step_ok js p ts (0, 1, q, Some vs))))"
proof (cases "string_end js (Suc (jp_pos p))")
  case (Closes e)
  show ?thesis
  proof (cases "length ts \<le> jp_toknext p")
    case False
    have "jp_pos p < e" "e < length js" "js ! e = CHR 0x22" using string_end_ge [OF Closes] string_end_at [OF Closes] by simp_all
    then have "runs (bump q us) (\<lambda>vs. step_ok js p ts (0, 1, q, Some vs))"
      if "q = p\<lparr>jp_toknext := Suc (jp_toknext p), jp_pos := e\<rparr>"
        "us = (ts[jp_toknext p := x])[jp_toknext p := \<lparr>jt_type = JSMN_STRING, jt_start = int (jp_pos p) + 1, jt_end = int e, jt_size = 0\<rparr>]" for q us x
      using that assms False by (intro new_token_ok [of js p ts e JSMN_STRING "int (jp_pos p) + 1" "int e"]) auto
    then show ?thesis using Closes False by (simp add: jsmn_parse_string_def jsmn_alloc_token_def jsmn_fill_token_def Let_def)
  qed (use Closes in \<open>simp add: jsmn_parse_string_def jsmn_alloc_token_def Let_def\<close>)
qed (simp_all add: jsmn_parse_string_def Let_def)

lemma parse_primitive_ok:
  assumes "jinv js (jp_pos p) p ts" "in_text js (jp_pos p)" "\<not> stops_primitive (js ! jp_pos p)"
  shows "case jsmn_parse_primitive js p (Some ts) of (r, q, toks) \<Rightarrow>
    (\<exists>us. toks = Some us \<and> length us = length ts \<and>
      (r < 0 \<or> r = 0 \<and> runs (bump q us) (\<lambda>vs. step_ok js p ts (0, 1, q, Some vs))))"
proof (cases "primitive_end js (jp_pos p)")
  case (Some e)
  show ?thesis
  proof (cases "length ts \<le> jp_toknext p")
    case False
    have "jp_pos p < e" "e \<le> length js" using primitive_end_gt [OF Some assms(2,3)] primitive_end_le [OF Some] assms(2) by (simp_all add: in_text_def)
    then have "runs (bump q us) (\<lambda>vs. step_ok js p ts (0, 1, q, Some vs))"
      if "q = p\<lparr>jp_toknext := Suc (jp_toknext p), jp_pos := e - 1\<rparr>"
        "us = (ts[jp_toknext p := x])[jp_toknext p := \<lparr>jt_type = JSMN_PRIMITIVE, jt_start = int (jp_pos p), jt_end = int e, jt_size = 0\<rparr>]" for q us x
      using that assms False by (intro new_token_ok [of js p ts "e - 1" JSMN_PRIMITIVE "int (jp_pos p)" "int e"]) auto
    then show ?thesis using Some False by (simp add: jsmn_parse_primitive_def jsmn_alloc_token_def jsmn_fill_token_def Let_def)
  qed (use Some in \<open>simp add: jsmn_parse_primitive_def jsmn_alloc_token_def Let_def\<close>)
qed (simp add: jsmn_parse_primitive_def Let_def)

lemma comma_ok:
  assumes "jinv js (jp_pos p) p ts" "in_text js (jp_pos p)"
  shows "runs (comma p ts) (\<lambda>p'. step_ok js p ts (0, 0, p', Some ts))"
proof -
  have "jinv js (Suc (jp_pos p)) q ts" if "jp_toknext q = jp_toknext p" "-1 \<le> jp_toksuper q" "jp_toksuper q < int (jp_toknext p)" for q
    using that assms spans_ok_mono [of js "jp_pos p" _ "Suc (jp_pos p)"] by (auto simp: jinv_def in_text_def)
  then show ?thesis
    using assms last_with_range [of "\<lambda>t. is_container t \<and> is_open t" ts "jp_toknext p"]
    by (auto simp: comma_def vc step_ok_def Let_def jinv_def)
qed

lemma jsmn_step_ok:
  assumes "jinv js (jp_pos p) p ts" "in_text js (jp_pos p)"
  shows "runs (jsmn_step js p (Some ts)) (step_ok js p ts)"
proof -
  define c where "c = js ! jp_pos p"
  have stay: "jinv js (Suc (jp_pos p)) (p\<lparr>jp_toksuper := k\<rparr>) ts" if "-1 \<le> k" "k < int (jp_toknext p)" for k
    using that assms spans_ok_mono [of js "jp_pos p" _ "Suc (jp_pos p)"] by (auto simp: jinv_def in_text_def)
  have stay': "jinv js (Suc (jp_pos p)) p ts"
    using assms spans_ok_mono [of js "jp_pos p" _ "Suc (jp_pos p)"] by (auto simp: jinv_def in_text_def)
  consider "c = CHR ''{'' \<or> c = CHR ''[''" | "c = CHR ''}'' \<or> c = CHR '']''" | "c = CHR 0x22"
    | "c = CHR 0x09 \<or> c = CHR 0x0D \<or> c = CHR 0x0A \<or> c = CHR '' ''" | "c = CHR '':''" | "c = CHR '',''"
    | "\<not> stops_primitive c" "c \<notin> {CHR ''{'', CHR ''['', CHR 0x22}"
    by (auto simp: stops_primitive_def)
  then show ?thesis
  proof cases
    case 1
    then show ?thesis using open_bracket_ok [OF assms c_def [symmetric]]
      by (auto simp: jsmn_step_def c_def [symmetric] Let_def runs_def split: prod.splits)
  next
    case 2
    obtain r p' ts' where e: "close_bracket c p ts = (r, p', ts')" by (cases "close_bracket c p ts")
    from close_bracket_ok [OF assms c_def [symmetric] 2 e] show ?thesis
      using 2 e by (auto simp: jsmn_step_def c_def [symmetric] Let_def vc)
  next
    case 3
    with parse_string_ok [OF assms] show ?thesis
      by (auto simp: jsmn_step_def c_def [symmetric] Let_def vc step_ok_def split: prod.splits)
  next
    case 4
    then show ?thesis using stay' by (auto simp: jsmn_step_def c_def [symmetric] Let_def vc step_ok_def)
  next
    case 5
    then show ?thesis using stay [of "int (jp_toknext p) - 1"] by (auto simp: jsmn_step_def c_def [symmetric] Let_def vc step_ok_def)
  next
    case 6
    then show ?thesis using comma_ok [OF assms] by (auto simp: jsmn_step_def c_def [symmetric] Let_def vc)
  next
    case 7
    with parse_primitive_ok [OF assms] show ?thesis
      by (auto simp: jsmn_step_def c_def [symmetric] Let_def vc step_ok_def stops_primitive_def split: prod.splits)
  qed
qed

lemma jsmn_loop_ok:
  assumes "jinv js (jp_pos p) p ts" "count = int (jp_toknext p)"
  shows "runs (jsmn_loop js p (Some ts) count) (\<lambda>(r, p', toks'). \<exists>ts'. toks' = Some ts' \<and> length ts' = length ts \<and>
    (r < 0 \<or> r = int (jp_toknext p') \<and> jinv js (jp_pos p') p' ts' \<and> (\<forall>i < jp_toknext p'. \<not> is_open (ts' ! i))))"
  using assms
proof (induction js p "Some ts" count arbitrary: ts rule: jsmn_loop.induct)
  case (1 js p count)
  show ?case
  proof (cases "in_text js (jp_pos p)")
    case True
    obtain r n p' ts' where s: "jsmn_step js p (Some ts) = Ok (r, n, p', Some ts')" "step_ok js p ts (r, n, p', Some ts')"
      using jsmn_step_ok [OF 1(2) True] by (auto simp: runs_def step_ok_def)
    show ?thesis
    proof (cases "r < 0")
      case neg: True
      then show ?thesis using s True by (subst jsmn_loop.simps) (simp add: vc step_ok_def)
    next
      case False
      let ?p = "p'\<lparr>jp_pos := jp_pos p' + 1\<rparr>"
      have j: "jinv js (jp_pos ?p) ?p ts'" "count + n = int (jp_toknext ?p)" "length ts' = length ts"
        using s(2) False 1(3) by (auto simp: step_ok_def jinv_def)
      have l: "jsmn_loop js p (Some ts) count = jsmn_loop js ?p (Some ts') (count + n)"
        using True False s(1) by (subst jsmn_loop.simps) simp
      show ?thesis unfolding l by (rule 1(1) [OF True s(1) refl refl refl False j(1,2), unfolded j(3)])
    qed
  next
    case False
    then show ?thesis using 1(2,3) last_with_none [of is_open ts "jp_toknext p"]
      by (subst jsmn_loop.simps) (auto simp: vc)
  qed
qed

lemma closed_span:
  assumes "span_in js k (span t)" "\<not> is_open t" "k \<le> length js"
  shows "0 \<le> jt_start t \<and> jt_start t \<le> jt_end t \<and> jt_end t \<le> int (length js) \<and>
    (jt_type t = JSMN_STRING \<longrightarrow> 1 \<le> jt_start t \<and> js ! nat (jt_start t - 1) = CHR 0x22 \<and> js ! nat (jt_end t) = CHR 0x22) \<and>
    (jt_type t = JSMN_OBJECT \<longrightarrow> js ! nat (jt_start t) = CHR ''{'' \<and> js ! nat (jt_end t - 1) = CHR ''}'') \<and>
    (jt_type t = JSMN_ARRAY \<longrightarrow> js ! nat (jt_start t) = CHR ''['' \<and> js ! nat (jt_end t - 1) = CHR '']'')"
  using assms by (cases "jt_type t") (auto simp: span_def is_open_def)


text \<open>
  C27: The tokens of a successful parse are properly nested: of two tokens, the one later in the
  array starts later, and it lies either wholly after the earlier one or wholly inside it.
\<close>

theorem jsmn_tokens_nest:
  assumes "jsmn_parse jsmn_init js (Some ts) = Ok (r, p, Some ts')" "i < j" "int j < r"
  shows "jt_start (ts' ! i) < jt_start (ts' ! j) \<and>
    (jt_end (ts' ! i) \<le> jt_start (ts' ! j) \<or> jt_end (ts' ! j) \<le> jt_end (ts' ! i))"
proof -
  have "jinv js (jp_pos jsmn_init) jsmn_init ts" by (simp add: jinv_def jsmn_init_def spans_ok_def)
  from jsmn_loop_ok [OF this refl] assms have
    j: "r = int (jp_toknext p)" "jinv js (jp_pos p) p ts'" "\<forall>i < jp_toknext p. \<not> is_open (ts' ! i)"
    by (auto simp: jsmn_parse_def runs_def)
  then have "nests (span (ts' ! i)) (span (ts' ! j))"
    using assms(2,3) by (auto simp: jinv_def spans_ok_def sorted_wrt_iff_nth_less)
  moreover have "span_in js (jp_pos p) (span (ts' ! i))" "\<not> is_open (ts' ! i)"
    using j assms(2,3) by (auto simp: jinv_def spans_ok_def all_set_conv_all_nth)
  ultimately show ?thesis using span_start [of js "jp_pos p"] by (auto simp: span_def is_open_def)
qed

definition demo_toks :: "jsmntok list" where
  "demo_toks = replicate 4 \<lparr>jt_type = JSMN_UNDEFINED, jt_start = 0, jt_end = 0, jt_size = 0\<rparr>"

lemma demo_parse:
  "case jsmn_parse jsmn_init ''{a:[1]}'' (Some demo_toks) of Inr (r, p, Some ts) \<Rightarrow> r = 4 \<and> jt_end (ts ! 2) = 6 | _ \<Rightarrow> False"
  by code_simp


theorem jsmn_tokens_nest_witness:
  "\<exists>p ts'. jsmn_parse jsmn_init ''{a:[1]}'' (Some demo_toks) = Ok (4, p, Some ts') \<and> jt_start (ts' ! 2) < jt_start (ts' ! 3) \<and>
    (jt_end (ts' ! 2) \<le> jt_start (ts' ! 3) \<or> jt_end (ts' ! 3) \<le> jt_end (ts' ! 2))"
proof -
  from demo_parse obtain p ts' where e: "jsmn_parse jsmn_init ''{a:[1]}'' (Some demo_toks) = Ok (4, p, Some ts')"
    by (auto split: sum.splits option.splits)
  with jsmn_tokens_nest [OF e, of 2 3] show ?thesis by auto
qed

end
