(* ===== verification/Spec.thy ===== *)
theory Spec
  imports Jsmn
begin

text \<open>
  Reading a container specification (\<^verbatim>\<open>helpers.h\<close>): the file is read into a buffer of 512 bytes, parsed with
  \<open>jsmn_parse\<close> into 128 tokens, and the values of the keys \<open>init\<close>, \<open>fs\<close> and \<open>nproc\<close> are copied out. Also \<open>cp_func\<close>
  and \<open>init_dir\<close>, which fill the directory of a new container.
  The destination arrays are buffers, and every write outside one is a fault; \<open>old\<close> is what the stack arrays
  hold before the call.
\<close>

fun strncmp_const :: "buf \<Rightarrow> buf \<Rightarrow> nat \<Rightarrow> int res" where
  "strncmp_const p q 0 = Ok 0"
| "strncmp_const (a # p) (b # q) (Suc n) =
     (if a \<noteq> NUL \<and> a = b then strncmp_const p q n else Ok (uchar a - uchar b))"
| "strncmp_const _ _ (Suc n) = fault ''strncmp_const''"

fun strlen_const :: "buf \<Rightarrow> nat res" where
  "strlen_const [] = fault ''strlen_const''"
| "strlen_const (c # s) = (if c = NUL then Ok 0 else bnd (strlen_const s) (\<lambda>n. Ok (Suc n)))"

text \<open>The comparison is reached only with a token as long as \<open>s\<close>, so the length is not negative.\<close>

definition jsoneq :: "buf \<Rightarrow> jsmntok \<Rightarrow> buf \<Rightarrow> int res" where
  "jsoneq json tok s =
     (if jt_type tok = JSMN_STRING then
        bnd (strlen_const s) (\<lambda>n.
        if int n = jt_end tok - jt_start tok then
          bnd (strncmp_const (drop (nat (jt_start tok)) json) s n) (\<lambda>r. Ok (if r = 0 then 0 else -1))
        else Ok (-1))
      else Ok (-1))"

text \<open>\<open>substring(target, source, 0, len)\<close>: copies \<open>len + 1\<close> characters and terminates at \<open>len\<close>.\<close>

fun copy_chars :: "nat \<Rightarrow> buf \<Rightarrow> buf \<Rightarrow> buf res" where
  "copy_chars 0 target source = Ok target"
| "copy_chars (Suc n) (t # ts) (c # cs) = bnd (copy_chars n ts cs) (\<lambda>r. Ok (c # r))"
| "copy_chars (Suc n) _ _ = fault ''substring''"

definition substring :: "buf \<Rightarrow> buf \<Rightarrow> int \<Rightarrow> int \<Rightarrow> buf res" where
  "substring target source start fin =
     bnd (if start < 0 then fault ''substring'' else copy_chars (nat (fin - start + 1)) target (drop (nat start) source)) (\<lambda>target.
     aset target (fin - start) NUL)"

text \<open>The read loop: each call overwrites the front of the buffer with the next piece of the file.\<close>

function read_all :: "char list \<Rightarrow> buf \<Rightarrow> buf" where
  "read_all inp b =
     (if inp = [] \<or> b = [] then b
      else read_all (drop (length b) inp) (take (length b) inp @ drop (length inp) b))"
  by pat_completeness auto
termination
  by (relation "measure (\<lambda>(inp, _). length inp)") auto

declare read_all.simps [simp del]

record spec_out =
  so_init :: buf
  so_fs :: buf
  so_nproc :: int

text \<open>
  The loop over the tokens, from index \<open>i\<close>. The value of the token after a key is its text; \<open>old5\<close> is
  the array \<open>nproc_str\<close>.
\<close>

definition tok_text :: "buf \<Rightarrow> jsmntok list \<Rightarrow> int \<Rightarrow> (int \<times> buf) res" where
  "tok_text b ts i =
     bnd (aget ts i) (\<lambda>t.
     if jt_start t < 0 \<or> int (length b) < jt_start t then fault ''source''
     else Ok (jt_end t - jt_start t, drop (nat (jt_start t)) b))"

function spec_loop :: "buf \<Rightarrow> jsmntok list \<Rightarrow> int \<Rightarrow> buf \<Rightarrow> int \<Rightarrow> spec_out \<Rightarrow> spec_out res" where
  "spec_loop b ts r old5 i out =
     (if i < r then
        bnd (aget ts i) (\<lambda>t.
        bnd (jsoneq b t (''init'' @ [NUL])) (\<lambda>q.
        if q = 0 then
          bnd (tok_text b ts (i + 1)) (\<lambda>(len, source).
          bnd (substring (so_init out) source 0 len) (\<lambda>x.
          spec_loop b ts r old5 (i + 2) (out\<lparr>so_init := x\<rparr>)))
        else
          bnd (jsoneq b t (''fs'' @ [NUL])) (\<lambda>q.
          if q = 0 then
            bnd (tok_text b ts (i + 1)) (\<lambda>(len, source).
            bnd (substring (so_fs out) source 0 len) (\<lambda>x.
            spec_loop b ts r old5 (i + 2) (out\<lparr>so_fs := x\<rparr>)))
          else
            bnd (jsoneq b t (''nproc'' @ [NUL])) (\<lambda>q.
            if q = 0 then
              bnd (tok_text b ts (i + 1)) (\<lambda>(len, source).
              bnd (substring old5 source 0 len) (\<lambda>x.
              bnd (atoi x) (\<lambda>n.
              spec_loop b ts r x (i + 2) (out\<lparr>so_nproc := n\<rparr>))))
            else spec_loop b ts r old5 (i + 1) out))))
      else Ok out)"
  by pat_completeness auto
termination
  by (relation "measure (\<lambda>(b, ts, r, old5, i, out). nat (r - i))") auto

declare spec_loop.simps [simp del]

definition parse_spec :: "char list \<Rightarrow> buf \<Rightarrow> jsmntok list \<Rightarrow> buf \<Rightarrow> spec_out \<Rightarrow> (int \<times> spec_out) res" where
  "parse_spec file old oldt old5 out =
     (let b = read_all file old in
      bnd (u_strlen b) (\<lambda>len.
      bnd (jsmn_parse jsmn_init (take len b) (Some oldt)) (\<lambda>(r, p, toks).
      case toks of None \<Rightarrow> fault ''tokens'' | Some ts \<Rightarrow>
        if r < 0 then Ok (-1, out)
        else if r < 1 then Ok (1, out)
        else
          bnd (aget ts 0) (\<lambda>t.
          if jt_type t \<noteq> JSMN_OBJECT then Ok (1, out)
          else bnd (spec_loop b ts r old5 1 out) (\<lambda>out. Ok (0, out))))))"

subsection \<open>Filling a directory\<close>

text \<open>
  \<open>cp_func\<close> on two open files: the file is read in pieces of at most 512 bytes; \<open>wr\<close> says how many bytes
  of a piece each \<open>write\<close> takes. The result is what was written and whether an error is reported.
\<close>

function cp_loop :: "(byte list \<Rightarrow> int) \<Rightarrow> byte list \<Rightarrow> int \<Rightarrow> byte list \<times> int" where
  "cp_loop wr inp w =
     (if inp = [] then ([], w)
      else let r = take 512 inp; w = wr r in
        if w \<noteq> int (length r) \<or> w < 0 then (take (nat w) r, w)
        else let (out, w) = cp_loop wr (drop 512 inp) w in (r @ out, w))"
  by pat_completeness auto
termination
  by (relation "measure (\<lambda>(wr, inp, w). length inp)") auto

declare cp_loop.simps [simp del]

definition cp_func :: "(byte list \<Rightarrow> int) \<Rightarrow> byte list \<Rightarrow> byte list \<times> bool" where
  "cp_func wr inp = (let (out, w) = cp_loop wr inp (-1) in (out, w < 0))"

definition init_files :: "string list" where
  "init_files = [''ls'', ''cat'', ''sh'', ''cp'', ''mkdir'', ''ps'', ''pscon'', ''hello'', ''makeproc'', ''text1.txt'']"

text \<open>
  \<open>init_dir\<close>: \<open>made\<close> is the result of \<open>mkdir\<close>; the result is the return value and the copies made, source and destination.
  The destination array has 64 bytes.
\<close>

definition init_dest :: "buf \<Rightarrow> string \<Rightarrow> buf \<Rightarrow> buf res" where
  "init_dest old f fs =
     bnd (u_strcpy old fs) (\<lambda>d.
     bnd (u_strcat d (''/'' @ [NUL])) (\<lambda>d.
     u_strcat d (f @ [NUL])))"

definition init_dir :: "int \<Rightarrow> buf \<Rightarrow> buf \<Rightarrow> (int \<times> (string \<times> buf) list) res" where
  "init_dir made old fs =
     (if made \<noteq> 0 then Ok (-1, [])
      else bnd (foldM (\<lambda>f (cs, d). bnd (init_dest d f fs) (\<lambda>d. Ok (cs @ [(f, d)], d))) init_files ([], old)) (\<lambda>(cs, _).
        Ok (0, cs)))"

subsection \<open>What they compute\<close>

lemma copy_chars_eval:
  "copy_chars n target source =
     (if n \<le> length target \<and> n \<le> length source then Ok (take n source @ drop n target) else fault ''substring'')"
  by (induction n target source rule: copy_chars.induct) auto

lemma substring_eval:
  assumes "0 \<le> len"
  shows "substring target source 0 len =
    (if nat len < length target \<and> nat len < length source
     then Ok (take (nat len) source @ NUL # drop (Suc (nat len)) target) else fault ''substring'')"
proof -
  have n: "nat (len - 0 + 1) = Suc (nat len)" using assms by simp
  have "(take (Suc (nat len)) source @ drop (Suc (nat len)) target)[nat len := NUL] = take (nat len) source @ NUL # drop (Suc (nat len)) target"
    if "nat len < length source"
    using that by (simp add: take_Suc_conv_app_nth list_update_append)
  moreover have "substring target source 0 len = bnd (copy_chars (Suc (nat len)) target source) (\<lambda>target. aset target len NUL)"
    by (simp only: substring_def n) simp
  ultimately show ?thesis using assms by (auto simp: copy_chars_eval aset_def Suc_le_eq)
qed

lemma strlen_const_eval: "NUL \<notin> set x \<Longrightarrow> strlen_const (x @ NUL # r) = Ok (length x)"
  by (induction x) auto

lemma strncmp_const_eval:
  "NUL \<notin> set x \<Longrightarrow> length x \<le> length p \<Longrightarrow>
     \<exists>r. strncmp_const p (x @ [NUL]) (length x) = Ok r \<and> (r = 0 \<longleftrightarrow> take (length x) p = x)"
proof (induction x arbitrary: p)
  case (Cons c x)
  then obtain a q where p: "p = a # q" by (cases p) auto
  show ?case
  proof (cases "a = c")
    case True
    with Cons p show ?thesis by auto
  next
    case False
    then show ?thesis using p by (auto simp: uchar_inj)
  qed
qed simp

text \<open>The text a token stands for.\<close>

definition tok_is :: "buf \<Rightarrow> jsmntok \<Rightarrow> string \<Rightarrow> bool" where
  "tok_is b t x \<longleftrightarrow> jt_type t = JSMN_STRING \<and> jt_end t - jt_start t = int (length x) \<and> take (length x) (drop (nat (jt_start t)) b) = x"

lemma jsoneq_eval:
  assumes "NUL \<notin> set x" "0 \<le> jt_start t" "jt_end t \<le> int (length b)"
  shows "jsoneq b t (x @ [NUL]) = Ok (if tok_is b t x then 0 else -1)"
proof (cases "jt_type t = JSMN_STRING \<and> int (length x) = jt_end t - jt_start t")
  case True
  then have "length x \<le> length (drop (nat (jt_start t)) b)" using assms(2,3) by auto
  from strncmp_const_eval [OF assms(1) this] obtain r where
    "strncmp_const (drop (nat (jt_start t)) b) (x @ [NUL]) (length x) = Ok r" "(r = 0) = tok_is b t x"
    using True by (auto simp: tok_is_def)
  with True show ?thesis using strlen_const_eval [OF assms(1), of "[]"] by (simp add: jsoneq_def)
next
  case False
  then show ?thesis using strlen_const_eval [OF assms(1), of "[]"] by (auto simp: jsoneq_def tok_is_def)
qed

text \<open>
  The value of \<open>nproc\<close> is copied into an array of five bytes without a length check: in any token
  list where the key \<open>nproc\<close> is followed by a token of five or more characters, reading the specification writes past the array.
\<close>

theorem nproc_value_overflows:
  assumes "0 \<le> i" "i < r" "i + 1 < int (length ts)" "length old5 = 5" "tok_is b (ts ! nat i) ''nproc''"
    "0 \<le> jt_start (ts ! nat i)" "jt_end (ts ! nat i) \<le> int (length b)"
    "0 \<le> jt_start (ts ! nat (i + 1))" "jt_end (ts ! nat (i + 1)) \<le> int (length b)"
    "5 \<le> jt_end (ts ! nat (i + 1)) - jt_start (ts ! nat (i + 1))"
  shows "spec_loop b ts r old5 i out = fault ''substring''"
proof -
  let ?v = "ts ! nat (i + 1)"
  have a: "aget ts i = Ok (ts ! nat i)" "aget ts (i + 1) = Ok ?v" using assms(1,3) by simp_all
  have n: "\<not> tok_is b (ts ! nat i) ''init''" "\<not> tok_is b (ts ! nat i) ''fs''" using assms(5) by (auto simp: tok_is_def)
  have q: "jsoneq b (ts ! nat i) (x @ [NUL]) = Ok (if tok_is b (ts ! nat i) x then 0 else -1)" if "NUL \<notin> set x" for x
    by (rule jsoneq_eval [OF that assms(6,7)])
  have t: "tok_text b ts (i + 1) = Ok (jt_end ?v - jt_start ?v, drop (nat (jt_start ?v)) b)"
    using a assms(8-) by (simp add: tok_text_def)
  have "substring old5 (drop (nat (jt_start ?v)) b) 0 (jt_end ?v - jt_start ?v) = fault ''substring''"
    using assms(4,10) substring_eval [of "jt_end ?v - jt_start ?v" old5] by (simp add: nat_less_iff)
  then show ?thesis
    using assms(2,5) n t q [of "''init''"] q [of "''fs''"] q [of "''nproc''"]
    by (subst spec_loop.simps) (simp add: a)
qed

definition demo_spec :: "jsmntok list" where
  "demo_spec = [\<lparr>jt_type = JSMN_OBJECT, jt_start = 0, jt_end = 15, jt_size = 1\<rparr>,
     \<lparr>jt_type = JSMN_STRING, jt_start = 2, jt_end = 7, jt_size = 1\<rparr>, \<lparr>jt_type = JSMN_PRIMITIVE, jt_start = 9, jt_end = 14, jt_size = 0\<rparr>]"

theorem nproc_value_overflows_witness:
  "spec_loop (''{'' @ [CHR 0x22] @ ''nproc'' @ [CHR 0x22] @ '':20000}'') demo_spec 3 (replicate 5 NUL) 1
     \<lparr>so_init = [], so_fs = [], so_nproc = 0\<rparr> = fault ''substring''"
  by (rule nproc_value_overflows) (simp_all add: demo_spec_def tok_is_def)

lemma cp_loop_all:
  assumes "\<forall>r. wr r = int (length r)"
  shows "\<exists>v. cp_loop wr inp w = (inp, v) \<and> (if inp = [] then v = w else 0 \<le> v)"
  using assms
proof (induction wr inp w rule: cp_loop.induct)
  case (1 wr inp w)
  show ?case
  proof (cases "inp = []")
    case True
    then show ?thesis by (simp add: cp_loop.simps [of wr "[]"])
  next
    case False
    define r where "r = take 512 inp"
    have w: "wr r = int (length r)" using 1(2) by simp
    then have "\<not> (wr r \<noteq> int (length r) \<or> wr r < 0)" by simp
    from 1(1) [OF False r_def refl this 1(2)] obtain v where
      v: "cp_loop wr (drop 512 inp) (wr r) = (drop 512 inp, v)" "if drop 512 inp = [] then v = wr r else 0 \<le> v" by blast
    have "cp_loop wr inp w = (r @ drop 512 inp, v)"
      using False v(1) w by (subst cp_loop.simps) (simp add: Let_def r_def [symmetric])
    then show ?thesis using v(2) w False by (auto simp: r_def split: if_splits)
  qed
qed



end
