(* ===== verification/Cm.thy ===== *)
theory Cm
  imports Spec
begin

text \<open>
  The container manager (\<^verbatim>\<open>cm.h\<close>, \<^verbatim>\<open>cm.c\<close>, \<^verbatim>\<open>dockv6.c\<close>). A call is described by the system calls it makes, in order,
  given what each of them returns: \<open>cm_env\<close> holds those results. Printing is left out. The process that
  \<open>fork2\<close> creates is described by a trace of its own.
\<close>

datatype cm_act =
    A_setname int buf | A_setalive int int | A_setmaxproc int int | A_pipe
  | A_setvc int buf | A_fork2 int | A_close int | A_setroot int buf | A_chdir string | A_exec buf | A_wait
  | A_copy string buf | A_mkdir buf

record cm_env =
  e_spec :: "(int \<times> spec_out) res"
  e_cid :: int
  e_mkdir :: int
  e_pipe1 :: int
  e_pipe2 :: int
  e_fork :: int
  e_chdir :: int
  e_fds :: "int \<times> int"
  e_fdz :: "int \<times> int"
  e_dest :: buf

text \<open>The part after the limits are set, common to \<open>cm_create_and_enter\<close> and \<open>io_container\<close>.\<close>

definition child_part :: "cm_env \<Rightarrow> int \<Rightarrow> spec_out \<Rightarrow> int \<times> cm_act list" where
  "child_part e cid so =
     (if e_chdir e < 0 then (-1, [A_close (fst (e_fds e)), A_close (snd (e_fdz e)), A_setroot cid (so_fs so), A_chdir ''/''])
      else (0, [A_close (fst (e_fds e)), A_close (snd (e_fdz e)), A_setroot cid (so_fs so), A_chdir ''/'', A_exec (so_init so)]))"

definition enter_part :: "cm_env \<Rightarrow> int \<Rightarrow> spec_out \<Rightarrow> int \<times> cm_act list" where
  "enter_part e cid so =
     (let a = [A_setname cid (so_fs so), A_setalive cid 1, A_setmaxproc cid (so_nproc so), A_pipe] in
      if e_pipe1 e \<noteq> 0 then (-1, a)
      else if e_pipe2 e \<noteq> 0 then (-1, a @ [A_pipe])
      else
        let b = a @ [A_pipe, A_setvc cid (so_fs so), A_fork2 cid] in
        if e_fork e = 0 then let (r, c) = child_part e cid so in (r, b @ c)
        else (0, b @ [A_close (snd (e_fds e)), A_close (fst (e_fdz e)), A_close (fst (e_fds e)), A_close (snd (e_fdz e)), A_wait]))"

definition INIT_DIR_ERROR :: int where
  "INIT_DIR_ERROR = 0"

definition cm_create_and_enter :: "cm_env \<Rightarrow> (int \<times> cm_act list) res" where
  "cm_create_and_enter e =
     bnd (e_spec e) (\<lambda>(retcode, so).
     if retcode \<noteq> 0 then Ok (retcode, [])
     else if e_cid e < 0 then Ok (e_cid e, [])
     else
       bnd (init_dir (e_mkdir e) (e_dest e) (so_fs so)) (\<lambda>(r, copies).
       let a = A_mkdir (so_fs so) # map (\<lambda>(f, d). A_copy f d) copies in
       if r \<le> 0 then Ok (INIT_DIR_ERROR, a)
       else let (r, b) = enter_part e (e_cid e) so in Ok (r, a @ b)))"

definition io_container :: "cm_env \<Rightarrow> (int \<times> cm_act list) res" where
  "io_container e =
     bnd (e_spec e) (\<lambda>(retcode, so).
     if retcode \<noteq> 0 then Ok (retcode, []) else Ok (enter_part e (e_cid e) so))"

definition cm_setroot :: "int \<Rightarrow> buf \<Rightarrow> int \<times> cm_act list" where
  "cm_setroot made path = (if made < 0 then made else 0, [A_mkdir path])"

definition cm_maxproc :: "int \<Rightarrow> int \<times> cm_act list" where
  "cm_maxproc nproc = (0, [A_setmaxproc 0 nproc])"

text \<open>One request of the manager's main loop: the words of the request, in an array of two.\<close>

definition cm_args :: "buf \<Rightarrow> string list res" where
  "cm_args b = bnd (strtok_all ('' '' @ [NUL]) b) (\<lambda>ws. if length ws \<le> 2 then Ok ws else fault ''args'')"

datatype cm_request = Create string | Io | Other

definition cm_dispatch :: "buf \<Rightarrow> cm_request res" where
  "cm_dispatch b =
     bnd (cm_args b) (\<lambda>ws.
     case ws of [] \<Rightarrow> fault ''mode''
     | mode # rest \<Rightarrow>
         if mode = ''create'' then (case rest of [] \<Rightarrow> fault ''arg1'' | arg1 # _ \<Rightarrow> Ok (Create arg1))
         else if mode = ''io'' then Ok Io else Ok Other)"

subsection \<open>Properties\<close>

lemma init_dir_not_positive: "init_dir made old fs = Ok (r, cs) \<Longrightarrow> r \<le> 0"
  by (auto simp: init_dir_def bnd_eq_Inr split: if_splits)

text \<open>
  C40: \<open>cm_create_and_enter\<close> never creates a container: \<open>init_dir\<close> returns 0 for success and -1 for
  failure, and the caller gives up on both, so whatever the system calls return no container is named, marked
  alive, limited or entered.
\<close>

theorem cm_create_never_enters:
  assumes "cm_create_and_enter e = Ok (r, as)"
  shows "\<forall>a \<in> set as. \<forall>cid n v. a \<noteq> A_setname cid n \<and> a \<noteq> A_setalive cid v \<and> a \<noteq> A_setmaxproc cid v \<and> a \<noteq> A_fork2 cid"
proof -
  obtain retcode so where so: "e_spec e = Ok (retcode, so)" using assms by (auto simp: cm_create_and_enter_def bnd_eq_Inr)
  show ?thesis
  proof (cases "retcode \<noteq> 0 \<or> e_cid e < 0")
    case True
    then show ?thesis using assms so by (auto simp: cm_create_and_enter_def split: if_splits)
  next
    case False
    then obtain q cs where q: "init_dir (e_mkdir e) (e_dest e) (so_fs so) = Ok (q, cs)"
      using assms so by (auto simp: cm_create_and_enter_def bnd_eq_Inr)
    have "as = A_mkdir (so_fs so) # map (\<lambda>(f, d). A_copy f d) cs"
      using assms so False q init_dir_not_positive [OF q] by (simp add: cm_create_and_enter_def Let_def)
    then show ?thesis by auto
  qed
qed

definition demo_env :: cm_env where
  "demo_env = \<lparr>e_spec = Ok (0, \<lparr>so_init = ''sh'' @ [NUL], so_fs = ''c1'' @ [NUL], so_nproc = 3\<rparr>), e_cid = 0, e_mkdir = 0,
     e_pipe1 = 0, e_pipe2 = 0, e_fork = 4, e_chdir = 0, e_fds = (3, 4), e_fdz = (5, 6), e_dest = replicate 64 NUL\<rparr>"

lemma demo_create: "case cm_create_and_enter demo_env of Inr (r, as) \<Rightarrow> r = 0 \<and> length as = 11 | Inl e \<Rightarrow> False"
  by code_simp

theorem cm_create_never_enters_witness:
  "\<exists>r as. cm_create_and_enter demo_env = Ok (r, as) \<and> length as = 11 \<and> (\<forall>a \<in> set as. \<forall>cid n v. a \<noteq> A_fork2 cid)"
proof -
  from demo_create obtain r as where e: "cm_create_and_enter demo_env = Ok (r, as)" "length as = 11"
    by (auto split: sum.splits)
  with cm_create_never_enters [OF e(1)] show ?thesis by blast
qed

end
