(* ===== verification/Spec2Isabelle.thy ===== *)
theory Spec2Isabelle
  imports Prelude Bytes Spinlock Kalloc Proc Prioqueue Cstring Container Sleeplock Mutex Pipe
    Vm Shm Bio Log Fs Filedata File Lifecycle Trap Ulib Jsmn Spec Cm
begin

text \<open>
  A model of the kernel of xv6 with containers, of its user library and of the container manager, and theorems about them. The sources are under \<^verbatim>\<open>src/\<close>; file names below are relative to it.

  \<^bold>\<open>The program.\<close> The kernel is xv6 for 32-bit x86: spin locks, a page allocator, page tables, processes, sleep locks, a buffer cache over a disk, a write-ahead log, inodes, directories,
  open files, pipes, a console, traps and system calls. This repository adds containers (a table of names, roots, paths and process limits in \<^verbatim>\<open>container.c\<close>), a run queue with ten
  priorities, shared memory segments, and mutexes with condition variables (all three in \<^verbatim>\<open>proc.c\<close> and \<^verbatim>\<open>vm.c\<close>). At user level there are the library \<^verbatim>\<open>ulib.c\<close>, the JSON tokenizer
  \<^verbatim>\<open>jsmn.h\<close>, and the container manager \<^verbatim>\<open>cm.c\<close>, \<^verbatim>\<open>cm.h\<close>, \<^verbatim>\<open>helpers.h\<close>, \<^verbatim>\<open>dockv6.c\<close>, which reads a specification, builds the directory of a container and starts a process in it.

  \<^bold>\<open>How the code is translated.\<close>
  \<^item> The state of the kernel is one record, extended theory by theory: \<open>kcpu\<close> (locks held by the thread), \<open>kmem\<close> (free list and the byte memory), \<open>ptable\<close>, \<open>prioq\<close>, \<open>conts\<close>, \<open>slps\<close>, \<open>muxes\<close>, \<open>pipetab\<close>,
    \<open>shmtab\<close>, \<open>bcache\<close>, \<open>logst\<close>, \<open>fsst\<close>, \<open>ftab\<close>, \<open>tickst\<close>, \<open>consst\<close>. An operation is defined on every extension of the record it needs, so that later components call earlier ones unchanged.
  \<^item> A C function is a function to \<open>'a res\<close>: a value with the new state, or the reason why control does not come back: \<open>Panic\<close>, \<open>Fault\<close> (what C leaves undefined: null pointers, indices out of range, buffer
    overruns), \<open>Asleep\<close> (the process has to wait) or \<open>Diverge\<close>. Integers are words of their width; \<open>int\<close> stands for a C \<open>int\<close> where no operation of the code can leave its range, and the wrap-around is written out elsewhere.
  \<^item> A pointer to an entry of a table is its index. Pages, page tables, kernel stacks and user memory are addresses of one byte memory.
  \<^item> A function that blocks is cut at the context switch: what runs before, and a \<open>_resume\<close> definition for what runs after (\<open>sleep\<close>, \<open>wait\<close>, pipes, sleep locks, mutexes, condition variables, the console). Where a file system
    operation would block in the middle its result is \<open>Asleep\<close>.
  \<^item> Loops over linked structures carry fuel, one step more than there are nodes: a walk that uses it up has met a node twice without writing, so it never ends (\<open>walk_fuel_exact\<close> in \<open>Prioqueue\<close>, and \<open>NBUF + 1\<close> steps
    in \<open>Bio\<close>). Loops over addresses or counters are functions with a termination proof. The only fuel without such a bound is that of \<open>name_for_inode\<close>, whose theorem holds for every amount.
  \<^item> Symbols fixed by the linker, hardware inputs and the device switch are arguments.

  \<^bold>\<open>The theories.\<close>
  \<^item> \<open>Prelude\<close>, \<open>Bytes\<close>: results, weakest preconditions (\<open>spec\<close>, \<open>runs\<close> and the collection \<open>vc\<close>), arrays, linked lists, page arithmetic, byte memory.
  \<^item> \<open>Spinlock\<close> (\<^verbatim>\<open>spinlock.c\<close>): the lock code over interleaved processors, with mutual exclusion and a \<open>release\<close> that never panics, and the sequential view the other theories use. Both are interpretations of the
    locale \<open>spin_iface\<close>.
  \<^item> \<open>Kalloc\<close> (\<^verbatim>\<open>kalloc.c\<close>): pages are handed out once and come back; locale \<open>page_alloc\<close>.
  \<^item> \<open>Proc\<close>, \<open>Prioqueue\<close>, \<open>Lifecycle\<close> (\<^verbatim>\<open>proc.c\<close>): suspension and wake-up; the run queue refined to lists (locale \<open>run_queue\<close>), with strict priority, round robin and bounded waiting of the scheduler; fork, exit and wait,
    with the theorem that no parent sleeps beside a zombie child.
  \<^item> \<open>Cstring\<close>, \<open>Container\<close> (\<^verbatim>\<open>string.c\<close>, \<^verbatim>\<open>container.c\<close>): string routines equal to their meaning on texts; path confinement and its limits.
  \<^item> \<open>Sleeplock\<close>, \<open>Mutex\<close>, \<open>Pipe\<close> (\<^verbatim>\<open>sleeplock.c\<close>, \<^verbatim>\<open>proc.c\<close>, \<^verbatim>\<open>pipe.c\<close>): exclusion of mutexes, order of bytes and absence of lost wake-ups for pipes under every interleaving of calls (locale \<open>fifo\<close>).
  \<^item> \<open>Vm\<close>, \<open>Shm\<close> (\<^verbatim>\<open>vm.c\<close>): \<open>mappages\<close> and \<open>allocuvm\<close> change exactly the translations they should; sharing of segments.
  \<^item> \<open>Bio\<close>, \<open>Log\<close>, \<open>Fs\<close>, \<open>Filedata\<close>, \<open>File\<close> (\<^verbatim>\<open>bio.c\<close>, \<^verbatim>\<open>memide.c\<close>, \<^verbatim>\<open>log.c\<close>, \<^verbatim>\<open>fs.c\<close>, \<^verbatim>\<open>file.c\<close>): the cache and its order of use; crash atomicity of a commit at every prefix of the disk writes; \<open>writei\<close> followed by
    \<open>readi\<close> through the log (locale \<open>tx_store\<close>); termination of path walks; the types of open files.
  \<^item> \<open>Syscall\<close>, \<open>Exec\<close>, \<open>Sysproc\<close>, \<open>Sysfile\<close> (\<^verbatim>\<open>syscall.c\<close>, \<^verbatim>\<open>exec.c\<close>, \<^verbatim>\<open>sysproc.c\<close>, \<^verbatim>\<open>sysfile.c\<close>): fetching arguments never leaves the process; program loading; the handlers of all system calls.
  \<^item> \<open>Console\<close>, \<open>Trap\<close> (\<^verbatim>\<open>console.c\<close>, \<^verbatim>\<open>kbd.c\<close>, \<^verbatim>\<open>uart.c\<close>, \<^verbatim>\<open>trap.c\<close>, \<^verbatim>\<open>syscall.c\<close>): the line editor refines a queue and a line; the clock interrupt; the dispatch of traps and system calls, which composes all the handlers.
  \<^item> \<open>Ulib\<close>, \<open>Jsmn\<close>, \<open>Spec\<close>, \<open>Cm\<close> (\<^verbatim>\<open>ulib.c\<close>, \<^verbatim>\<open>jsmn.h\<close>, \<^verbatim>\<open>helpers.h\<close>, \<^verbatim>\<open>cm.h\<close>, \<^verbatim>\<open>cm.c\<close>, \<^verbatim>\<open>dockv6.c\<close>): number conversions, tokens of the JSON parser inside the text and nested, reading a specification, the traces of the manager.

  Several theorems state defects of the code: a zombie whose priority is set hangs the scheduler, a root stored without its slash lets a process out of its container, a mutex slot is handed out while it is held, detaching a shared
  segment leads to a panic, \<open>getcwd\<close> waits for itself, the manager never enters a container it creates.

  \<^bold>\<open>Not modelled.\<close>
  \<^item> Hardware: \<^verbatim>\<open>ide.c\<close> (the memory disk \<^verbatim>\<open>memide.c\<close> takes its place), \<^verbatim>\<open>lapic.c\<close>, \<^verbatim>\<open>ioapic.c\<close>, \<^verbatim>\<open>picirq.c\<close>, \<^verbatim>\<open>mp.c\<close>, \<open>uartinit\<close>, \<open>seginit\<close>, \<open>tvinit\<close>, \<open>idtinit\<close>: their effects are on device registers and descriptor tables.
  \<^item> Assembly and start-up: \<^verbatim>\<open>swtch.S\<close>, \<^verbatim>\<open>trapasm.S\<close>, \<^verbatim>\<open>entry.S\<close>, \<^verbatim>\<open>bootasm.S\<close>, \<^verbatim>\<open>bootmain.c\<close>, \<^verbatim>\<open>main.c\<close>. A context switch is the cut between two definitions.
  \<^item> \<open>sys_remove_node\<close> takes an address of the user for a kernel structure, for which the model has no value: it is a fault.
  \<^item> User programs other than the container manager: the shell, the commands and the tests only make system calls; \<^verbatim>\<open>printf.c\<close> and \<^verbatim>\<open>umalloc.c\<close>; and \<^verbatim>\<open>mkfs.c\<close>, which runs on the build host.
  \<^item> Parallel runs of whole system calls: interleavings are modelled for spin locks, pipes and mutexes, where the code relies on them.
\<close>

end
